(* ===== verification/Prelude.thy ===== *)
theory Prelude
  imports Main "HOL-Library.Word" "HOL-Library.Monad_Syntax"
begin

unbundle bit_operations_syntax

text \<open>
  Shared vocabulary of the development: the machine integers of the Rust sources as words, byte
  strings, little-endian coding, slices and chunked iteration, and the lemmas on them that the
  component theories use. The collection \<open>byte_simps\<close> gathers the rewrite rules that evaluate the
  length and the fields of an encoded record, \<open>u64_simps\<close> those that read a word operation on
  natural numbers, \<open>layout_simps\<close> those that read a field at a fixed offset.
\<close>

named_theorems byte_simps
named_theorems u64_simps
named_theorems layout_simps

type_synonym u8 = "8 word"
type_synonym u16 = "16 word"
type_synonym u32 = "32 word"
type_synonym u64 = "64 word"
type_synonym bytes = "8 word list"
type_synonym hash = "8 word list"

text \<open>A byte string literal \<open>b"..."\<close>.\<close>

definition ascii8 :: "string \<Rightarrow> bytes" where "ascii8 s = map (\<lambda>c. of_nat (of_char c)) s"

lemma length_ascii8 [simp]: "length (ascii8 s) = length s"
  by (simp add: ascii8_def)

section \<open>Slices\<close>

text \<open>\<open>xs[lo..hi]\<close> of the sources; the callers' guards keep the range inside the list.\<close>

definition slice :: "nat \<Rightarrow> nat \<Rightarrow> 'a list \<Rightarrow> 'a list" where
  "slice lo hi xs = take (hi - lo) (drop lo xs)"

lemma length_slice [simp, byte_simps]: "length (slice lo hi xs) = min (hi - lo) (length xs - lo)"
  by (simp add: slice_def min.commute)

lemma slice_full: "length xs = n \<Longrightarrow> slice 0 n xs = xs"
  by (simp add: slice_def)

lemma slice_append_left: "hi \<le> length xs \<Longrightarrow> slice lo hi (xs @ ys) = slice lo hi xs"
  by (cases "lo \<le> length xs") (auto simp: slice_def)

lemma slice_append_right:
  "length xs \<le> lo \<Longrightarrow> slice lo hi (xs @ ys) = slice (lo - length xs) (hi - length xs) ys"
  by (simp add: slice_def)

lemma take_slice_append: "lo \<le> hi \<Longrightarrow> take lo xs @ slice lo hi xs = take hi xs"
  by (metis slice_def le_add_diff_inverse take_add)

lemma slice_slice_append:
  "lo \<le> mid \<Longrightarrow> mid \<le> hi \<Longrightarrow> slice lo mid xs @ slice mid hi xs = slice lo hi xs"
  using take_add [of "mid - lo" "hi - mid" "drop lo xs"] by (simp add: slice_def)

lemma nth_slice: "i < hi - lo \<Longrightarrow> lo + i < length xs \<Longrightarrow> slice lo hi xs ! i = xs ! (lo + i)"
  by (simp add: slice_def)

lemma length_4E:
  assumes "length w = 4"
  obtains a b c d where "w = [a, b, c, d]"
  using assms by (auto simp: eval_nat_numeral length_Suc_conv)

section \<open>Little-endian coding\<close>

text \<open>\<open>w.to_le_bytes()\<close> for an integer of \<open>n\<close> bytes and \<open>from_le_bytes\<close>.\<close>

definition le_bytes :: "nat \<Rightarrow> 'a::len word \<Rightarrow> bytes" where
  "le_bytes n w = map (\<lambda>i. ucast (drop_bit (8 * i) w)) [0..<n]"

primrec from_le :: "bytes \<Rightarrow> 'a::len word" where
  "from_le [] = 0"
| "from_le (b # bs) = ucast b OR push_bit 8 (from_le bs)"

lemma length_le_bytes [simp, byte_simps]: "length (le_bytes n w) = n"
  by (simp add: le_bytes_def)

lemma bit_from_le:
  "bit (from_le bs :: 'a::len word) i \<longleftrightarrow>
     i < LENGTH('a) \<and> i div 8 < length bs \<and> bit (bs ! (i div 8)) (i mod 8)"
proof (induction bs arbitrary: i)
  case Nil
  show ?case by simp
next
  case (Cons b bs)
  show ?case
  proof (cases "i < 8")
    case True
    then show ?thesis
      by (auto simp: bit_simps dest: bit_imp_le_length)
  next
    case False
    then obtain j where j: "i = j + 8" by (metis add.commute le_Suc_ex not_less)
    have "\<not> bit b i" using False by (simp add: bit_word.rep_eq bit_simps)
    moreover have "i div 8 = Suc (j div 8)" and "i mod 8 = j mod 8" by (simp_all add: j)
    ultimately show ?thesis
      by (auto simp: bit_simps j Cons.IH)
  qed
qed

lemma nth_le_bytes: "i < n \<Longrightarrow> le_bytes n w ! i = ucast (drop_bit (8 * i) w)"
  by (simp add: le_bytes_def)

lemma from_le_bytes: "8 * n \<ge> LENGTH('a) \<Longrightarrow> from_le (le_bytes n (w :: 'a::len word)) = w"
  by (rule bit_word_eqI) (auto simp: bit_from_le nth_le_bytes bit_simps)

lemma le_bytes_from_le:
  assumes "length bs = n" and "8 * n \<le> LENGTH('a)"
  shows "le_bytes n (from_le bs :: 'a::len word) = bs"
proof (rule nth_equalityI)
  show "length (le_bytes n (from_le bs :: 'a word)) = length bs" by (simp add: assms)
next
  fix i assume "i < length (le_bytes n (from_le bs :: 'a word))"
  with assms show "le_bytes n (from_le bs :: 'a word) ! i = bs ! i"
    by (intro bit_word_eqI) (auto simp: nth_le_bytes bit_simps bit_from_le)
qed

lemma le_bytes_inj:
  "8 * n \<ge> LENGTH('a) \<Longrightarrow> le_bytes n (v :: 'a::len word) = le_bytes n w \<longleftrightarrow> v = w"
  by (metis from_le_bytes)

text \<open>The number a little-endian byte string stands for.\<close>

primrec le_value :: "bytes \<Rightarrow> nat" where
  "le_value [] = 0"
| "le_value (b # bs) = unat b + 256 * le_value bs"

lemma le_value_append: "le_value (xs @ ys) = le_value xs + 256 ^ length xs * le_value ys"
  by (induction xs) (simp_all add: algebra_simps)

lemma unat_u8_lt: "unat (w :: u8) < 256"
  using unsigned_less [of w] by simp

lemma le_value_less: "le_value bs < 256 ^ length bs"
proof (induction bs)
  case (Cons b bs)
  then show ?case using unat_u8_lt [of b] by simp
qed simp

lemma le_bytes_Suc: "le_bytes (Suc n) w = ucast w # le_bytes n (drop_bit 8 w)"
proof -
  have "[0..<Suc n] = 0 # map Suc [0..<n]" by (simp add: upt_conv_Cons map_Suc_upt del: upt_Suc)
  then show ?thesis by (simp add: le_bytes_def add.commute del: upt_Suc)
qed

lemma le_value_le_bytes_mod: "le_value (le_bytes n w) = unat w mod 256 ^ n"
proof (induction n arbitrary: w)
  case 0
  show ?case by (simp add: le_bytes_def)
next
  case (Suc n)
  have "unat (ucast w :: u8) = unat w mod 256"
    by (simp add: unsigned_ucast_eq take_bit_eq_mod)
  moreover have "unat (drop_bit 8 w) = unat w div 256"
    by (simp only: unat_drop_bit_eq) (simp add: drop_bit_eq_div)
  ultimately show ?case
    by (simp add: le_bytes_Suc Suc.IH mod_mult2_eq)
qed

section \<open>64-bit words as numbers\<close>

lemma unat_u64_lt [simp]: "unat (w :: u64) < 2 ^ 64"
  using unsigned_less [of w] by simp

lemma unat_u64_lt_num [simp]: "unat (w :: u64) < 18446744073709551616"
  using unat_u64_lt [of w] by simp

lemma unat_word_of_nat_u64: "n < 2 ^ 64 \<Longrightarrow> unat (word_of_nat n :: u64) = n"
  by (simp add: unsigned_of_nat take_bit_nat_eq_self)

lemma unat_push_bit_u64 [u64_simps]: "unat (push_bit b (w :: u64)) = unat w * 2 ^ b mod 2 ^ 64"
  by (simp only: unsigned_push_bit_eq) (simp add: push_bit_eq_mult take_bit_eq_mod)

lemma unat_drop_bit_u64 [u64_simps]: "unat (drop_bit b (w :: u64)) = unat w div 2 ^ b"
  by (simp only: unat_drop_bit_eq) (simp only: drop_bit_eq_div)

lemma le_value_le_bytes: "le_value (le_bytes 8 (w :: u64)) = unat w"
  by (simp add: le_value_le_bytes_mod)

section \<open>Chunked iteration\<close>

text \<open>
  \<open>xs.chunks(n)\<close> and \<open>xs.chunks_exact(n)\<close> for \<open>n > 0\<close> (the sources pass literals and never 0,
  where Rust panics), \<open>a.div_ceil(b)\<close>, and \<open>slice::windows(n).position(p)\<close>.
\<close>

function chunks :: "nat \<Rightarrow> 'a list \<Rightarrow> 'a list list" where
  "chunks n xs = (if n = 0 \<or> xs = [] then [] else take n xs # chunks n (drop n xs))"
  by pat_completeness auto
termination
  by (relation "measure (\<lambda>(n, xs). length xs)") auto

declare chunks.simps [simp del]

definition chunks_exact :: "nat \<Rightarrow> 'a list \<Rightarrow> 'a list list" where
  "chunks_exact n xs = filter (\<lambda>c. length c = n) (chunks n xs)"

definition div_ceil :: "nat \<Rightarrow> nat \<Rightarrow> nat" where
  "div_ceil a b = (a + b - 1) div b"

lemma chunks_Nil [simp]: "chunks n [] = []"
  by (simp add: chunks.simps)

lemma concat_chunks: "0 < n \<Longrightarrow> concat (chunks n xs) = xs"
proof (induction n xs rule: chunks.induct)
  case (1 n xs)
  then show ?case
    by (cases "xs = []") (simp_all add: chunks.simps [of n xs])
qed

lemma div_ceil_2: "div_ceil a 2 = (a + 1) div 2"
  by (simp add: div_ceil_def)

lemma div_ceil_le_iff: "0 < b \<Longrightarrow> div_ceil a b \<le> c \<longleftrightarrow> a \<le> c * b"
proof -
  assume b: "0 < b"
  have "div_ceil a b \<le> c \<longleftrightarrow> (a + b - 1) div b < Suc c" by (auto simp: div_ceil_def)
  also have "\<dots> \<longleftrightarrow> a + b - 1 < Suc c * b" using b by (rule div_less_iff_less_mult)
  also have "\<dots> \<longleftrightarrow> a \<le> c * b" using b by (simp add: algebra_simps) linarith
  finally show ?thesis .
qed

lemma less_div_ceil_iff: "0 < b \<Longrightarrow> c < div_ceil a b \<longleftrightarrow> c * b < a"
  using div_ceil_le_iff [of b a c] by linarith

lemma length_chunks: "0 < n \<Longrightarrow> length (chunks n xs) = div_ceil (length xs) n"
proof (induction n xs rule: chunks.induct)
  case (1 n xs)
  show ?case
  proof (cases "xs = []")
    case True
    with "1.prems" show ?thesis by (simp add: div_ceil_def)
  next
    case False
    then have pos: "0 < length xs" by simp
    have "div_ceil (length xs) n = Suc (div_ceil (length xs - n) n)"
    proof (cases "n \<le> length xs")
      case True
      then obtain m where m: "length xs = m + n" by (metis le_add_diff_inverse2)
      have "(m + n + n - 1) div n = (m + n - 1 + n) div n"
        using "1.prems" by (intro arg_cong [of _ _ "\<lambda>k. k div n"]) simp
      also have "\<dots> = (m + n - 1) div n + 1"
        by (rule div_add_self2) (use "1.prems" in simp)
      finally show ?thesis by (simp add: div_ceil_def m)
    next
      case small: False
      then have "length xs + n - 1 < 2 * n" and "n \<le> length xs + n - 1" using pos by linarith+
      then have "(length xs + n - 1) div n = 1"
        by (metis One_nat_def Suc_1 div_nat_eqI mult.commute mult_1)
      moreover have "(n - 1) div n = 0" using "1.prems" by simp
      ultimately show ?thesis using small by (simp add: div_ceil_def)
    qed
    with "1.IH" "1.prems" False show ?thesis by (simp add: chunks.simps [of n xs])
  qed
qed

lemma nth_chunks:
  "0 < n \<Longrightarrow> i < length (chunks n xs) \<Longrightarrow> chunks n xs ! i = slice (i * n) (Suc i * n) xs"
proof (induction n xs arbitrary: i rule: chunks.induct)
  case (1 n xs)
  then have ne: "xs \<noteq> []" by auto
  show ?case
  proof (cases i)
    case 0
    with ne "1.prems" show ?thesis by (simp add: chunks.simps [of n xs] slice_def)
  next
    case (Suc j)
    with ne "1.prems" have "j < length (chunks n (drop n xs))"
      by (simp add: chunks.simps [of n xs])
    with "1.IH" ne "1.prems" have "chunks n (drop n xs) ! j = slice (j * n) (Suc j * n) (drop n xs)"
      by simp
    with Suc ne "1.prems" show ?thesis
      by (simp add: chunks.simps [of n xs] slice_def add.commute)
  qed
qed

lemma chunks_concat:
  "0 < n \<Longrightarrow> (\<And>c. c \<in> set xss \<Longrightarrow> length c = n) \<Longrightarrow> chunks n (concat xss) = xss"
proof (induction xss)
  case (Cons c xss)
  then have "c \<noteq> []" and "length c = n" by auto
  with Cons show ?case by (simp add: chunks.simps [of n "c @ concat xss"])
qed simp

lemma chunks_exact_concat:
  "0 < n \<Longrightarrow> (\<And>c. c \<in> set xss \<Longrightarrow> length c = n) \<Longrightarrow> chunks_exact n (concat xss) = xss"
  by (simp add: chunks_exact_def chunks_concat)

lemma chunks_full:
  "0 < n \<Longrightarrow> length xs = k * n \<Longrightarrow>
     length (chunks n xs) = k \<and> (\<forall>c \<in> set (chunks n xs). length c = n)"
proof (induction k arbitrary: xs)
  case (Suc k)
  then have ne: "xs \<noteq> []" by auto
  have "length (drop n xs) = k * n" using Suc.prems by simp
  then have "length (chunks n (drop n xs)) = k \<and> (\<forall>c \<in> set (chunks n (drop n xs)). length c = n)"
    using Suc.prems(1) by (intro Suc.IH)
  moreover have "chunks n xs = take n xs # chunks n (drop n xs)"
    using ne Suc.prems(1) by (subst chunks.simps) simp
  moreover have "length (take n xs) = n" using Suc.prems by simp
  ultimately show ?case by simp
qed simp

lemma chunks_exact_all:
  "0 < n \<Longrightarrow> length xs = k * n \<Longrightarrow>
     length (chunks_exact n xs) = k \<and> (\<forall>c \<in> set (chunks_exact n xs). length c = n) \<and>
     concat (chunks_exact n xs) = xs \<and> chunks_exact n xs = chunks n xs"
  using chunks_full [of n xs k] concat_chunks [of n xs]
  by (simp add: chunks_exact_def filter_id_conv [THEN iffD2])

section \<open>Lists of equally long pieces\<close>

lemma concat_length_uniform: "\<forall>x \<in> set xs. length x = k \<Longrightarrow> length (concat xs) = length xs * k"
  by (induction xs) auto

lemma concat_take_uniform: "\<forall>x \<in> set B. length x = k \<Longrightarrow> concat (take a B) = take (a * k) (concat B)"
proof (induction B arbitrary: a)
  case (Cons x B)
  then show ?case by (cases a) auto
qed simp

lemma concat_drop_uniform: "\<forall>x \<in> set B. length x = k \<Longrightarrow> concat (drop a B) = drop (a * k) (concat B)"
proof (induction B arbitrary: a)
  case (Cons x B)
  then show ?case by (cases a) auto
qed simp

lemma concat_slice_uniform:
  assumes "\<forall>x \<in> set B. length x = k"
  shows "concat (slice a b B) = slice (a * k) (b * k) (concat B)"
proof -
  have "\<forall>x \<in> set (drop a B). length x = k" using assms by (meson in_set_dropD)
  from concat_take_uniform [OF this, of "b - a"] concat_drop_uniform [OF assms, of a]
  show ?thesis by (simp add: slice_def diff_mult_distrib)
qed

lemma slice_slice:
  "fo + x + k \<le> hi \<Longrightarrow> slice x (x + k) (slice fo hi xs) = slice (fo + x) (fo + x + k) xs"
  by (simp add: slice_def drop_take add.commute take_take min_absorb1)

lemma slice_in_slice:
  "lo + b \<le> hi \<Longrightarrow> a \<le> b \<Longrightarrow> slice a b (slice lo hi xs) = slice (lo + a) (lo + b) xs"
  using slice_slice [of lo a "b - a" hi xs] by simp

lemma unat_of_nat_u64: "n < 2 ^ 64 \<Longrightarrow> unat (of_nat n :: u64) = n"
  by (simp add: unat_of_nat)

section \<open>Fixed layouts\<close>

text \<open>Fields of a record at fixed offsets: slices of a concatenation, and slices that join.\<close>

lemma slice_zero [layout_simps]: "slice 0 n xs = take n xs"
  by (simp add: slice_def)

lemma slice_append [layout_simps]:
  "slice lo hi (xs @ ys) = slice lo hi xs @ slice (lo - length xs) (hi - length xs) ys"
  by (cases "lo \<le> length xs") (simp_all add: slice_def)

lemma slice_Cons [layout_simps]:
  "0 < lo \<Longrightarrow> slice lo hi (x # xs) = slice (lo - 1) (hi - 1) xs"
  by (cases lo) (auto simp: slice_def take_Cons' drop_Cons')

lemma slice_beyond [layout_simps]: "length xs \<le> lo \<Longrightarrow> slice lo hi xs = []"
  by (simp add: slice_def)

lemma slice_all [layout_simps]: "lo = 0 \<Longrightarrow> length xs \<le> hi \<Longrightarrow> slice lo hi xs = xs"
  by (simp add: slice_def)

lemma slice_joins:
  "lo \<le> mid \<Longrightarrow> mid \<le> hi \<Longrightarrow> slice lo mid xs @ slice mid hi xs @ ys = slice lo hi xs @ ys"
  "lo \<le> mid \<Longrightarrow> slice lo mid xs @ drop mid xs = drop lo xs"
  "lo \<le> mid \<Longrightarrow> slice lo mid xs @ drop mid xs @ ys = drop lo xs @ ys"
proof -
  show a: "lo \<le> mid \<Longrightarrow> slice lo mid xs @ drop mid xs = drop lo xs"
    by (metis append_take_drop_id drop_drop le_add_diff_inverse2 slice_def take_drop)
  then show "lo \<le> mid \<Longrightarrow> slice lo mid xs @ drop mid xs @ ys = drop lo xs @ ys" by (metis append.assoc)
  show "lo \<le> mid \<Longrightarrow> mid \<le> hi \<Longrightarrow> slice lo mid xs @ slice mid hi xs @ ys = slice lo hi xs @ ys"
    by (metis append.assoc slice_slice_append)
qed

lemma le_slice [layout_simps]:
  "hi - lo = n \<Longrightarrow> hi \<le> length xs \<Longrightarrow> 8 * n = LENGTH('a) \<Longrightarrow> le_bytes n (from_le (slice lo hi xs) :: 'a::len word) = slice lo hi xs"
  by (rule le_bytes_from_le) auto

end
