(* ===== verification/Target.thy ===== *)
theory Target
  imports Prelude
begin

text \<open>
  \<open>src/src/target.rs\<close>: the 256-bit target of a block. A \<open>Uint256\<close> is four 64-bit words, least
  significant first. \<open>u256_from_compact_target\<close> decodes the header's compact \<open>bits\<close>; \<open>shl\<close> is the
  source's word-by-word shift, whose additions are shown not to overflow and whose result is the
  product with a power of two modulo \<open>2 ^ 256\<close>; \<open>cmp\<close> is the numerical order.
\<close>

section \<open>Definitions\<close>

datatype Uint256 = Uint256 u64 u64 u64 u64

fun limbs :: "Uint256 \<Rightarrow> u64 list" where
  "limbs (Uint256 a b c d) = [a, b, c, d]"

definition of_limbs :: "u64 list \<Rightarrow> Uint256" where
  "of_limbs ws = Uint256 (ws ! 0) (ws ! 1) (ws ! 2) (ws ! 3)"

definition from_u64 :: "u64 \<Rightarrow> Uint256" where
  "from_u64 init = Uint256 init 0 0 0"

definition from_le_bytes :: "bytes \<Rightarrow> Uint256" where
  "from_le_bytes bs = of_limbs (map from_le (chunks_exact 8 bs))"

definition to_le_bytes :: "Uint256 \<Rightarrow> bytes" where
  "to_le_bytes u = concat (map (le_bytes 8) (limbs u))"

definition to_be_bytes :: "Uint256 \<Rightarrow> bytes" where
  "to_be_bytes u = concat (map (\<lambda>w. rev (le_bytes 8 w)) (rev (limbs u)))"

text \<open>\<open>Iterator::cmp\<close> on the reversed words: the first difference decides.\<close>

datatype ordering = Less | Equal | Greater

fun iter_cmp :: "u64 list \<Rightarrow> u64 list \<Rightarrow> ordering" where
  "iter_cmp [] [] = Equal"
| "iter_cmp [] (y # ys) = Less"
| "iter_cmp (x # xs) [] = Greater"
| "iter_cmp (x # xs) (y # ys) =
     (if x < y then Less else if y < x then Greater else iter_cmp xs ys)"

definition cmp :: "Uint256 \<Rightarrow> Uint256 \<Rightarrow> ordering" where
  "cmp a b = iter_cmp (rev (limbs a)) (rev (limbs b))"

text \<open>
  The loop of \<open>Shl\<close>. Each \<open>+=\<close> on a word is a checked addition: \<open>None\<close> stands for the overflow
  panic of a debug build.
\<close>

definition checked_add_u64 :: "u64 \<Rightarrow> u64 \<Rightarrow> u64 option" where
  "checked_add_u64 a b = (if unat a + unat b < 2 ^ 64 then Some (a + b) else None)"

definition add_at :: "nat \<Rightarrow> u64 \<Rightarrow> u64 list \<Rightarrow> u64 list option" where
  "add_at i v ret = map_option (\<lambda>s. ret[i := s]) (checked_add_u64 (ret ! i) v)"

definition shl_step :: "u64 list \<Rightarrow> nat \<Rightarrow> nat \<Rightarrow> nat \<Rightarrow> u64 list \<Rightarrow> u64 list option" where
  "shl_step original word_shift bit_shift i ret = do {
     ret1 \<leftarrow> (if bit_shift < 64 \<and> i + word_shift < 4
               then add_at (i + word_shift) (push_bit bit_shift (original ! i)) ret
               else Some ret);
     (if bit_shift > 0 \<and> i + word_shift + 1 < 4
      then add_at (i + word_shift + 1) (drop_bit (64 - bit_shift) (original ! i)) ret1
      else Some ret1) }"

definition shl :: "Uint256 \<Rightarrow> nat \<Rightarrow> Uint256 option" where
  "shl u shift =
     (let original = limbs u; word_shift = shift div 64; bit_shift = shift mod 64
      in do {
        r0 \<leftarrow> shl_step original word_shift bit_shift 0 [0, 0, 0, 0];
        r1 \<leftarrow> shl_step original word_shift bit_shift 1 r0;
        r2 \<leftarrow> shl_step original word_shift bit_shift 2 r1;
        r3 \<leftarrow> shl_step original word_shift bit_shift 3 r2;
        Some (of_limbs r3) })"

definition u256_from_compact_target :: "u32 \<Rightarrow> Uint256 option" where
  "u256_from_compact_target bits =
     (let unshifted_expt = unat (drop_bit 24 bits);
          (mant, expt) =
            (if unshifted_expt \<le> 3
             then (drop_bit (8 * (3 - unshifted_expt)) (bits AND 0xFFFFFF), 0)
             else (bits AND 0xFFFFFF, 8 * (unshifted_expt - 3)))
      in if mant > 0x7FFFFF then Some (Uint256 0 0 0 0)
         else shl (from_u64 (ucast mant)) expt)"

section \<open>The value of a \<open>Uint256\<close>\<close>

text \<open>The abstraction: the number the four words stand for.\<close>

fun value_of :: "Uint256 \<Rightarrow> nat" where
  "value_of (Uint256 a b c d) =
     unat a + 2 ^ 64 * unat b + 2 ^ 128 * unat c + 2 ^ 192 * unat d"

lemma digit_lt: "a < N \<Longrightarrow> x < M \<Longrightarrow> a + N * x < N * (M :: nat)"
  using mult_le_mono2 [of "Suc x" M N] by simp

lemma digit_eq: "a < N \<Longrightarrow> a' < N \<Longrightarrow> a + N * x = a' + N * x' \<longleftrightarrow> a = a' \<and> x = (x' :: nat)"
  by (metis add.commute add_left_cancel mod_less mod_mult_self2 mult_cancel1 not_less_zero)

lemma value_of_nested:
  "value_of (Uint256 a b c d) =
     unat a + 2 ^ 64 * (unat b + 2 ^ 64 * (unat c + 2 ^ 64 * unat d))"
  by simp

lemma value_bound: "value_of u < 2 ^ 256"
proof -
  obtain a b c d where u: "u = Uint256 a b c d" by (cases u)
  have "value_of u < 2 ^ 64 * (2 ^ 64 * (2 ^ 64 * 2 ^ 64))"
    unfolding u value_of_nested by (intro digit_lt unat_u64_lt)
  then show ?thesis by simp
qed

lemma value_inject: "value_of u = value_of v \<longleftrightarrow> u = v"
proof -
  obtain a b c d where u: "u = Uint256 a b c d" by (cases u)
  obtain a' b' c' d' where v: "v = Uint256 a' b' c' d'" by (cases v)
  show ?thesis
    unfolding u v value_of_nested by (simp only: digit_eq unat_u64_lt) (simp add: word_unat_eq_iff)
qed

section \<open>Shifting\<close>

text \<open>
  A word shifted left by \<open>b\<close> bits splits into the part that stays and the part carried into the
  next word; the carried part of one word and the shifted part of the next have no common bit, so
  their sum does not overflow.
\<close>

lemma limb_split:
  fixes w :: u64
  assumes "b < 64"
  shows "unat w * 2 ^ b = unat (push_bit b w) + 2 ^ 64 * unat (drop_bit (64 - b) w)"
proof -
  have eq: "(2 :: nat) ^ 64 = 2 ^ (64 - b) * 2 ^ b"
    using assms by (simp flip: power_add)
  have "unat w * 2 ^ b div 2 ^ 64 = unat w div 2 ^ (64 - b)"
    unfolding eq by simp
  then have "unat (drop_bit (64 - b) w) = unat w * 2 ^ b div 2 ^ 64"
    by (simp only: unat_drop_bit_u64)
  then show ?thesis by (metis mod_mult_div_eq unat_push_bit_u64)
qed

lemma limb_carry_fits:
  fixes v w :: u64
  assumes "b < 64"
  shows "unat (drop_bit (64 - b) v) + unat (push_bit b w) < 2 ^ 64"
proof -
  have "unat (drop_bit (64 - b) v) < 2 ^ b"
  proof -
    have "unat v < 2 ^ (64 - b) * 2 ^ b"
      using unat_u64_lt [of v] assms by (simp flip: power_add)
    then have "unat v div 2 ^ (64 - b) < 2 ^ b"
      by (simp add: less_mult_imp_div_less mult.commute)
    then show ?thesis
      by (simp only: unat_drop_bit_u64)
  qed
  moreover have "unat (push_bit b w) \<le> 2 ^ 64 - 2 ^ b"
  proof -
    let ?q = "unat w mod 2 ^ (64 - b)"
    have "unat (push_bit b w) = unat w * 2 ^ b mod (2 ^ (64 - b) * 2 ^ b)"
      using assms unat_push_bit_u64 [of b w] by (simp flip: power_add)
    then have eq: "unat (push_bit b w) = ?q * 2 ^ b"
      by (simp add: mult_mod_left)
    have "?q < 2 ^ (64 - b)" by simp
    then have "Suc ?q * 2 ^ b \<le> 2 ^ (64 - b) * 2 ^ b" by (intro mult_right_mono) (simp_all add: Suc_le_eq)
    then show ?thesis using eq assms by (simp flip: power_add)
  qed
  moreover have "(2 :: nat) ^ b \<le> 2 ^ 64" using assms by (intro power_increasing) auto
  ultimately show ?thesis by linarith
qed

text \<open>
  One step of the loop, on the words that the earlier steps have filled: word \<open>i\<close> adds its
  shifted part to the carry it finds and leaves its own carry in the next word.
\<close>

definition lo_part :: "nat \<Rightarrow> u64 \<Rightarrow> u64" where
  "lo_part b w = push_bit b w"

definition hi_part :: "nat \<Rightarrow> u64 \<Rightarrow> u64" where
  "hi_part b w = drop_bit (64 - b) w"

lemma hi_part_0: "hi_part 0 w = 0"
proof -
  have "unat (hi_part 0 w) = 0" by (simp only: hi_part_def unat_drop_bit_u64) simp
  then show ?thesis by (simp add: unat_eq_zero)
qed

lemma checked_add_parts:
  "b < 64 \<Longrightarrow> checked_add_u64 (hi_part b v) (lo_part b w) = Some (hi_part b v + lo_part b w)"
  using limb_carry_fits [of b v w] by (simp add: checked_add_u64_def hi_part_def lo_part_def)

lemma checked_add_0: "checked_add_u64 0 w = Some w"
  by (simp add: checked_add_u64_def)

lemma unat_parts:
  "b < 64 \<Longrightarrow> unat (hi_part b v + lo_part b w) = unat (hi_part b v) + unat (lo_part b w)"
  using limb_carry_fits [of b v w]
  by (simp add: unat_add_lem [THEN iffD1] hi_part_def lo_part_def)

lemma shl_step_alt:
  "b < 64 \<Longrightarrow> shl_step original ws b i ret =
     Option.bind (if i + ws < 4 then add_at (i + ws) (lo_part b (original ! i)) ret else Some ret)
       (\<lambda>r. if b > 0 \<and> i + ws + 1 < 4 then add_at (i + ws + 1) (hi_part b (original ! i)) r else Some r)"
  by (simp add: shl_step_def lo_part_def hi_part_def cong: if_cong)

lemma add_at_simps:
  "i < length ret \<Longrightarrow> ret ! i = 0 \<Longrightarrow> add_at i v ret = Some (ret[i := v])"
  "b < 64 \<Longrightarrow> ret ! i = hi_part b v \<Longrightarrow>
     add_at i (lo_part b w) ret = Some (ret[i := hi_part b v + lo_part b w])"
  by (simp_all add: add_at_def checked_add_parts checked_add_0)

lemmas shl_simps = shl_def shl_step_alt add_at_def checked_add_0 of_limbs_def
  numeral_2_eq_2 numeral_3_eq_3

lemma shl_words:
  assumes "b < 64"
  shows "shl (Uint256 w0 w1 w2 w3) (64 * ws + b) = Some
    (if ws = 0 then Uint256 (lo_part b w0) (hi_part b w0 + lo_part b w1)
                      (hi_part b w1 + lo_part b w2) (hi_part b w2 + lo_part b w3)
     else if ws = 1 then Uint256 0 (lo_part b w0) (hi_part b w0 + lo_part b w1)
                      (hi_part b w1 + lo_part b w2)
     else if ws = 2 then Uint256 0 0 (lo_part b w0) (hi_part b w0 + lo_part b w1)
     else if ws = 3 then Uint256 0 0 0 (lo_part b w0)
     else Uint256 0 0 0 0)"
proof -
  have dm: "(64 * ws + b) div 64 = ws" "(64 * ws + b) mod 64 = b" using assms by auto
  consider "ws = 0" | "ws = 1" | "ws = 2" | "ws = 3" | "4 \<le> ws" by linarith
  then show ?thesis
  proof cases
    case 1
    show ?thesis
      by (cases "b = 0") (simp_all add: 1 assms dm hi_part_0 checked_add_parts shl_simps)
  next
    case 2
    show ?thesis
      by (cases "b = 0") (use dm in \<open>simp_all add: 2 assms hi_part_0 checked_add_parts shl_simps\<close>)
  next
    case 3
    show ?thesis
      by (cases "b = 0") (use dm in \<open>simp_all add: 3 assms hi_part_0 checked_add_parts shl_simps\<close>)
  next
    case 4
    show ?thesis
      by (cases "b = 0") (use dm in \<open>simp_all add: 4 assms hi_part_0 checked_add_parts shl_simps\<close>)
  next
    case 5
    then have "ws \<noteq> 0 \<and> ws \<noteq> 1 \<and> ws \<noteq> 2 \<and> ws \<noteq> 3 \<and> \<not> ws < 4 \<and> \<not> ws < 3" by auto
    then show ?thesis using assms by (simp add: shl_def Let_def dm shl_step_alt of_limbs_def)
  qed
qed

lemma unat_limb: "b < 64 \<Longrightarrow> unat w * 2 ^ b = unat (lo_part b w) + 2 ^ 64 * unat (hi_part b w)"
  unfolding lo_part_def hi_part_def by (rule limb_split)

text \<open>
  The words of the shifted number: what a shift by less than a word does to the value, and what
  falls off the top.
\<close>

lemma value_shifted:
  assumes "b < 64"
  shows "value_of (Uint256 w0 w1 w2 w3) * 2 ^ b =
     unat (lo_part b w0)
     + 2 ^ 64 * (unat (hi_part b w0 + lo_part b w1)
     + 2 ^ 64 * (unat (hi_part b w1 + lo_part b w2)
     + 2 ^ 64 * (unat (hi_part b w2 + lo_part b w3)
     + 2 ^ 64 * unat (hi_part b w3))))"
proof -
  have "value_of (Uint256 w0 w1 w2 w3) * 2 ^ b =
    unat w0 * 2 ^ b + 2 ^ 64 * (unat w1 * 2 ^ b + 2 ^ 64 * (unat w2 * 2 ^ b + 2 ^ 64 * (unat w3 * 2 ^ b)))"
    unfolding value_of_nested by (simp add: distrib_right)
  then show ?thesis
    unfolding unat_limb [OF assms] unat_parts [OF assms] by (simp add: distrib_left)
qed

lemma digit_mod: "a < N \<Longrightarrow> (a + N * x) mod (N * M) = a + N * (x mod (M :: nat))"
  by (simp add: mod_mult2_eq)

lemma top_digits:
  fixes a b c d e N :: nat
  assumes "a < N" "b < N" "c < N" "d < N"
  defines "V \<equiv> a + N * (b + N * (c + N * (d + N * e)))" and "M \<equiv> N * (N * (N * (N * 1)))"
  shows "V mod M = a + N * (b + N * (c + N * d))"
    and "(N * V) mod M = N * (a + N * (b + N * c))"
    and "(N * (N * V)) mod M = N * (N * (a + N * b))"
    and "(N * (N * (N * V))) mod M = N * (N * (N * a))"
  unfolding V_def M_def
  by (simp_all only: digit_mod assms mult_mod_right [symmetric] mod_by_1 mult_0_right add_0_right)

lemma top_digits_out: "(N * (N * (N * (N * x)))) mod (N * (N * (N * (N * 1)))) = (0 :: nat)"
  by (simp only: mult_mod_right [symmetric] mod_by_1 mult_0_right)

lemma value_shl_words:
  assumes b: "b < 64" and s: "shl u (64 * ws + b) = Some r"
  shows "value_of r = value_of u * 2 ^ (64 * ws + b) mod 2 ^ 256"
proof -
  obtain w0 w1 w2 w3 where u: "u = Uint256 w0 w1 w2 w3" by (cases u)
  define V where "V = value_of u * 2 ^ b"
  note V' = V_def [unfolded u value_shifted [OF b]]
  note digits = top_digits [OF unat_u64_lt unat_u64_lt unat_u64_lt unat_u64_lt,
      of "lo_part b w0" "hi_part b w0 + lo_part b w1" "hi_part b w1 + lo_part b w2"
         "hi_part b w2 + lo_part b w3" "unat (hi_part b w3)", folded V']
  have P: "(2 :: nat) ^ 256 = 2 ^ 64 * (2 ^ 64 * (2 ^ 64 * (2 ^ 64 * 1)))" by simp
  have E: "value_of u * 2 ^ (64 * ws + b) = (2 ^ 64) ^ ws * V"
    by (simp add: V_def power_add power_mult)
  note r = s [unfolded u shl_words [OF b], THEN option.inject [THEN iffD1], symmetric]
  consider "ws = 0" | "ws = 1" | "ws = 2" | "ws = 3" | "4 \<le> ws" by linarith
  then show ?thesis
  proof cases
    case 1
    with r have r': "r = Uint256 (lo_part b w0) (hi_part b w0 + lo_part b w1)
                      (hi_part b w1 + lo_part b w2) (hi_part b w2 + lo_part b w3)" by simp
    show ?thesis unfolding E P r' value_of_nested unfolding 1 power_0 mult_1 digits(1) ..
  next
    case 2
    with r have r': "r = Uint256 0 (lo_part b w0) (hi_part b w0 + lo_part b w1)
                      (hi_part b w1 + lo_part b w2)" by simp
    show ?thesis unfolding E P r' value_of_nested unfolding 2 power_one_right digits(2) by simp
  next
    case 3
    with r have r': "r = Uint256 0 0 (lo_part b w0) (hi_part b w0 + lo_part b w1)" by simp
    show ?thesis unfolding E P r' value_of_nested unfolding 3 power2_eq_square mult.assoc digits(3) by simp
  next
    case 4
    with r have r': "r = Uint256 0 0 0 (lo_part b w0)" by simp
    show ?thesis unfolding E P r' value_of_nested unfolding 4 power3_eq_cube mult.assoc digits(4) by simp
  next
    case 5
    then obtain k where k: "ws = 4 + k" using le_Suc_ex by blast
    with r have r': "r = Uint256 0 0 0 0" by simp
    have "(2 ^ 64) ^ ws * V = 2 ^ 64 * (2 ^ 64 * (2 ^ 64 * (2 ^ 64 * ((2 ^ 64) ^ k * V))))"
      unfolding k power_add power4_eq_xxxx mult.assoc ..
    then show ?thesis unfolding E P r' value_of_nested by (simp only: top_digits_out) simp
  qed
qed

section \<open>Order, bytes and compact targets\<close>

definition compare_nat :: "nat \<Rightarrow> nat \<Rightarrow> ordering" where
  "compare_nat m n = (if m < n then Less else if n < m then Greater else Equal)"

lemma digit_less:
  "a < N \<Longrightarrow> a' < N \<Longrightarrow> a + N * x < a' + N * x' \<longleftrightarrow> x < x' \<or> (x = x' \<and> a < (a' :: nat))"
  using digit_lt [of a N x x'] digit_lt [of a' N x' x] by (cases x x' rule: linorder_cases) auto

lemma compare_digit:
  "a < N \<Longrightarrow> a' < N \<Longrightarrow> compare_nat (a + N * x) (a' + N * x') =
     (if x < x' then Less else if x' < x then Greater else compare_nat a a')"
  by (simp add: compare_nat_def digit_less)

lemma compact_mantissa:
  fixes bits :: u32
  shows "unat (bits AND 0xFFFFFF) = unat bits mod 2 ^ 24"
proof -
  have "bits AND 0xFFFFFF = take_bit 24 bits" by (simp add: take_bit_eq_mask mask_numeral)
  then have "unat (bits AND 0xFFFFFF) = take_bit 24 (unat bits)" by (simp only: unsigned_take_bit_eq)
  then show ?thesis by (simp only: take_bit_eq_mod)
qed

lemma unat_ucast_32_64: "unat (ucast (w :: u32) :: u64) = unat w"
proof -
  have "unat w < 2 ^ 32" using unsigned_less [of w] by simp
  then have "unat w < 2 ^ 64" by simp
  then show ?thesis by (simp add: unsigned_ucast_eq take_bit_nat_eq_self_iff)
qed

lemma value_from_u64: "value_of (from_u64 w) = unat w"
  by (simp add: from_u64_def)

lemma shl_total: "\<exists>r. shl u shift = Some r \<and> value_of r = value_of u * 2 ^ shift mod 2 ^ 256"
proof -
  have b: "shift mod 64 < 64" by simp
  have s: "64 * (shift div 64) + shift mod 64 = shift" by simp
  obtain w0 w1 w2 w3 where u: "u = Uint256 w0 w1 w2 w3" by (cases u)
  obtain r where "shl u shift = Some r"
    using shl_words [OF b, of w0 w1 w2 w3 "shift div 64"] unfolding s u by blast
  with value_shl_words [OF b, of u "shift div 64" r] show ?thesis unfolding s by blast
qed

text \<open>\<open>Shl\<close> never overflows one of its word additions, and the result is the operand times a
  power of two, modulo the 256 bits of the type, for every shift.\<close>

theorem shl_correct:
  "\<exists>r. shl u shift = Some r \<and> value_of r = value_of u * 2 ^ shift mod 2 ^ 256"
  by (rule shl_total)

text \<open>\<open>Ord::cmp\<close> of two \<open>Uint256\<close> compares the numbers they stand for.\<close>

theorem cmp_correct: "cmp a b = compare_nat (value_of a) (value_of b)"
proof -
  obtain a0 a1 a2 a3 where a: "a = Uint256 a0 a1 a2 a3" by (cases a)
  obtain b0 b1 b2 b3 where b: "b = Uint256 b0 b1 b2 b3" by (cases b)
  show ?thesis
    unfolding a b value_of_nested
    by (simp only: compare_digit digit_less digit_eq unat_u64_lt)
      (auto simp: cmp_def word_less_nat_alt compare_nat_def word_unat_eq_iff)
qed

lemma shl_value_from_u32:
  assumes "unat (w :: u32) < 2 ^ 24"
  shows "\<exists>r. shl (from_u64 (ucast w)) s = Some r \<and> value_of r = unat w * 2 ^ s mod 2 ^ 256"
  using shl_total [of "from_u64 (ucast w)" s] by (simp add: value_from_u64 unat_ucast_32_64)

text \<open>The compact target of a header is always decoded, to mantissa times a power of 256: the
  24 low bits shifted right when the exponent byte is at most 3, left otherwise (modulo the
  width), and to 0 when the mantissa's sign bit is set.\<close>

theorem compact_target_value:
  "\<exists>r. u256_from_compact_target bits = Some r \<and>
     value_of r =
       (let e = unat (drop_bit 24 bits); m = unat bits mod 2 ^ 24
        in if e \<le> 3 then (if m div 256 ^ (3 - e) > 0x7FFFFF then 0 else m div 256 ^ (3 - e))
           else if m > 0x7FFFFF then 0 else m * 256 ^ (e - 3) mod 2 ^ 256)"
proof -
  define e m where "e = unat (drop_bit 24 bits)" and "m = unat bits mod 2 ^ 24"
  define q where "q = m div 256 ^ (3 - e)"
  have m: "unat (bits AND 0xFFFFFF) = m" by (simp only: compact_mantissa m_def)
  have mlt: "m < 2 ^ 24" by (simp add: m_def)
  define w where "w = drop_bit (8 * (3 - e)) (bits AND 0xFFFFFF)"
  have q: "unat w = q"
    by (simp only: w_def unat_drop_bit_eq m) (simp only: drop_bit_eq_div q_def power_mult, simp)
  have qlt: "q < 2 ^ 24" unfolding q_def using div_le_dividend mlt by (rule le_less_trans)
  have big: "0x7FFFFF < w \<longleftrightarrow> 0x7FFFFF < unat w" for w :: u32
    by (simp add: word_less_nat_alt)
  have eeq: "(2 :: nat) ^ (8 * k) = 256 ^ k" for k by (simp add: power_mult)
  show ?thesis
  proof (cases "e \<le> 3")
    case True
    obtain r where "shl (from_u64 (ucast w)) 0 = Some r" and "value_of r = q"
      using shl_value_from_u32 [of w 0] qlt unfolding q by auto
    with True show ?thesis
      unfolding u256_from_compact_target_def Let_def e_def [symmetric] m_def [symmetric]
        w_def [symmetric]
      by (simp add: big q flip: q_def)
  next
    case False
    obtain r where "shl (from_u64 (ucast (bits AND 0xFFFFFF))) (8 * (e - 3)) = Some r"
      and "value_of r = m * 256 ^ (e - 3) mod 2 ^ 256"
      using shl_value_from_u32 [of "bits AND 0xFFFFFF" "8 * (e - 3)"] mlt
      unfolding m eeq by blast
    with False show ?thesis
      unfolding u256_from_compact_target_def Let_def e_def [symmetric] m_def [symmetric]
      by (simp add: big m)
  qed
qed

lemma length_to_le_bytes [simp, byte_simps]: "length (to_le_bytes u) = 32"
  by (cases u) (simp add: to_le_bytes_def)

text \<open>The little-endian and big-endian byte forms: reading back what \<open>to_le_bytes\<close> writes gives
  the number, writing what \<open>from_le_bytes\<close> reads gives the 32 bytes, and the big-endian form is
  the reverse of the little-endian one.\<close>

theorem uint256_bytes:
  assumes "length bs = 32"
  shows "from_le_bytes (to_le_bytes u) = u \<and> to_le_bytes (from_le_bytes bs) = bs \<and>
    to_be_bytes u = rev (to_le_bytes u) \<and> length (to_le_bytes u) = 32"
proof -
  obtain a b c d where u: "u = Uint256 a b c d" by (cases u)
  have "chunks_exact 8 (to_le_bytes u) = map (le_bytes 8) (limbs u)"
    unfolding to_le_bytes_def by (rule chunks_exact_concat) (auto simp: u)
  then have one: "from_le_bytes (to_le_bytes u) = u"
    by (simp add: from_le_bytes_def of_limbs_def u Prelude.from_le_bytes)
  have len: "length (chunks_exact 8 bs) = 4" and each: "\<forall>c \<in> set (chunks_exact 8 bs). length c = 8"
    and cat: "concat (chunks_exact 8 bs) = bs"
    using chunks_exact_all [of 8 bs 4] assms by auto
  obtain w x y z where four: "chunks_exact 8 bs = [w, x, y, z]"
    using len by (rule length_4E)
  have two: "to_le_bytes (from_le_bytes bs) = bs"
    using each cat unfolding four
    by (simp add: from_le_bytes_def to_le_bytes_def of_limbs_def four le_bytes_from_le)
  have "to_be_bytes u = rev (to_le_bytes u)" and "length (to_le_bytes u) = 32"
    by (simp_all add: to_be_bytes_def to_le_bytes_def u)
  with one two show ?thesis by blast
qed

theorem uint256_bytes_witness:
  "from_le_bytes (to_le_bytes (Uint256 1 2 3 4)) = Uint256 1 2 3 4 \<and>
   to_le_bytes (from_le_bytes (replicate 32 7)) = replicate 32 7"
  using uint256_bytes [of "replicate 32 7" "Uint256 1 2 3 4"] by simp

end
