(* ===== verification/Pom_Core.thy ===== *)
theory Pom_Core
  imports Target
begin

text \<open>
  \<open>src/src/pom.rs\<close>, the byte-exact primitives of Proof-of-Model: the 64-bit mixer, the two walk
  transitions, the chunk and hash word views, the era-dependent seed and pow folds, and the
  activation gates. BLAKE3 and the Keccak permutation are not part of the sources: they are the
  parameters \<open>blake3\<close> and \<open>f1600\<close> of the definitions that call them. The \<open>--testnet\<close> switch, a
  process-wide flag set once at start-up, is the parameter \<open>testnet\<close> of every gate.
\<close>

section \<open>Definitions\<close>

definition CHUNK_WORDS :: nat where "CHUNK_WORDS = 4"
definition SEED_SALT :: u64 where "SEED_SALT = 0x4B65727978500"
definition POM_WALK_STEPS :: nat where "POM_WALK_STEPS = 256"
definition POM_OPENINGS :: nat where "POM_OPENINGS = 32"

definition blake :: "(bytes \<Rightarrow> hash) \<Rightarrow> bytes \<Rightarrow> hash" where
  "blake blake3 bs = blake3 bs"

definition mix64 :: "u64 \<Rightarrow> u64" where
  "mix64 x0 =
     (let x1 = x0 XOR drop_bit 30 x0;
          x2 = x1 * 0xbf58476d1ce4e5b9;
          x3 = x2 XOR drop_bit 27 x2;
          x4 = x3 * 0x94d049bb133111eb
      in x4 XOR drop_bit 31 x4)"

definition seed_state :: "u64 \<Rightarrow> u64" where
  "seed_state pow_seed = mix64 (pow_seed XOR SEED_SALT)"

definition transition_v1 :: "u64 \<Rightarrow> u64 list \<Rightarrow> u64" where
  "transition_v1 state chunk = mix64 (fold (\<lambda>w h. h XOR w) chunk state)"

definition transition_v2 :: "u64 \<Rightarrow> u64 list \<Rightarrow> u64" where
  "transition_v2 state chunk = fold (\<lambda>w h. mix64 (h XOR w)) chunk state"

definition transition :: "u64 \<Rightarrow> u64 list \<Rightarrow> bool \<Rightarrow> u64" where
  "transition state chunk walk_v2 =
     (if walk_v2 then transition_v2 state chunk else transition_v1 state chunk)"

definition chunk_to_words :: "bytes \<Rightarrow> u64 list" where
  "chunk_to_words c = map (\<lambda>i. from_le (slice (i * 8) (i * 8 + 8) c)) [0..<CHUNK_WORDS]"

definition words_to_bytes :: "u64 list \<Rightarrow> bytes" where
  "words_to_bytes w = concat (map (le_bytes 8) w)"

definition trace_leaf :: "(bytes \<Rightarrow> hash) \<Rightarrow> u64 \<Rightarrow> hash" where
  "trace_leaf blake3 state = blake blake3 (le_bytes 8 state)"

definition hash_pair :: "(bytes \<Rightarrow> hash) \<Rightarrow> hash \<Rightarrow> hash \<Rightarrow> hash" where
  "hash_pair blake3 l r = blake blake3 (l @ r)"

text \<open>The loop of \<open>le_leq\<close> runs over the indices 31, \<dots>, 0; here over both reversed arrays.\<close>

fun le_leq_loop :: "bytes \<Rightarrow> bytes \<Rightarrow> bool" where
  "le_leq_loop (a # as) (b # bs) =
     (if a < b then True else if a > b then False else le_leq_loop as bs)"
| "le_leq_loop _ _ = True"

definition le_leq :: "hash \<Rightarrow> hash \<Rightarrow> bool" where
  "le_leq a b = le_leq_loop (rev a) (rev b)"

definition pph_words :: "hash \<Rightarrow> u64 list" where
  "pph_words pre_pow_hash = map (\<lambda>i. from_le (slice (i * 8) (i * 8 + 8) pre_pow_hash)) [0..<4]"

definition POM_H3_PPH_SALT :: "u64 list" where
  "POM_H3_PPH_SALT = [0x7C99D381176D4EC4, 0xC2E28E3E28118C36, 0xD496CE1B129B76CA, 0x47CF0979FA580BCE]"
definition POM_H5_1_PPH_SALT :: "u64 list" where
  "POM_H5_1_PPH_SALT = [0x0F86D1400D3F8664, 0xC296B67C7A7A6A5B, 0x5F89AD33D961FEAA, 0xAC6C9AFDFA053580]"
definition POM_H5_2_PPH_SALT :: "u64 list" where
  "POM_H5_2_PPH_SALT = [0x584ADE0A598D896D, 0x8783631D81BC2695, 0x2917FCF883A0B862, 0x533CCCFAC88FD614]"
definition POM_V4_PPH_SALT :: "u64 list" where
  "POM_V4_PPH_SALT = [0x7D7BC84C8D18DE80, 0xDE48EE16AE3F1541, 0x3305F1952B30384A, 0xF78C133968D388B7]"

definition pph_words_for_era :: "hash \<Rightarrow> bool \<Rightarrow> u64 list" where
  "pph_words_for_era pre_pow_hash h3 =
     (let w = pph_words pre_pow_hash in if h3 then map2 (XOR) w POM_H3_PPH_SALT else w)"

definition seed_pph_words_for_era :: "hash \<Rightarrow> bool \<Rightarrow> bool \<Rightarrow> bool \<Rightarrow> u64 list" where
  "seed_pph_words_for_era pre_pow_hash h3 h5_1 h5_2 =
     (if h5_2 then map2 (XOR) (pph_words pre_pow_hash) POM_H5_2_PPH_SALT
      else if h5_1 then map2 (XOR) (pph_words pre_pow_hash) POM_H5_1_PPH_SALT
      else pph_words_for_era pre_pow_hash h3)"

definition pom_block_seed_from_words :: "u64 list \<Rightarrow> u64 \<Rightarrow> u64 \<Rightarrow> u64" where
  "pom_block_seed_from_words p timestamp nonce =
     (let s0 = mix64 (nonce XOR 0x4B65727978531);
          s1 = mix64 (s0 XOR timestamp);
          s2 = mix64 (s1 XOR p ! 0);
          s3 = mix64 (s2 XOR p ! 1);
          s4 = mix64 (s3 XOR p ! 2)
      in mix64 (s4 XOR p ! 3))"

definition pom_block_seed :: "hash \<Rightarrow> u64 \<Rightarrow> u64 \<Rightarrow> bool \<Rightarrow> bool \<Rightarrow> bool \<Rightarrow> u64" where
  "pom_block_seed pre_pow_hash timestamp nonce h3 h5_1 h5_2 =
     pom_block_seed_from_words (seed_pph_words_for_era pre_pow_hash h3 h5_1 h5_2) timestamp nonce"

definition pom_pow_value :: "u64 \<Rightarrow> hash \<Rightarrow> bool \<Rightarrow> hash" where
  "pom_pow_value final_state pre_pow_hash h3 =
     (let p = pph_words_for_era pre_pow_hash h3;
          o0 = mix64 (final_state XOR p ! 0 XOR 0x9E3779B97F4A7C15);
          o1 = mix64 (o0 XOR p ! 1 XOR 0xC2B2AE3D27D4EB4F);
          o2 = mix64 (o1 XOR p ! 2 XOR 0x165667B19E3779F9);
          o3 = mix64 (o2 XOR p ! 3 XOR 0xD6E8FEB86659FD93)
      in le_bytes 8 o0 @ le_bytes 8 o1 @ le_bytes 8 o2 @ le_bytes 8 o3)"

definition pph_words_v4 :: "hash \<Rightarrow> u64 list" where
  "pph_words_v4 pre_pow_hash = map2 (XOR) (pph_words pre_pow_hash) POM_V4_PPH_SALT"

definition pom_block_seed_v4 :: "hash \<Rightarrow> u64 \<Rightarrow> u64 \<Rightarrow> u64" where
  "pom_block_seed_v4 pre_pow_hash timestamp nonce =
     pom_block_seed_from_words (pph_words_v4 pre_pow_hash) timestamp nonce"

definition POW_HASH_INITIAL_STATE :: "u64 list" where
  "POW_HASH_INITIAL_STATE = [
    1242148031264380989, 3008272977830772284, 2188519011337848018, 1992179434288343456, 8876506674959887717,
    5399642050693751366, 1745875063082670864, 8605242046444978844, 17936695144567157056, 3343109343542796272,
    1123092876221303306, 4963925045340115282, 17037383077651887893, 16629644495023626889, 12833675776649114147,
    3784524041015224902, 1082795874807940378, 13952716920571277634, 13411128033953605860, 15060696040649351053,
    9928834659948351306, 5237849264682708699, 12825353012139217522, 6706187291358897596, 196324915476054915]"

definition pom_seed_h10_state :: "hash \<Rightarrow> u64 \<Rightarrow> u64 list" where
  "pom_seed_h10_state pre_pow_hash timestamp =
     (let st = map2 (XOR) (take 4 POW_HASH_INITIAL_STATE) (pph_words pre_pow_hash)
                 @ drop 4 POW_HASH_INITIAL_STATE
      in st[4 := st ! 4 XOR timestamp])"

definition pom_block_seed_h10 :: "(u64 list \<Rightarrow> u64 list) \<Rightarrow> hash \<Rightarrow> u64 \<Rightarrow> u64 \<Rightarrow> u64" where
  "pom_block_seed_h10 f1600 pre_pow_hash timestamp nonce =
     (let st = pom_seed_h10_state pre_pow_hash timestamp
      in f1600 (st[9 := st ! 9 XOR nonce]) ! 0)"

text \<open>The bytes of \<^verbatim>\<open>b"KERYX-H14-PRIVATE-INFERENCE-SEED"\<close>.\<close>

definition SEED_H14_TAG :: bytes where
  "SEED_H14_TAG = map (word_of_nat \<circ> of_char) ''KERYX-H14-PRIVATE-INFERENCE-SEED''"

definition seed_h14_pph :: "hash \<Rightarrow> hash" where
  "seed_h14_pph pre_pow_hash = map2 (XOR) pre_pow_hash SEED_H14_TAG"

definition pom_block_seed_h14 :: "(u64 list \<Rightarrow> u64 list) \<Rightarrow> hash \<Rightarrow> u64 \<Rightarrow> u64 \<Rightarrow> u64" where
  "pom_block_seed_h14 f1600 pre_pow_hash timestamp nonce =
     pom_block_seed_h10 f1600 (seed_h14_pph pre_pow_hash) timestamp nonce"

subsection \<open>Activation gates\<close>

definition H15_ACTIVATION_DAA :: u64 where "H15_ACTIVATION_DAA = 140115000"
definition TESTNET_H15_ACTIVATION_DAA :: u64 where "TESTNET_H15_ACTIVATION_DAA = 3500"
definition H16_ACTIVATION_DAA :: u64 where "H16_ACTIVATION_DAA = 147000000"
definition TESTNET_H16_ACTIVATION_DAA :: u64 where "TESTNET_H16_ACTIVATION_DAA = 180000"

definition gate :: "bool \<Rightarrow> u64 \<Rightarrow> u64 \<Rightarrow> u64" where
  "gate is_testnet mainnet testnet = (if is_testnet then testnet else mainnet)"

definition pom_activation_daa :: "bool \<Rightarrow> u64" where
  "pom_activation_daa testnet = gate testnet 37780000 1"
definition pom_level_activation_daa :: "bool \<Rightarrow> u64" where
  "pom_level_activation_daa testnet = gate testnet 43450000 1"
definition coin_age_verification_activation_daa :: "bool \<Rightarrow> u64" where
  "coin_age_verification_activation_daa testnet = gate testnet 54766000 0"
definition h5_activation_daa :: "bool \<Rightarrow> u64" where
  "h5_activation_daa testnet = gate testnet 59009037 0"
definition h5_1_activation_daa :: "bool \<Rightarrow> u64" where
  "h5_1_activation_daa testnet = gate testnet 59027921 0"
definition h5_2_activation_daa :: "bool \<Rightarrow> u64" where
  "h5_2_activation_daa testnet = gate testnet 59170000 0"
definition pom_v3_activation_daa :: "bool \<Rightarrow> u64" where
  "pom_v3_activation_daa testnet = gate testnet 76316623 1"
definition pom_v4_activation_daa :: "bool \<Rightarrow> u64" where
  "pom_v4_activation_daa testnet = gate testnet 79210000 1"
definition pom_v5_activation_daa :: "bool \<Rightarrow> u64" where
  "pom_v5_activation_daa testnet = gate testnet H15_ACTIVATION_DAA TESTNET_H15_ACTIVATION_DAA"
definition pad_margin_activation_daa :: "bool \<Rightarrow> u64" where
  "pad_margin_activation_daa testnet = gate testnet H16_ACTIVATION_DAA TESTNET_H16_ACTIVATION_DAA"
definition block_task_activation_daa :: u64 where
  "block_task_activation_daa = 0xFFFFFFFFFFFFFFFF"
definition h10_activation_daa :: "bool \<Rightarrow> u64" where
  "h10_activation_daa testnet = gate testnet 87360000 1"
definition reward_routing_activation_daa :: "bool \<Rightarrow> u64" where
  "reward_routing_activation_daa testnet = gate testnet 79210000 0"
definition private_inference_activation_daa :: "bool \<Rightarrow> u64" where
  "private_inference_activation_daa testnet = gate testnet 121985000 1"
definition verifiable_inference_activation_daa :: "bool \<Rightarrow> u64" where
  "verifiable_inference_activation_daa testnet =
     gate testnet H15_ACTIVATION_DAA TESTNET_H15_ACTIVATION_DAA"

definition trace_prefix_activation_daa :: "bool \<Rightarrow> u64" where
  "trace_prefix_activation_daa testnet = gate testnet H15_ACTIVATION_DAA TESTNET_H15_ACTIVATION_DAA"
definition trace_audit_activation_daa :: "bool \<Rightarrow> u64" where
  "trace_audit_activation_daa testnet = gate testnet H15_ACTIVATION_DAA TESTNET_H15_ACTIVATION_DAA"
definition trace_chain_activation_daa :: "bool \<Rightarrow> u64" where
  "trace_chain_activation_daa testnet = gate testnet H15_ACTIVATION_DAA TESTNET_H15_ACTIVATION_DAA"
definition trace_seed_bind_activation_daa :: "bool \<Rightarrow> u64" where
  "trace_seed_bind_activation_daa testnet = gate testnet H15_ACTIVATION_DAA TESTNET_H15_ACTIVATION_DAA"
definition attention_activation_daa :: "bool \<Rightarrow> u64" where
  "attention_activation_daa testnet = gate testnet H15_ACTIVATION_DAA TESTNET_H15_ACTIVATION_DAA"

subsection \<open>The era of a block\<close>

definition pom_block_seed_v4_era ::
  "bool \<Rightarrow> (u64 list \<Rightarrow> u64 list) \<Rightarrow> hash \<Rightarrow> u64 \<Rightarrow> u64 \<Rightarrow> u64 \<Rightarrow> u64" where
  "pom_block_seed_v4_era testnet f1600 pre_pow_hash timestamp nonce daa =
     (if daa \<ge> private_inference_activation_daa testnet
      then pom_block_seed_h14 f1600 pre_pow_hash timestamp nonce
      else if daa \<ge> h10_activation_daa testnet
      then pom_block_seed_h10 f1600 pre_pow_hash timestamp nonce
      else pom_block_seed_v4 pre_pow_hash timestamp nonce)"

definition pom_seed_state_v4_era :: "bool \<Rightarrow> hash \<Rightarrow> u64 \<Rightarrow> u64 \<Rightarrow> u64 list option" where
  "pom_seed_state_v4_era testnet pre_pow_hash timestamp daa =
     (if daa \<ge> private_inference_activation_daa testnet
      then Some (pom_seed_h10_state (seed_h14_pph pre_pow_hash) timestamp)
      else if daa \<ge> h10_activation_daa testnet
      then Some (pom_seed_h10_state pre_pow_hash timestamp)
      else None)"

section \<open>The mixer is a permutation\<close>

lemma xorshift_inj:
  fixes x y :: u64
  assumes "0 < k" and eq: "x XOR drop_bit k x = y XOR drop_bit k y"
  shows "x = y"
proof -
  have step: "bit x i = (bit (x XOR drop_bit k x) i \<noteq> bit x (k + i))" for x :: u64 and i
    by (auto simp: bit_simps)
  have "\<forall>i \<ge> 64 - n. bit x i = bit y i" for n
  proof (induction n)
    case 0
    show ?case by (auto dest: bit_imp_le_length)
  next
    case (Suc n)
    show ?case
    proof (intro allI impI)
      fix i assume "64 - Suc n \<le> i"
      then have "64 - n \<le> k + i" using assms(1) by linarith
      with Suc.IH have "bit x (k + i) = bit y (k + i)" by simp
      then show "bit x i = bit y i" using step [of x i] step [of y i] eq by simp
    qed
  qed
  from this [of 64] show ?thesis by (intro bit_word_eqI) simp
qed

lemma odd_mult_inj:
  fixes x y c d :: u64
  assumes "c * d = 1" and "x * c = y * c"
  shows "x = y"
proof -
  have "x = (x * c) * d" and "y = (y * c) * d" using assms(1) by (simp_all add: mult.assoc)
  with assms(2) show ?thesis by simp
qed

lemma inj_mix64: "inj mix64"
proof (rule injI)
  fix x y assume eq: "mix64 x = mix64 y"
  define m :: "u64 \<Rightarrow> u64" where "m z = (z XOR drop_bit 30 z) * 0xbf58476d1ce4e5b9" for z
  define n :: "u64 \<Rightarrow> u64" where "n z = (z XOR drop_bit 27 z) * 0x94d049bb133111eb" for z
  have "mix64 z = n (m z) XOR drop_bit 31 (n (m z))" for z
    by (simp only: mix64_def Let_def m_def n_def)
  with eq have "n (m x) = n (m y)" using xorshift_inj [of 31 "n (m x)" "n (m y)"] by simp
  then have "m x XOR drop_bit 27 (m x) = m y XOR drop_bit 27 (m y)"
    unfolding n_def by (rule odd_mult_inj [of "0x94d049bb133111eb" "0x319642b2d24d8ec3", rotated]) simp
  then have "m x = m y" by (rule xorshift_inj [of 27, rotated]) simp
  then have "x XOR drop_bit 30 x = y XOR drop_bit 30 y"
    unfolding m_def by (rule odd_mult_inj [of "0xbf58476d1ce4e5b9" "0x96de1b173f119089", rotated]) simp
  then show "x = y" by (rule xorshift_inj [of 30, rotated]) simp
qed

lemma mix64_eq_iff [simp]: "mix64 x = mix64 y \<longleftrightarrow> x = y"
  using inj_mix64 by (rule inj_eq)

lemma bij_mix64: "bij mix64"
  using inj_mix64 by (simp add: bij_def finite_UNIV_inj_surj)

lemma xor_right_cancel [simp]: "(a :: u64) XOR c = b XOR c \<longleftrightarrow> a = b"
proof
  assume "a XOR c = b XOR c"
  then have "(a XOR c) XOR c = (b XOR c) XOR c" by (rule arg_cong)
  then show "a = b" by (simp add: xor.assoc)
qed simp

lemma xor_left_cancel [simp]: "(c :: u64) XOR a = c XOR b \<longleftrightarrow> a = b"
  using xor_right_cancel [of a c b] by (simp only: xor.commute)

lemma xor_eq_self_iff [simp]: "(a :: u64) XOR c = a \<longleftrightarrow> c = 0"
  by (rule xor_left_cancel [of a c 0, unfolded xor.right_neutral])

text \<open>\<open>mix64\<close> is a permutation of the 64-bit words, so no two states, seeds or offsets collide
  in one application of it.\<close>

theorem mix64_permutation: "bij mix64 \<and> (\<forall>x y. mix64 x = mix64 y \<longleftrightarrow> x = y)"
  by (simp add: bij_mix64)

section \<open>The walk transitions\<close>

lemma fold_xor: "fold (\<lambda>w h. h XOR w) ws (s :: u64) = s XOR fold (\<lambda>w h. h XOR w) ws 0"
proof (induction ws arbitrary: s)
  case (Cons w ws)
  show ?case
    using Cons.IH [of "s XOR w"] Cons.IH [of w] by (simp add: xor.assoc)
qed simp

lemma fold_xor_append:
  "fold (\<lambda>w h. h XOR w) (xs @ ys) (s :: u64) =
     fold (\<lambda>w h. h XOR w) xs s XOR fold (\<lambda>w h. h XOR w) ys 0"
  by (metis comp_apply fold_append fold_xor)

lemma transition_v2_append: "transition_v2 s (xs @ ys) = transition_v2 (transition_v2 s xs) ys"
  by (simp add: transition_v2_def)

lemma transition_v2_inj_state: "transition_v2 s c = transition_v2 s' c \<longleftrightarrow> s = s'"
proof (induction c arbitrary: s s')
  case (Cons w c)
  then show ?case by (simp add: transition_v2_def)
qed (simp add: transition_v2_def)

lemma transition_v2_Cons: "transition_v2 s (w # ws) = transition_v2 (mix64 (s XOR w)) ws"
  by (simp add: transition_v2_def)

text \<open>The frozen transition only sees the XOR of the chunk's words: two chunks lead to the same
  state exactly when they fold to the same word. This is the shortcut the later eras close.\<close>

theorem transition_v1_foldable:
  "transition_v1 s c = transition_v1 s c' \<longleftrightarrow>
     fold (\<lambda>w h. h XOR w) c 0 = fold (\<lambda>w h. h XOR w) c' 0"
  unfolding transition_v1_def by (subst (1 2) fold_xor) simp

text \<open>In the H5 transition every word is load-bearing: changing any one word of the chunk, or
  the state before the step, changes the state after it.\<close>

theorem transition_v2_load_bearing:
  assumes "i < length c"
  shows "(transition_v2 s (c[i := w]) = transition_v2 s c \<longleftrightarrow> w = c ! i) \<and>
    (transition_v2 s c = transition_v2 s' c \<longleftrightarrow> s = s')"
proof -
  have u: "c[i := w] = take i c @ w # drop (Suc i) c"
    using assms by (rule upd_conv_take_nth_drop)
  have c: "take i c @ c ! i # drop (Suc i) c = c"
    using assms by (rule id_take_nth_drop [symmetric])
  have "transition_v2 s (c[i := w]) = transition_v2 s (take i c @ c ! i # drop (Suc i) c) \<longleftrightarrow> w = c ! i"
    unfolding u transition_v2_append transition_v2_Cons transition_v2_inj_state by simp
  then show ?thesis by (simp only: c transition_v2_inj_state)
qed

theorem transition_v2_load_bearing_witness:
  "transition_v2 7 ([1, 2, 3, 4][2 := 9]) \<noteq> transition_v2 7 [1, 2, 3, 4]"
  using transition_v2_load_bearing [of 2 "[1, 2, 3, 4]" 7 9] by simp

section \<open>The target comparison\<close>

lemma le_leq_loop_value:
  "length xs = length ys \<Longrightarrow> le_leq_loop xs ys \<longleftrightarrow> le_value (rev xs) \<le> le_value (rev ys)"
proof (induction xs ys rule: list_induct2)
  case (Cons x xs y ys)
  have "le_value (rev xs) < 256 ^ length xs" and "le_value (rev ys) < 256 ^ length xs"
    using le_value_less [of "rev xs"] le_value_less [of "rev ys"] Cons.hyps by simp_all
  then have "le_value (rev xs) + 256 ^ length xs * unat x \<le> le_value (rev ys) + 256 ^ length xs * unat y
    \<longleftrightarrow> unat x < unat y \<or> unat x = unat y \<and> le_value (rev xs) \<le> le_value (rev ys)"
    using digit_less [of "le_value (rev ys)" "256 ^ length xs" "le_value (rev xs)" "unat y" "unat x"]
    by linarith
  with Cons show ?case
    by (auto simp: le_value_append word_less_nat_alt word_unat_eq_iff)
qed simp

lemma le_leq_value: "length a = length b \<Longrightarrow> le_leq a b \<longleftrightarrow> le_value a \<le> le_value b"
  using le_leq_loop_value [of "rev a" "rev b"] by (simp add: le_leq_def)

lemma le_value_to_le_bytes: "le_value (to_le_bytes u) = value_of u"
proof -
  obtain a b c d where u: "u = Uint256 a b c d" by (cases u)
  show ?thesis
    by (simp add: u to_le_bytes_def le_value_append le_value_le_bytes)
qed

text \<open>\<open>le_leq\<close>, the PoM target check, is the numerical order of two little-endian 256-bit numbers
  and agrees with the order of \<open>Uint256\<close>.\<close>

theorem le_leq_correct:
  "le_leq (to_le_bytes u) (to_le_bytes v) \<longleftrightarrow> value_of u \<le> value_of v"
  by (simp add: le_leq_value le_value_to_le_bytes length_to_le_bytes)

section \<open>Seeds and eras\<close>

lemma length_pph_words [simp]: "length (pph_words h) = 4"
  by (simp add: pph_words_def)

lemma length_pom_pow_value [simp]: "length (pom_pow_value f h b) = 32"
  by (simp add: pom_pow_value_def Let_def)

lemma pom_pow_value_inj: "pom_pow_value f h b = pom_pow_value f' h b \<longleftrightarrow> f = f'"
proof
  assume "pom_pow_value f h b = pom_pow_value f' h b"
  then have "take 8 (pom_pow_value f h b) = take 8 (pom_pow_value f' h b)" by simp
  then have "le_bytes 8 (mix64 (f XOR pph_words_for_era h b ! 0 XOR 0x9E3779B97F4A7C15)) =
             le_bytes 8 (mix64 (f' XOR pph_words_for_era h b ! 0 XOR 0x9E3779B97F4A7C15))"
    by (simp add: pom_pow_value_def Let_def)
  then have "mix64 (f XOR pph_words_for_era h b ! 0 XOR 0x9E3779B97F4A7C15) =
             mix64 (f' XOR pph_words_for_era h b ! 0 XOR 0x9E3779B97F4A7C15)"
    by (rule le_bytes_inj [THEN iffD1, rotated]) simp
  then show "f = f'" by simp
qed simp

lemma pom_block_seed_from_words_inj:
  "pom_block_seed_from_words p t n = pom_block_seed_from_words p t n' \<longleftrightarrow> n = n'"
  by (simp add: pom_block_seed_from_words_def Let_def)

lemma words_bytes_roundtrip: "length w = 4 \<Longrightarrow> chunk_to_words (words_to_bytes w) = w"
proof -
  assume "length w = 4"
  then obtain a b c d where w: "w = [a, b, c, d]"
    by (rule length_4E)
  show ?thesis
    by (simp add: w chunk_to_words_def words_to_bytes_def CHUNK_WORDS_def upt_rec
        slice_def from_le_bytes)
qed

lemma bytes_words_roundtrip: "length c = 32 \<Longrightarrow> words_to_bytes (chunk_to_words c) = c"
proof -
  assume len: "length c = 32"
  have "words_to_bytes (chunk_to_words c) =
    slice 0 8 c @ slice 8 16 c @ slice 16 24 c @ slice 24 32 c"
    using len by (simp add: chunk_to_words_def words_to_bytes_def CHUNK_WORDS_def upt_rec
        le_bytes_from_le)
  also have "\<dots> = slice 0 32 c" by (simp add: slice_slice_append)
  finally show ?thesis using len by (simp add: slice_full)
qed

text \<open>The host seed and the sponge handed to the walk shader agree in every era: where the
  shader gets a sponge, absorbing the nonce into lane 9 and permuting gives the host's seed;
  where it gets none, the host folds the v4-salted words. In the fold eras two nonces never
  share a seed.\<close>

theorem seed_era_consistent:
  "pom_block_seed_v4_era testnet f1600 h t n daa =
     (case pom_seed_state_v4_era testnet h t daa of
        Some st \<Rightarrow> f1600 (st[9 := st ! 9 XOR n]) ! 0
      | None \<Rightarrow> pom_block_seed_from_words (pph_words_v4 h) t n) \<and>
   (pom_block_seed_v4 h t n = pom_block_seed_v4 h t n' \<longleftrightarrow> n = n')"
  by (simp add: pom_seed_state_v4_era_def pom_block_seed_v4_era_def pom_block_seed_h10_def
      pom_block_seed_h14_def pom_block_seed_v4_def Let_def pom_block_seed_from_words_inj)

text \<open>The H5.1 and H5.2 gates change the seed fold only, the H3 gate both folds: the pow fold
  never depends on the later flags, and the three salts put the seed words of the same header
  apart.\<close>

theorem seed_salts_separate_eras:
  "seed_pph_words_for_era h h3 h5_1 True \<noteq> seed_pph_words_for_era h h3' True False \<and>
   seed_pph_words_for_era h h3 True False \<noteq> seed_pph_words_for_era h h3' False False \<and>
   pph_words_for_era h True \<noteq> pph_words_for_era h False \<and>
   seed_pph_words_for_era h h3 False False = pph_words_for_era h h3"
proof -
  obtain a b c d where w: "pph_words h = [a, b, c, d]"
    using length_pph_words by (rule length_4E)
  show ?thesis
    by (simp add: seed_pph_words_for_era_def pph_words_for_era_def w POM_H5_2_PPH_SALT_def
        POM_H5_1_PPH_SALT_def POM_H3_PPH_SALT_def Let_def)
qed

text \<open>From the matrix walk on the gates of both networks open in the order of their numbers, and
  the block task never activates.\<close>

theorem gates_ordered:
  "pom_v3_activation_daa testnet \<le> pom_v4_activation_daa testnet \<and>
   pom_v4_activation_daa testnet \<le> h10_activation_daa testnet \<and>
   h10_activation_daa testnet \<le> private_inference_activation_daa testnet \<and>
   private_inference_activation_daa testnet \<le> pom_v5_activation_daa testnet \<and>
   pom_v5_activation_daa testnet \<le> pad_margin_activation_daa testnet \<and>
   pad_margin_activation_daa testnet < block_task_activation_daa"
  by (cases testnet) (simp_all add: pom_v3_activation_daa_def pom_v4_activation_daa_def
      h10_activation_daa_def private_inference_activation_daa_def pom_v5_activation_daa_def
      pad_margin_activation_daa_def block_task_activation_daa_def gate_def H15_ACTIVATION_DAA_def
      TESTNET_H15_ACTIVATION_DAA_def H16_ACTIVATION_DAA_def TESTNET_H16_ACTIVATION_DAA_def)

end
