(* ===== verification/Pom_Merkle.thy ===== *)
theory Pom_Merkle
  imports Pom_Core
begin

text \<open>
  \<open>src/src/pom.rs\<close>, the dense Merkle tree over 32-byte chunk hashes: \<open>merkle_root\<close>, \<open>merkle_proof\<close>
  and \<open>verify_merkle\<close>, with the last node of an odd level paired with itself. The loops over
  levels are recursions on the level list; \<open>next_level\<close> is the inner loop they share.

  The lemmas describe every level of the tree, show that the proof of a leaf leads to the root,
  and that a path accepted for a chunk that is not the one at its index exhibits two byte strings
  with the same hash among those that the prover and the verifier hash.
\<close>

section \<open>Definitions\<close>

fun next_level :: "(bytes \<Rightarrow> hash) \<Rightarrow> hash list \<Rightarrow> hash list" where
  "next_level blake3 [] = []"
| "next_level blake3 [x] = [hash_pair blake3 x x]"
| "next_level blake3 (x # y # rest) = hash_pair blake3 x y # next_level blake3 rest"

lemma length_next_level [simp]: "length (next_level blake3 ls) = (length ls + 1) div 2"
  by (induction blake3 ls rule: next_level.induct) auto

lemma next_level_Nil_iff [simp]: "next_level blake3 ls = [] \<longleftrightarrow> ls = []"
  by (induction blake3 ls rule: next_level.induct) auto

text \<open>The loop of \<open>merkle_root\<close>; the source asserts that it does not start from an empty list.\<close>

function root_loop :: "(bytes \<Rightarrow> hash) \<Rightarrow> hash list \<Rightarrow> hash" where
  "root_loop blake3 level =
     (if length level > 1 then root_loop blake3 (next_level blake3 level) else level ! 0)"
  by pat_completeness auto
termination
  by (relation "measure (\<lambda>(blake3, level). length level)") auto

definition merkle_root :: "(bytes \<Rightarrow> hash) \<Rightarrow> hash list \<Rightarrow> hash option" where
  "merkle_root blake3 leaves = (if leaves = [] then None else Some (root_loop blake3 leaves))"

function merkle_proof :: "(bytes \<Rightarrow> hash) \<Rightarrow> hash list \<Rightarrow> nat \<Rightarrow> hash list" where
  "merkle_proof blake3 level idx =
     (if length level > 1
      then (let sib_idx = (if even idx then idx + 1 else idx - 1);
                sib = (if sib_idx < length level then level ! sib_idx else level ! idx)
            in sib # merkle_proof blake3 (next_level blake3 level) (idx div 2))
      else [])"
  by pat_completeness auto
termination
  by (relation "measure (\<lambda>(blake3, level, idx). length level)") auto

declare root_loop.simps [simp del]
declare merkle_proof.simps [simp del]

text \<open>The loop of \<open>verify_merkle\<close>: the accumulator after the whole path.\<close>

fun climb :: "(bytes \<Rightarrow> hash) \<Rightarrow> hash \<Rightarrow> nat \<Rightarrow> hash list \<Rightarrow> hash" where
  "climb blake3 acc idx [] = acc"
| "climb blake3 acc idx (sib # path) =
     climb blake3
       (if even idx then hash_pair blake3 acc sib else hash_pair blake3 sib acc)
       (idx div 2) path"

definition verify_merkle :: "(bytes \<Rightarrow> hash) \<Rightarrow> hash \<Rightarrow> nat \<Rightarrow> hash list \<Rightarrow> hash \<Rightarrow> bool" where
  "verify_merkle blake3 leaf index path root = (climb blake3 leaf index path = root)"

text \<open>\<open>v % k\<close> panics for \<open>k = 0\<close>, once the loop runs at all.\<close>

definition challenges ::
  "(bytes \<Rightarrow> hash) \<Rightarrow> hash \<Rightarrow> u64 \<Rightarrow> hash \<Rightarrow> hash \<Rightarrow> nat \<Rightarrow> nat \<Rightarrow> nat list option" where
  "challenges blake3 pre_pow_hash nonce trace_root pow_value t k =
     (let seed = blake blake3 (pre_pow_hash @ le_bytes 8 nonce @ trace_root @ pow_value)
      in if k = 0 \<and> t > 0 then None
         else Some (map (\<lambda>j. let d = blake blake3 (seed @ le_bytes 8 (word_of_nat j :: u64));
                               v = unat (from_le (take 8 d) :: u64)
                           in v mod k) [0..<t]))"

section \<open>The levels of the tree\<close>

definition level_at :: "(bytes \<Rightarrow> hash) \<Rightarrow> hash list \<Rightarrow> nat \<Rightarrow> hash list" where
  "level_at blake3 ls k = (next_level blake3 ^^ k) ls"

text \<open>The number of levels above the leaves, and the number of nodes at a level.\<close>

function height :: "nat \<Rightarrow> nat" where
  "height n = (if n > 1 then Suc (height ((n + 1) div 2)) else 0)"
  by pat_completeness auto
termination
  by (relation "measure id") auto

declare height.simps [simp del]

lemma height_small [simp]: "height 0 = 0" "height (Suc 0) = 0"
  by (simp_all add: height.simps)

lemma nth_next_level:
  "2 * i < length ls \<Longrightarrow> next_level blake3 ls ! i =
     hash_pair blake3 (ls ! (2 * i)) (if 2 * i + 1 < length ls then ls ! (2 * i + 1) else ls ! (2 * i))"
proof (induction blake3 ls arbitrary: i rule: next_level.induct)
  case (3 blake3 x y rest)
  then show ?case by (cases i) auto
qed auto

lemma level_at_0 [simp]: "level_at blake3 ls 0 = ls"
  by (simp add: level_at_def)

lemma level_at_Suc: "level_at blake3 ls (Suc k) = next_level blake3 (level_at blake3 ls k)"
  by (simp add: level_at_def)

lemma level_at_next: "level_at blake3 (next_level blake3 ls) k = level_at blake3 ls (Suc k)"
  by (simp add: level_at_def funpow_swap1)

lemma level_at_add: "level_at blake3 (level_at blake3 ls j) k = level_at blake3 ls (j + k)"
  by (simp add: level_at_def funpow_add add.commute [of j k])

lemma ceil_half: "((n + 2 ^ k - 1) div 2 ^ k + 1) div 2 = (n + 2 ^ Suc k - 1) div (2 :: nat) ^ Suc k"
proof -
  have e: "n + 2 ^ Suc k - 1 = (n + 2 ^ k - 1) + 2 ^ k" by simp
  have "((n + 2 ^ k - 1) + 2 ^ k) div 2 ^ k = (n + 2 ^ k - 1) div 2 ^ k + 1"
    by (rule div_add_self2) simp
  then show ?thesis unfolding e unfolding power_Suc2 div_mult2_eq by simp
qed

lemma length_level_at: "length (level_at blake3 ls k) = (length ls + 2 ^ k - 1) div 2 ^ k"
proof (induction k)
  case (Suc k)
  then show ?case using ceil_half [of "length ls" k] by (simp add: level_at_Suc)
qed simp

lemma length_level_at_less: "i < length ls \<Longrightarrow> i div 2 ^ k < length (level_at blake3 ls k)"
proof (induction k)
  case (Suc k)
  have "i div 2 ^ Suc k = i div 2 ^ k div 2" by (metis power_Suc2 div_mult2_eq)
  with Suc show ?case by (simp add: level_at_Suc)
qed simp

lemma level_at_pos: "ls \<noteq> [] \<Longrightarrow> level_at blake3 ls k \<noteq> []"
  using length_level_at_less [of 0 ls k blake3] by auto

lemma root_loop_level_at: "ls \<noteq> [] \<Longrightarrow> root_loop blake3 ls = level_at blake3 ls (height (length ls)) ! 0"
proof (induction blake3 ls rule: root_loop.induct)
  case (1 blake3 ls)
  show ?case
  proof (cases "length ls > 1")
    case True
    then have "next_level blake3 ls \<noteq> []" by auto
    with 1 True show ?thesis
      by (simp add: root_loop.simps [of blake3 ls] height.simps [of "length ls"] level_at_next)
  next
    case False
    then show ?thesis
      by (simp add: root_loop.simps [of blake3 ls] height.simps [of "length ls"])
  qed
qed

section \<open>Completeness\<close>

lemma climb_sibling:
  assumes "i < length ls" and "length ls > 1"
  defines "j \<equiv> (if even i then i + 1 else i - 1)"
  shows "(let sib = (if j < length ls then ls ! j else ls ! i)
          in if even i then hash_pair blake3 (ls ! i) sib else hash_pair blake3 sib (ls ! i)) =
    next_level blake3 ls ! (i div 2)"
proof (cases "even i")
  case True
  then have "2 * (i div 2) = i" by simp
  then show ?thesis
    using assms True nth_next_level [of "i div 2" ls blake3] by (auto simp: Let_def)
next
  case False
  then have "2 * (i div 2) + 1 = i" by presburger
  then have "2 * (i div 2) = i - 1" and "i - 1 < length ls" and "i div 2 * 2 < length ls"
    using assms by auto
  then show ?thesis
    using assms False nth_next_level [of "i div 2" ls blake3] by (auto simp: Let_def)
qed

lemma climb_merkle_proof:
  "i < length ls \<Longrightarrow> climb blake3 (ls ! i) i (merkle_proof blake3 ls i) = root_loop blake3 ls"
proof (induction blake3 ls i rule: merkle_proof.induct)
  case (1 blake3 ls i)
  show ?case
  proof (cases "length ls > 1")
    case True
    have "i div 2 < length (next_level blake3 ls)" using "1.prems" by simp
    with "1.IH" True have "climb blake3 (next_level blake3 ls ! (i div 2)) (i div 2)
        (merkle_proof blake3 (next_level blake3 ls) (i div 2)) = root_loop blake3 (next_level blake3 ls)"
      by blast
    then show ?thesis
      using True climb_sibling [OF "1.prems" True, of blake3]
      by (simp add: merkle_proof.simps [of blake3 ls] root_loop.simps [of blake3 ls] Let_def)
  next
    case False
    with "1.prems" have "i = 0" by simp
    with False show ?thesis
      by (simp add: merkle_proof.simps [of blake3 ls] root_loop.simps [of blake3 ls])
  qed
qed

lemma length_merkle_proof: "length (merkle_proof blake3 ls i) = height (length ls)"
proof (induction blake3 ls i rule: merkle_proof.induct)
  case (1 blake3 ls i)
  then show ?case
    by (simp add: merkle_proof.simps [of blake3 ls] height.simps [of "length ls"] Let_def)
qed

lemma climb_append:
  "climb blake3 x i (p @ q) = climb blake3 (climb blake3 x i p) (i div 2 ^ length p) q"
  by (induction p arbitrary: x i) (auto simp: div_mult2_eq)

lemma climb_snoc:
  "climb blake3 x i (p @ [s]) =
     (if even (i div 2 ^ length p) then hash_pair blake3 (climb blake3 x i p) s
      else hash_pair blake3 s (climb blake3 x i p))"
  by (simp add: climb_append)

text \<open>
  Dropping the lowest siblings of a path gives a path for the ancestor at that level: this is how
  the provers of the matrix walks open a whole aligned tile.
\<close>

lemma drop_merkle_proof:
  "k \<le> height (length ls) \<Longrightarrow>
     drop k (merkle_proof blake3 ls i) = merkle_proof blake3 (level_at blake3 ls k) (i div 2 ^ k)"
proof (induction k arbitrary: ls i)
  case (Suc k)
  then have gt: "length ls > 1" and "k \<le> height (length (next_level blake3 ls))"
    by (auto simp: height.simps [of "length ls"] split: if_splits)
  with Suc.IH [of "next_level blake3 ls" "i div 2"] show ?case
    by (simp add: merkle_proof.simps [of blake3 ls] Let_def level_at_next div_mult2_eq)
qed simp

lemma root_loop_level: 
  "k \<le> height (length ls) \<Longrightarrow> root_loop blake3 (level_at blake3 ls k) = root_loop blake3 ls"
proof (induction k arbitrary: ls)
  case (Suc k)
  then have gt: "length ls > 1" and "k \<le> height (length (next_level blake3 ls))"
    by (auto simp: height.simps [of "length ls"] split: if_splits)
  with Suc.IH [of "next_level blake3 ls"] show ?case
    by (simp add: root_loop.simps [of blake3 ls] level_at_next)
qed simp

lemma climb_ancestor:
  assumes "i < length ls" and "k \<le> height (length ls)"
  shows "climb blake3 (level_at blake3 ls k ! (i div 2 ^ k)) (i div 2 ^ k)
    (drop k (merkle_proof blake3 ls i)) = root_loop blake3 ls"
  using climb_merkle_proof [of "i div 2 ^ k" "level_at blake3 ls k" blake3]
    length_level_at_less [OF assms(1)] assms(2)
  by (simp add: drop_merkle_proof root_loop_level)

section \<open>Soundness\<close>

text \<open>
  The byte strings that are hashed: by the verifier along a path, and by the prover while it
  builds the levels above the leaves. No hash function with 32-byte digests is injective, so
  soundness is stated relative to these finitely many inputs: where they do not collide, the path
  of an index opens to the leaf at that index only.
\<close>

fun climb_inputs :: "(bytes \<Rightarrow> hash) \<Rightarrow> hash \<Rightarrow> nat \<Rightarrow> hash list \<Rightarrow> bytes set" where
  "climb_inputs blake3 acc idx [] = {}"
| "climb_inputs blake3 acc idx (sib # path) =
     insert (if even idx then acc @ sib else sib @ acc)
       (climb_inputs blake3
         (if even idx then hash_pair blake3 acc sib else hash_pair blake3 sib acc)
         (idx div 2) path)"

fun level_inputs :: "hash list \<Rightarrow> bytes set" where
  "level_inputs [] = {}"
| "level_inputs [x] = {x @ x}"
| "level_inputs (x # y # rest) = insert (x @ y) (level_inputs rest)"

definition tree_inputs :: "(bytes \<Rightarrow> hash) \<Rightarrow> hash list \<Rightarrow> bytes set" where
  "tree_inputs blake3 ls = (\<Union>k < height (length ls). level_inputs (level_at blake3 ls k))"

lemma level_inputs_nth:
  "2 * i < length ls \<Longrightarrow>
     ls ! (2 * i) @ (if 2 * i + 1 < length ls then ls ! (2 * i + 1) else ls ! (2 * i)) \<in> level_inputs ls"
proof (induction ls arbitrary: i rule: level_inputs.induct)
  case (3 x y rest)
  show ?case
  proof (cases i)
    case (Suc j)
    with "3.prems" "3.IH" [of j] show ?thesis by (auto split: if_splits)
  qed simp
qed auto

lemma climb_inputs_append:
  "climb_inputs blake3 x i (p @ q) =
     climb_inputs blake3 x i p \<union> climb_inputs blake3 (climb blake3 x i p) (i div 2 ^ length p) q"
  by (induction p arbitrary: x i) (auto simp: div_mult2_eq)

lemma climb_inputs_snoc:
  "(if even (i div 2 ^ length p) then climb blake3 x i p @ s else s @ climb blake3 x i p)
     \<in> climb_inputs blake3 x i (p @ [s])"
  by (simp add: climb_inputs_append)

definition digest32 :: "(bytes \<Rightarrow> hash) \<Rightarrow> bool" where
  "digest32 blake3 \<longleftrightarrow> (\<forall>bs. length (blake3 bs) = 32)"

lemma length_hash_pair: "digest32 blake3 \<Longrightarrow> length (hash_pair blake3 a b) = 32"
  by (simp add: hash_pair_def blake_def digest32_def)

lemma length_climb:
  "digest32 blake3 \<Longrightarrow> length x = 32 \<Longrightarrow> length (climb blake3 x i p) = 32"
  by (induction p arbitrary: x i) (simp_all add: length_hash_pair)

lemma next_level_elem: "x \<in> set (next_level blake3 ls) \<Longrightarrow> \<exists>a b. x = hash_pair blake3 a b \<and> a @ b \<in> level_inputs ls"
  by (induction blake3 ls rule: next_level.induct) auto

lemma length_level_elem:
  "digest32 blake3 \<Longrightarrow> \<forall>x \<in> set ls. length x = 32 \<Longrightarrow> x \<in> set (level_at blake3 ls k) \<Longrightarrow> length x = 32"
proof (cases k)
  case (Suc j)
  assume "digest32 blake3" and "x \<in> set (level_at blake3 ls k)"
  with Suc next_level_elem [of x blake3 "level_at blake3 ls j"] show ?thesis
    by (auto simp: level_at_Suc length_hash_pair)
qed simp

text \<open>Two hashed pairs with the same digest are the same pair.\<close>

lemma hash_pair_inj:
  assumes "inj_on blake3 S" and "a @ b \<in> S" and "c @ d \<in> S" and "length a = length c"
    and "hash_pair blake3 a b = hash_pair blake3 c d"
  shows "a = c \<and> b = d"
proof -
  have "a @ b = c @ d"
    using assms(1,2,3,5) by (auto simp: hash_pair_def blake_def dest: inj_onD)
  with assms(4) show ?thesis by simp
qed

text \<open>
  One step down from level \<open>k + 1\<close>: where the accumulator before the last sibling of a path is
  paired with it, it is a node of level \<open>k\<close>, and it is the node at its own index when that index
  is in range.
\<close>

lemma climb_down:
  assumes inj: "inj_on blake3 (climb_inputs blake3 x i (p @ [s]) \<union> level_inputs L)"
    and len: "digest32 blake3" "length x = 32" "length s = 32" "\<forall>y \<in> set L. length y = 32"
    and eq: "climb blake3 x i (p @ [s]) = next_level blake3 L ! q" and q: "2 * q < length L"
  shows "climb blake3 x i p \<in> set L \<and>
    (i div 2 ^ length p < length L \<longrightarrow> i div 2 ^ length p div 2 = q \<longrightarrow>
      climb blake3 x i p = L ! (i div 2 ^ length p))"
proof -
  define j where "j = i div 2 ^ length p"
  define acc where "acc = climb blake3 x i p"
  define r where "r = (if 2 * q + 1 < length L then L ! (2 * q + 1) else L ! (2 * q))"
  let ?S = "climb_inputs blake3 x i (p @ [s]) \<union> level_inputs L"
  have acc: "length acc = 32" unfolding acc_def using len(1,2) by (rule length_climb)
  have l: "length (L ! (2 * q)) = 32" using len(4) q by simp
  have r_in: "r \<in> set L" using q by (simp add: r_def)
  have in1: "(if even j then acc @ s else s @ acc) \<in> ?S"
    unfolding j_def acc_def by (rule UnI1 [OF climb_inputs_snoc])
  have in2: "L ! (2 * q) @ r \<in> ?S" using level_inputs_nth [OF q] by (simp add: r_def)
  have "(if even j then hash_pair blake3 acc s else hash_pair blake3 s acc) =
      hash_pair blake3 (L ! (2 * q)) r"
    using eq unfolding climb_snoc nth_next_level [OF q] j_def acc_def r_def .
  then have cases: "(even j \<and> acc = L ! (2 * q)) \<or> (odd j \<and> acc = r)"
    using hash_pair_inj [OF inj _ in2] in1 l acc len(3) by (cases "even j") auto
  have "acc = L ! j" if "j < length L" and "j div 2 = q"
  proof (cases "even j")
    case True
    with that have "j = 2 * q" by auto
    with cases True show ?thesis by simp
  next
    case False
    with that have "j = 2 * q + 1" by presburger
    with cases False that show ?thesis by (simp add: r_def)
  qed
  moreover have "acc \<in> set L" using cases r_in q by auto
  ultimately show ?thesis by (simp add: acc_def j_def)
qed

lemma climb_inputs_take: "climb_inputs blake3 x i (take k p) \<subseteq> climb_inputs blake3 x i p"
  using climb_inputs_append [of blake3 x i "take k p" "drop k p"] by simp

lemma level_inputs_tree:
  "k < height (length ls) \<Longrightarrow> level_inputs (level_at blake3 ls k) \<subseteq> tree_inputs blake3 ls"
  by (auto simp: tree_inputs_def)

lemma length_level_top: "ls \<noteq> [] \<Longrightarrow> length (level_at blake3 ls (height (length ls))) = 1"
proof (induction "length ls" arbitrary: ls rule: less_induct)
  case less
  show ?case
  proof (cases "length ls > 1")
    case True
    then have "length (level_at blake3 (next_level blake3 ls) (height (length (next_level blake3 ls)))) = 1"
      by (intro less) auto
    with True show ?thesis by (simp add: height.simps [of "length ls"] level_at_next)
  next
    case False
    with less.prems show ?thesis by (cases ls) simp_all
  qed
qed

text \<open>Going down from the root, the accumulator is a node of the level it is compared with; on a
  path of the tree's height it is the node at its own index.\<close>

lemma climb_levels:
  assumes inj: "inj_on blake3 (climb_inputs blake3 x i path \<union> tree_inputs blake3 ls)"
    and len: "digest32 blake3" "length x = 32" "\<forall>s \<in> set path. length s = 32"
      "\<forall>y \<in> set ls. length y = 32"
    and i: "i < length ls" and root: "climb blake3 x i path = root_loop blake3 ls"
  defines "h \<equiv> height (length ls)" and "d \<equiv> length path"
  shows "j \<le> d \<Longrightarrow> j \<le> h \<Longrightarrow>
    climb blake3 x i (take (d - j) path) \<in> set (level_at blake3 ls (h - j)) \<and>
    (d = h \<longrightarrow>
       climb blake3 x i (take (d - j) path) = level_at blake3 ls (h - j) ! (i div 2 ^ (h - j)))"
proof (induction j)
  case 0
  have ne: "ls \<noteq> []" using i by auto
  have top: "length (level_at blake3 ls h) = 1" unfolding h_def by (rule length_level_top [OF ne])
  moreover have "i div 2 ^ h < length (level_at blake3 ls h)" by (rule length_level_at_less [OF i])
  ultimately have "i div 2 ^ h = 0" by simp
  moreover have "level_at blake3 ls h ! 0 \<in> set (level_at blake3 ls h)" by (rule nth_mem) (simp add: top)
  ultimately show ?case
    using root root_loop_level_at [OF ne, of blake3] by (simp add: d_def h_def)
next
  case (Suc j)
  define k where "k = d - Suc j"
  define m where "m = h - Suc j"
  define L where "L = level_at blake3 ls m"
  have dk: "d - j = Suc k" and hm: "h - j = Suc m" using Suc.prems by (auto simp: k_def m_def)
  have "k < length path" using Suc.prems by (auto simp: k_def d_def)
  then have tk: "take (d - j) path = take k path @ [path ! k]" and s: "length (path ! k) = 32"
    using len(3) by (auto simp: dk take_Suc_conv_app_nth)
  have lenk: "length (take k path) = k" using \<open>k < length path\<close> by simp
  have "m < h" using Suc.prems by (auto simp: m_def)
  then have sub: "climb_inputs blake3 x i (take k path @ [path ! k]) \<union> level_inputs L
      \<subseteq> climb_inputs blake3 x i path \<union> tree_inputs blake3 ls"
    using climb_inputs_take [of blake3 x i "d - j" path] level_inputs_tree [of m ls blake3]
    by (auto simp: tk L_def h_def)
  have L32: "\<forall>y \<in> set L. length y = 32"
    using length_level_elem [OF len(1,4)] by (auto simp: L_def)
  have IH: "climb blake3 x i (take k path @ [path ! k]) \<in> set (next_level blake3 L)"
    "d = h \<Longrightarrow> climb blake3 x i (take k path @ [path ! k]) = next_level blake3 L ! (i div 2 ^ Suc m)"
    using Suc.IH Suc.prems unfolding tk hm level_at_Suc L_def by (simp_all only: Suc_leD)
  obtain q where q: "q < length (next_level blake3 L)" "d = h \<longrightarrow> q = i div 2 ^ Suc m"
    "climb blake3 x i (take k path @ [path ! k]) = next_level blake3 L ! q"
  proof (cases "d = h")
    case True
    with IH(2) length_level_at_less [OF i, of "Suc m" blake3] that show ?thesis
      by (auto simp: L_def level_at_Suc)
  next
    case False
    with IH(1) that show ?thesis by (auto simp: in_set_conv_nth)
  qed
  have "2 * q < length L" using q(1) by simp
  note down = climb_down [OF inj_on_subset [OF inj sub] len(1,2) s L32 q(3) this, unfolded lenk]
  have "climb blake3 x i (take k path) = L ! (i div 2 ^ m)" if "d = h"
  proof -
    have "k = m" using that by (simp add: k_def m_def)
    moreover have "i div 2 ^ Suc m = i div 2 ^ m div 2" by (metis power_Suc2 div_mult2_eq)
    ultimately show ?thesis
      using down q(2) that length_level_at_less [OF i, of m blake3] by (simp add: L_def)
  qed
  with down show ?case by (simp add: k_def m_def L_def)
qed

lemma length_level_inputs:
  "\<forall>y \<in> set L. length y = 32 \<Longrightarrow> z \<in> level_inputs L \<Longrightarrow> length z = 64"
  by (induction L rule: level_inputs.induct) auto

lemma length_climb_inputs:
  "digest32 blake3 \<Longrightarrow> length x = 32 \<Longrightarrow> \<forall>s \<in> set p. length s = 32 \<Longrightarrow>
     z \<in> climb_inputs blake3 x i p \<Longrightarrow> length z = 64"
proof (induction p arbitrary: x i)
  case (Cons a p)
  then show ?case
    using Cons.IH [of "hash_pair blake3 x a" "i div 2"] Cons.IH [of "hash_pair blake3 a x" "i div 2"]
    by (auto simp: length_hash_pair split: if_splits)
qed simp

lemma climb_sound:
  assumes inj: "inj_on blake3
      (climb_inputs blake3 (blake blake3 c) i path \<union> tree_inputs blake3 (map (blake blake3) cs) \<union>
       insert c (set cs))"
    and "digest32 blake3" and "\<forall>s \<in> set path. length s = 32"
    and "length c = 32" and "\<forall>c' \<in> set cs. length c' = 32" and i: "i < length cs"
    and root: "climb blake3 (blake blake3 c) i path = root_loop blake3 (map (blake blake3) cs)"
  shows "c = cs ! i"
proof -
  let ?ls = "map (blake blake3) cs" and ?x = "blake blake3 c"
  let ?S = "climb_inputs blake3 ?x i path \<union> tree_inputs blake3 ?ls \<union> insert c (set cs)"
  define h where "h = height (length ?ls)"
  define d where "d = length path"
  have blake_inj: "blake blake3 u = blake blake3 v \<Longrightarrow> u \<in> ?S \<Longrightarrow> v \<in> ?S \<Longrightarrow> u = v" for u v
    using inj by (simp only: blake_def) (rule inj_onD)
  have ls32: "\<forall>y \<in> set ?ls. length y = 32" using assms(2) by (auto simp: digest32_def blake_def)
  have x32: "length ?x = 32" using assms(2) by (simp add: digest32_def blake_def)
  have i': "i < length ?ls" using i by simp
  have inj': "inj_on blake3 (climb_inputs blake3 ?x i path \<union> tree_inputs blake3 ?ls)"
    using inj by (rule inj_on_subset) auto
  have lv: "j \<le> d \<Longrightarrow> j \<le> h \<Longrightarrow>
    climb blake3 ?x i (take (d - j) path) \<in> set (level_at blake3 ?ls (h - j)) \<and>
    (d = h \<longrightarrow>
       climb blake3 ?x i (take (d - j) path) = level_at blake3 ?ls (h - j) ! (i div 2 ^ (h - j)))" for j
    unfolding d_def h_def
    by (rule climb_levels [OF inj' assms(2) x32 assms(3) ls32 i' root])
  consider "d = h" | "d < h" | "h < d" by linarith
  then show ?thesis
  proof cases
    case 1
    with lv [of d] have "?x = level_at blake3 ?ls 0 ! (i div 2 ^ 0)" by simp
    then have "blake blake3 c = blake blake3 (cs ! i)" using i by (simp only: level_at_0 power_0 div_by_1 nth_map)
    moreover have "cs ! i \<in> ?S" using nth_mem [OF i] by blast
    ultimately show ?thesis by (intro blake_inj [of c "cs ! i"]) blast+
  next
    case 2
    define m where "m = h - d - 1"
    have "h - d = Suc m" using 2 by (simp add: m_def)
    with lv [of d] 2 have "?x \<in> set (next_level blake3 (level_at blake3 ?ls m))"
      by (simp add: level_at_Suc)
    from next_level_elem [OF this] obtain z where z: "?x = blake blake3 z"
      "z \<in> level_inputs (level_at blake3 ?ls m)" by (auto simp: hash_pair_def)
    have "\<forall>y \<in> set (level_at blake3 ?ls m). length y = 32"
      using length_level_elem [OF assms(2) ls32] by blast
    then have "length z = 64" using z(2) by (rule length_level_inputs)
    moreover have "z \<in> tree_inputs blake3 ?ls"
      using z(2) level_inputs_tree [of m ?ls blake3] 2 by (auto simp: m_def h_def)
    then have "c = z" by (intro blake_inj [OF z(1)]) blast+
    ultimately show ?thesis using assms(4) by simp
  next
    case 3
    define p where "p = take (d - h - 1) path"
    define s where "s = path ! (d - h - 1)"
    have "d - h = Suc (d - h - 1)" and "d - h - 1 < length path" using 3 by (auto simp: d_def)
    then have ps: "take (d - h) path = p @ [s]" by (metis p_def s_def take_Suc_conv_app_nth)
    obtain z where z: "climb blake3 ?x i (p @ [s]) = blake blake3 z"
      "z \<in> climb_inputs blake3 ?x i (p @ [s])"
      using climb_inputs_snoc [of i p blake3 ?x s]
      by (auto simp: climb_snoc hash_pair_def split: if_splits)
    have "climb blake3 ?x i (p @ [s]) \<in> set ?ls" using lv [of h] 3 by (simp add: ps)
    then obtain c' where c': "c' \<in> set cs" "climb blake3 ?x i (p @ [s]) = blake blake3 c'" by auto
    have zin: "z \<in> climb_inputs blake3 ?x i path"
      using z(2) climb_inputs_take [of blake3 ?x i "d - h" path] by (auto simp: ps)
    then have "length z = 64"
      using assms(2,3) by (intro length_climb_inputs) (auto simp: blake_def digest32_def)
    moreover have "blake blake3 z = blake blake3 c'" using z(1) c'(2) by (rule trans [OF sym])
    then have "z = c'" by (rule blake_inj) (use c'(1) zin in blast)+
    ultimately show ?thesis using assms(5) c'(1) by auto
  qed
qed

section \<open>Properties\<close>

text \<open>Completeness: the path that \<open>merkle_proof\<close> extracts for any leaf is accepted against
  \<open>merkle_root\<close>, has one sibling per level, and a root exists exactly for a non-empty list.\<close>

theorem merkle_complete:
  assumes "i < length leaves" and "merkle_root blake3 leaves = Some root"
  shows "verify_merkle blake3 (leaves ! i) i (merkle_proof blake3 leaves i) root \<and>
    length (merkle_proof blake3 leaves i) = height (length leaves)"
  using assms climb_merkle_proof [OF assms(1), of blake3]
  by (auto simp: verify_merkle_def merkle_root_def length_merkle_proof split: if_splits)

definition toy_hash :: "bytes \<Rightarrow> hash" where
  "toy_hash bs = take 31 (bs @ replicate 31 0) @ [word_of_nat (length bs)]"

theorem merkle_complete_witness:
  "verify_merkle toy_hash [3] 2 (merkle_proof toy_hash [[1], [2], [3]] 2)
     (hash_pair toy_hash (hash_pair toy_hash [1] [2]) (hash_pair toy_hash [3] [3]))"
  using merkle_complete [of 2 "[[1], [2], [3]]" toy_hash
      "hash_pair toy_hash (hash_pair toy_hash [1] [2]) (hash_pair toy_hash [3] [3])"]
  by (simp add: merkle_root_def root_loop.simps)

text \<open>C16: soundness: where the finitely many strings hashed by the verifier and by the builder of the
  tree do not collide, a path accepted for index \<open>i\<close> opens to chunk \<open>i\<close> and to no other chunk,
  whatever its length.\<close>

theorem merkle_sound:
  assumes "verify_merkle blake3 (blake blake3 c) i path root"
    and "merkle_root blake3 (map (blake blake3) cs) = Some root" and "i < length cs"
    and "length c = 32" and "\<forall>c' \<in> set cs. length c' = 32" and "\<forall>s \<in> set path. length s = 32"
    and "digest32 blake3"
    and "inj_on blake3
      (climb_inputs blake3 (blake blake3 c) i path \<union> tree_inputs blake3 (map (blake blake3) cs) \<union>
       insert c (set cs))"
  shows "c = cs ! i"
  using assms by (intro climb_sound [OF assms(8,7,6,4,5,3)])
    (auto simp: verify_merkle_def merkle_root_def split: if_splits)

theorem merkle_sound_witness:
  "\<exists>root. merkle_root toy_hash (map (blake toy_hash) [replicate 32 1, replicate 32 2]) = Some root \<and>
     verify_merkle toy_hash (blake toy_hash (replicate 32 2)) 1 [toy_hash (replicate 32 1)] root \<and>
     replicate 32 2 = [replicate 32 1, replicate 32 (2 :: u8)] ! 1"
proof -
  let ?c1 = "replicate 32 (1 :: u8)" and ?c2 = "replicate 32 (2 :: u8)"
  have root: "merkle_root toy_hash (map (blake toy_hash) [?c1, ?c2]) =
      Some (hash_pair toy_hash (toy_hash ?c1) (toy_hash ?c2))"
    by (simp add: merkle_root_def root_loop.simps blake_def)
  have v: "verify_merkle toy_hash (blake toy_hash ?c2) 1 [toy_hash ?c1]
      (hash_pair toy_hash (toy_hash ?c1) (toy_hash ?c2))"
    by (simp add: verify_merkle_def blake_def)
  have inputs: "climb_inputs toy_hash (blake toy_hash ?c2) 1 [toy_hash ?c1] \<union>
      tree_inputs toy_hash (map (blake toy_hash) [?c1, ?c2]) \<union> insert ?c2 (set [?c1, ?c2]) =
      {toy_hash ?c1 @ toy_hash ?c2, ?c1, ?c2}"
    by (auto simp: tree_inputs_def height.simps blake_def lessThan_Suc)
  have "toy_hash ?c1 \<noteq> toy_hash ?c2" and "toy_hash (toy_hash ?c1 @ toy_hash ?c2) \<noteq> toy_hash ?c1"
    and "toy_hash (toy_hash ?c1 @ toy_hash ?c2) \<noteq> toy_hash ?c2"
    by (simp_all add: toy_hash_def)
  then have inj: "inj_on toy_hash {toy_hash ?c1 @ toy_hash ?c2, ?c1, ?c2}"
    by (auto simp: inj_on_def)
  have "?c2 = [?c1, ?c2] ! 1"
    using v root by (rule merkle_sound) (use inj inputs in \<open>auto simp: toy_hash_def digest32_def\<close>)
  with root v show ?thesis by blast
qed

section \<open>The contract of a weight store\<close>

text \<open>
  What the provers need of a possession index: reads of the canonical chunks, and for each chunk
  the path of the dense tree over them, against its root. The list of the chunks is the store's
  abstraction; the provers never see it.
\<close>

locale weight_store =
  fixes blake3 :: "bytes \<Rightarrow> hash"
    and store_ok :: "'w \<Rightarrow> bool"
    and chunks_of :: "'w \<Rightarrow> bytes list"
    and size_of :: "'w \<Rightarrow> nat"
    and root_of :: "'w \<Rightarrow> hash"
    and bytes_of :: "'w \<Rightarrow> nat \<Rightarrow> bytes option"
    and path_of :: "'w \<Rightarrow> nat \<Rightarrow> hash list option"
  assumes size_law: "store_ok w \<Longrightarrow> size_of w = length (chunks_of w) \<and> 0 < size_of w"
    and chunk_law: "store_ok w \<Longrightarrow> \<forall>c \<in> set (chunks_of w). length c = 32"
    and root_law: "store_ok w \<Longrightarrow> merkle_root blake3 (map (blake blake3) (chunks_of w)) = Some (root_of w)"
    and read_law: "store_ok w \<Longrightarrow> off < size_of w \<Longrightarrow> bytes_of w off = Some (chunks_of w ! off)"
    and path_law: "store_ok w \<Longrightarrow> off < size_of w \<Longrightarrow>
      path_of w off = Some (merkle_proof blake3 (map (blake blake3) (chunks_of w)) off)"
begin

lemma root_loop_root:
  assumes "store_ok w"
  shows "root_loop blake3 (map (blake blake3) (chunks_of w)) = root_of w"
  using root_law [OF assms] by (simp add: merkle_root_def split: if_splits)

lemma size_pos: "store_ok w \<Longrightarrow> 0 < size_of w"
  using size_law by blast

lemma length_chunk: "store_ok w \<Longrightarrow> off < size_of w \<Longrightarrow> length (chunks_of w ! off) = 32"
  using chunk_law [of w] size_law [of w] by simp

lemma path_opens:
  assumes "store_ok w" and "off < size_of w"
  shows "verify_merkle blake3 (blake blake3 (chunks_of w ! off)) off
    (merkle_proof blake3 (map (blake blake3) (chunks_of w)) off) (root_of w)"
  using climb_merkle_proof [of off "map (blake blake3) (chunks_of w)" blake3] assms
    size_law [OF assms(1)] root_loop_root [OF assms(1)]
  by (simp add: verify_merkle_def)

lemma words_opens:
  assumes "store_ok w" and "off < size_of w"
  obtains words path where "map_option chunk_to_words (bytes_of w off) = Some words" "path_of w off = Some path"
    "length (words_to_bytes words) = 32" "chunk_to_words (words_to_bytes words) = words"
    "words_to_bytes words = chunks_of w ! off"
    "verify_merkle blake3 (blake blake3 (words_to_bytes words)) off path (root_of w)"
proof -
  have b: "words_to_bytes (chunk_to_words (chunks_of w ! off)) = chunks_of w ! off"
    using length_chunk [OF assms] by (rule bytes_words_roundtrip)
  show ?thesis
    using that [of "chunk_to_words (chunks_of w ! off)"
        "merkle_proof blake3 (map (blake blake3) (chunks_of w)) off"]
      path_opens [OF assms] length_chunk [OF assms] read_law [OF assms] path_law [OF assms]
    by (simp add: b)
qed

end

text \<open>The dense tree itself is a store.\<close>

definition dense_ok :: "bytes list \<Rightarrow> bool" where
  "dense_ok cs \<longleftrightarrow> cs \<noteq> [] \<and> (\<forall>c \<in> set cs. length c = 32)"

definition dense_read :: "bytes list \<Rightarrow> nat \<Rightarrow> bytes option" where
  "dense_read cs off = (if off < length cs then Some (cs ! off) else None)"

definition dense_path :: "(bytes \<Rightarrow> hash) \<Rightarrow> bytes list \<Rightarrow> nat \<Rightarrow> hash list option" where
  "dense_path blake3 cs off = Some (merkle_proof blake3 (map (blake blake3) cs) off)"

interpretation dense: weight_store blake3 dense_ok "\<lambda>cs. cs" length
  "\<lambda>cs. root_loop blake3 (map (blake blake3) cs)" dense_read "dense_path blake3"
  for blake3
  by unfold_locales (auto simp: dense_ok_def dense_read_def dense_path_def merkle_root_def)

end
