(* ===== verification/Weight_Index.thy ===== *)
theory Weight_Index
  imports Pom_Merkle
begin

text \<open>
  \<open>src/src/pom.rs\<close>, the possession index of a model: chunk reads out of the GGUF through the
  tensor table, the sparse checkpoint tree (every sixth level and the root on disk), its
  construction and the Merkle paths recomputed from it. A file is the list of its bytes and a read
  past its end is \<open>None\<close>, as is every panic. What candle reads from the GGUF header is the
  parameter \<open>tensors\<close>: for each tensor, in the order of the sorted names, its offset in the file
  and its quantised bytes. Sizes and offsets are natural numbers: they stay far below \<open>2^64\<close>.

  The lemmas show that the index is the dense tree of \<open>Pom_Merkle\<close>: the layout of the checkpoint
  file, the correctness of every node read or recomputed, and the equality of paths and root.
\<close>

section \<open>Definitions\<close>

definition CHECKPOINT_INTERVAL :: nat where "CHECKPOINT_INTERVAL = 6"

definition read_exact_at :: "bytes \<Rightarrow> nat \<Rightarrow> nat \<Rightarrow> bytes option" where
  "read_exact_at file len offset =
     (if len = 0 then Some []
      else if offset + len \<le> length file then Some (slice offset (offset + len) file) else None)"

datatype ChunkSource = Ram bytes | Gguf bytes "(nat \<times> nat) list"

record StoredLevel =
  sl_level :: nat
  sl_offset :: nat
  sl_count :: nat

record WeightIndex =
  wi_n_chunks :: nat
  wi_r_t :: hash
  wi_chunks :: ChunkSource
  wi_tree_file :: bytes
  wi_checkpoints :: "StoredLevel list"
  wi_total_levels :: nat

text \<open>The loop of \<open>compute_checkpoint_offsets\<close>. It does not end for 0 chunks, which both callers
  exclude: \<open>None\<close>.\<close>

function checkpoint_loop :: "nat \<Rightarrow> nat \<Rightarrow> nat \<Rightarrow> (StoredLevel list \<times> nat) option" where
  "checkpoint_loop count off level =
     (if count = 0 then None
      else let is_checkpoint = (level > 0 \<and> CHECKPOINT_INTERVAL dvd level) \<or> count = 1;
               pushed = (if is_checkpoint
                         then [\<lparr>sl_level = level, sl_offset = off, sl_count = count\<rparr>] else [])
           in if count = 1 then Some (pushed, level + 1)
              else do {
                (cps, total) \<leftarrow> checkpoint_loop (div_ceil count 2)
                   (if is_checkpoint then off + count * 32 else off) (level + 1);
                Some (pushed @ cps, total)
              })"
  by pat_completeness auto
termination
  by (relation "measure (\<lambda>(count, off, level). count)") (auto simp: div_ceil_2)

declare checkpoint_loop.simps [simp del]

definition compute_checkpoint_offsets :: "nat \<Rightarrow> (StoredLevel list \<times> nat) option" where
  "compute_checkpoint_offsets n_chunks = checkpoint_loop n_chunks 0 0"

definition fold_levels :: "(bytes \<Rightarrow> hash) \<Rightarrow> hash list \<Rightarrow> nat \<Rightarrow> hash option" where
  "fold_levels blake3 batch rounds =
     (let level = (next_level blake3 ^^ rounds) batch
      in if level = [] then None else Some (level ! 0))"

subsection \<open>Reading\<close>

definition partition_point :: "('a \<Rightarrow> bool) \<Rightarrow> 'a list \<Rightarrow> nat" where
  "partition_point p xs = length (takeWhile p xs)"

text \<open>\<open>table.partition_point(|&(start, _)| start <= off) - 1\<close>; the subtraction panics at 0.\<close>

definition table_slot :: "(nat \<times> nat) list \<Rightarrow> nat \<Rightarrow> nat option" where
  "table_slot table off =
     (let p = partition_point (\<lambda>(start, _). start \<le> off) table
      in if p = 0 then None else Some (p - 1))"

definition read_chunk_bytes :: "WeightIndex \<Rightarrow> nat \<Rightarrow> bytes option" where
  "read_chunk_bytes idx off =
     (case wi_chunks idx of
        Ram data \<Rightarrow>
          (let base = off * 32
           in if base + 32 \<le> length data then Some (slice base (base + 32) data) else None)
      | Gguf file table \<Rightarrow> do {
          j \<leftarrow> table_slot table off;
          let (start, file_off) = table ! j;
          read_exact_at file 32 (file_off + (off - start) * 32)
        })"

definition read_chunk :: "WeightIndex \<Rightarrow> nat \<Rightarrow> u64 list option" where
  "read_chunk idx off = map_option chunk_to_words (read_chunk_bytes idx off)"

text \<open>
  The loop of \<open>read_chunk_range\<close> returns the bytes written after the first \<open>filled\<close> ones. A step
  that takes nothing would repeat with the next table entry: the recursion is on the entries left,
  and running past them is the panic of \<open>table[j]\<close>. \<open>t_end - cur\<close> panics below 0.
\<close>

fun chunk_range_loop ::
  "bytes \<Rightarrow> nat \<Rightarrow> nat \<Rightarrow> (nat \<times> nat) list \<Rightarrow> nat \<Rightarrow> nat \<Rightarrow> bytes option" where
  "chunk_range_loop file n_chunks out_len table cur filled =
     (if filled < out_len
      then case table of
             [] \<Rightarrow> None
           | (t_start, t_file_off) # rest \<Rightarrow>
               let t_end = (case rest of [] \<Rightarrow> n_chunks | (s, _) # _ \<Rightarrow> s);
                   take_len = min ((t_end - cur) * 32) (out_len - filled)
               in if t_end < cur then None
                  else do {
                    bs \<leftarrow> read_exact_at file take_len (t_file_off + (cur - t_start) * 32);
                    more \<leftarrow> chunk_range_loop file n_chunks out_len rest (cur + take_len div 32) (filled + take_len);
                    Some (bs @ more)
                  }
      else Some [])"

declare chunk_range_loop.simps [simp del]

definition read_chunk_range :: "WeightIndex \<Rightarrow> nat \<Rightarrow> nat \<Rightarrow> bytes option" where
  "read_chunk_range idx first out_len =
     (if out_len mod 32 \<noteq> 0 then None
      else if first + out_len div 32 > wi_n_chunks idx then None
      else case wi_chunks idx of
             Ram data \<Rightarrow>
               (let base = first * 32
                in if base + out_len \<le> length data then Some (slice base (base + out_len) data) else None)
           | Gguf file table \<Rightarrow> do {
               j \<leftarrow> table_slot table first;
               chunk_range_loop file (wi_n_chunks idx) out_len (drop j table) first 0
             })"

definition find_checkpoint :: "WeightIndex \<Rightarrow> nat \<Rightarrow> StoredLevel option" where
  "find_checkpoint idx level = find (\<lambda>cp. sl_level cp = level) (wi_checkpoints idx)"

primrec halve_ceil :: "nat \<Rightarrow> nat \<Rightarrow> nat" where
  "halve_ceil 0 count = count"
| "halve_ceil (Suc k) count = halve_ceil k (div_ceil count 2)"

definition count_at_level :: "WeightIndex \<Rightarrow> nat \<Rightarrow> nat" where
  "count_at_level idx level = halve_ceil level (wi_n_chunks idx)"

text \<open>\<open>iter.map(f).collect()\<close> where \<open>f\<close> may panic.\<close>

fun collect :: "'a option list \<Rightarrow> 'a list option" where
  "collect [] = Some []"
| "collect (x # xs) = do { y \<leftarrow> x; ys \<leftarrow> collect xs; Some (y # ys) }"

text \<open>\<open>span = 2^rounds\<close>; the caller passes \<open>span\<close>, the callee reads \<open>rounds\<close> back from it.\<close>

definition compute_subtree_hash ::
  "(bytes \<Rightarrow> hash) \<Rightarrow> WeightIndex \<Rightarrow> nat \<Rightarrow> nat \<Rightarrow> nat \<Rightarrow> hash option" where
  "compute_subtree_hash blake3 idx start rounds src_level = do {
     let span = 2 ^ rounds;
     source_count \<leftarrow> (if src_level = 0 then Some (wi_n_chunks idx)
                      else map_option sl_count (find_checkpoint idx src_level));
     if start \<ge> source_count then Some (replicate 32 0)
     else do {
       let end = min (start + span) source_count;
       nodes \<leftarrow> (if src_level = 0
                 then collect (map (\<lambda>i. map_option (blake blake3) (read_chunk_bytes idx i)) [start..<end])
                 else do {
                   cp \<leftarrow> find_checkpoint idx src_level;
                   collect (map (\<lambda>i. read_exact_at (wi_tree_file idx) 32 (sl_offset cp + i * 32)) [start..<end])
                 });
       fold_levels blake3 nodes rounds
     }
   }"

text \<open>The sibling that one iteration of \<open>merkle_path\<close> pushes.\<close>

definition path_node :: "(bytes \<Rightarrow> hash) \<Rightarrow> WeightIndex \<Rightarrow> nat \<Rightarrow> nat \<Rightarrow> hash option" where
  "path_node blake3 idx level i = do {
     let sib_idx = (if even i then i + 1 else i - 1);
     let is_stored = (level > 0 \<and>
           (CHECKPOINT_INTERVAL dvd level \<or> level = wi_total_levels idx - 1));
     if is_stored then do {
       cp \<leftarrow> find_checkpoint idx level;
       let real_idx = (if sib_idx < sl_count cp then sib_idx else i);
       read_exact_at (wi_tree_file idx) 32 (sl_offset cp + real_idx * 32)
     } else do {
       let node_count = count_at_level idx level;
       let real_sib_idx = (if sib_idx < node_count then sib_idx else i);
       let src_level = (level div CHECKPOINT_INTERVAL) * CHECKPOINT_INTERVAL;
       compute_subtree_hash blake3 idx (real_sib_idx * 2 ^ (level - src_level)) (level - src_level) src_level
     }
   }"

definition merkle_path :: "(bytes \<Rightarrow> hash) \<Rightarrow> WeightIndex \<Rightarrow> nat \<Rightarrow> hash list option" where
  "merkle_path blake3 idx off =
     collect (map (\<lambda>level. path_node blake3 idx level (off div 2 ^ level)) [0..<wi_total_levels idx - 1])"

subsection \<open>Building\<close>

text \<open>One chunk of phase 0: the state is the number of chunks, the batch and the bytes written.\<close>

fun phase0_chunk ::
  "(bytes \<Rightarrow> hash) \<Rightarrow> bytes \<Rightarrow> nat \<times> hash list \<times> bytes \<Rightarrow> (nat \<times> hash list \<times> bytes) option" where
  "phase0_chunk blake3 chunk (n_chunks, batch_buf, written) =
     (let batch_buf = batch_buf @ [blake blake3 chunk];
          n_chunks = n_chunks + 1
      in if length batch_buf = 2 ^ CHECKPOINT_INTERVAL
         then do {
           level_k_node \<leftarrow> fold_levels blake3 batch_buf CHECKPOINT_INTERVAL;
           Some (n_chunks, [], written @ level_k_node)
         }
         else Some (n_chunks, batch_buf, written))"

fun phase0_chunks ::
  "(bytes \<Rightarrow> hash) \<Rightarrow> bytes list \<Rightarrow> nat \<times> hash list \<times> bytes \<Rightarrow> (nat \<times> hash list \<times> bytes) option" where
  "phase0_chunks blake3 [] st = Some st"
| "phase0_chunks blake3 (c # cs) st = do { st' \<leftarrow> phase0_chunk blake3 c st; phase0_chunks blake3 cs st' }"

definition full_chunks :: "bytes \<Rightarrow> bytes list" where
  "full_chunks bytes = map (\<lambda>c. slice (c * 32) (c * 32 + 32) bytes) [0..<length bytes div 32]"

fun phase0_tensors ::
  "(bytes \<Rightarrow> hash) \<Rightarrow> (nat \<times> bytes) list \<Rightarrow> (nat \<times> nat) list \<Rightarrow> nat \<times> hash list \<times> bytes \<Rightarrow>
     ((nat \<times> nat) list \<times> nat \<times> hash list \<times> bytes) option" where
  "phase0_tensors blake3 [] table st = Some (table, st)"
| "phase0_tensors blake3 ((file_off, bytes) # tensors) table st = do {
     let table = (if length bytes div 32 > 0 then table @ [(fst st, file_off)] else table);
     st \<leftarrow> phase0_chunks blake3 (full_chunks bytes) st;
     phase0_tensors blake3 tensors table st
   }"

function finalize_batches ::
  "(bytes \<Rightarrow> hash) \<Rightarrow> bytes \<Rightarrow> nat \<Rightarrow> nat \<Rightarrow> nat \<Rightarrow> nat \<Rightarrow> bytes option" where
  "finalize_batches blake3 file prev_offset prev_count rounds read_idx =
     (if read_idx < prev_count
      then do {
        let take_n = min (2 ^ rounds) (prev_count - read_idx);
        batch \<leftarrow> collect (map (\<lambda>i. read_exact_at file 32 (prev_offset + (read_idx + i) * 32)) [0..<take_n]);
        parent_node \<leftarrow> fold_levels blake3 batch rounds;
        more \<leftarrow> finalize_batches blake3 file prev_offset prev_count rounds (read_idx + take_n);
        Some (parent_node @ more)
      }
      else Some [])"
  by pat_completeness auto
termination
  by (relation "measure (\<lambda>(blake3, file, off, cnt, rounds, read_idx). cnt - read_idx)")
    (auto intro!: diff_less_mono2 simp: min_def)

declare finalize_batches.simps [simp del]

text \<open>The loop over \<open>checkpoints[1..]\<close>: the file with the higher levels appended.\<close>

fun finalize_loop ::
  "(bytes \<Rightarrow> hash) \<Rightarrow> StoredLevel \<Rightarrow> StoredLevel list \<Rightarrow> bytes \<Rightarrow> bytes option" where
  "finalize_loop blake3 prev [] file = Some file"
| "finalize_loop blake3 prev (cp # cps) file = do {
     written \<leftarrow> finalize_batches blake3 file (sl_offset prev) (sl_count prev) (sl_level cp - sl_level prev) 0;
     finalize_loop blake3 cp cps (file @ written)
   }"

definition finalize_checkpoint_upper ::
  "(bytes \<Rightarrow> hash) \<Rightarrow> bytes \<Rightarrow> nat \<Rightarrow> (bytes \<times> StoredLevel list \<times> nat \<times> hash) option" where
  "finalize_checkpoint_upper blake3 file n_chunks = do {
     (checkpoints, total_levels) \<leftarrow> compute_checkpoint_offsets n_chunks;
     file \<leftarrow> finalize_loop blake3 (hd checkpoints) (tl checkpoints) file;
     r_t \<leftarrow> read_exact_at file 32 (sl_offset (last checkpoints));
     Some (file, checkpoints, total_levels, r_t)
   }"

text \<open>\<open>build_from_gguf\<close> without a cached tree, on the GGUF's bytes and its tensors.\<close>

definition build_from_gguf ::
  "(bytes \<Rightarrow> hash) \<Rightarrow> bytes \<Rightarrow> (nat \<times> bytes) list \<Rightarrow> WeightIndex option" where
  "build_from_gguf blake3 gguf tensors = do {
     (table, n_chunks, batch_buf, written) \<leftarrow> phase0_tensors blake3 tensors [] (0, [], []);
     written \<leftarrow> (if batch_buf \<noteq> []
                 then map_option (\<lambda>node. written @ node) (fold_levels blake3 batch_buf CHECKPOINT_INTERVAL)
                 else Some written);
     if n_chunks = 0 then None
     else do {
       (tree_file, checkpoints, total_levels, r_t) \<leftarrow> finalize_checkpoint_upper blake3 written n_chunks;
       Some \<lparr>wi_n_chunks = n_chunks, wi_r_t = r_t, wi_chunks = Gguf gguf table,
             wi_tree_file = tree_file, wi_checkpoints = checkpoints, wi_total_levels = total_levels\<rparr>
     }
   }"

text \<open>\<open>open_existing_tree\<close>: the same index from the cached file, whose size alone is checked. Both
  size errors (a legacy full tree, any other mismatch) lead the caller to rebuild.\<close>

fun header_table :: "(nat \<times> bytes) list \<Rightarrow> (nat \<times> nat) list \<Rightarrow> nat \<Rightarrow> (nat \<times> nat) list \<times> nat" where
  "header_table [] table n_chunks = (table, n_chunks)"
| "header_table ((file_off, bytes) # tensors) table n_chunks =
     (let full = length bytes div 32
      in header_table tensors (if full > 0 then table @ [(n_chunks, file_off)] else table) (n_chunks + full))"

datatype tree_error = ZeroChunks | LegacyFullTree nat nat | SizeMismatch nat nat | TreeRead

definition open_existing_tree ::
  "bytes \<Rightarrow> bytes \<Rightarrow> (nat \<times> bytes) list \<Rightarrow> tree_error + WeightIndex" where
  "open_existing_tree tree_file gguf tensors =
     (let (table, n_chunks) = header_table tensors [] 0
      in if n_chunks = 0 then Inl ZeroChunks
         else case compute_checkpoint_offsets n_chunks of
           None \<Rightarrow> Inl ZeroChunks
         | Some (checkpoints, total_levels) \<Rightarrow>
             let expected_size = sl_offset (last checkpoints) + 32;
                 actual_size = length tree_file
             in if actual_size > expected_size + expected_size
                then Inl (LegacyFullTree actual_size expected_size)
                else if actual_size \<noteq> expected_size then Inl (SizeMismatch expected_size actual_size)
                else case read_exact_at tree_file 32 (sl_offset (last checkpoints)) of
                       None \<Rightarrow> Inl TreeRead
                     | Some r_t \<Rightarrow>
                         Inr \<lparr>wi_n_chunks = n_chunks, wi_r_t = r_t, wi_chunks = Gguf gguf table,
                              wi_tree_file = tree_file, wi_checkpoints = checkpoints,
                              wi_total_levels = total_levels\<rparr>)"

text \<open>\<open>build_from_gguf\<close> as a whole: a cached tree that opens is used, any other is rebuilt.\<close>

definition load_index ::
  "(bytes \<Rightarrow> hash) \<Rightarrow> bytes option \<Rightarrow> bytes \<Rightarrow> (nat \<times> bytes) list \<Rightarrow> WeightIndex option" where
  "load_index blake3 cached gguf tensors =
     (case cached of
        None \<Rightarrow> build_from_gguf blake3 gguf tensors
      | Some tree_file \<Rightarrow>
          (case open_existing_tree tree_file gguf tensors of
             Inr idx \<Rightarrow> Some idx
           | Inl _ \<Rightarrow> build_from_gguf blake3 gguf tensors))"

section \<open>Aligned batches\<close>

lemma collect_Some: "collect (map (\<lambda>x. Some (f x)) xs) = Some (map f xs)"
  by (induction xs) auto

lemma collect_cong:
  "(\<And>x. x \<in> set xs \<Longrightarrow> g x = Some (f x)) \<Longrightarrow> collect (map g xs) = Some (map f xs)"
  by (induction xs) auto

lemma next_level_drop: "next_level blake3 (drop (2 * a) L) = drop a (next_level blake3 L)"
proof (induction blake3 L arbitrary: a rule: next_level.induct)
  case (3 blake3 x y rest)
  then show ?case by (cases a) simp_all
qed (auto simp: drop_Cons')

lemma next_level_take: "next_level blake3 (take (2 * b) L) = take b (next_level blake3 L)"
proof (induction blake3 L arbitrary: b rule: next_level.induct)
  case (3 blake3 x y rest)
  then show ?case by (cases b) simp_all
qed (auto simp: take_Cons')

lemma next_level_slice: "next_level blake3 (slice (2 * a) (2 * b) L) = slice a b (next_level blake3 L)"
  using next_level_take [of blake3 "b - a" "drop (2 * a) L"]
  by (simp add: slice_def next_level_drop right_diff_distrib')

lemma level_at_slice:
  "level_at blake3 (slice (a * 2 ^ r) (b * 2 ^ r) L) r = slice a b (level_at blake3 L r)"
proof (induction r arbitrary: L)
  case (Suc r)
  have "next_level blake3 (slice (a * 2 ^ Suc r) (b * 2 ^ Suc r) L) =
      slice (a * 2 ^ r) (b * 2 ^ r) (next_level blake3 L)"
    using next_level_slice [of blake3 "a * 2 ^ r" "b * 2 ^ r" L] by (simp add: ac_simps)
  then show ?case using Suc.IH [of "next_level blake3 L"] by (simp only: level_at_next [symmetric])
qed simp

text \<open>Folding the nodes below position \<open>i\<close>, \<open>r\<close> levels up, gives the node at position \<open>i\<close>, also at the
  right edge where the batch is short: the carry of a lone node is part of the fold.\<close>

lemma fold_levels_aligned:
  assumes "i * 2 ^ r < length L"
  shows "fold_levels blake3 (slice (i * 2 ^ r) (Suc i * 2 ^ r) L) r = Some (level_at blake3 L r ! i)"
proof -
  have "i * 2 ^ r div 2 ^ r < length (level_at blake3 L r)" by (rule length_level_at_less [OF assms])
  then have i: "i < length (level_at blake3 L r)" by simp
  have "(next_level blake3 ^^ r) (slice (i * 2 ^ r) (Suc i * 2 ^ r) L) = slice i (Suc i) (level_at blake3 L r)"
    using level_at_slice [of blake3 i r "Suc i" L] by (simp only: level_at_def)
  also have "\<dots> = [level_at blake3 L r ! i]"
    using i by (simp add: slice_def take_Suc hd_drop_conv_nth)
  finally show ?thesis by (simp add: fold_levels_def)
qed

lemma slice_min: "length L = n \<Longrightarrow> slice a (min b n) L = slice a b L"
  by (auto simp: slice_def min_def)

lemma map_nth_slice: "b \<le> length L \<Longrightarrow> map ((!) L) [a..<b] = slice a b L"
  by (rule nth_equalityI) (auto simp: nth_slice)

section \<open>The checkpoint layout\<close>

text \<open>The levels that are stored, and the entry of a level, for a tree with \<open>n\<close> leaves.\<close>

definition node_count :: "nat \<Rightarrow> nat \<Rightarrow> nat" where
  "node_count n lv = (n + 2 ^ lv - 1) div 2 ^ lv"

definition stored :: "nat \<Rightarrow> nat \<Rightarrow> bool" where
  "stored n lv \<longleftrightarrow> (lv > 0 \<and> CHECKPOINT_INTERVAL dvd lv) \<or> lv = height n"

definition stored_levels :: "nat \<Rightarrow> nat \<Rightarrow> nat \<Rightarrow> nat list" where
  "stored_levels n a b = filter (stored n) [a..<b]"

definition checkpoint_at :: "nat \<Rightarrow> nat \<Rightarrow> StoredLevel" where
  "checkpoint_at n lv = \<lparr>sl_level = lv,
     sl_offset = 32 * sum_list (map (node_count n) (stored_levels n 0 lv)), sl_count = node_count n lv\<rparr>"

lemma checkpoint_at_sel [simp]:
  "sl_level (checkpoint_at n lv) = lv" "sl_count (checkpoint_at n lv) = node_count n lv"
  by (simp_all add: checkpoint_at_def)

lemma node_count_0 [simp]: "node_count n 0 = n"
  by (simp add: node_count_def)

lemma node_count_Suc: "node_count n (Suc lv) = div_ceil (node_count n lv) 2"
  using ceil_half [of n lv] by (simp only: node_count_def div_ceil_2)

lemma node_count_level: "length (level_at blake3 ls lv) = node_count (length ls) lv"
  by (simp add: node_count_def length_level_at)

lemma node_count_pos: "0 < n \<Longrightarrow> 0 < node_count n lv"
  by (induction lv) (auto simp: node_count_Suc div_ceil_2)

lemma halve_ceil_node_count: "halve_ceil k (node_count n lv) = node_count n (lv + k)"
  by (induction k arbitrary: lv) (simp_all flip: node_count_Suc)

lemma count_at_level_eq: "count_at_level idx lv = node_count (wi_n_chunks idx) lv"
  using halve_ceil_node_count [of lv "wi_n_chunks idx" 0] by (simp add: count_at_level_def)

lemma height_node_count: "lv \<le> height n \<Longrightarrow> height (node_count n lv) = height n - lv"
proof (induction lv)
  case (Suc lv)
  then have "height (node_count n lv) = Suc (height n - Suc lv)" by simp
  then show ?case
    by (auto simp: height.simps [of "node_count n lv"] node_count_Suc div_ceil_2 split: if_splits)
qed simp

lemma height_0_iff: "height n = 0 \<longleftrightarrow> n \<le> 1"
  by (subst height.simps) auto

lemma node_count_1_iff:
  assumes "0 < n" and "lv \<le> height n"
  shows "node_count n lv = 1 \<longleftrightarrow> lv = height n"
  using height_node_count [OF assms(2)] height_0_iff [of "node_count n lv"]
    node_count_pos [OF assms(1), of lv] assms(2) by auto

lemma stored_levels_split: "a \<le> b \<Longrightarrow> stored_levels n a (Suc b) =
    stored_levels n a b @ (if stored n b then [b] else [])"
  by (simp add: stored_levels_def)

lemma stored_levels_Cons: "a < b \<Longrightarrow> stored_levels n a b =
    (if stored n a then [a] else []) @ stored_levels n (Suc a) b"
  by (simp add: stored_levels_def upt_conv_Cons)

lemma mem_stored_levels: "lv \<in> set (stored_levels n a b) \<longleftrightarrow> a \<le> lv \<and> lv < b \<and> stored n lv"
  by (auto simp: stored_levels_def)

lemma checkpoint_loop_eq:
  assumes "0 < n"
  shows "lv \<le> height n \<Longrightarrow>
    checkpoint_loop (node_count n lv) (32 * sum_list (map (node_count n) (stored_levels n 0 lv))) lv =
      Some (map (checkpoint_at n) (stored_levels n lv (Suc (height n))), Suc (height n))"
proof (induction "height n - lv" arbitrary: lv)
  case 0
  then have lv: "lv = height n" by simp
  then have one: "node_count n lv = 1" using node_count_1_iff [OF assms 0(2)] by simp
  show ?case
    by (subst checkpoint_loop.simps)
      (simp add: one stored_levels_def stored_def lv [symmetric] checkpoint_at_def)
next
  case (Suc d)
  then have lt: "lv < height n" by simp
  then have ne: "node_count n lv \<noteq> 1" using node_count_1_iff [OF assms, of lv] by simp
  have pos: "node_count n lv \<noteq> 0" using node_count_pos [OF assms, of lv] by simp
  have st: "stored n lv \<longleftrightarrow> lv > 0 \<and> CHECKPOINT_INTERVAL dvd lv" using lt by (simp add: stored_def)
  have off: "32 * sum_list (map (node_count n) (stored_levels n 0 (Suc lv))) =
      32 * sum_list (map (node_count n) (stored_levels n 0 lv)) + (if stored n lv then node_count n lv * 32 else 0)"
    by (simp add: stored_levels_split)
  have IH: "checkpoint_loop (node_count n (Suc lv))
      (32 * sum_list (map (node_count n) (stored_levels n 0 (Suc lv)))) (Suc lv) =
      Some (map (checkpoint_at n) (stored_levels n (Suc lv) (Suc (height n))), Suc (height n))"
    using Suc lt by (intro Suc.hyps(1)) auto
  show ?case
    unfolding stored_levels_Cons [OF less_SucI [OF lt], of n]
    by (subst checkpoint_loop.simps)
      (use IH ne pos in \<open>auto simp: off node_count_Suc Let_def st checkpoint_at_def\<close>)
qed

lemma compute_checkpoint_offsets_eq:
  "0 < n \<Longrightarrow> compute_checkpoint_offsets n =
     Some (map (checkpoint_at n) (stored_levels n 0 (Suc (height n))), Suc (height n))"
  using checkpoint_loop_eq [of n 0] by (simp add: compute_checkpoint_offsets_def stored_levels_def)

lemma node_count_add: "node_count (node_count n j) k = node_count n (j + k)"
  using halve_ceil_node_count [of k "node_count n j" 0] halve_ceil_node_count [of k n j] by simp

lemma node_count_half: "node_count (Suc n div 2) lv = node_count n (Suc lv)"
  using node_count_add [of n 1 lv] by (simp add: node_count_Suc div_ceil_2)

lemma less_node_count_iff: "i < node_count n r \<longleftrightarrow> i * 2 ^ r < n"
  using less_div_ceil_iff [of "2 ^ r" i n] by (simp add: node_count_def div_ceil_def)

section \<open>The checkpoint file\<close>

definition tree_prefix :: "(bytes \<Rightarrow> hash) \<Rightarrow> hash list \<Rightarrow> nat \<Rightarrow> bytes" where
  "tree_prefix blake3 ls m =
     concat (map (\<lambda>lv. concat (level_at blake3 ls lv)) (stored_levels (length ls) 0 m))"

lemma slice_concat_uniform:
  assumes "\<forall>x \<in> set B. length x = k" and "i < length B"
  shows "slice (length A + i * k) (length A + i * k + k) (A @ concat B @ C) = B ! i"
proof -
  have B: "B = take i B @ B ! i # drop (Suc i) B" by (rule id_take_nth_drop [OF assms(2)])
  have "\<forall>x \<in> set (take i B). length x = k" using assms(1) by (meson in_set_takeD)
  then have len: "length (concat (take i B)) = i * k"
    using assms(2) concat_length_uniform [of "take i B" k] by simp
  have "length (B ! i) = k" using assms by simp
  moreover have "A @ concat B @ C = (A @ concat (take i B)) @ B ! i @ concat (drop (Suc i) B) @ C"
    by (subst (1) B) (simp only: concat_append concat.simps append_assoc)
  ultimately show ?thesis by (simp only: slice_def) (simp add: len)
qed

lemma read_concat:
  assumes "\<forall>x \<in> set B. length x = 32" and "i < length B"
  shows "read_exact_at (A @ concat B @ C) 32 (length A + i * 32) = Some (B ! i)"
proof -
  have "i * 32 + 32 \<le> length (concat B)"
    using concat_length_uniform [OF assms(1)] assms(2) by simp
  then show ?thesis
    using slice_concat_uniform [OF assms, of A C] by (simp add: read_exact_at_def)
qed

lemma level_at_32:
  assumes "digest32 blake3" and "\<forall>x \<in> set ls. length x = 32"
  shows "\<forall>x \<in> set (level_at blake3 ls lv). length x = 32"
  using length_level_elem [OF assms] by blast

lemma length_tree_prefix:
  assumes "digest32 blake3" and "\<forall>x \<in> set ls. length x = 32"
  shows "length (tree_prefix blake3 ls lv) = sl_offset (checkpoint_at (length ls) lv)"
proof -
  have "length (concat (level_at blake3 ls l)) = 32 * node_count (length ls) l" for l
    using concat_length_uniform [OF level_at_32 [OF assms, of l]] by (simp add: node_count_level)
  then show ?thesis
    by (simp add: tree_prefix_def checkpoint_at_def length_concat comp_def sum_list_const_mult)
qed

lemma stored_levels_append:
  "a \<le> b \<Longrightarrow> b \<le> c \<Longrightarrow> stored_levels n a c = stored_levels n a b @ stored_levels n b c"
  unfolding stored_levels_def by (metis filter_append le_Suc_ex upt_add_eq_append)

lemma tree_prefix_split:
  "stored (length ls) lv \<Longrightarrow> lv < m \<Longrightarrow> \<exists>rest. tree_prefix blake3 ls m =
     tree_prefix blake3 ls lv @ concat (level_at blake3 ls lv) @ rest"
  using stored_levels_append [of 0 lv m "length ls"] stored_levels_Cons [of lv m "length ls"]
  by (simp add: tree_prefix_def)

lemma read_tree_node:
  assumes "digest32 blake3" and "\<forall>x \<in> set ls. length x = 32"
    and "stored (length ls) lv" and "lv < m" and i: "i < node_count (length ls) lv"
  shows "read_exact_at (tree_prefix blake3 ls m) 32 (sl_offset (checkpoint_at (length ls) lv) + i * 32) =
    Some (level_at blake3 ls lv ! i)"
proof -
  obtain rest where t: "tree_prefix blake3 ls m =
      tree_prefix blake3 ls lv @ concat (level_at blake3 ls lv) @ rest"
    using tree_prefix_split [OF assms(3,4)] by blast
  have "i < length (level_at blake3 ls lv)" using i by (simp add: node_count_level)
  from read_concat [OF level_at_32 [OF assms(1,2)] this, of "tree_prefix blake3 ls lv" rest]
  show ?thesis by (simp add: t length_tree_prefix [OF assms(1,2)])
qed

section \<open>Paths from the sparse tree\<close>

text \<open>
  An index of the chunks \<open>cs\<close>: its reads return the chunks, its layout is the checkpoint layout,
  and the file holds the stored levels of the dense tree.
\<close>

definition index_ok :: "(bytes \<Rightarrow> hash) \<Rightarrow> bytes list \<Rightarrow> WeightIndex \<Rightarrow> bool" where
  "index_ok blake3 cs idx \<longleftrightarrow>
     cs \<noteq> [] \<and> (\<forall>c \<in> set cs. length c = 32) \<and> wi_n_chunks idx = length cs \<and>
     (\<forall>i < length cs. read_chunk_bytes idx i = Some (cs ! i)) \<and>
     wi_checkpoints idx =
       map (checkpoint_at (length cs)) (stored_levels (length cs) 0 (Suc (height (length cs)))) \<and>
     wi_total_levels idx = Suc (height (length cs)) \<and>
     wi_tree_file idx = tree_prefix blake3 (map (blake blake3) cs) (Suc (height (length cs))) \<and>
     wi_r_t idx = root_loop blake3 (map (blake blake3) cs)"

lemma find_map_level:
  "lv \<in> set xs \<Longrightarrow> find (\<lambda>cp. sl_level cp = lv) (map (checkpoint_at n) xs) = Some (checkpoint_at n lv)"
  by (induction xs) auto

lemma find_checkpoint_ok:
  "index_ok blake3 cs idx \<Longrightarrow> stored (length cs) lv \<Longrightarrow> lv \<le> height (length cs) \<Longrightarrow>
     find_checkpoint idx lv = Some (checkpoint_at (length cs) lv)"
  by (simp add: find_checkpoint_def index_ok_def find_map_level mem_stored_levels)

text \<open>The sibling of the node above leaf \<open>i\<close> at level \<open>lv\<close>, the node itself at the right edge.\<close>

definition sibling_index :: "nat \<Rightarrow> nat \<Rightarrow> nat" where
  "sibling_index count j =
     (let s = (if even j then j + 1 else j - 1) in if s < count then s else j)"

lemma sibling_index_less: "j < count \<Longrightarrow> sibling_index count j < count"
  by (simp add: sibling_index_def Let_def)

lemma merkle_proof_levels:
  "merkle_proof blake3 ls i =
     map (\<lambda>lv. level_at blake3 ls lv ! sibling_index (node_count (length ls) lv) (i div 2 ^ lv))
       [0..<height (length ls)]"
proof (induction blake3 ls i rule: merkle_proof.induct)
  case (1 blake3 ls i)
  show ?case
  proof (cases "length ls > 1")
    case True
    let ?f = "\<lambda>lv. level_at blake3 ls lv ! sibling_index (node_count (length ls) lv) (i div 2 ^ lv)"
    have h: "height (length ls) = Suc (height ((length ls + 1) div 2))"
      using True by (simp add: height.simps [of "length ls"])
    have "merkle_proof blake3 (next_level blake3 ls) (i div 2) =
        map (?f \<circ> Suc) [0..<height ((length ls + 1) div 2)]"
      using 1 [OF True refl refl]
      by (simp add: level_at_next div_mult2_eq node_count_half)
    moreover have "map ?f [0..<Suc m] = ?f 0 # map (?f \<circ> Suc) [0..<m]" for m
      by (simp only: upt_conv_Cons [OF zero_less_Suc] list.map map_Suc_upt [symmetric] map_map)
    ultimately show ?thesis
      unfolding h using True
      by (simp add: merkle_proof.simps [of blake3 ls] sibling_index_def Let_def)
  next
    case False
    then show ?thesis
      by (simp add: merkle_proof.simps [of blake3 ls] height.simps [of "length ls"])
  qed
qed

lemma compute_subtree_hash_ok:
  assumes ok: "index_ok blake3 cs idx" and dig: "digest32 blake3"
    and src: "src = 0 \<or> src < height (length cs) \<and> CHECKPOINT_INTERVAL dvd src"
    and j: "j < node_count (length cs) (src + r)"
  shows "compute_subtree_hash blake3 idx (j * 2 ^ r) r src =
    Some (level_at blake3 (map (blake blake3) cs) (src + r) ! j)"
proof -
  let ?ls = "map (blake blake3) cs" and ?n = "length cs"
  let ?L = "level_at blake3 ?ls src"
  have L: "length ?L = node_count ?n src" by (simp add: node_count_level)
  have start: "j * 2 ^ r < node_count ?n src"
    using j by (simp add: less_node_count_iff flip: node_count_add)
  have ls32: "\<forall>x \<in> set ?ls. length x = 32" using dig by (auto simp: digest32_def blake_def)
  define b where "b = min (j * 2 ^ r + 2 ^ r) (node_count ?n src)"
  have nodes: "map ((!) ?L) [j * 2 ^ r..<b] = slice (j * 2 ^ r) (Suc j * 2 ^ r) ?L"
    using slice_min [OF L, of "j * 2 ^ r" "Suc j * 2 ^ r"]
    by (subst map_nth_slice) (simp_all add: L b_def add.commute)
  have fold: "fold_levels blake3 (map ((!) ?L) [j * 2 ^ r..<b]) r =
      Some (level_at blake3 ?ls (src + r) ! j)"
    unfolding nodes using start fold_levels_aligned [of j r ?L blake3] by (simp add: L level_at_add)
  show ?thesis
  proof (cases "src = 0")
    case True
    then have n: "node_count ?n src = ?n" by simp
    have "collect (map (\<lambda>i. map_option (blake blake3) (read_chunk_bytes idx i)) [j * 2 ^ r..<b]) =
        Some (map ((!) ?L) [j * 2 ^ r..<b])"
      using ok by (intro collect_cong) (auto simp: index_ok_def True b_def n)
    with fold start True ok show ?thesis
      by (simp add: compute_subtree_hash_def Let_def index_ok_def b_def)
  next
    case False
    with src have st: "stored ?n src" "src < height ?n" by (auto simp: stored_def)
    have cp: "find_checkpoint idx src = Some (checkpoint_at ?n src)"
      using find_checkpoint_ok [OF ok st(1)] st(2) by simp
    have tf: "wi_tree_file idx = tree_prefix blake3 ?ls (Suc (height ?n))" using ok by (simp add: index_ok_def)
    have "read_exact_at (wi_tree_file idx) 32 (sl_offset (checkpoint_at ?n src) + i * 32) = Some (?L ! i)"
      if "i < b" for i
      unfolding tf using read_tree_node [OF dig ls32, of src "Suc (height ?n)" i] st that
      by (simp add: b_def)
    then have "collect (map (\<lambda>i. read_exact_at (wi_tree_file idx) 32
          (sl_offset (checkpoint_at ?n src) + i * 32)) [j * 2 ^ r..<b]) = Some (map ((!) ?L) [j * 2 ^ r..<b])"
      by (intro collect_cong) auto
    with fold start False show ?thesis
      by (simp add: compute_subtree_hash_def Let_def cp b_def)
  qed
qed

lemma path_node_ok:
  assumes ok: "index_ok blake3 cs idx" and dig: "digest32 blake3"
    and lv: "lv < height (length cs)" and j: "j < node_count (length cs) lv"
  shows "path_node blake3 idx lv j =
    Some (level_at blake3 (map (blake blake3) cs) lv ! sibling_index (node_count (length cs) lv) j)"
proof -
  let ?ls = "map (blake blake3) cs" and ?n = "length cs"
  let ?s = "sibling_index (node_count ?n lv) j"
  have s: "?s < node_count ?n lv" using j by (rule sibling_index_less)
  have tl: "wi_total_levels idx = Suc (height ?n)" "wi_n_chunks idx = ?n"
    and tf: "wi_tree_file idx = tree_prefix blake3 ?ls (Suc (height ?n))"
    using ok by (simp_all add: index_ok_def)
  have ls32: "\<forall>x \<in> set ?ls. length x = 32" using dig by (auto simp: digest32_def blake_def)
  show ?thesis
  proof (cases "lv > 0 \<and> CHECKPOINT_INTERVAL dvd lv")
    case True
    then have st: "stored ?n lv" by (simp add: stored_def)
    have "find_checkpoint idx lv = Some (checkpoint_at ?n lv)"
      using find_checkpoint_ok [OF ok st] lv by simp
    moreover have "read_exact_at (wi_tree_file idx) 32 (sl_offset (checkpoint_at ?n lv) + ?s * 32) =
        Some (level_at blake3 ?ls lv ! ?s)"
      unfolding tf using read_tree_node [OF dig ls32, of lv "Suc (height ?n)" ?s] st lv s by simp
    ultimately show ?thesis
      using True by (simp add: path_node_def Let_def tl sibling_index_def)
  next
    case False
    define src where "src = lv div CHECKPOINT_INTERVAL * CHECKPOINT_INTERVAL"
    have sr: "src + (lv - src) = lv" by (simp add: src_def CHECKPOINT_INTERVAL_def)
    have "src = 0 \<or> src < height ?n \<and> CHECKPOINT_INTERVAL dvd src"
      using lv sr by (cases "src = 0") (auto simp: src_def intro: le_less_trans [OF div_times_less_eq_dividend])
    from compute_subtree_hash_ok [OF ok dig this, of ?s "lv - src"] s
    have "compute_subtree_hash blake3 idx (?s * 2 ^ (lv - src)) (lv - src) src = Some (level_at blake3 ?ls lv ! ?s)"
      by (simp add: sr)
    then show ?thesis
      using False lv by (auto simp: path_node_def Let_def tl sibling_index_def count_at_level_eq src_def)
  qed
qed

lemma merkle_path_dense:
  assumes ok: "index_ok blake3 cs idx" and dig: "digest32 blake3" and off: "off < length cs"
  shows "merkle_path blake3 idx off = Some (merkle_proof blake3 (map (blake blake3) cs) off)"
proof -
  have "off div 2 ^ lv < node_count (length cs) lv" for lv
    using length_level_at_less [of off "map (blake blake3) cs" lv blake3] off by (simp add: node_count_level)
  then have "path_node blake3 idx lv (off div 2 ^ lv) =
      Some (level_at blake3 (map (blake blake3) cs) lv ! sibling_index (node_count (length cs) lv) (off div 2 ^ lv))"
    if "lv < height (length cs)" for lv
    using path_node_ok [OF ok dig that] by blast
  then show ?thesis
    using ok unfolding merkle_path_def merkle_proof_levels
    by (simp add: index_ok_def) (rule collect_cong, simp)
qed

section \<open>Building the tree\<close>

subsection \<open>Phase 0\<close>

definition phase0_state :: "(bytes \<Rightarrow> hash) \<Rightarrow> hash list \<Rightarrow> nat \<times> hash list \<times> bytes" where
  "phase0_state blake3 ls =
     (length ls, drop (length ls div 64 * 64) ls,
      concat (take (length ls div 64) (level_at blake3 ls CHECKPOINT_INTERVAL)))"

lemma pow_interval [simp]: "2 ^ CHECKPOINT_INTERVAL = (64 :: nat)"
  by (simp add: CHECKPOINT_INTERVAL_def)

lemma take_level_at_append:
  assumes "q * 2 ^ r \<le> length ls"
  shows "take q (level_at blake3 (ls @ xs) r) = take q (level_at blake3 ls r)"
proof -
  have "slice 0 (q * 2 ^ r) (ls @ xs) = slice 0 (q * 2 ^ r) ls"
    using assms by (rule slice_append_left)
  then have "slice 0 q (level_at blake3 (ls @ xs) r) = slice 0 q (level_at blake3 ls r)"
    by (metis level_at_slice mult_0)
  then show ?thesis by (simp add: slice_def)
qed

lemma phase0_chunk_state:
  "phase0_chunk blake3 c (phase0_state blake3 ls) = Some (phase0_state blake3 (ls @ [blake blake3 c]))"
proof -
  define q where "q = length ls div 64"
  define ls' where "ls' = ls @ [blake blake3 c]"
  define lv where "lv = level_at blake3 ls' CHECKPOINT_INTERVAL"
  have q: "q * 64 \<le> length ls" "length ls < q * 64 + 64" unfolding q_def by linarith+
  have batch: "drop (q * 64) ls @ [blake blake3 c] = drop (q * 64) ls'" using q by (simp add: ls'_def)
  have written: "take q (level_at blake3 ls CHECKPOINT_INTERVAL) = take q lv"
    unfolding lv_def ls'_def using q take_level_at_append [of q CHECKPOINT_INTERVAL ls blake3] by simp
  show ?thesis
  proof (cases "length ls' = q * 64 + 64")
    case True
    then have q': "length ls' div 64 = Suc q" and len: "length ls = q * 64 + 63" by (auto simp: ls'_def)
    have "drop (q * 64) ls' = slice (q * 2 ^ CHECKPOINT_INTERVAL) (Suc q * 2 ^ CHECKPOINT_INTERVAL) ls'"
      using True by (simp add: slice_def)
    moreover have "q * 2 ^ CHECKPOINT_INTERVAL < length ls'" using True by simp
    ultimately have fl: "fold_levels blake3 (drop (q * 64) ls') CHECKPOINT_INTERVAL = Some (lv ! q)"
      using fold_levels_aligned [of q CHECKPOINT_INTERVAL ls' blake3] by (simp only: lv_def)
    have "q < length lv"
      using True by (simp add: lv_def node_count_level less_node_count_iff)
    then have "concat (take q lv) @ lv ! q = concat (take (Suc q) lv)"
      by (simp add: take_Suc_conv_app_nth)
    with fl True q' len show ?thesis
      by (simp add: phase0_state_def batch written Let_def flip: q_def ls'_def lv_def)
  next
    case False
    then have len: "length ls' div 64 = q" "length ls' - q * 64 \<noteq> 64" "Suc (length ls) = length ls'"
      using q by (auto simp: ls'_def q_def)
    then show ?thesis
      by (simp add: phase0_state_def batch written Let_def flip: q_def ls'_def lv_def)
  qed
qed

lemma phase0_chunks_state:
  "phase0_chunks blake3 cs (phase0_state blake3 ls) = Some (phase0_state blake3 (ls @ map (blake blake3) cs))"
  by (induction cs arbitrary: ls) (simp_all add: phase0_chunk_state)

definition canonical :: "(nat \<times> bytes) list \<Rightarrow> bytes list" where
  "canonical tensors = concat (map (full_chunks \<circ> snd) tensors)"

lemma canonical_simps [simp]:
  "canonical [] = []" "canonical (t # ts) = full_chunks (snd t) @ canonical ts"
  by (simp_all add: canonical_def)

lemma length_full_chunks [simp]: "length (full_chunks b) = length b div 32"
  by (simp add: full_chunks_def)

lemma header_table_snd: "snd (header_table ts table n) = n + length (canonical ts)"
  by (induction ts table n rule: header_table.induct) (simp_all add: Let_def)

lemma phase0_tensors_state:
  "phase0_tensors blake3 ts table (phase0_state blake3 ls) =
     Some (fst (header_table ts table (length ls)),
       phase0_state blake3 (ls @ map (blake blake3) (canonical ts)))"
proof (induction ts arbitrary: table ls)
  case (Cons t ts)
  obtain fo b where t: "t = (fo, b)" by (cases t)
  have "fst (phase0_state blake3 ls) = length ls" by (simp add: phase0_state_def)
  then show ?case
    by (simp add: t phase0_chunks_state Cons.IH Let_def)
qed simp

text \<open>After the final partial batch the file holds the whole level 6.\<close>

lemma phase0_file:
  assumes "ls \<noteq> []" and "phase0_state blake3 ls = (n, batch, written)"
  shows "(if batch \<noteq> [] then map_option (\<lambda>node. written @ node) (fold_levels blake3 batch CHECKPOINT_INTERVAL)
          else Some written) = Some (concat (level_at blake3 ls CHECKPOINT_INTERVAL))"
proof -
  define q where "q = length ls div 64"
  define lv where "lv = level_at blake3 ls CHECKPOINT_INTERVAL"
  have q: "q * 64 \<le> length ls" "length ls < q * 64 + 64" unfolding q_def by linarith+
  have st: "batch = drop (q * 64) ls" "written = concat (take q lv)"
    using assms(2) by (auto simp: phase0_state_def q_def lv_def)
  have len: "i < length lv \<longleftrightarrow> i * 64 < length ls" for i
    by (simp add: lv_def node_count_level less_node_count_iff)
  show ?thesis
  proof (cases "q * 64 < length ls")
    case True
    have "drop (q * 64) ls = slice (q * 2 ^ CHECKPOINT_INTERVAL) (Suc q * 2 ^ CHECKPOINT_INTERVAL) ls"
      using q by (simp add: slice_def)
    then have "fold_levels blake3 batch CHECKPOINT_INTERVAL = Some (lv ! q)"
      using fold_levels_aligned [of q CHECKPOINT_INTERVAL ls blake3] True by (simp add: st lv_def)
    moreover have "take q lv @ [lv ! q] = lv"
      using len [of q] len [of "Suc q"] True q
      by (subst take_Suc_conv_app_nth [symmetric]) auto
    then have "written @ lv ! q = concat lv"
      unfolding st by (metis append_Nil2 concat.simps concat_append)
    ultimately show ?thesis using True by (simp add: st lv_def)
  next
    case False
    then have "length lv \<le> q" using len [of q] by simp
    with False show ?thesis by (simp add: st lv_def)
  qed
qed

subsection \<open>The higher levels\<close>

lemma finalize_batches_level:
  assumes reads: "\<And>i. i < length L \<Longrightarrow> read_exact_at file 32 (off + i * 32) = Some (L ! i)"
  shows "finalize_batches blake3 file off (length L) r (i * 2 ^ r) = Some (concat (drop i (level_at blake3 L r)))"
proof (induction "length L - i * 2 ^ r" arbitrary: i rule: less_induct)
  case less
  let ?lv = "level_at blake3 L r"
  have len: "i < length ?lv \<longleftrightarrow> i * 2 ^ r < length L"
    by (simp add: node_count_level less_node_count_iff)
  show ?case
  proof (cases "i * 2 ^ r < length L")
    case False
    then show ?thesis using len by (simp add: finalize_batches.simps)
  next
    case True
    define a where "a = i * 2 ^ r"
    define t where "t = min (2 ^ r) (length L - a)"
    have "map (\<lambda>j. L ! (a + j)) [0..<t] = slice a (a + t) L"
      by (rule nth_equalityI) (auto simp: t_def nth_slice)
    also have "\<dots> = slice a (Suc i * 2 ^ r) L"
      using True by (auto simp: slice_def t_def a_def min_def)
    finally have batch: "map (\<lambda>j. L ! (a + j)) [0..<t] = slice a (Suc i * 2 ^ r) L" .
    have coll: "collect (map (\<lambda>j. read_exact_at file 32 (off + (a + j) * 32)) [0..<t]) =
        Some (slice a (Suc i * 2 ^ r) L)"
      unfolding batch [symmetric] by (rule collect_cong, rule reads) (auto simp: t_def)
    have fl: "fold_levels blake3 (slice a (Suc i * 2 ^ r) L) r = Some (?lv ! i)"
      unfolding a_def by (rule fold_levels_aligned [OF True])
    have rest: "finalize_batches blake3 file off (length L) r (a + t) = Some (concat (drop (Suc i) ?lv))"
    proof (cases "Suc i * 2 ^ r \<le> length L")
      case True
      then have "a + t = Suc i * 2 ^ r" by (simp add: a_def t_def)
      moreover have "length L - Suc i * 2 ^ r < length L - i * 2 ^ r"
        using \<open>i * 2 ^ r < length L\<close> by (intro diff_less_mono2) simp_all
      ultimately show ?thesis using less [of "Suc i"] by metis
    next
      case False
      with True have "a + t = length L" by (simp add: a_def t_def)
      moreover have "length ?lv \<le> Suc i"
        using False by (simp add: node_count_level not_less [symmetric] less_node_count_iff)
      ultimately show ?thesis by (simp add: finalize_batches.simps)
    qed
    have "?lv ! i @ concat (drop (Suc i) ?lv) = concat (drop i ?lv)"
      using True len by (simp add: Cons_nth_drop_Suc [symmetric])
    with True coll fl rest show ?thesis
      unfolding a_def [symmetric]
      by (subst finalize_batches.simps) (simp add: Let_def flip: a_def t_def)
  qed
qed

lemma stored_levels_head:
  assumes "stored_levels n x y = b # bs"
  shows "x \<le> b \<and> b < y \<and> stored n b \<and> bs = stored_levels n (Suc b) y \<and> stored_levels n x b = []"
proof -
  have b: "x \<le> b" "b < y" "stored n b" using assms mem_stored_levels [of b n x y] by auto
  then have eq: "stored_levels n x y = stored_levels n x b @ b # stored_levels n (Suc b) y"
    by (simp add: stored_levels_append [of x b y] stored_levels_Cons [of b y])
  have "stored_levels n x b = []"
  proof (cases "stored_levels n x b")
    case (Cons c cs)
    with eq assms have "c = b" by simp
    with Cons mem_stored_levels [of c n x b] show ?thesis by simp
  qed
  with eq assms b show ?thesis by simp
qed

lemma finalize_loop_levels:
  assumes dig: "digest32 blake3" and ls32: "\<forall>x \<in> set ls. length x = 32"
  defines "n \<equiv> length ls"
  shows "stored n a \<Longrightarrow>
    finalize_loop blake3 (checkpoint_at n a) (map (checkpoint_at n) (stored_levels n (Suc a) m))
      (tree_prefix blake3 ls (Suc a)) = Some (tree_prefix blake3 ls (max (Suc a) m))"
proof (induction "stored_levels n (Suc a) m" arbitrary: a)
  case Nil
  then have "stored_levels n 0 (max (Suc a) m) = stored_levels n 0 (Suc a)"
    using stored_levels_append [of 0 "Suc a" m n] by (cases "Suc a \<le> m") (simp_all add: max_def)
  with Nil show ?case by (simp add: tree_prefix_def n_def)
next
  case (Cons b bs)
  note hd = stored_levels_head [OF Cons.hyps(2) [symmetric]]
  let ?L = "level_at blake3 ls a"
  have L: "length ?L = node_count n a" by (simp add: node_count_level n_def)
  have "finalize_batches blake3 (tree_prefix blake3 ls (Suc a)) (sl_offset (checkpoint_at n a))
      (length ?L) (b - a) (0 * 2 ^ (b - a)) = Some (concat (drop 0 (level_at blake3 ?L (b - a))))"
    using Cons.prems read_tree_node [OF dig ls32, of a "Suc a"]
    by (intro finalize_batches_level) (simp add: L n_def)
  then have fb: "finalize_batches blake3 (tree_prefix blake3 ls (Suc a)) (sl_offset (checkpoint_at n a))
      (node_count n a) (b - a) 0 = Some (concat (level_at blake3 ls b))"
    using hd by (simp add: L level_at_add)
  have "stored_levels n 0 (Suc b) = stored_levels n 0 (Suc a) @ [b]"
    using hd stored_levels_append [of 0 "Suc a" b n] by (simp add: stored_levels_split)
  then have pre: "tree_prefix blake3 ls (Suc a) @ concat (level_at blake3 ls b) = tree_prefix blake3 ls (Suc b)"
    by (simp add: tree_prefix_def n_def)
  have "finalize_loop blake3 (checkpoint_at n b) (map (checkpoint_at n) (stored_levels n (Suc b) m))
      (tree_prefix blake3 ls (Suc b)) = Some (tree_prefix blake3 ls (max (Suc b) m))"
    using Cons.hyps(1) [of b] hd by blast
  moreover have "max (Suc b) m = max (Suc a) m" using hd by auto
  ultimately show ?case
    using hd by (simp add: Cons.hyps(2) [symmetric] fb pre)
qed

lemma stored_6_first:
  assumes "CHECKPOINT_INTERVAL \<le> height n"
  shows "stored_levels n 0 (Suc (height n)) =
    CHECKPOINT_INTERVAL # stored_levels n (Suc CHECKPOINT_INTERVAL) (Suc (height n))"
    and "stored_levels n 0 (Suc CHECKPOINT_INTERVAL) = [CHECKPOINT_INTERVAL]"
proof -
  have "stored n CHECKPOINT_INTERVAL" by (simp add: stored_def CHECKPOINT_INTERVAL_def)
  moreover have "stored_levels n 0 CHECKPOINT_INTERVAL = []"
    using assms by (auto simp: stored_levels_def filter_empty_conv stored_def CHECKPOINT_INTERVAL_def
        dest: dvd_imp_le)
  ultimately show "stored_levels n 0 (Suc CHECKPOINT_INTERVAL) = [CHECKPOINT_INTERVAL]"
    by (simp add: stored_levels_split)
  then show "stored_levels n 0 (Suc (height n)) =
      CHECKPOINT_INTERVAL # stored_levels n (Suc CHECKPOINT_INTERVAL) (Suc (height n))"
    using assms stored_levels_append [of 0 "Suc CHECKPOINT_INTERVAL" "Suc (height n)" n] by simp
qed

lemma last_stored: "last (stored_levels n 0 (Suc (height n))) = height n" "stored_levels n 0 (Suc (height n)) \<noteq> []"
  by (simp_all add: stored_levels_split stored_def)

lemma root_as_level: "ls \<noteq> [] \<Longrightarrow> level_at blake3 ls (height (length ls)) ! 0 = root_loop blake3 ls"
  by (simp add: root_loop_level_at)

text \<open>From level 6 on, the higher levels and the root are those of the dense tree.\<close>

lemma finalize_checkpoint_upper_ok:
  assumes dig: "digest32 blake3" and ls32: "\<forall>x \<in> set ls. length x = 32" and ne: "ls \<noteq> []"
    and h: "CHECKPOINT_INTERVAL \<le> height (length ls)"
  defines "n \<equiv> length ls"
  shows "finalize_checkpoint_upper blake3 (concat (level_at blake3 ls CHECKPOINT_INTERVAL)) n =
    Some (tree_prefix blake3 ls (Suc (height n)),
      map (checkpoint_at n) (stored_levels n 0 (Suc (height n))), Suc (height n), root_loop blake3 ls)"
proof -
  have n: "0 < n" using ne by (simp add: n_def)
  have six: "stored n CHECKPOINT_INTERVAL" by (simp add: stored_def CHECKPOINT_INTERVAL_def)
  have pre: "concat (level_at blake3 ls CHECKPOINT_INTERVAL) = tree_prefix blake3 ls (Suc CHECKPOINT_INTERVAL)"
    using stored_6_first(2) [OF h] by (simp add: tree_prefix_def)
  note lv = stored_6_first(1) [OF h, folded n_def]
  have loop: "finalize_loop blake3 (checkpoint_at n CHECKPOINT_INTERVAL)
      (map (checkpoint_at n) (stored_levels n (Suc CHECKPOINT_INTERVAL) (Suc (height n))))
      (tree_prefix blake3 ls (Suc CHECKPOINT_INTERVAL)) = Some (tree_prefix blake3 ls (Suc (height n)))"
    using finalize_loop_levels [OF dig ls32, folded n_def, OF six, of "Suc (height n)"] h
    by (simp add: n_def max_def)
  have top: "0 < node_count n (height n)" by (rule node_count_pos [OF n])
  have "read_exact_at (tree_prefix blake3 ls (Suc (height n))) 32 (sl_offset (checkpoint_at n (height n)) + 0 * 32) =
      Some (level_at blake3 ls (height n) ! 0)"
    unfolding n_def by (rule read_tree_node [OF dig ls32]) (use top in \<open>simp_all add: n_def stored_def\<close>)
  then have root: "read_exact_at (tree_prefix blake3 ls (Suc (height n))) 32 (sl_offset (checkpoint_at n (height n))) =
      Some (root_loop blake3 ls)"
    using root_as_level [OF ne] by (simp add: n_def)
  have lst: "last (map (checkpoint_at n) (stored_levels n 0 (Suc (height n)))) = checkpoint_at n (height n)"
    using last_stored [of n] by (simp add: last_map)
  show ?thesis
    unfolding finalize_checkpoint_upper_def compute_checkpoint_offsets_eq [OF n] pre
    using loop root lst by (simp add: lv)
qed

section \<open>Chunk reads\<close>

text \<open>The table of the tensors from chunk \<open>n\<close> on; \<open>gguf_holds\<close> is the documented layout of the file:
  the quantised bytes of every tensor lie at its offset.\<close>

fun entries :: "(nat \<times> bytes) list \<Rightarrow> nat \<Rightarrow> (nat \<times> nat) list" where
  "entries [] n = []"
| "entries ((fo, b) # ts) n =
     (if length b div 32 > 0 then [(n, fo)] else []) @ entries ts (n + length b div 32)"

definition gguf_holds :: "bytes \<Rightarrow> (nat \<times> bytes) list \<Rightarrow> bool" where
  "gguf_holds gguf tensors \<longleftrightarrow>
     (\<forall>(fo, b) \<in> set tensors. fo + length b \<le> length gguf \<and> slice fo (fo + length b) gguf = b)"

lemma header_table_entries: "fst (header_table ts table n) = table @ entries ts n"
  by (induction ts table n rule: header_table.induct) (simp_all add: Let_def)

lemma entries_ge: "(s, fo) \<in> set (entries ts n) \<Longrightarrow> n \<le> s"
  by (induction ts n rule: entries.induct) (auto split: if_splits)

lemma entries_hd: "(case entries ts n of [] \<Rightarrow> n + length (canonical ts) | (s, _) # _ \<Rightarrow> s) = n"
  by (induction ts n rule: entries.induct) (auto split: list.splits)

lemma partition_point_entries:
  assumes "off < m"
  shows "partition_point (\<lambda>(start, _). start \<le> off) (entries ts m) = 0"
proof (cases "entries ts m")
  case (Cons e es)
  obtain s fo where e: "e = (s, fo)" by (cases e)
  have "m \<le> s" using entries_ge [of s fo ts m] Cons e by simp
  with assms Cons e show ?thesis by (simp add: partition_point_def)
qed (simp add: partition_point_def)

text \<open>The binary search finds the tensor of a chunk; the table from there on is that of the tensors
  from it on.\<close>

lemma partition_point_tensor:
  "n \<le> off \<Longrightarrow> off < n + length (canonical ts) \<Longrightarrow>
     \<exists>j pre fo b post s. partition_point (\<lambda>(start, _). start \<le> off) (entries ts n) = Suc j \<and>
       ts = pre @ (fo, b) # post \<and> s = n + length (canonical pre) \<and>
       drop j (entries ts n) = (s, fo) # entries post (s + length b div 32) \<and>
       s \<le> off \<and> off < s + length b div 32"
proof (induction ts n rule: entries.induct)
  case (2 fo b ts n)
  let ?f = "length b div 32"
  show ?case
  proof (cases "off < n + ?f")
    case True
    then have "partition_point (\<lambda>(start, _). start \<le> off) (entries ts (n + ?f)) = 0"
      by (rule partition_point_entries)
    with True 2 have "partition_point (\<lambda>(start, _). start \<le> off) (entries ((fo, b) # ts) n) = Suc 0"
      by (simp add: partition_point_def)
    moreover have "drop 0 (entries ((fo, b) # ts) n) = (n, fo) # entries ts (n + ?f)" using True 2 by simp
    ultimately show ?thesis using True 2
      by (intro exI [of _ 0] exI [of _ "[]"] exI [of _ fo] exI [of _ b] exI [of _ ts] exI [of _ n]) simp
  next
    case False
    with 2 obtain j pre fo' b' post s where
      j: "partition_point (\<lambda>(start, _). start \<le> off) (entries ts (n + ?f)) = Suc j"
        "ts = pre @ (fo', b') # post" "s = n + ?f + length (canonical pre)"
        "drop j (entries ts (n + ?f)) = (s, fo') # entries post (s + length b' div 32)"
        "s \<le> off" "off < s + length b' div 32" by (auto simp: add.assoc)
    let ?k = "if ?f > 0 then 1 else 0"
    have "partition_point (\<lambda>(start, _). start \<le> off) (entries ((fo, b) # ts) n) = Suc (j + ?k)"
      using j(1) "2.prems" by (cases "?f = 0") (simp_all add: partition_point_def)
    moreover have "drop (j + ?k) (entries ((fo, b) # ts) n) = (s, fo') # entries post (s + length b' div 32)"
      using j(4) by (cases "?f = 0") simp_all
    moreover have "s = n + length (canonical ((fo, b) # pre))" using j(3) by simp
    ultimately show ?thesis using j(2,5,6) by (metis append_Cons)
  qed
qed simp

lemma read_tensor:
  assumes "gguf_holds gguf ts" and "(fo, b) \<in> set ts" and "x + k \<le> length b" and "0 < k"
  shows "read_exact_at gguf k (fo + x) = Some (slice x (x + k) b)"
proof -
  have b: "fo + length b \<le> length gguf" "slice fo (fo + length b) gguf = b"
    using assms(1,2) by (auto simp: gguf_holds_def)
  have "slice x (x + k) b = slice (fo + x) (fo + x + k) gguf"
    using slice_slice [of fo x k "fo + length b" gguf] assms(3) b(2) by simp
  with assms b(1) show ?thesis by (simp add: read_exact_at_def)
qed

lemma canonical_append: "canonical (xs @ ys) = canonical xs @ canonical ys"
  by (simp add: canonical_def)

lemma length_full_chunk: "c \<in> set (full_chunks b) \<Longrightarrow> length c = 32"
  by (auto simp: full_chunks_def)

lemma length_canonical: "c \<in> set (canonical ts) \<Longrightarrow> length c = 32"
  by (auto simp: canonical_def length_full_chunk)

lemma read_chunk_bytes_canonical:
  assumes "gguf_holds gguf ts" and "off < length (canonical ts)" and "wi_chunks idx = Gguf gguf (entries ts 0)"
  shows "read_chunk_bytes idx off = Some (canonical ts ! off)"
proof -
  obtain j pre fo b post s where
    j: "partition_point (\<lambda>(start, _). start \<le> off) (entries ts 0) = Suc j"
      "ts = pre @ (fo, b) # post" "s = length (canonical pre)"
      "drop j (entries ts 0) = (s, fo) # entries post (s + length b div 32)"
      "s \<le> off" "off < s + length b div 32"
    using partition_point_tensor [of 0 off ts] assms(2) by auto
  have slot: "table_slot (entries ts 0) off = Some j" by (simp add: table_slot_def j(1) Let_def)
  have "j < length (entries ts 0)" using j(4) by (metis drop_all list.distinct(1) not_le)
  then have nth: "entries ts 0 ! j = (s, fo)" using j(4) by (metis hd_drop_conv_nth list.sel(1))
  have "(off - s) * 32 + 32 \<le> length b" using j(6,5) by linarith
  then have "read_exact_at gguf 32 (fo + (off - s) * 32) = Some (slice ((off - s) * 32) ((off - s) * 32 + 32) b)"
    using assms(1) j(2) by (intro read_tensor) auto
  moreover have "canonical ts ! off = full_chunks b ! (off - s)"
    using j(3,5,6) less_diff_conv2 [OF j(5)] by (simp add: j(2) canonical_append nth_append add.commute)
  moreover have "full_chunks b ! (off - s) = slice ((off - s) * 32) ((off - s) * 32 + 32) b"
    using j(5,6) by (simp add: full_chunks_def less_diff_conv2 add.commute)
  ultimately show ?thesis by (simp add: read_chunk_bytes_def assms(3) slot nth)
qed

subsection \<open>Range reads\<close>

lemma concat_full_chunks:
  "a \<le> c \<Longrightarrow> c \<le> length b div 32 \<Longrightarrow> concat (slice a c (full_chunks b)) = slice (a * 32) (c * 32) b"
proof (induction c)
  case (Suc c)
  show ?case
  proof (cases "a = Suc c")
    case False
    with Suc.prems have ac: "a \<le> c" by simp
    have "slice a (Suc c) (full_chunks b) = slice a c (full_chunks b) @ slice c (Suc c) (full_chunks b)"
      using ac by (simp add: slice_slice_append)
    moreover have "slice c (Suc c) (full_chunks b) = [slice (c * 32) (c * 32 + 32) b]"
      using Suc.prems by (simp add: slice_def full_chunks_def take_Suc hd_drop_conv_nth)
    moreover have "slice (a * 32) (c * 32) b @ slice (c * 32) (c * 32 + 32) b = slice (a * 32) (c * 32 + 32) b"
      using ac by (intro slice_slice_append) auto
    ultimately show ?thesis using Suc.IH ac Suc.prems(2) by (simp add: add.commute)
  qed (simp add: slice_def)
qed (simp add: slice_def)

lemma chunk_range_loop_tensors:
  "gguf_holds gguf ts \<Longrightarrow> n_chunks = n + length (canonical ts) \<Longrightarrow> n \<le> cur \<Longrightarrow>
   cur = n \<or> (\<exists>fo b ts'. ts = (fo, b) # ts' \<and> cur < n + length b div 32) \<Longrightarrow>
   cur + m \<le> n_chunks \<Longrightarrow> out_len = filled + 32 * m \<Longrightarrow>
   chunk_range_loop gguf n_chunks out_len (entries ts n) cur filled =
     Some (concat (slice (cur - n) (cur - n + m) (canonical ts)))"
proof (induction ts n arbitrary: cur m filled rule: entries.induct)
  case (1 n)
  then show ?case by (simp add: chunk_range_loop.simps slice_def)
next
  case (2 fo b ts n)
  define f where "f = length b div 32"
  have holds: "gguf_holds gguf ts" using "2.prems"(1) by (simp add: gguf_holds_def)
  have nc: "n_chunks = n + f + length (canonical ts)" using "2.prems"(2) by (simp add: f_def)
  consider "m = 0" | "f = 0" | "0 < m" "0 < f" by blast
  then show ?case
  proof cases
    case 1
    with "2.prems" show ?thesis by (simp add: chunk_range_loop.simps slice_def)
  next
    case 2
    then have c: "length b div 32 = 0" "full_chunks b = []" "cur = n"
      using "2.prems"(3,4) by (auto simp: f_def full_chunks_def)
    have "chunk_range_loop gguf n_chunks out_len (entries ts (n + length b div 32)) n filled =
        Some (concat (slice (n - (n + length b div 32)) (n - (n + length b div 32) + m) (canonical ts)))"
      using "2.prems" c holds by (intro "2.IH") simp_all
    with c show ?thesis by simp
  next
    case 3
    define x where "x = cur - n"
    define k where "k = min (f - x) m"
    have x: "cur = n + x" "x < f" using "2.prems"(3,4) 3(2) by (auto simp: x_def f_def)
    have k: "0 < k" "k \<le> m" "x + k \<le> f" using x 3 by (auto simp: k_def)
    have t_end: "(case entries ts (n + f) of [] \<Rightarrow> n_chunks | (s, _) # _ \<Rightarrow> s) = n + f"
      using entries_hd [of "n + f" ts] unfolding nc .
    have tk: "min ((n + f - cur) * 32) (out_len - filled) = 32 * k"
      using "2.prems"(6) x by (simp add: k_def min_def)
    have "x * 32 + 32 * k \<le> length b" using k(3) by (simp add: f_def)
    then have "read_exact_at gguf (32 * k) (fo + x * 32) = Some (slice (x * 32) (x * 32 + 32 * k) b)"
      using "2.prems"(1) k by (intro read_tensor [of gguf "(fo, b) # ts"]) auto
    then have rd: "read_exact_at gguf (32 * k) (fo + (cur - n) * 32) =
        Some (concat (slice x (x + k) (full_chunks b)))"
      using concat_full_chunks [of x "x + k" b] k by (simp add: x f_def add.commute mult.commute distrib_left)
    have rest: "chunk_range_loop gguf n_chunks out_len (entries ts (n + f)) (cur + k) (filled + 32 * k) =
        Some (concat (slice 0 (m - k) (canonical ts)))"
    proof (cases "k = m")
      case True
      with "2.prems"(6) show ?thesis by (simp add: chunk_range_loop.simps slice_def)
    next
      case False
      then have ck: "cur + k = n + f" using x by (auto simp: k_def min_def split: if_splits)
      have "n + f + (m - k) \<le> n_chunks" using ck "2.prems"(5) k by linarith
      moreover have "out_len = filled + 32 * k + 32 * (m - k)" using "2.prems"(6) k by simp
      ultimately have "chunk_range_loop gguf n_chunks out_len (entries ts (n + f)) (n + f) (filled + 32 * k) =
          Some (concat (slice (n + f - (n + f)) (n + f - (n + f) + (m - k)) (canonical ts)))"
        unfolding f_def using holds nc by (intro "2.IH") (simp_all add: f_def)
      then show ?thesis by (simp add: ck)
    qed
    have "m - k = x + m - f" if "f \<le> x + m" using that x by (auto simp: k_def)
    then have "slice x (x + m) (full_chunks b @ canonical ts) =
        slice x (x + k) (full_chunks b) @ slice 0 (m - k) (canonical ts)"
      using x k by (cases "x + m \<le> f") (auto simp: slice_def f_def k_def min_def add.commute [of x m])
    then show ?thesis
      using 3 "2.prems"(6) t_end tk rd rest k x
      by (subst chunk_range_loop.simps) (simp add: Let_def flip: f_def)
  qed
qed

lemma read_chunk_range_canonical:
  assumes holds: "gguf_holds gguf ts" and src: "wi_chunks idx = Gguf gguf (entries ts 0)"
    and n: "wi_n_chunks idx = length (canonical ts)" and m: "0 < m" "first + m \<le> length (canonical ts)"
  shows "read_chunk_range idx first (32 * m) = Some (concat (slice first (first + m) (canonical ts)))"
proof -
  obtain j pre fo b post s where
    j: "partition_point (\<lambda>(start, _). start \<le> first) (entries ts 0) = Suc j"
      "ts = pre @ (fo, b) # post" "s = length (canonical pre)"
      "drop j (entries ts 0) = (s, fo) # entries post (s + length b div 32)"
      "s \<le> first" "first < s + length b div 32"
    using partition_point_tensor [of 0 first ts] m by auto
  have slot: "table_slot (entries ts 0) first = Some j" by (simp add: table_slot_def j(1) Let_def)
  have tab: "drop j (entries ts 0) = entries ((fo, b) # post) s" using j(4-6) by simp
  have "chunk_range_loop gguf (wi_n_chunks idx) (32 * m) (entries ((fo, b) # post) s) first 0 =
      Some (concat (slice (first - s) (first - s + m) (canonical ((fo, b) # post))))"
    using holds j m by (intro chunk_range_loop_tensors) (auto simp: n gguf_holds_def canonical_append)
  moreover have "slice (first - s) (first - s + m) (canonical ((fo, b) # post)) =
      slice first (first + m) (canonical ts)"
    using j(3,5) by (simp add: j(2) canonical_append slice_append_right)
  ultimately show ?thesis
    using m by (simp add: read_chunk_range_def src slot tab n)
qed

section \<open>Properties\<close>

lemma height_ge_6: "32 < n \<Longrightarrow> CHECKPOINT_INTERVAL \<le> height n"
proof (rule ccontr)
  assume n: "32 < n" and "\<not> CHECKPOINT_INTERVAL \<le> height n"
  then have le: "height n \<le> 5" by (simp add: CHECKPOINT_INTERVAL_def)
  have "node_count n (height n) = 1" using node_count_1_iff [of n "height n"] n by simp
  then have "\<not> 1 < node_count n (height n)" by simp
  then have "n \<le> 2 ^ height n" by (simp add: less_node_count_iff)
  moreover have "(2 :: nat) ^ height n \<le> 2 ^ 5" using le by (intro power_increasing) auto
  ultimately show False using n by simp
qed

lemma phase0_state_Nil: "phase0_state blake3 [] = (0, [], [])"
  by (simp add: phase0_state_def)

lemma build_phase0:
  assumes "canonical ts \<noteq> []"
  shows "build_from_gguf blake3 gguf ts = do {
     (tree_file, checkpoints, total_levels, r_t) \<leftarrow> finalize_checkpoint_upper blake3
        (concat (level_at blake3 (map (blake blake3) (canonical ts)) CHECKPOINT_INTERVAL)) (length (canonical ts));
     Some \<lparr>wi_n_chunks = length (canonical ts), wi_r_t = r_t, wi_chunks = Gguf gguf (entries ts 0),
           wi_tree_file = tree_file, wi_checkpoints = checkpoints, wi_total_levels = total_levels\<rparr>
   }"
proof -
  let ?ls = "map (blake blake3) (canonical ts)"
  have p0: "phase0_tensors blake3 ts [] (0, [], []) = Some (entries ts 0, phase0_state blake3 ?ls)"
    using phase0_tensors_state [of blake3 ts "[]" "[]"] by (simp add: phase0_state_Nil header_table_entries)
  obtain batch written where st: "phase0_state blake3 ?ls = (length (canonical ts), batch, written)"
    by (simp add: phase0_state_def)
  have "?ls \<noteq> []" using assms by simp
  from phase0_file [OF this st] show ?thesis
    unfolding build_from_gguf_def p0 st using assms by (simp only: bind.simps prod.case) simp
qed

lemma build_index_ok:
  assumes dig: "digest32 blake3" and holds: "gguf_holds gguf ts" and n: "32 < length (canonical ts)"
  shows "\<exists>idx. build_from_gguf blake3 gguf ts = Some idx \<and> index_ok blake3 (canonical ts) idx \<and>
    wi_chunks idx = Gguf gguf (entries ts 0)"
proof -
  let ?cs = "canonical ts"
  let ?ls = "map (blake blake3) ?cs"
  have ne: "?cs \<noteq> []" using n by auto
  have ls32: "\<forall>x \<in> set ?ls. length x = 32" using dig by (auto simp: digest32_def blake_def)
  have "finalize_checkpoint_upper blake3 (concat (level_at blake3 ?ls CHECKPOINT_INTERVAL)) (length ?ls) =
      Some (tree_prefix blake3 ?ls (Suc (height (length ?ls))),
        map (checkpoint_at (length ?ls)) (stored_levels (length ?ls) 0 (Suc (height (length ?ls)))),
        Suc (height (length ?ls)), root_loop blake3 ?ls)"
    using ne height_ge_6 [OF n] by (intro finalize_checkpoint_upper_ok [OF dig ls32]) simp_all
  then show ?thesis
    unfolding build_phase0 [OF ne] using ne
    by (simp add: index_ok_def length_canonical read_chunk_bytes_canonical [OF holds])
qed

text \<open>Every index of a model refines the dense tree over its canonical chunks.\<close>

definition sparse_ok :: "(bytes \<Rightarrow> hash) \<Rightarrow> WeightIndex \<Rightarrow> bool" where
  "sparse_ok blake3 idx \<longleftrightarrow> digest32 blake3 \<and> (\<exists>cs. index_ok blake3 cs idx)"

definition sparse_chunks :: "WeightIndex \<Rightarrow> bytes list" where
  "sparse_chunks idx = map (\<lambda>i. the (read_chunk_bytes idx i)) [0..<wi_n_chunks idx]"

lemma sparse_chunks_ok: "index_ok blake3 cs idx \<Longrightarrow> sparse_chunks idx = cs"
  by (rule nth_equalityI) (auto simp: index_ok_def sparse_chunks_def)

interpretation sparse: weight_store blake3 "sparse_ok blake3" sparse_chunks wi_n_chunks wi_r_t
  read_chunk_bytes "merkle_path blake3"
  for blake3
proof unfold_locales
  fix w off assume ok: "sparse_ok blake3 w"
  then obtain cs where cs: "index_ok blake3 cs w" and dig: "digest32 blake3" by (auto simp: sparse_ok_def)
  note i = cs [unfolded index_ok_def] sparse_chunks_ok [OF cs]
  show "wi_n_chunks w = length (sparse_chunks w) \<and> 0 < wi_n_chunks w" using i by simp
  show "\<forall>c \<in> set (sparse_chunks w). length c = 32" using i by simp
  show "merkle_root blake3 (map (blake blake3) (sparse_chunks w)) = Some (wi_r_t w)"
    using i by (simp add: merkle_root_def)
  assume off: "off < wi_n_chunks w"
  show "read_chunk_bytes w off = Some (sparse_chunks w ! off)" using i off by simp
  show "merkle_path blake3 w off = Some (merkle_proof blake3 (map (blake blake3) (sparse_chunks w)) off)"
    using merkle_path_dense [OF cs dig] i off by simp
qed

text \<open>C1: for a model of more than 32 chunks the index that \<open>build_from_gguf\<close> writes to disk is the dense
  tree: its \<open>R_T\<close> is \<open>merkle_root\<close>, reads through the tensor table return the canonical chunks,
  and a path recomputed from the sparse checkpoints is \<open>merkle_proof\<close>, sibling by sibling.\<close>

theorem sparse_index_refines_dense:
  assumes "digest32 blake3" and "gguf_holds gguf ts" and "32 < length (canonical ts)"
    and "off < length (canonical ts)"
  shows "\<exists>idx. build_from_gguf blake3 gguf ts = Some idx \<and>
    Some (wi_r_t idx) = merkle_root blake3 (map (blake blake3) (canonical ts)) \<and>
    read_chunk_bytes idx off = Some (canonical ts ! off) \<and>
    merkle_path blake3 idx off = Some (merkle_proof blake3 (map (blake blake3) (canonical ts)) off)"
proof -
  obtain idx where idx: "build_from_gguf blake3 gguf ts = Some idx" "index_ok blake3 (canonical ts) idx"
    using build_index_ok [OF assms(1-3)] by blast
  then show ?thesis
    using merkle_path_dense [OF idx(2) assms(1,4)] assms(4)
    by (auto simp: index_ok_def merkle_root_def)
qed

definition toy_gguf :: bytes where
  "toy_gguf = replicate 3 1 @ replicate (40 * 32 + 5) 7"

lemma toy_gguf_ok:
  "gguf_holds toy_gguf [(3, replicate (40 * 32 + 5) 7)]" "length (canonical [(3, replicate (40 * 32 + 5) 7)]) = 40"
  by (simp_all add: gguf_holds_def toy_gguf_def slice_def)

lemma digest32_toy: "digest32 toy_hash"
  by (auto simp: digest32_def toy_hash_def)

theorem sparse_index_refines_dense_witness:
  "\<exists>idx. build_from_gguf toy_hash toy_gguf [(3, replicate (40 * 32 + 5) 7)] = Some idx \<and>
    read_chunk_bytes idx 39 = Some (canonical [(3, replicate (40 * 32 + 5) 7)] ! 39)"
  using sparse_index_refines_dense [OF digest32_toy toy_gguf_ok(1), of 39] toy_gguf_ok(2) by auto

text \<open>A bulk read of a range of chunks returns the same bytes as the chunks read one by one, across
  tensor boundaries.\<close>

theorem range_read_is_chunk_reads:
  assumes "build_from_gguf blake3 gguf ts = Some idx" and "gguf_holds gguf ts" and "digest32 blake3"
    and "32 < length (canonical ts)" and "0 < m" and "first + m \<le> wi_n_chunks idx"
  shows "\<exists>parts. collect (map (read_chunk_bytes idx) [first..<first + m]) = Some parts \<and>
    read_chunk_range idx first (32 * m) = Some (concat parts)"
proof -
  have ok: "index_ok blake3 (canonical ts) idx" and src: "wi_chunks idx = Gguf gguf (entries ts 0)"
    using build_index_ok [OF assms(3,2,4)] assms(1) by auto
  have n: "wi_n_chunks idx = length (canonical ts)" using ok by (simp add: index_ok_def)
  have "collect (map (read_chunk_bytes idx) [first..<first + m]) =
      Some (map ((!) (canonical ts)) [first..<first + m])"
    using ok assms(6) by (intro collect_cong) (auto simp: index_ok_def)
  moreover have "map ((!) (canonical ts)) [first..<first + m] = slice first (first + m) (canonical ts)"
    using assms(6) n by (intro map_nth_slice) simp
  ultimately show ?thesis
    using read_chunk_range_canonical [OF assms(2) src n assms(5)] assms(6) n by simp
qed

theorem range_read_is_chunk_reads_witness:
  "\<exists>idx parts. collect (map (read_chunk_bytes idx) [2..<2 + 5]) = Some parts \<and>
     read_chunk_range idx 2 (32 * 5) = Some (concat parts)"
proof -
  obtain idx where idx: "build_from_gguf toy_hash toy_gguf [(3, replicate (40 * 32 + 5) 7)] = Some idx"
    "wi_n_chunks idx = 40"
    using build_index_ok [OF digest32_toy toy_gguf_ok(1)] toy_gguf_ok(2) by (auto simp: index_ok_def)
  show ?thesis
    using range_read_is_chunk_reads [OF idx(1) toy_gguf_ok(1) digest32_toy, of 5 2] idx(2) toy_gguf_ok(2)
    by auto
qed

lemma open_existing_ok:
  assumes "build_from_gguf blake3 gguf ts = Some idx" and "gguf_holds gguf ts" and "digest32 blake3"
    and "32 < length (canonical ts)"
  shows "length (wi_tree_file idx) = sl_offset (last (wi_checkpoints idx)) + 32"
    and "open_existing_tree (wi_tree_file idx) gguf ts = Inr idx"
    and "length t \<noteq> length (wi_tree_file idx) \<Longrightarrow> \<exists>e. open_existing_tree t gguf ts = Inl e"
proof -
  let ?n = "length (canonical ts)" and ?ls = "map (blake blake3) (canonical ts)"
  have ok: "index_ok blake3 (canonical ts) idx" and src: "wi_chunks idx = Gguf gguf (entries ts 0)"
    using build_index_ok [OF assms(3,2,4)] assms(1) by auto
  note i = ok [unfolded index_ok_def]
  have n: "0 < ?n" using assms(4) by linarith
  have ls32: "\<forall>x \<in> set ?ls. length x = 32" using assms(3) by (auto simp: digest32_def blake_def)
  have lst: "last (wi_checkpoints idx) = checkpoint_at ?n (height ?n)"
    using last_stored [of ?n] i by (simp add: last_map)
  have "length (concat (level_at blake3 ?ls (height ?n))) = 32"
    using concat_length_uniform [OF level_at_32 [OF assms(3) ls32], of "height ?n"]
      node_count_1_iff [OF n, of "height ?n"] by (simp add: node_count_level)
  moreover have "wi_tree_file idx =
      tree_prefix blake3 ?ls (height ?n) @ concat (level_at blake3 ?ls (height ?n))"
    using i by (simp add: tree_prefix_def stored_levels_split stored_def)
  ultimately show len: "length (wi_tree_file idx) = sl_offset (last (wi_checkpoints idx)) + 32"
    using length_tree_prefix [OF assms(3) ls32, of "height ?n"] by (simp add: lst)
  have ht: "header_table ts [] 0 = (entries ts 0, ?n)"
    using header_table_entries [of ts "[]" 0] header_table_snd [of ts "[]" 0] by (simp add: prod_eq_iff)
  have cps: "compute_checkpoint_offsets ?n = Some (wi_checkpoints idx, wi_total_levels idx)"
    using compute_checkpoint_offsets_eq [OF n] i by simp
  have "read_exact_at (wi_tree_file idx) 32 (sl_offset (checkpoint_at ?n (height ?n)) + 0 * 32) =
      Some (level_at blake3 ?ls (height ?n) ! 0)"
    using i read_tree_node [OF assms(3) ls32, of "height ?n" "Suc (height ?n)" 0] node_count_pos [OF n]
    by (simp add: stored_def)
  then have rt: "read_exact_at (wi_tree_file idx) 32 (sl_offset (last (wi_checkpoints idx))) = Some (wi_r_t idx)"
    unfolding lst using i root_as_level [of ?ls blake3] by simp
  have nc: "?n = wi_n_chunks idx" using i by simp
  show "open_existing_tree (wi_tree_file idx) gguf ts = Inr idx"
    using n nc by (simp add: open_existing_tree_def ht cps [unfolded nc] len rt flip: src)
  assume "length t \<noteq> length (wi_tree_file idx)"
  then show "\<exists>e. open_existing_tree t gguf ts = Inl e"
    using n len by (auto simp: open_existing_tree_def ht cps Let_def)
qed

text \<open>A restart finds the tree it wrote: the cached file opens to the same index, and a cached file
  of any other size is rebuilt to it.\<close>

theorem cached_tree_reopens:
  assumes "build_from_gguf blake3 gguf ts = Some idx" and "gguf_holds gguf ts" and "digest32 blake3"
    and "32 < length (canonical ts)"
  shows "load_index blake3 (Some (wi_tree_file idx)) gguf ts = Some idx \<and>
    (length t \<noteq> length (wi_tree_file idx) \<longrightarrow> load_index blake3 (Some t) gguf ts = Some idx) \<and>
    load_index blake3 None gguf ts = Some idx"
  using open_existing_ok(2) [OF assms] open_existing_ok(3) [OF assms, of t] assms(1)
  by (auto simp: load_index_def)

theorem cached_tree_reopens_witness:
  "\<exists>idx. build_from_gguf toy_hash toy_gguf [(3, replicate (40 * 32 + 5) 7)] = Some idx \<and>
     load_index toy_hash (Some (wi_tree_file idx)) toy_gguf [(3, replicate (40 * 32 + 5) 7)] = Some idx"
proof -
  obtain idx where idx: "build_from_gguf toy_hash toy_gguf [(3, replicate (40 * 32 + 5) 7)] = Some idx"
    using build_index_ok [OF digest32_toy toy_gguf_ok(1)] toy_gguf_ok(2) by auto
  show ?thesis
    using cached_tree_reopens [OF idx toy_gguf_ok(1) digest32_toy] idx toy_gguf_ok(2) by auto
qed

lemma level_at_single: "level_at blake3 [x] k = [((\<lambda>y. hash_pair blake3 y y) ^^ k) x]"
  by (induction k) (simp_all add: level_at_Suc)

lemma height_le_5: "n \<le> 32 \<Longrightarrow> height n \<le> 5"
proof (rule ccontr)
  assume n: "n \<le> 32" and h: "\<not> height n \<le> 5"
  then have "5 < height n" by simp
  then have "height (node_count n 5) > 0" using height_node_count [of 5 n] by simp
  then have "1 < node_count n 5" using height_0_iff [of "node_count n 5"] by simp
  then show False using n by (simp add: less_node_count_iff)
qed

lemma stored_levels_small: "height n \<le> 5 \<Longrightarrow> stored_levels n 0 (Suc (height n)) = [height n]"
proof -
  assume h: "height n \<le> 5"
  have "stored_levels n 0 (height n) = []"
    using h by (auto simp: stored_levels_def filter_empty_conv stored_def CHECKPOINT_INTERVAL_def dest: dvd_imp_le)
  then show ?thesis by (simp add: stored_levels_split stored_def)
qed

text \<open>For a model of at most 32 chunks the root sits below the first checkpoint level, but phase 0
  still folds six levels: the \<open>R_T\<close> that is stored is the dense root hashed with itself for each of
  the missing levels.\<close>

theorem small_model_root:
  assumes "digest32 blake3" and "length (canonical ts) \<le> 32"
    and "merkle_root blake3 (map (blake blake3) (canonical ts)) = Some root"
  shows "\<exists>idx. build_from_gguf blake3 gguf ts = Some idx \<and>
    wi_r_t idx = ((\<lambda>x. hash_pair blake3 x x) ^^ (6 - height (length (canonical ts)))) root \<and>
    height (length (canonical ts)) < 6"
proof -
  define n where "n = length (canonical ts)"
  let ?ls = "map (blake blake3) (canonical ts)"
  define x where "x = ((\<lambda>x. hash_pair blake3 x x) ^^ (6 - height n)) root"
  have ne: "canonical ts \<noteq> []" and root: "root_loop blake3 ?ls = root"
    using assms(3) by (auto simp: merkle_root_def split: if_splits)
  have n: "0 < n" and h: "height n \<le> 5" using ne height_le_5 assms(2) by (auto simp: n_def)
  have "length (level_at blake3 ?ls (height n)) = 1" using length_level_top [of ?ls blake3] ne by (simp add: n_def)
  then obtain y where y: "level_at blake3 ?ls (height n) = [y]" by (auto simp: length_Suc_conv)
  then have "y = root" using root_as_level [of ?ls blake3] ne root by (simp add: n_def)
  then have six: "level_at blake3 ?ls CHECKPOINT_INTERVAL = [x]"
    using y h level_at_add [of blake3 ?ls "height n" "6 - height n"] level_at_single [of blake3 root "6 - height n"]
    by (simp add: CHECKPOINT_INTERVAL_def x_def)
  have ls32: "\<forall>z \<in> set ?ls. length z = 32" using assms(1) by (auto simp: digest32_def blake_def)
  have x32: "length x = 32" using level_at_32 [OF assms(1) ls32, of CHECKPOINT_INTERVAL] by (simp add: six)
  have off: "sl_offset (checkpoint_at n (height n)) = 0"
    using stored_levels_small [OF h] by (simp add: checkpoint_at_def stored_levels_split stored_def)
  have "finalize_checkpoint_upper blake3 x n = Some (x, [checkpoint_at n (height n)], Suc (height n), x)"
    using stored_levels_small [OF h] x32
    by (simp add: finalize_checkpoint_upper_def compute_checkpoint_offsets_eq [OF n] off read_exact_at_def slice_full)
  then show ?thesis
    unfolding build_phase0 [OF ne] using h by (simp add: six x_def flip: n_def)
qed

theorem small_model_root_witness:
  "\<exists>idx. build_from_gguf toy_hash [] [(0, replicate 64 5)] = Some idx \<and>
    wi_r_t idx = ((\<lambda>x. hash_pair toy_hash x x) ^^ 5)
      (hash_pair toy_hash (toy_hash (replicate 32 5)) (toy_hash (replicate 32 5)))"
proof -
  have cs: "canonical [(0, replicate 64 5)] = [replicate 32 5, replicate 32 (5 :: u8)]"
    by (simp add: full_chunks_def slice_def upt_rec)
  show ?thesis
    using small_model_root [OF digest32_toy, of "[(0, replicate 64 5)]"
        "hash_pair toy_hash (toy_hash (replicate 32 5)) (toy_hash (replicate 32 5))" "[]"]
    unfolding cs by (simp add: merkle_root_def root_loop.simps blake_def height.simps)
qed

end
