(* ===== verification/Pom_Proof.thy ===== *)
theory Pom_Proof
  imports Weight_Index
begin

text \<open>
  \<open>src/src/pom.rs\<close>, the wire records of a possession proof and the provers and verifiers of the
  scalar walk: \<open>walk_final\<close>, \<open>build_proof\<close>/\<open>verify_proof\<close> (trace commitment with Fiat-Shamir openings),
  \<open>build_proof_v2\<close>/\<open>verify_proof_v2\<close> (recompute from chunks) and \<open>mine_pom\<close>. The closures
  \<open>read_chunk\<close> (here \<open>read_fn\<close>) and \<open>weight_path\<close> may panic, so they and all operations that call them return an
  option; division by a zero \<open>n_chunks\<close> or \<open>k\<close> is the same panic.

  The lemmas are proved for any store with the contract \<open>weight_store\<close>, and so hold for the sparse
  on-disk index.
\<close>

section \<open>Definitions\<close>

subsection \<open>Wire records\<close>

record PomOpening =
  op_state_before :: u64
  op_chunk :: bytes
  op_weight_path :: "hash list"
  op_trace_path_before :: "hash list"
  op_trace_path_after :: "hash list"

record PomStep =
  ps_chunk :: bytes
  ps_weight_path :: "hash list"

record PomV3Opening =
  row_before :: bytes
  path_before :: "hash list"
  row_after :: bytes
  path_after :: "hash list"
  tile_col :: bytes
  col_path :: "hash list"
  snippet_path :: "hash list"

record PomProofV3 =
  v3_tier :: u8
  v3_roots :: "hash list"
  v3_snippets :: "bytes list"
  v3_checks :: "PomV3Opening list"

record PomV4RangeProof =
  rp_path :: "hash list"

record PomProofV4 =
  v4_tier :: u8
  v4_tiles :: "bytes list"
  v4_merkle :: "PomV4RangeProof list"

record PomProof =
  pp_tier :: u8
  pp_trace_root :: hash
  pp_pow_value :: hash
  pp_final_state :: u64
  pp_initial_trace_path :: "hash list"
  pp_final_trace_path :: "hash list"
  pp_openings :: "PomOpening list"
  pp_steps_v2 :: "PomStep list option"
  pp_v3 :: "PomProofV3 option"
  pp_v4 :: "PomProofV4 option"
  pp_task :: "bytes option"

subsection \<open>The walk\<close>

primrec walk_loop :: "(nat \<Rightarrow> u64 list option) \<Rightarrow> nat \<Rightarrow> bool \<Rightarrow> nat \<Rightarrow> u64 \<Rightarrow> u64 option" where
  "walk_loop read_fn n_chunks walk_v2 0 state = Some state"
| "walk_loop read_fn n_chunks walk_v2 (Suc k) state = do {
     chunk \<leftarrow> read_fn (unat state mod n_chunks);
     walk_loop read_fn n_chunks walk_v2 k (transition state chunk walk_v2)
   }"

definition walk_final :: "u64 \<Rightarrow> nat \<Rightarrow> nat \<Rightarrow> (nat \<Rightarrow> u64 list option) \<Rightarrow> bool \<Rightarrow> u64 option" where
  "walk_final seed n_chunks k read_fn walk_v2 =
     (if n_chunks = 0 then None else walk_loop read_fn n_chunks walk_v2 k seed)"

subsection \<open>The spot-check prover and verifier\<close>

primrec trace_loop :: "(nat \<Rightarrow> u64 list option) \<Rightarrow> nat \<Rightarrow> nat \<Rightarrow> u64 \<Rightarrow> u64 list option" where
  "trace_loop read_fn n_chunks 0 state = Some [state]"
| "trace_loop read_fn n_chunks (Suc k) state = do {
     chunk \<leftarrow> read_fn (unat state mod n_chunks);
     trace \<leftarrow> trace_loop read_fn n_chunks k (transition_v1 state chunk);
     Some (state # trace)
   }"

definition open_step ::
  "(bytes \<Rightarrow> hash) \<Rightarrow> (nat \<Rightarrow> u64 list option) \<Rightarrow> (nat \<Rightarrow> hash list option) \<Rightarrow> nat \<Rightarrow> u64 list \<Rightarrow> nat \<Rightarrow>
     PomOpening option" where
  "open_step blake3 read_fn weight_path n_chunks trace i = do {
     let sb = trace ! i;
     let off = unat sb mod n_chunks;
     let trace_leaves = map (trace_leaf blake3) trace;
     chunk \<leftarrow> read_fn off;
     path \<leftarrow> weight_path off;
     Some \<lparr>op_state_before = sb, op_chunk = words_to_bytes chunk, op_weight_path = path,
           op_trace_path_before = merkle_proof blake3 trace_leaves i,
           op_trace_path_after = merkle_proof blake3 trace_leaves (i + 1)\<rparr>
   }"

definition build_proof ::
  "(bytes \<Rightarrow> hash) \<Rightarrow> u8 \<Rightarrow> hash \<Rightarrow> u64 \<Rightarrow> u64 \<Rightarrow> nat \<Rightarrow> nat \<Rightarrow> nat \<Rightarrow>
     (nat \<Rightarrow> u64 list option) \<Rightarrow> (nat \<Rightarrow> hash list option) \<Rightarrow> bool \<Rightarrow> PomProof option" where
  "build_proof blake3 tier pre_pow_hash nonce seed n_chunks k t read_fn weight_path h3 =
     (if n_chunks = 0 then None
      else do {
        trace \<leftarrow> trace_loop read_fn n_chunks k seed;
        let trace_leaves = map (trace_leaf blake3) trace;
        trace_root \<leftarrow> merkle_root blake3 trace_leaves;
        let final_state = trace ! k;
        let pow_value = pom_pow_value final_state pre_pow_hash h3;
        chs \<leftarrow> challenges blake3 pre_pow_hash nonce trace_root pow_value t k;
        openings \<leftarrow> collect (map (open_step blake3 read_fn weight_path n_chunks trace) chs);
        Some \<lparr>pp_tier = tier, pp_trace_root = trace_root, pp_pow_value = pow_value,
              pp_final_state = final_state,
              pp_initial_trace_path = merkle_proof blake3 trace_leaves 0,
              pp_final_trace_path = merkle_proof blake3 trace_leaves k,
              pp_openings = openings, pp_steps_v2 = None, pp_v3 = None, pp_v4 = None, pp_task = None\<rparr>
      })"

text \<open>The loop of \<open>verify_proof\<close> over the openings and their challenges.\<close>

fun verify_openings ::
  "(bytes \<Rightarrow> hash) \<Rightarrow> nat \<Rightarrow> hash \<Rightarrow> hash \<Rightarrow> (PomOpening \<times> nat) list \<Rightarrow> bool option" where
  "verify_openings blake3 n_chunks r_t trace_root [] = Some True"
| "verify_openings blake3 n_chunks r_t trace_root ((op, i) # rest) =
     (if \<not> verify_merkle blake3 (trace_leaf blake3 (op_state_before op)) i (op_trace_path_before op) trace_root
      then Some False
      else if n_chunks = 0 then None
      else if \<not> verify_merkle blake3 (blake blake3 (op_chunk op)) (unat (op_state_before op) mod n_chunks)
                  (op_weight_path op) r_t
      then Some False
      else let state_after = transition_v1 (op_state_before op) (chunk_to_words (op_chunk op))
           in if \<not> verify_merkle blake3 (trace_leaf blake3 state_after) (i + 1) (op_trace_path_after op) trace_root
              then Some False
              else verify_openings blake3 n_chunks r_t trace_root rest)"

definition verify_proof ::
  "(bytes \<Rightarrow> hash) \<Rightarrow> hash \<Rightarrow> u64 \<Rightarrow> u64 \<Rightarrow> PomProof \<Rightarrow> nat \<Rightarrow> nat \<Rightarrow> nat \<Rightarrow> hash \<Rightarrow> hash \<Rightarrow> bool \<Rightarrow>
     bool option" where
  "verify_proof blake3 pre_pow_hash nonce seed proof n_chunks k t r_t target h3 =
     (if length (pp_openings proof) \<noteq> t then Some False
      else if pom_pow_value (pp_final_state proof) pre_pow_hash h3 \<noteq> pp_pow_value proof then Some False
      else if \<not> le_leq (pp_pow_value proof) target then Some False
      else if \<not> verify_merkle blake3 (trace_leaf blake3 seed) 0 (pp_initial_trace_path proof) (pp_trace_root proof)
      then Some False
      else if \<not> verify_merkle blake3 (trace_leaf blake3 (pp_final_state proof)) k (pp_final_trace_path proof)
                  (pp_trace_root proof)
      then Some False
      else do {
        chs \<leftarrow> challenges blake3 pre_pow_hash nonce (pp_trace_root proof) (pp_pow_value proof) t k;
        verify_openings blake3 n_chunks r_t (pp_trace_root proof) (zip (pp_openings proof) chs)
      })"

subsection \<open>The recompute prover and verifier\<close>

primrec steps_loop ::
  "(nat \<Rightarrow> u64 list option) \<Rightarrow> (nat \<Rightarrow> hash list option) \<Rightarrow> nat \<Rightarrow> bool \<Rightarrow> nat \<Rightarrow> u64 \<Rightarrow>
     (PomStep list \<times> u64) option" where
  "steps_loop read_fn weight_path n_chunks walk_v2 0 state = Some ([], state)"
| "steps_loop read_fn weight_path n_chunks walk_v2 (Suc k) state =
     (if n_chunks = 0 then None
      else do {
        let off = unat state mod n_chunks;
        chunk_words \<leftarrow> read_fn off;
        path \<leftarrow> weight_path off;
        (steps, final) \<leftarrow> steps_loop read_fn weight_path n_chunks walk_v2 k
           (transition state chunk_words walk_v2);
        Some (\<lparr>ps_chunk = words_to_bytes chunk_words, ps_weight_path = path\<rparr> # steps, final)
      })"

definition build_proof_v2 ::
  "u8 \<Rightarrow> hash \<Rightarrow> u64 \<Rightarrow> nat \<Rightarrow> nat \<Rightarrow> (nat \<Rightarrow> u64 list option) \<Rightarrow> (nat \<Rightarrow> hash list option) \<Rightarrow>
     bool \<Rightarrow> bool \<Rightarrow> PomProof option" where
  "build_proof_v2 tier pre_pow_hash seed n_chunks k read_fn weight_path h3 walk_v2 = do {
     (steps, final_state) \<leftarrow> steps_loop read_fn weight_path n_chunks walk_v2 k seed;
     let pow_value = pom_pow_value final_state pre_pow_hash h3;
     Some \<lparr>pp_tier = tier, pp_trace_root = replicate 32 0, pp_pow_value = pow_value,
           pp_final_state = final_state, pp_initial_trace_path = [], pp_final_trace_path = [],
           pp_openings = [], pp_steps_v2 = Some steps, pp_v3 = None, pp_v4 = None, pp_task = None\<rparr>
   }"

text \<open>The re-walk of \<open>verify_proof_v2\<close>: \<open>Some None\<close> is its early \<open>return false\<close>.\<close>

primrec rewalk ::
  "(bytes \<Rightarrow> hash) \<Rightarrow> nat \<Rightarrow> hash \<Rightarrow> bool \<Rightarrow> PomStep list \<Rightarrow> u64 \<Rightarrow> u64 option option" where
  "rewalk blake3 n_chunks r_t walk_v2 [] state = Some (Some state)"
| "rewalk blake3 n_chunks r_t walk_v2 (step # steps) state =
     (if n_chunks = 0 then None
      else if \<not> verify_merkle blake3 (blake blake3 (ps_chunk step)) (unat state mod n_chunks)
                  (ps_weight_path step) r_t
      then Some None
      else rewalk blake3 n_chunks r_t walk_v2 steps
             (transition state (chunk_to_words (ps_chunk step)) walk_v2))"

definition verify_proof_v2 ::
  "(bytes \<Rightarrow> hash) \<Rightarrow> PomProof \<Rightarrow> hash \<Rightarrow> u64 \<Rightarrow> nat \<Rightarrow> nat \<Rightarrow> hash \<Rightarrow> hash \<Rightarrow> bool \<Rightarrow> bool \<Rightarrow> bool option" where
  "verify_proof_v2 blake3 proof pre_pow_hash seed n_chunks k r_t target h3 walk_v2 =
     (case pp_steps_v2 proof of
        None \<Rightarrow> Some False
      | Some steps \<Rightarrow>
          if length steps \<noteq> k then Some False
          else if pp_trace_root proof \<noteq> replicate 32 0 \<or> pp_initial_trace_path proof \<noteq> [] \<or>
                  pp_final_trace_path proof \<noteq> [] \<or> pp_openings proof \<noteq> []
          then Some False
          else case rewalk blake3 n_chunks r_t walk_v2 steps seed of
                 None \<Rightarrow> None
               | Some None \<Rightarrow> Some False
               | Some (Some state) \<Rightarrow>
                   if state \<noteq> pp_final_state proof then Some False
                   else let pow_value = pom_pow_value state pre_pow_hash h3
                        in if pow_value \<noteq> pp_pow_value proof then Some False
                           else Some (le_leq pow_value target))"

subsection \<open>CPU mining\<close>

text \<open>The loop of \<open>mine_pom\<close> over the nonces left; the outer option is a panic.\<close>

fun mine_loop ::
  "(bytes \<Rightarrow> hash) \<Rightarrow> WeightIndex \<Rightarrow> u8 \<Rightarrow> hash \<Rightarrow> u64 \<Rightarrow> hash \<Rightarrow> nat \<Rightarrow> nat \<Rightarrow> bool \<Rightarrow> u64 list \<Rightarrow>
     (u64 \<times> PomProof) option option" where
  "mine_loop blake3 index tier pre_pow_hash timestamp target k t h3 [] = Some None"
| "mine_loop blake3 index tier pre_pow_hash timestamp target k t h3 (nonce # nonces) = do {
     let seed = pom_block_seed pre_pow_hash timestamp nonce h3 False False;
     final_state \<leftarrow> walk_final seed (wi_n_chunks index) k (read_chunk index) False;
     if le_leq (pom_pow_value final_state pre_pow_hash h3) target
     then do {
       proof \<leftarrow> build_proof blake3 tier pre_pow_hash nonce seed (wi_n_chunks index) k t
                  (read_chunk index) (merkle_path blake3 index) h3;
       Some (Some (nonce, proof))
     }
     else mine_loop blake3 index tier pre_pow_hash timestamp target k t h3 nonces
   }"

definition mine_pom ::
  "(bytes \<Rightarrow> hash) \<Rightarrow> WeightIndex \<Rightarrow> u8 \<Rightarrow> hash \<Rightarrow> u64 \<Rightarrow> hash \<Rightarrow> nat \<Rightarrow> nat \<Rightarrow> u64 \<Rightarrow> u64 \<Rightarrow> bool \<Rightarrow>
     (u64 \<times> PomProof) option option" where
  "mine_pom blake3 index tier pre_pow_hash timestamp target k t nonce_start max_nonces h3 =
     mine_loop blake3 index tier pre_pow_hash timestamp target k t h3
       (map word_of_nat [unat nonce_start..<min (2 ^ 64 - 1) (unat nonce_start + unat max_nonces)])"

section \<open>The walk over a store\<close>

lemma challenges_bound:
  assumes "0 < k"
  shows "\<exists>chs. challenges blake3 pph nonce root pow t k = Some chs \<and> length chs = t \<and> (\<forall>i \<in> set chs. i < k)"
proof -
  define f where "f j = unat (from_le (take 8 (blake blake3 (blake blake3 (pph @ le_bytes 8 nonce @ root @ pow) @
      le_bytes 8 (word_of_nat j :: u64)))) :: u64) mod k" for j
  have "challenges blake3 pph nonce root pow t k = Some (map f [0..<t])"
    using assms by (simp add: challenges_def Let_def f_def)
  moreover have "f j < k" for j using assms by (simp add: f_def)
  ultimately show ?thesis by auto
qed

context weight_store
begin

text \<open>The provers' \<open>read_chunk\<close> closure over a store.\<close>

abbreviation words_fn :: "'w \<Rightarrow> nat \<Rightarrow> u64 list option" where
  "words_fn w \<equiv> (\<lambda>i. map_option chunk_to_words (bytes_of w i))"

lemma read_words:
  "store_ok w \<Longrightarrow> map_option chunk_to_words (bytes_of w (unat s mod size_of w)) =
     Some (chunk_to_words (chunks_of w ! (unat s mod size_of w)))"
  using read_law [of w "unat s mod size_of w"] size_pos [of w] by simp

lemma step_less: "store_ok w \<Longrightarrow> unat (s :: u64) mod size_of w < size_of w"
  using size_pos [of w] by simp

lemma walk_loop_total:
  "store_ok w \<Longrightarrow> \<exists>final. walk_loop (words_fn w) (size_of w) v2 k s = Some final"
  by (induction k arbitrary: s) (simp_all add: read_words)

lemma trace_loop_walk:
  assumes ok: "store_ok w"
  shows "\<exists>trace. trace_loop (words_fn w) (size_of w) k s = Some trace \<and>
    length trace = Suc k \<and> trace ! 0 = s \<and>
    walk_loop (words_fn w) (size_of w) False k s = Some (trace ! k) \<and>
    (\<forall>i < k. trace ! Suc i =
       transition_v1 (trace ! i) (chunk_to_words (chunks_of w ! (unat (trace ! i) mod size_of w))))"
proof (induction k arbitrary: s)
  case (Suc k)
  let ?s' = "transition_v1 s (chunk_to_words (chunks_of w ! (unat s mod size_of w)))"
  obtain trace where t: "trace_loop (words_fn w) (size_of w) k ?s' = Some trace"
    "length trace = Suc k" "trace ! 0 = ?s'"
    "walk_loop (words_fn w) (size_of w) False k ?s' = Some (trace ! k)"
    "\<forall>i < k. trace ! Suc i =
       transition_v1 (trace ! i) (chunk_to_words (chunks_of w ! (unat (trace ! i) mod size_of w)))"
    using Suc.IH [of ?s'] by blast
  then show ?case
    using ok by (auto simp: read_words transition_def nth_Cons less_Suc_eq_0_disj split: nat.splits)
qed simp

lemma steps_loop_rewalk:
  assumes ok: "store_ok w"
  shows "\<exists>steps final.
    steps_loop (words_fn w) (path_of w) (size_of w) v2 k s = Some (steps, final) \<and>
    length steps = k \<and>
    rewalk blake3 (size_of w) (root_of w) v2 steps s = Some (Some final) \<and>
    walk_loop (words_fn w) (size_of w) v2 k s = Some final"
proof (induction k arbitrary: s)
  case (Suc k)
  let ?off = "unat s mod size_of w"
  obtain words path where o: "map_option chunk_to_words (bytes_of w ?off) = Some words"
    "path_of w ?off = Some path" "chunk_to_words (words_to_bytes words) = words"
    "verify_merkle blake3 (blake blake3 (words_to_bytes words)) ?off path (root_of w)"
    using words_opens [OF ok step_less [OF ok]] by metis
  have "size_of w \<noteq> 0" using size_pos [OF ok] by simp
  with o Suc.IH [of "transition s words v2"] show ?case by auto
qed simp

lemma build_verify_v2:
  assumes ok: "store_ok w"
  shows "\<exists>p. build_proof_v2 tier pph seed (size_of w) k (words_fn w)
      (path_of w) h3 v2 = Some p \<and>
    walk_final seed (size_of w) k (words_fn w) v2 = Some (pp_final_state p) \<and>
    verify_proof_v2 blake3 p pph seed (size_of w) k (root_of w) target h3 v2 =
      Some (le_leq (pom_pow_value (pp_final_state p) pph h3) target)"
  using steps_loop_rewalk [OF ok, of v2 k seed] size_pos [OF ok]
  by (auto simp: build_proof_v2_def verify_proof_v2_def walk_final_def)

lemma open_step_verifies:
  assumes ok: "store_ok w" and i: "i < k" and len: "length trace = Suc k"
    and step: "trace ! Suc i =
      transition_v1 (trace ! i) (chunk_to_words (chunks_of w ! (unat (trace ! i) mod size_of w)))"
    and root: "root = root_loop blake3 (map (trace_leaf blake3) trace)"
  shows "\<exists>op. open_step blake3 (words_fn w) (path_of w) (size_of w) trace i = Some op \<and>
    (\<forall>rest. verify_openings blake3 (size_of w) (root_of w) root ((op, i) # rest) =
       verify_openings blake3 (size_of w) (root_of w) root rest)"
proof -
  let ?off = "unat (trace ! i) mod size_of w" and ?ls = "map (trace_leaf blake3) trace"
  obtain words path where o: "words_fn w ?off = Some words" "path_of w ?off = Some path"
    "length (words_to_bytes words) = 32"
    "chunk_to_words (words_to_bytes words) = words" "words_to_bytes words = chunks_of w ! ?off"
    "verify_merkle blake3 (blake blake3 (words_to_bytes words)) ?off path (root_of w)"
    by (rule words_opens [OF ok step_less [OF ok, of "trace ! i"]]) (rule that)
  have path: "verify_merkle blake3 (trace_leaf blake3 (trace ! j)) j (merkle_proof blake3 ?ls j) root"
    if "j \<le> k" for j
    using climb_merkle_proof [of j ?ls blake3] that len by (simp add: verify_merkle_def root)
  have "trace ! Suc i = transition_v1 (trace ! i) (chunk_to_words (words_to_bytes words))"
    using step o(5) by simp
  then show ?thesis
    using o path [of i] path [of "Suc i"] i size_pos [OF ok] by (auto simp: open_step_def Let_def)
qed

lemma verify_opened:
  assumes "\<And>i. i \<in> set chs \<Longrightarrow> \<exists>op. f i = Some op \<and>
      (\<forall>rest. verify_openings blake3 n r root ((op, i) # rest) = verify_openings blake3 n r root rest)"
  shows "\<exists>ops. collect (map f chs) = Some ops \<and> length ops = length chs \<and>
    verify_openings blake3 n r root (zip ops chs) = Some True"
  using assms
proof (induction chs)
  case (Cons i chs)
  then obtain ops where ops: "collect (map f chs) = Some ops" "length ops = length chs"
    "verify_openings blake3 n r root (zip ops chs) = Some True" by force
  moreover obtain op where "f i = Some op"
    "\<And>rest. verify_openings blake3 n r root ((op, i) # rest) = verify_openings blake3 n r root rest"
    using Cons.prems [of i] by auto
  ultimately show ?case by (simp del: verify_openings.simps(2))
qed simp

lemma build_verify:
  assumes ok: "store_ok w" and k: "0 < k"
  shows "\<exists>p. build_proof blake3 tier pph nonce seed (size_of w) k t (words_fn w) (path_of w) h3 = Some p \<and>
    walk_final seed (size_of w) k (words_fn w) False = Some (pp_final_state p) \<and>
    verify_proof blake3 pph nonce seed p (size_of w) k t (root_of w) target h3 =
      Some (le_leq (pom_pow_value (pp_final_state p) pph h3) target)"
proof -
  obtain trace where tr: "trace_loop (words_fn w) (size_of w) k seed = Some trace" "length trace = Suc k"
    "trace ! 0 = seed" "walk_loop (words_fn w) (size_of w) False k seed = Some (trace ! k)"
    "\<And>i. i < k \<Longrightarrow> trace ! Suc i =
       transition_v1 (trace ! i) (chunk_to_words (chunks_of w ! (unat (trace ! i) mod size_of w)))"
    using trace_loop_walk [OF ok, of k seed] by blast
  define root where "root = root_loop blake3 (map (trace_leaf blake3) trace)"
  have mr: "merkle_root blake3 (map (trace_leaf blake3) trace) = Some root"
    using tr(2) by (auto simp: merkle_root_def root_def)
  have path: "verify_merkle blake3 (trace_leaf blake3 (trace ! j)) j
      (merkle_proof blake3 (map (trace_leaf blake3) trace) j) root" if "j \<le> k" for j
    using climb_merkle_proof [of j "map (trace_leaf blake3) trace" blake3] that tr(2)
    by (simp add: verify_merkle_def root_def)
  obtain chs where chs: "challenges blake3 pph nonce root (pom_pow_value (trace ! k) pph h3) t k = Some chs"
    "length chs = t" "\<forall>i \<in> set chs. i < k"
    using challenges_bound [OF k] by blast
  have "\<exists>ops. collect (map (open_step blake3 (words_fn w) (path_of w) (size_of w) trace) chs) = Some ops \<and>
      length ops = length chs \<and>
      verify_openings blake3 (size_of w) (root_of w) root (zip ops chs) = Some True"
  proof (rule verify_opened)
    fix i assume "i \<in> set chs"
    then have i: "i < k" using chs(3) by blast
    show "\<exists>op. open_step blake3 (words_fn w) (path_of w) (size_of w) trace i = Some op \<and>
        (\<forall>rest. verify_openings blake3 (size_of w) (root_of w) root ((op, i) # rest) =
           verify_openings blake3 (size_of w) (root_of w) root rest)"
      by (rule open_step_verifies [OF ok i tr(2) tr(5) [OF i] root_def])
  qed
  then obtain ops where
    ops: "collect (map (open_step blake3 (words_fn w) (path_of w) (size_of w) trace) chs) = Some ops"
    "length ops = t" "verify_openings blake3 (size_of w) (root_of w) root (zip ops chs) = Some True"
    using chs(2) by auto
  define p where "p = \<lparr>pp_tier = tier, pp_trace_root = root, pp_pow_value = pom_pow_value (trace ! k) pph h3,
    pp_final_state = trace ! k, pp_initial_trace_path = merkle_proof blake3 (map (trace_leaf blake3) trace) 0,
    pp_final_trace_path = merkle_proof blake3 (map (trace_leaf blake3) trace) k,
    pp_openings = ops, pp_steps_v2 = None, pp_v3 = None, pp_v4 = None, pp_task = None\<rparr>"
  have "build_proof blake3 tier pph nonce seed (size_of w) k t (words_fn w) (path_of w) h3 = Some p"
    using tr(1) mr chs(1) ops(1) size_pos [OF ok] by (simp add: build_proof_def p_def Let_def)
  moreover have "verify_proof blake3 pph nonce seed p (size_of w) k t (root_of w) target h3 =
      Some (le_leq (pom_pow_value (pp_final_state p) pph h3) target)"
    using path [of 0] path [of k] tr(3) ops(2,3) chs(1) by (simp add: verify_proof_def p_def)
  moreover have "walk_final seed (size_of w) k (words_fn w) False = Some (pp_final_state p)"
    using tr(4) size_pos [OF ok] by (simp add: walk_final_def p_def)
  ultimately show ?thesis by blast
qed

end

section \<open>Soundness of the recompute verifier\<close>

text \<open>The strings that the re-walk hashes, beside those of the builder of the tree.\<close>

primrec rewalk_inputs :: "(bytes \<Rightarrow> hash) \<Rightarrow> nat \<Rightarrow> bool \<Rightarrow> PomStep list \<Rightarrow> u64 \<Rightarrow> bytes set" where
  "rewalk_inputs blake3 n_chunks walk_v2 [] state = {}"
| "rewalk_inputs blake3 n_chunks walk_v2 (step # steps) state =
     insert (ps_chunk step)
       (climb_inputs blake3 (blake blake3 (ps_chunk step)) (unat state mod n_chunks) (ps_weight_path step)) \<union>
     rewalk_inputs blake3 n_chunks walk_v2 steps (transition state (chunk_to_words (ps_chunk step)) walk_v2)"

definition step_shape :: "PomStep \<Rightarrow> bool" where
  "step_shape step \<longleftrightarrow> length (ps_chunk step) = 32 \<and> (\<forall>h \<in> set (ps_weight_path step). length h = 32)"

lemma rewalk_sound:
  assumes cs: "cs \<noteq> []" "\<forall>c \<in> set cs. length c = 32" and dig: "digest32 blake3"
    and root: "root_loop blake3 (map (blake blake3) cs) = r_t"
  shows "rewalk blake3 (length cs) r_t v2 steps s = Some (Some final) \<Longrightarrow> \<forall>step \<in> set steps. step_shape step \<Longrightarrow>
    inj_on blake3 (rewalk_inputs blake3 (length cs) v2 steps s \<union>
      tree_inputs blake3 (map (blake blake3) cs) \<union> set cs) \<Longrightarrow>
    walk_loop (\<lambda>i. map_option chunk_to_words (dense_read cs i)) (length cs) v2 (length steps) s = Some final"
proof (induction steps arbitrary: s)
  case (Cons step steps)
  let ?off = "unat s mod length cs"
  let ?x = "blake blake3 (ps_chunk step)"
  let ?s' = "transition s (chunk_to_words (ps_chunk step)) v2"
  let ?S = "rewalk_inputs blake3 (length cs) v2 (step # steps) s \<union> tree_inputs blake3 (map (blake blake3) cs) \<union> set cs"
  have off: "?off < length cs" using cs(1) by simp
  have v: "climb blake3 ?x ?off (ps_weight_path step) = root_loop blake3 (map (blake blake3) cs)"
    and rest: "rewalk blake3 (length cs) r_t v2 steps ?s' = Some (Some final)"
    using Cons.prems(1) root by (auto simp: verify_merkle_def split: if_splits)
  have inj1: "inj_on blake3 (climb_inputs blake3 ?x ?off (ps_weight_path step) \<union>
      tree_inputs blake3 (map (blake blake3) cs) \<union> insert (ps_chunk step) (set cs))"
    using Cons.prems(3) by (rule inj_on_subset) auto
  have "inj_on blake3 (rewalk_inputs blake3 (length cs) v2 steps ?s' \<union>
      tree_inputs blake3 (map (blake blake3) cs) \<union> set cs)"
    using Cons.prems(3) by (rule inj_on_subset) auto
  then have IH: "walk_loop (\<lambda>i. map_option chunk_to_words (dense_read cs i)) (length cs) v2 (length steps) ?s' =
      Some final"
    using Cons.IH [OF rest] Cons.prems(2) by simp
  have "ps_chunk step = cs ! ?off"
    using Cons.prems(2) by (intro climb_sound [OF inj1 dig _ _ cs(2) off v]) (auto simp: step_shape_def)
  with IH off show ?case by (simp add: dense_read_def)
qed simp

section \<open>Properties\<close>

text \<open>A proof built by the recompute prover over the on-disk index carries the walk's final state
  and its pow value, and the verifier accepts it against the index's root exactly when the value
  meets the target.\<close>

theorem build_proof_v2_verifies:
  assumes "sparse_ok blake3 idx"
  shows "\<exists>p. build_proof_v2 tier pph seed (wi_n_chunks idx) k (read_chunk idx) (merkle_path blake3 idx) h3 v2 = Some p \<and>
    walk_final seed (wi_n_chunks idx) k (read_chunk idx) v2 = Some (pp_final_state p) \<and>
    verify_proof_v2 blake3 p pph seed (wi_n_chunks idx) k (wi_r_t idx) target h3 v2 =
      Some (le_leq (pom_pow_value (pp_final_state p) pph h3) target)"
  using sparse.build_verify_v2 [OF assms, of tier pph seed k h3 v2 target]
  unfolding read_chunk_def [abs_def] .

lemma toy_index:
  obtains idx where "build_from_gguf toy_hash toy_gguf [(3, replicate (40 * 32 + 5) 7)] = Some idx"
    "sparse_ok toy_hash idx"
  using build_index_ok [OF digest32_toy toy_gguf_ok(1)] toy_gguf_ok(2) digest32_toy
  by (auto simp: sparse_ok_def)

theorem build_proof_v2_verifies_witness:
  "\<exists>idx p. build_from_gguf toy_hash toy_gguf [(3, replicate (40 * 32 + 5) 7)] = Some idx \<and>
    build_proof_v2 1 (replicate 32 9) 77 (wi_n_chunks idx) 256 (read_chunk idx) (merkle_path toy_hash idx) True True =
      Some p"
  using toy_index build_proof_v2_verifies by metis

text \<open>C2: the verifier of the recompute proof is sound: where the strings hashed by it and by the
  builder of the tree do not collide, an accepted proof's final state is the final state of the
  walk over the model's chunks, and its pow value meets the target.\<close>

theorem verify_proof_v2_sound:
  assumes "verify_proof_v2 blake3 proof pph seed (length cs) k r_t target h3 v2 = Some True"
    and "merkle_root blake3 (map (blake blake3) cs) = Some r_t" and "\<forall>c \<in> set cs. length c = 32"
    and "digest32 blake3" and "pp_steps_v2 proof = Some steps" and "\<forall>step \<in> set steps. step_shape step"
    and "inj_on blake3 (rewalk_inputs blake3 (length cs) v2 steps seed \<union>
      tree_inputs blake3 (map (blake blake3) cs) \<union> set cs)"
  shows "walk_final seed (length cs) k (\<lambda>i. map_option chunk_to_words (dense_read cs i)) v2 =
      Some (pp_final_state proof) \<and>
    pp_pow_value proof = pom_pow_value (pp_final_state proof) pph h3 \<and>
    le_leq (pp_pow_value proof) target"
proof -
  have ne: "cs \<noteq> []" and root: "root_loop blake3 (map (blake blake3) cs) = r_t"
    using assms(2) by (auto simp: merkle_root_def split: if_splits)
  have len: "length steps = k" and rw: "rewalk blake3 (length cs) r_t v2 steps seed = Some (Some (pp_final_state proof))"
    and pow: "pp_pow_value proof = pom_pow_value (pp_final_state proof) pph h3" "le_leq (pp_pow_value proof) target"
    using assms(1,5) by (auto simp: verify_proof_v2_def Let_def split: if_splits option.splits)
  have "walk_loop (\<lambda>i. map_option chunk_to_words (dense_read cs i)) (length cs) v2 (length steps) seed =
      Some (pp_final_state proof)"
    by (rule rewalk_sound [OF ne assms(3,4) root rw assms(6,7)])
  with len pow ne show ?thesis by (simp add: walk_final_def)
qed

lemma le_value_max: "le_value (replicate n 255) = 256 ^ n - 1"
proof (induction n)
  case (Suc n)
  have "(1 :: nat) \<le> 256 ^ n" by simp
  with Suc show ?case by (simp add: diff_mult_distrib2)
qed simp

lemma le_leq_max: "length a = 32 \<Longrightarrow> le_leq a (replicate 32 255)"
proof -
  assume a: "length a = 32"
  have "le_value a < 256 ^ 32" using le_value_less [of a] a by simp
  then have "le_value a \<le> le_value (replicate 32 255)" unfolding le_value_max by linarith
  then show ?thesis using a by (subst le_leq_value) simp_all
qed

definition toy_proof :: PomProof where
  "toy_proof =
     (let c = replicate 32 3; w = chunk_to_words c;
          step = \<lparr>ps_chunk = c, ps_weight_path = []\<rparr>;
          f = transition (transition 77 w True) w True
      in \<lparr>pp_tier = 1, pp_trace_root = replicate 32 0,
          pp_pow_value = pom_pow_value f (replicate 32 9) True, pp_final_state = f,
          pp_initial_trace_path = [], pp_final_trace_path = [], pp_openings = [],
          pp_steps_v2 = Some [step, step], pp_v3 = None, pp_v4 = None, pp_task = None\<rparr>)"

theorem verify_proof_v2_sound_witness:
  "walk_final 77 1 2 (\<lambda>i. map_option chunk_to_words (dense_read [replicate 32 3] i)) True =
     Some (pp_final_state toy_proof)"
proof -
  let ?c = "replicate 32 (3 :: u8)"
  let ?step = "\<lparr>ps_chunk = ?c, ps_weight_path = []\<rparr>"
  have v: "verify_proof_v2 toy_hash toy_proof (replicate 32 9) 77 (length [?c]) 2 (toy_hash ?c) (replicate 32 255)
      True True = Some True"
    by (simp add: verify_proof_v2_def toy_proof_def Let_def verify_merkle_def blake_def le_leq_max)
  have r: "merkle_root toy_hash (map (blake toy_hash) [?c]) = Some (toy_hash ?c)"
    by (simp add: merkle_root_def root_loop.simps blake_def)
  have st: "pp_steps_v2 toy_proof = Some [?step, ?step]" by (simp add: toy_proof_def Let_def)
  have sh: "\<forall>step \<in> set [?step, ?step]. step_shape step" by (simp add: step_shape_def)
  have inj: "inj_on toy_hash (rewalk_inputs toy_hash (length [?c]) True [?step, ?step] 77 \<union>
      tree_inputs toy_hash (map (blake toy_hash) [?c]) \<union> set [?c])"
    by (simp add: tree_inputs_def)
  show ?thesis
    using verify_proof_v2_sound [OF v r _ digest32_toy st sh inj] by simp
qed

text \<open>A spot-check proof built over the on-disk index is accepted exactly when the walk's pow value
  meets the target: every Fiat-Shamir opening verifies.\<close>

theorem build_proof_verifies:
  assumes "sparse_ok blake3 idx" and "0 < k"
  shows "\<exists>p. build_proof blake3 tier pph nonce seed (wi_n_chunks idx) k t (read_chunk idx) (merkle_path blake3 idx) h3 =
      Some p \<and>
    walk_final seed (wi_n_chunks idx) k (read_chunk idx) False = Some (pp_final_state p) \<and>
    verify_proof blake3 pph nonce seed p (wi_n_chunks idx) k t (wi_r_t idx) target h3 =
      Some (le_leq (pom_pow_value (pp_final_state p) pph h3) target)"
  using sparse.build_verify [OF assms, of tier pph nonce seed t h3 target]
  unfolding read_chunk_def [abs_def] .

theorem build_proof_verifies_witness:
  "\<exists>idx p. build_from_gguf toy_hash toy_gguf [(3, replicate (40 * 32 + 5) 7)] = Some idx \<and>
    build_proof toy_hash 1 (replicate 32 9) 5 77 (wi_n_chunks idx) 256 32 (read_chunk idx) (merkle_path toy_hash idx) True =
      Some p"
proof -
  obtain idx where "build_from_gguf toy_hash toy_gguf [(3, replicate (40 * 32 + 5) 7)] = Some idx"
    and ok: "sparse_ok toy_hash idx" by (rule toy_index)
  then show ?thesis using build_proof_verifies [OF ok, of 256 1 "replicate 32 9" 5 77 32 True] by auto
qed

text \<open>A nonce wins when the pow value of its walk meets the target.\<close>

definition pom_wins :: "WeightIndex \<Rightarrow> hash \<Rightarrow> u64 \<Rightarrow> hash \<Rightarrow> nat \<Rightarrow> bool \<Rightarrow> u64 \<Rightarrow> bool" where
  "pom_wins index pph timestamp target k h3 nonce \<longleftrightarrow>
     (\<exists>f. walk_final (pom_block_seed pph timestamp nonce h3 False False) (wi_n_chunks index) k (read_chunk index) False =
        Some f \<and> le_leq (pom_pow_value f pph h3) target)"

lemma mine_loop_ok:
  assumes ok: "sparse_ok blake3 idx" and k: "0 < k"
  shows "\<exists>r. mine_loop blake3 idx tier pph timestamp target k t h3 ns = Some r \<and>
    (case r of
       None \<Rightarrow> (\<forall>n \<in> set ns. \<not> pom_wins idx pph timestamp target k h3 n)
     | Some (nonce, p) \<Rightarrow>
         (\<exists>pre post. ns = pre @ nonce # post \<and> (\<forall>n \<in> set pre. \<not> pom_wins idx pph timestamp target k h3 n)) \<and>
         pom_wins idx pph timestamp target k h3 nonce \<and>
         verify_proof blake3 pph nonce (pom_block_seed pph timestamp nonce h3 False False) p (wi_n_chunks idx) k t
           (wi_r_t idx) target h3 = Some True)"
proof (induction ns)
  case (Cons n ns)
  let ?seed = "pom_block_seed pph timestamp n h3 False False"
  obtain p where p:
    "build_proof blake3 tier pph n ?seed (wi_n_chunks idx) k t (read_chunk idx) (merkle_path blake3 idx) h3 = Some p"
    "walk_final ?seed (wi_n_chunks idx) k (read_chunk idx) False = Some (pp_final_state p)"
    "verify_proof blake3 pph n ?seed p (wi_n_chunks idx) k t (wi_r_t idx) target h3 =
      Some (le_leq (pom_pow_value (pp_final_state p) pph h3) target)"
    using sparse.build_verify [OF ok k, of tier pph n ?seed t h3 target]
    unfolding read_chunk_def [abs_def] by blast
  show ?case
  proof (cases "le_leq (pom_pow_value (pp_final_state p) pph h3) target")
    case True
    with p have "pom_wins idx pph timestamp target k h3 n" by (simp add: pom_wins_def)
    moreover have "mine_loop blake3 idx tier pph timestamp target k t h3 (n # ns) = Some (Some (n, p))"
      using p True by simp
    moreover have "\<exists>pre post. n # ns = pre @ n # post \<and> (\<forall>n \<in> set pre. \<not> pom_wins idx pph timestamp target k h3 n)"
      by (intro exI [of _ "[]"] exI [of _ ns]) simp
    ultimately show ?thesis using p True by simp
  next
    case False
    then have no: "\<not> pom_wins idx pph timestamp target k h3 n" using p by (simp add: pom_wins_def)
    have eq: "mine_loop blake3 idx tier pph timestamp target k t h3 (n # ns) =
        mine_loop blake3 idx tier pph timestamp target k t h3 ns"
      using p False by simp
    obtain r where r: "mine_loop blake3 idx tier pph timestamp target k t h3 ns = Some r" using Cons.IH by blast
    show ?thesis
    proof (cases r)
      case None
      with Cons.IH r no eq show ?thesis by simp
    next
      case (Some np)
      obtain m q where np: "np = (m, q)" by (cases np)
      with Cons.IH r Some obtain pre post where "ns = pre @ m # post"
        "\<forall>n \<in> set pre. \<not> pom_wins idx pph timestamp target k h3 n" by auto
      then have "\<exists>pre post. n # ns = pre @ m # post \<and> (\<forall>n \<in> set pre. \<not> pom_wins idx pph timestamp target k h3 n)"
        using no by (intro exI [of _ "n # pre"] exI [of _ post]) simp
      with Cons.IH r Some np eq show ?thesis by (simp del: mine_loop.simps)
    qed
  qed
qed simp

lemma nonce_range_split:
  fixes n :: u64
  assumes "map word_of_nat [a..<b] = pre @ n # post" and "b \<le> 2 ^ 64 - 1"
  shows "a \<le> unat n" and "unat n < b" and "\<And>m. a \<le> unat m \<Longrightarrow> m < n \<Longrightarrow> m \<in> set pre"
proof -
  let ?i = "length pre"
  have "length (map word_of_nat [a..<b] :: u64 list) = length (pre @ n # post)" by (simp only: assms(1))
  then have i: "a + ?i < b" by simp
  have nth: "(pre @ n # post) ! j = word_of_nat (a + j)" if "a + j < b" for j
    unfolding assms(1) [symmetric] using that by simp
  have "n = word_of_nat (a + ?i)" using nth [OF i] by (simp only: nth_append_length)
  moreover have "unat (word_of_nat x :: u64) = x" if "x < b" for x
    by (rule unat_word_of_nat_u64) (use that assms(2) in linarith)
  ultimately have n: "unat n = a + ?i" using i by (simp only:)
  then show "a \<le> unat n" "unat n < b" using i by auto
  fix m :: u64 assume m: "a \<le> unat m" "m < n"
  define j where "j = unat m - a"
  have j: "j < ?i" "unat m = a + j" using m n by (auto simp: j_def word_less_nat_alt)
  then have "pre ! j = word_of_nat (unat m)" using nth [of j] i by (simp add: nth_append)
  with j(1) show "m \<in> set pre" using nth_mem [OF j(1)] by simp
qed

text \<open>C15: CPU mining never panics over the on-disk index; it returns the first nonce of its range whose
  walk meets the target, with a proof that the verifier accepts, and \<open>None\<close> only when no nonce of
  the range meets it.\<close>

theorem mine_pom_correct:
  assumes "sparse_ok blake3 idx" and "0 < k"
  shows "\<exists>r. mine_pom blake3 idx tier pph timestamp target k t start maxn h3 = Some r \<and>
    (case r of
       None \<Rightarrow> (\<forall>n. unat start \<le> unat n \<and> unat n < min (2 ^ 64 - 1) (unat start + unat maxn) \<longrightarrow>
                  \<not> pom_wins idx pph timestamp target k h3 n)
     | Some (nonce, p) \<Rightarrow>
         unat start \<le> unat nonce \<and> unat nonce < min (2 ^ 64 - 1) (unat start + unat maxn) \<and>
         pom_wins idx pph timestamp target k h3 nonce \<and>
         (\<forall>n. start \<le> n \<and> n < nonce \<longrightarrow> \<not> pom_wins idx pph timestamp target k h3 n) \<and>
         verify_proof blake3 pph nonce (pom_block_seed pph timestamp nonce h3 False False) p (wi_n_chunks idx) k t
           (wi_r_t idx) target h3 = Some True)"
proof -
  define b where "b = min (2 ^ 64 - 1) (unat start + unat maxn)"
  let ?ns = "map word_of_nat [unat start..<b] :: u64 list"
  have b: "b \<le> 2 ^ 64 - 1" by (simp add: b_def)
  obtain r where r: "mine_loop blake3 idx tier pph timestamp target k t h3 ?ns = Some r"
    and spec: "case r of
       None \<Rightarrow> (\<forall>n \<in> set ?ns. \<not> pom_wins idx pph timestamp target k h3 n)
     | Some (nonce, p) \<Rightarrow>
         (\<exists>pre post. ?ns = pre @ nonce # post \<and> (\<forall>n \<in> set pre. \<not> pom_wins idx pph timestamp target k h3 n)) \<and>
         pom_wins idx pph timestamp target k h3 nonce \<and>
         verify_proof blake3 pph nonce (pom_block_seed pph timestamp nonce h3 False False) p (wi_n_chunks idx) k t
           (wi_r_t idx) target h3 = Some True"
    using mine_loop_ok [OF assms, of tier pph timestamp target t h3 ?ns] by blast
  have mine: "mine_pom blake3 idx tier pph timestamp target k t start maxn h3 = Some r"
    using r by (simp only: mine_pom_def b_def)
  show ?thesis
  proof (cases r)
    case None
    have "n \<in> set ?ns" if "unat start \<le> unat n" "unat n < b" for n
      using that by (auto intro!: image_eqI [of _ _ "unat n"])
    with None spec mine show ?thesis by (auto simp: b_def)
  next
    case (Some np)
    obtain nonce p where np: "np = (nonce, p)" by (cases np)
    with Some spec obtain pre post where pre: "?ns = pre @ nonce # post"
      "\<forall>n \<in> set pre. \<not> pom_wins idx pph timestamp target k h3 n" by auto
    have "\<forall>n. start \<le> n \<and> n < nonce \<longrightarrow> \<not> pom_wins idx pph timestamp target k h3 n"
      using nonce_range_split(3) [OF pre(1) b] pre(2) by (auto simp: word_le_nat_alt)
    with Some np spec mine nonce_range_split(1,2) [OF pre(1) b] show ?thesis by (simp add: b_def)
  qed
qed

theorem mine_pom_correct_witness:
  "\<exists>idx r. build_from_gguf toy_hash toy_gguf [(3, replicate (40 * 32 + 5) 7)] = Some idx \<and>
    mine_pom toy_hash idx 1 (replicate 32 9) 5 (replicate 32 255) 256 32 7 10 True = Some r"
proof -
  obtain idx where "build_from_gguf toy_hash toy_gguf [(3, replicate (40 * 32 + 5) 7)] = Some idx"
    and ok: "sparse_ok toy_hash idx" by (rule toy_index)
  then show ?thesis
    using mine_pom_correct [OF ok, of 256 1 "replicate 32 9" 5 "replicate 32 255" 32 7 10 True] by auto
qed

end
