(* ===== verification/Pom_V3.thy ===== *)
theory Pom_V3
  imports Pom_Proof
begin

text \<open>
  \<open>src/src/pom_v3.rs\<close>: the matrix-state walk of H6. The state is a 256 x 256 matrix of bytes, a
  step multiplies it with a 64 KiB tile of the model and folds every entry back to a byte. The
  prover opens 32 spot checks of the committed trace; \<open>ref_walk\<close> is the host reference of the
  GPU kernel whose dump the prover gets. A tile is read through the possession index, so the
  provers return \<open>None\<close> where a read panics, and an error value where the source returns one.

  The matrix step and the tile openings are shared with the later eras. The lemmas show that the
  dump of the reference walk leads to a proof that the self-check accepts.
\<close>

section \<open>Definitions\<close>

definition POM_V3_D :: nat where "POM_V3_D = 256"
definition POM_V3_K :: nat where "POM_V3_K = 256"
definition POM_V3_CHECKS :: nat where "POM_V3_CHECKS = 32"
definition POM_V3_CHUNK_BYTES :: nat where "POM_V3_CHUNK_BYTES = 32"
definition POM_V3_TILE_BYTES :: nat where "POM_V3_TILE_BYTES = 65536"
definition POM_V3_TILE_CHUNKS :: nat where "POM_V3_TILE_CHUNKS = POM_V3_TILE_BYTES div POM_V3_CHUNK_BYTES"
definition POM_V3_SNIPPET_BYTES :: nat where "POM_V3_SNIPPET_BYTES = 32"
definition POM_V3_COL_CHUNKS :: nat where "POM_V3_COL_CHUNKS = POM_V3_D div POM_V3_CHUNK_BYTES"
definition POM_V3_COL_SUBTREE_DEPTH :: nat where "POM_V3_COL_SUBTREE_DEPTH = 3"
definition POM_V3_S0_ROW_SALT :: u64 where "POM_V3_S0_ROW_SALT = 0x6B61F28F3CC48744"
definition POM_V3_OFFSET_FIRST_SALT :: u64 where "POM_V3_OFFSET_FIRST_SALT = 0x3F1F886D659E316A"
definition POM_V3_OFFSET_STEP_SALT :: u64 where "POM_V3_OFFSET_STEP_SALT = 0xD4C194F3ADB3B1C7"

text \<open>\<open>b"keryx-h6-checks-v3"\<close>\<close>

definition POM_V3_CHECKS_DOMAIN :: bytes where
  "POM_V3_CHECKS_DOMAIN = [107, 101, 114, 121, 120, 45, 104, 54, 45, 99, 104, 101, 99, 107, 115, 45, 118, 51]"

definition fold64 :: "hash \<Rightarrow> u64" where
  "fold64 root = from_le (take 8 root)"

text \<open>\<open>acc as u32\<close> of a 32-bit signed accumulator.\<close>

definition rho8 :: "int \<Rightarrow> u32 \<Rightarrow> u8" where
  "rho8 acc tweak =
     (let z1 = (word_of_int acc :: u32) XOR tweak;
          z2 = z1 * 0x9E3779B9;
          z3 = z2 XOR drop_bit 16 z2;
          z4 = z3 * 0x85EBCA6B;
          z5 = z4 XOR drop_bit 13 z4
      in ucast (z5 AND 0xff))"

definition rho_tweak :: "nat \<Rightarrow> nat \<Rightarrow> nat \<Rightarrow> u32" where
  "rho_tweak step row col =
     word_of_nat step * 0x9E3779B9 + word_of_nat row * 0xC2B2AE35 + word_of_nat col * 0x85EBCA6B"

definition dot_i8 :: "bytes \<Rightarrow> bytes \<Rightarrow> int" where
  "dot_i8 row col = sum_list (map (\<lambda>(a, b). sint a * sint b) (zip row col))"

definition snippet_fold :: "bytes \<Rightarrow> u64" where
  "snippet_fold snippet =
     fold (\<lambda>w sf. mix64 (sf XOR ucast (from_le (slice (w * 4) (w * 4 + 4) snippet) :: u32))) [0..<8] 0"

definition v3_first_offset :: "u64 \<Rightarrow> nat \<Rightarrow> nat" where
  "v3_first_offset seed n_tiles = unat (mix64 (seed XOR POM_V3_OFFSET_FIRST_SALT)) mod n_tiles"

definition v3_next_offset :: "u64 \<Rightarrow> nat \<Rightarrow> bytes \<Rightarrow> nat \<Rightarrow> nat" where
  "v3_next_offset seed step snippet n_tiles =
     unat (mix64 (seed XOR word_of_nat (step + 1) * POM_V3_OFFSET_STEP_SALT XOR snippet_fold snippet)) mod n_tiles"

text \<open>One row of the initial state: \<open>n\<close> words of the \<open>mix64\<close> key stream.\<close>

primrec keystream :: "nat \<Rightarrow> u64 \<Rightarrow> bytes" where
  "keystream 0 h = []"
| "keystream (Suc n) h = le_bytes 4 (ucast (mix64 h) :: u32) @ keystream n (mix64 h)"

definition v3_initial_state :: "u64 \<Rightarrow> bytes" where
  "v3_initial_state seed =
     concat (map (\<lambda>r. keystream (POM_V3_D div 4) (mix64 (seed XOR (POM_V3_S0_ROW_SALT + word_of_nat r)))) [0..<POM_V3_D])"

definition state_leaves :: "(bytes \<Rightarrow> hash) \<Rightarrow> bytes \<Rightarrow> hash list" where
  "state_leaves blake3 state =
     map (\<lambda>r. blake blake3 (slice (r * POM_V3_D) ((r + 1) * POM_V3_D) state)) [0..<POM_V3_D]"

text \<open>The leaf list has \<open>POM_V3_D\<close> entries, so the assertion of \<open>merkle_root\<close> never fires.\<close>

definition v3_state_root :: "(bytes \<Rightarrow> hash) \<Rightarrow> bytes \<Rightarrow> hash" where
  "v3_state_root blake3 state = root_loop blake3 (state_leaves blake3 state)"

definition v3_check_points ::
  "(bytes \<Rightarrow> hash) \<Rightarrow> hash \<Rightarrow> u64 \<Rightarrow> hash list \<Rightarrow> bytes list \<Rightarrow> (nat \<times> nat \<times> nat) list" where
  "v3_check_points blake3 pre_pow_hash nonce roots snippets =
     (let acc = POM_V3_CHECKS_DOMAIN @ pre_pow_hash @ le_bytes 8 nonce @ blake blake3 (concat roots) @
                blake blake3 (concat snippets);
          prf_seed = blake blake3 acc
      in map (\<lambda>i. let d = blake blake3 (prf_seed @ le_bytes 8 (word_of_nat i :: u64));
                      t = 1 + unat (from_le (slice 0 8 d) :: u64) mod POM_V3_K;
                      x = unat (from_le (slice 8 16 d) :: u64) mod POM_V3_D;
                      j = unat (from_le (slice 16 24 d) :: u64) mod POM_V3_D
                  in (t, x, j)) [0..<POM_V3_CHECKS])"

text \<open>The offset chain that prover and verifier derive from the snippets.\<close>

definition v3_offsets :: "u64 \<Rightarrow> bytes list \<Rightarrow> nat \<Rightarrow> nat list" where
  "v3_offsets seed snippets n_tiles =
     map (\<lambda>i. if i = 0 then v3_first_offset seed n_tiles
              else v3_next_offset seed i (snippets ! (i - 1)) n_tiles) [0..<POM_V3_K]"

text \<open>The range \<open>path[k..]\<close> panics past the end.\<close>

definition slice_from :: "nat \<Rightarrow> 'a list \<Rightarrow> 'a list option" where
  "slice_from k xs = (if k \<le> length xs then Some (drop k xs) else None)"

definition v3_open ::
  "(bytes \<Rightarrow> hash) \<Rightarrow> WeightIndex \<Rightarrow> bytes \<Rightarrow> hash list list \<Rightarrow> nat list \<Rightarrow> nat \<times> nat \<times> nat \<Rightarrow> PomV3Opening option" where
  "v3_open blake3 index states leaves offsets = (\<lambda>(ti, xi, ji). do {
     let d2 = POM_V3_D * POM_V3_D;
     let off = offsets ! (ti - 1);
     let col_first_leaf = off * POM_V3_TILE_CHUNKS + ji * POM_V3_COL_CHUNKS;
     chunks \<leftarrow> collect (map (\<lambda>c. read_chunk_bytes index (col_first_leaf + c)) [0..<POM_V3_COL_CHUNKS]);
     leaf_path \<leftarrow> merkle_path blake3 index col_first_leaf;
     col_path \<leftarrow> slice_from POM_V3_COL_SUBTREE_DEPTH leaf_path;
     snippet_path \<leftarrow> merkle_path blake3 index (off * POM_V3_TILE_CHUNKS);
     Some \<lparr>row_before = slice ((ti - 1) * d2 + xi * POM_V3_D) ((ti - 1) * d2 + (xi + 1) * POM_V3_D) states,
           path_before = merkle_proof blake3 (leaves ! (ti - 1)) xi,
           row_after = slice (ti * d2 + xi * POM_V3_D) (ti * d2 + (xi + 1) * POM_V3_D) states,
           path_after = merkle_proof blake3 (leaves ! ti) xi,
           tile_col = concat chunks, col_path = col_path, snippet_path = snippet_path\<rparr>
   })"

datatype walk_error = WrongShape | BlobTooSmall | TileWrongShape nat | RangeProofFails nat | PadNotEmpty nat | NoTileSpace

definition build_proof_v3 ::
  "(bytes \<Rightarrow> hash) \<Rightarrow> u8 \<Rightarrow> hash \<Rightarrow> u64 \<Rightarrow> u64 \<Rightarrow> bytes \<Rightarrow> bytes \<Rightarrow> WeightIndex \<Rightarrow> (walk_error + PomProofV3) option" where
  "build_proof_v3 blake3 tier pre_pow_hash nonce seed states snippets_bytes index =
     (let d2 = POM_V3_D * POM_V3_D;
          n_tiles = wi_n_chunks index div POM_V3_TILE_CHUNKS
      in if length states \<noteq> (POM_V3_K + 1) * d2 \<or> length snippets_bytes \<noteq> POM_V3_K * POM_V3_SNIPPET_BYTES
         then Some (Inl WrongShape)
         else if n_tiles = 0 then Some (Inl BlobTooSmall)
         else do {
           let snippets = chunks 32 snippets_bytes;
           let leaves = map (\<lambda>t. state_leaves blake3 (slice (t * d2) ((t + 1) * d2) states)) [0..<POM_V3_K + 1];
           let roots = map (root_loop blake3) leaves;
           let offsets = v3_offsets seed snippets n_tiles;
           let points = v3_check_points blake3 pre_pow_hash nonce roots snippets;
           checks \<leftarrow> collect (map (v3_open blake3 index states leaves offsets) points);
           Some (Inr \<lparr>v3_tier = tier, v3_roots = roots, v3_snippets = snippets, v3_checks = checks\<rparr>)
         })"

definition col_subtree_root :: "(bytes \<Rightarrow> hash) \<Rightarrow> bytes \<Rightarrow> hash" where
  "col_subtree_root blake3 col = root_loop blake3 (map (blake blake3) (chunks POM_V3_CHUNK_BYTES col))"

definition v3_check_ok ::
  "(bytes \<Rightarrow> hash) \<Rightarrow> PomProofV3 \<Rightarrow> hash \<Rightarrow> nat list \<Rightarrow> nat \<times> nat \<times> nat \<Rightarrow> PomV3Opening \<Rightarrow> bool" where
  "v3_check_ok blake3 proof r_t offsets = (\<lambda>(ti, xi, ji) open.
     if length (row_before open) \<noteq> POM_V3_D \<or> length (row_after open) \<noteq> POM_V3_D \<or> length (tile_col open) \<noteq> POM_V3_D
     then False
     else if \<not> verify_merkle blake3 (blake blake3 (row_before open)) xi (path_before open) (v3_roots proof ! (ti - 1))
     then False
     else if \<not> verify_merkle blake3 (blake blake3 (row_after open)) xi (path_after open) (v3_roots proof ! ti)
     then False
     else let off_t = offsets ! (ti - 1);
              subtree_index = off_t * (POM_V3_TILE_CHUNKS div 2 ^ POM_V3_COL_SUBTREE_DEPTH) + ji
          in if \<not> verify_merkle blake3 (col_subtree_root blake3 (tile_col open)) subtree_index (col_path open) r_t
             then False
             else if \<not> verify_merkle blake3 (blake blake3 (v3_snippets proof ! (ti - 1))) (off_t * POM_V3_TILE_CHUNKS)
                         (snippet_path open) r_t
             then False
             else rho8 (dot_i8 (row_before open) (tile_col open)) (rho_tweak ti xi ji) = row_after open ! ji)"

definition verify_proof_v3 :: "(bytes \<Rightarrow> hash) \<Rightarrow> hash \<Rightarrow> u64 \<Rightarrow> u64 \<Rightarrow> PomProofV3 \<Rightarrow> hash \<Rightarrow> nat \<Rightarrow> bool" where
  "verify_proof_v3 blake3 pre_pow_hash nonce seed proof r_t n_chunks =
     (let n_tiles = n_chunks div POM_V3_TILE_CHUNKS
      in if length (v3_roots proof) \<noteq> POM_V3_K + 1 \<or> length (v3_snippets proof) \<noteq> POM_V3_K \<or>
            length (v3_checks proof) \<noteq> POM_V3_CHECKS
         then False
         else if n_tiles = 0 then False
         else if v3_state_root blake3 (v3_initial_state seed) \<noteq> v3_roots proof ! 0 then False
         else let offsets = v3_offsets seed (v3_snippets proof) n_tiles;
                  points = v3_check_points blake3 pre_pow_hash nonce (v3_roots proof) (v3_snippets proof)
              in list_all (\<lambda>(point, open). v3_check_ok blake3 proof r_t offsets point open)
                   (zip points (v3_checks proof)))"

text \<open>One matrix step in dimension \<open>D\<close>, and the reference walk: the states after each step with the
  snippet and the offset of its tile.\<close>

definition matrix_step :: "nat \<Rightarrow> bytes \<Rightarrow> bytes \<Rightarrow> nat \<Rightarrow> bytes" where
  "matrix_step D state tile step =
     concat (map (\<lambda>x. map (\<lambda>j. rho8 (dot_i8 (slice (x * D) ((x + 1) * D) state) (slice (j * D) ((j + 1) * D) tile))
                                 (rho_tweak step x j)) [0..<D]) [0..<D])"

fun ref_loop :: "u64 \<Rightarrow> bytes \<Rightarrow> nat \<Rightarrow> nat \<Rightarrow> nat \<Rightarrow> bytes \<Rightarrow> nat \<Rightarrow> (bytes \<times> bytes \<times> nat) list" where
  "ref_loop seed blob n_tiles 0 step prev off = []"
| "ref_loop seed blob n_tiles (Suc left) step prev off =
     (let tile = slice (off * POM_V3_TILE_BYTES) ((off + 1) * POM_V3_TILE_BYTES) blob;
          snippet = take POM_V3_SNIPPET_BYTES tile;
          nxt = matrix_step POM_V3_D prev tile step
      in (nxt, snippet, off) # ref_loop seed blob n_tiles left (step + 1) nxt (v3_next_offset seed step snippet n_tiles))"

definition ref_walk :: "u64 \<Rightarrow> bytes \<Rightarrow> bytes \<times> bytes \<times> nat list" where
  "ref_walk seed blob =
     (let n_tiles = length blob div POM_V3_CHUNK_BYTES div POM_V3_TILE_CHUNKS;
          s0 = v3_initial_state seed;
          steps = ref_loop seed blob n_tiles POM_V3_K 1 s0 (v3_first_offset seed n_tiles)
      in (s0 @ concat (map fst steps), concat (map (fst \<circ> snd) steps), map (snd \<circ> snd) steps))"

section \<open>Aligned subtrees\<close>

lemma le_pow_height: "0 < n \<Longrightarrow> n \<le> 2 ^ height n"
proof -
  assume n: "0 < n"
  then have "\<not> 1 < node_count n (height n)" using node_count_1_iff [of n "height n"] by simp
  then show ?thesis by (simp add: less_node_count_iff)
qed

lemma height_ge: "2 ^ d \<le> n \<Longrightarrow> d \<le> height n"
proof (rule ccontr)
  assume n: "2 ^ d \<le> n" and "\<not> d \<le> height n"
  then have "(2 :: nat) ^ height n < 2 ^ d" by simp
  moreover have "0 < n" using n by (metis less_le_trans zero_less_numeral zero_less_power)
  ultimately show False using le_pow_height [of n] n by linarith
qed

lemma height_pow: "height (2 ^ d) = d"
proof (rule antisym)
  show "d \<le> height (2 ^ d)" by (rule height_ge) simp
  show "height (2 ^ d) \<le> d"
  proof (rule ccontr)
    assume "\<not> height (2 ^ d) \<le> d"
    then have "1 < node_count (2 ^ d) d"
      using height_node_count [of d "2 ^ d"] height_0_iff [of "node_count (2 ^ d) d"] by simp
    then show False by (simp add: less_node_count_iff)
  qed
qed

text \<open>The root over an aligned full batch of leaves is the node above it.\<close>

lemma root_loop_aligned:
  assumes "(q + 1) * 2 ^ d \<le> length ls"
  shows "root_loop blake3 (slice (q * 2 ^ d) ((q + 1) * 2 ^ d) ls) = level_at blake3 ls d ! q"
proof -
  let ?b = "slice (q * 2 ^ d) ((q + 1) * 2 ^ d) ls"
  have "0 < (2 :: nat) ^ d" and "q * 2 ^ d + 2 ^ d \<le> length ls" using assms by (simp_all add: add.commute)
  then have q: "q * 2 ^ d < length ls" by linarith
  have len: "length ?b = 2 ^ d" using assms by simp
  then have "?b \<noteq> []" by (metis list.size(3) power_not_zero zero_neq_numeral)
  from root_loop_level_at [OF this, of blake3] have "root_loop blake3 ?b = level_at blake3 ?b d ! 0"
    unfolding len height_pow .
  also have "level_at blake3 ?b d = slice q (q + 1) (level_at blake3 ls d)" by (rule level_at_slice)
  also have "q < length (level_at blake3 ls d)"
    using q by (simp add: node_count_level less_node_count_iff)
  then have "slice q (q + 1) (level_at blake3 ls d) ! 0 = level_at blake3 ls d ! q"
    by (simp add: slice_def)
  finally show ?thesis .
qed

context weight_store
begin

text \<open>A tile of \<open>2^d\<close> aligned chunks opens with the path of its first chunk less its lowest siblings.\<close>

lemma tile_opens:
  assumes ok: "store_ok w" and q: "(q + 1) * 2 ^ d \<le> size_of w"
  shows "verify_merkle blake3 (root_loop blake3 (map (blake blake3) (slice (q * 2 ^ d) ((q + 1) * 2 ^ d) (chunks_of w)))) q
      (drop d (merkle_proof blake3 (map (blake blake3) (chunks_of w)) (q * 2 ^ d))) (root_of w)"
    and "d \<le> length (merkle_proof blake3 (map (blake blake3) (chunks_of w)) (q * 2 ^ d))"
proof -
  let ?ls = "map (blake blake3) (chunks_of w)"
  have n: "length ?ls = size_of w" using size_law [OF ok] by simp
  have "2 ^ d \<le> size_of w" using q by (simp add: mult.commute)
  then have h: "d \<le> height (length ?ls)" by (simp only: n height_ge)
  then show "d \<le> length (merkle_proof blake3 ?ls (q * 2 ^ d))" by (simp only: length_merkle_proof)
  have "q * 2 ^ d + 2 ^ d \<le> length ?ls" and "0 < (2 :: nat) ^ d" using q unfolding n by (simp_all add: add.commute)
  then have i: "q * 2 ^ d < length ?ls" by linarith
  have "climb blake3 (level_at blake3 ?ls d ! q) q (drop d (merkle_proof blake3 ?ls (q * 2 ^ d))) = root_loop blake3 ?ls"
    using climb_ancestor [OF i h, of blake3] by simp
  moreover have "root_loop blake3 (slice (q * 2 ^ d) ((q + 1) * 2 ^ d) ?ls) = level_at blake3 ?ls d ! q"
    using q n by (intro root_loop_aligned) simp
  moreover have "slice (q * 2 ^ d) ((q + 1) * 2 ^ d) ?ls = map (blake blake3) (slice (q * 2 ^ d) ((q + 1) * 2 ^ d) (chunks_of w))"
    by (simp add: slice_def take_map drop_map)
  ultimately show "verify_merkle blake3 (root_loop blake3 (map (blake blake3)
      (slice (q * 2 ^ d) ((q + 1) * 2 ^ d) (chunks_of w)))) q (drop d (merkle_proof blake3 ?ls (q * 2 ^ d))) (root_of w)"
    using root_loop_root [OF ok] by (simp add: verify_merkle_def)
qed

lemma read_range:
  assumes "store_ok w" and "a + n \<le> size_of w"
  shows "collect (map (\<lambda>c. bytes_of w (a + c)) [0..<n]) = Some (slice a (a + n) (chunks_of w))"
proof -
  have "collect (map (\<lambda>c. bytes_of w (a + c)) [0..<n]) = Some (map (\<lambda>c. chunks_of w ! (a + c)) [0..<n])"
    using assms by (intro collect_cong read_law) auto
  also have "map (\<lambda>c. chunks_of w ! (a + c)) [0..<n] = slice a (a + n) (chunks_of w)"
    using assms size_law [OF assms(1)] by (intro nth_equalityI) (auto simp: nth_slice)
  finally show ?thesis .
qed

end

section \<open>Rows and tiles\<close>

lemma slice_block:
  assumes "\<forall>x \<in> set B. length x = k" and "i < length B"
  shows "slice (i * k) ((i + 1) * k) (concat B) = B ! i"
  using slice_concat_uniform [OF assms, of "[]" "[]"] by (simp add: add.commute)

lemma length_matrix_step [simp]: "length (matrix_step D state tile step) = D * D"
  unfolding matrix_step_def by (subst concat_length_uniform [of _ D]) auto

lemma matrix_step_entry:
  assumes "x < D" and "j < D"
  shows "slice (x * D) ((x + 1) * D) (matrix_step D state tile step) ! j =
    rho8 (dot_i8 (slice (x * D) ((x + 1) * D) state) (slice (j * D) ((j + 1) * D) tile)) (rho_tweak step x j)"
proof -
  let ?B = "map (\<lambda>x. map (\<lambda>j. rho8 (dot_i8 (slice (x * D) ((x + 1) * D) state) (slice (j * D) ((j + 1) * D) tile))
    (rho_tweak step x j)) [0..<D]) [0..<D]"
  have "slice (x * D) ((x + 1) * D) (concat ?B) = ?B ! x"
    using assms by (intro slice_block) auto
  then show ?thesis unfolding matrix_step_def using assms by simp
qed

lemma length_keystream [simp]: "length (keystream n h) = 4 * n"
  by (induction n arbitrary: h) auto

lemma length_v3_initial_state: "length (v3_initial_state seed) = POM_V3_D * POM_V3_D"
proof -
  have "length (v3_initial_state seed) = POM_V3_D * (4 * (POM_V3_D div 4))"
    unfolding v3_initial_state_def by (subst concat_length_uniform [of _ "4 * (POM_V3_D div 4)"]) auto
  then show ?thesis by (simp add: POM_V3_D_def)
qed

section \<open>The reference walk\<close>

lemma length_ref_loop [simp]: "length (ref_loop seed blob n k step prev off) = k"
  by (induction k arbitrary: step prev off) (simp_all add: Let_def)

definition v3_tile :: "bytes \<Rightarrow> nat \<Rightarrow> bytes" where
  "v3_tile blob off = slice (off * POM_V3_TILE_BYTES) ((off + 1) * POM_V3_TILE_BYTES) blob"

lemma ref_loop_nth:
  "i < k \<Longrightarrow> L = ref_loop seed blob n k step prev off \<Longrightarrow>
    fst (L ! i) = matrix_step POM_V3_D (if i = 0 then prev else fst (L ! (i - 1)))
      (v3_tile blob (snd (snd (L ! i)))) (step + i) \<and>
    fst (snd (L ! i)) = take POM_V3_SNIPPET_BYTES (v3_tile blob (snd (snd (L ! i)))) \<and>
    snd (snd (L ! i)) = (if i = 0 then off else v3_next_offset seed (step + i - 1) (fst (snd (L ! (i - 1)))) n)"
proof (induction k arbitrary: i step prev off L)
  case (Suc k)
  define tile where "tile = v3_tile blob off"
  define nxt where "nxt = matrix_step POM_V3_D prev tile step"
  define off' where "off' = v3_next_offset seed step (take POM_V3_SNIPPET_BYTES tile) n"
  define L' where "L' = ref_loop seed blob n k (step + 1) nxt off'"
  have L: "L = (nxt, take POM_V3_SNIPPET_BYTES tile, off) # L'"
    using Suc.prems(2) by (simp add: Let_def L'_def off'_def nxt_def tile_def v3_tile_def)
  show ?case
  proof (cases i)
    case 0
    then show ?thesis by (simp add: L nxt_def tile_def)
  next
    case (Suc j)
    with Suc.prems have "j < k" by simp
    from Suc.IH [OF this L'_def] Suc show ?thesis
      by (cases j) (simp_all add: L off'_def)
  qed
qed simp

lemmas v3_consts = POM_V3_D_def POM_V3_K_def POM_V3_CHECKS_def POM_V3_CHUNK_BYTES_def POM_V3_TILE_BYTES_def
  POM_V3_TILE_CHUNKS_def POM_V3_SNIPPET_BYTES_def POM_V3_COL_CHUNKS_def POM_V3_COL_SUBTREE_DEPTH_def

text \<open>A tile of the blob in terms of the canonical chunks.\<close>

lemma v3_tile_chunks:
  assumes "\<forall>c \<in> set cs. length c = 32"
  shows "v3_tile (concat cs) off = concat (slice (off * 2048) ((off + 1) * 2048) cs)"
  using concat_slice_uniform [OF assms, of "off * 2048" "(off + 1) * 2048"]
  by (simp add: v3_tile_def v3_consts algebra_simps)

lemma v3_tile_column:
  assumes "\<forall>c \<in> set cs. length c = 32" and "j < 256"
  shows "slice (j * 256) ((j + 1) * 256) (v3_tile (concat cs) off) =
    concat (slice (off * 2048 + j * 8) (off * 2048 + j * 8 + 8) cs)"
proof -
  have "slice (j * 256) ((j + 1) * 256) (v3_tile (concat cs) off) =
      slice (off * 65536 + j * 256) (off * 65536 + (j + 1) * 256) (concat cs)"
    unfolding v3_tile_def v3_consts using assms(2) by (intro slice_in_slice) auto
  also have "\<dots> = concat (slice (off * 2048 + j * 8) (off * 2048 + j * 8 + 8) cs)"
    unfolding concat_slice_uniform [OF assms(1)] by (simp add: algebra_simps)
  finally show ?thesis .
qed

lemma v3_tile_snippet:
  assumes "\<forall>c \<in> set cs. length c = 32" and "off * 2048 < length cs"
  shows "take POM_V3_SNIPPET_BYTES (v3_tile (concat cs) off) = cs ! (off * 2048)"
proof -
  have "take 32 (v3_tile (concat cs) off) = slice 0 32 (v3_tile (concat cs) off)" by (simp add: slice_def)
  also have "\<dots> = slice (off * 2048 * 32) ((off * 2048 + 1) * 32) (concat cs)"
    unfolding v3_tile_def v3_consts by (subst slice_in_slice) (auto simp: algebra_simps)
  also have "\<dots> = cs ! (off * 2048)" by (rule slice_block [OF assms])
  finally show ?thesis by (simp add: v3_consts)
qed

text \<open>The walk's dump, by steps: state \<open>t\<close>, and the tile that step \<open>t\<close> reads.\<close>

definition v3_steps :: "u64 \<Rightarrow> bytes list \<Rightarrow> (bytes \<times> bytes \<times> nat) list" where
  "v3_steps seed cs = ref_loop seed (concat cs) (length cs div 2048) POM_V3_K 1 (v3_initial_state seed)
     (v3_first_offset seed (length cs div 2048))"

definition v3_state :: "u64 \<Rightarrow> bytes list \<Rightarrow> nat \<Rightarrow> bytes" where
  "v3_state seed cs t = (if t = 0 then v3_initial_state seed else fst (v3_steps seed cs ! (t - 1)))"

definition v3_off :: "u64 \<Rightarrow> bytes list \<Rightarrow> nat \<Rightarrow> nat" where
  "v3_off seed cs t = snd (snd (v3_steps seed cs ! (t - 1)))"

lemma length_v3_steps [simp]: "length (v3_steps seed cs) = POM_V3_K"
  by (simp add: v3_steps_def)

lemma v3_step_nth:
  assumes "1 \<le> t" and "t \<le> POM_V3_K"
  shows "v3_state seed cs t = matrix_step POM_V3_D (v3_state seed cs (t - 1)) (v3_tile (concat cs) (v3_off seed cs t)) t"
    and "fst (snd (v3_steps seed cs ! (t - 1))) = take POM_V3_SNIPPET_BYTES (v3_tile (concat cs) (v3_off seed cs t))"
    and "v3_off seed cs t = (if t = 1 then v3_first_offset seed (length cs div 2048)
      else v3_next_offset seed (t - 1) (fst (snd (v3_steps seed cs ! (t - 2)))) (length cs div 2048))"
proof -
  have i: "t - 1 < POM_V3_K" using assms by linarith
  note st = ref_loop_nth [OF i v3_steps_def [of seed cs]]
  show "v3_state seed cs t = matrix_step POM_V3_D (v3_state seed cs (t - 1)) (v3_tile (concat cs) (v3_off seed cs t)) t"
    using st assms by (auto simp: v3_state_def v3_off_def)
  show "fst (snd (v3_steps seed cs ! (t - 1))) = take POM_V3_SNIPPET_BYTES (v3_tile (concat cs) (v3_off seed cs t))"
    using st by (simp add: v3_off_def)
  show "v3_off seed cs t = (if t = 1 then v3_first_offset seed (length cs div 2048)
      else v3_next_offset seed (t - 1) (fst (snd (v3_steps seed cs ! (t - 2)))) (length cs div 2048))"
    using st assms by (auto simp: v3_off_def numeral_2_eq_2)
qed

lemma v3_off_less:
  assumes "1 \<le> t" and "t \<le> POM_V3_K" and "0 < length cs div 2048"
  shows "v3_off seed cs t < length cs div 2048"
  unfolding v3_step_nth(3) [OF assms(1,2)] using assms(3)
  by (auto simp: v3_first_offset_def v3_next_offset_def)

lemma length_v3_state:
  assumes "t \<le> POM_V3_K"
  shows "length (v3_state seed cs t) = POM_V3_D * POM_V3_D"
proof (cases "t = 0")
  case False
  then show ?thesis using v3_step_nth(1) [of t seed cs] assms by simp
qed (simp add: v3_state_def length_v3_initial_state)

lemma ref_walk_eq:
  assumes "\<forall>c \<in> set cs. length c = 32"
  shows "ref_walk seed (concat cs) =
    (concat (map (v3_state seed cs) [0..<POM_V3_K + 1]), concat (map (fst \<circ> snd) (v3_steps seed cs)),
     map (snd \<circ> snd) (v3_steps seed cs))"
proof -
  have n: "length (concat cs) div POM_V3_CHUNK_BYTES div POM_V3_TILE_CHUNKS = length cs div 2048"
    using concat_length_uniform [OF assms] by (simp add: v3_consts)
  have "map (v3_state seed cs) [0..<POM_V3_K + 1] = v3_initial_state seed # map fst (v3_steps seed cs)"
    by (rule nth_equalityI) (auto simp: v3_state_def nth_Cons' simp del: upt_Suc)
  then show ?thesis unfolding ref_walk_def Let_def n by (simp add: v3_steps_def)
qed

lemma v3_offsets_eq:
  "v3_offsets seed (map (fst \<circ> snd) (v3_steps seed cs)) (length cs div 2048) =
     map (\<lambda>i. v3_off seed cs (i + 1)) [0..<POM_V3_K]"
proof (rule nth_equalityI)
  fix i assume "i < length (v3_offsets seed (map (fst \<circ> snd) (v3_steps seed cs)) (length cs div 2048))"
  then have i: "i < POM_V3_K" by (simp add: v3_offsets_def)
  then show "v3_offsets seed (map (fst \<circ> snd) (v3_steps seed cs)) (length cs div 2048) ! i =
      map (\<lambda>i. v3_off seed cs (i + 1)) [0..<POM_V3_K] ! i"
    using v3_step_nth(3) [of "i + 1" seed cs] by (simp add: v3_offsets_def)
qed (simp add: v3_offsets_def)

lemma state_row_opens:
  assumes "x < POM_V3_D"
  shows "verify_merkle blake3 (blake blake3 (slice (x * POM_V3_D) ((x + 1) * POM_V3_D) st)) x
    (merkle_proof blake3 (state_leaves blake3 st) x) (v3_state_root blake3 st)"
  using climb_merkle_proof [of x "state_leaves blake3 st" blake3] assms
  by (simp add: verify_merkle_def v3_state_root_def state_leaves_def)

lemma state_row_slice:
  assumes "t \<le> POM_V3_K" and "x < POM_V3_D"
  shows "slice (t * (POM_V3_D * POM_V3_D) + x * POM_V3_D) (t * (POM_V3_D * POM_V3_D) + (x + 1) * POM_V3_D)
      (concat (map (v3_state seed cs) [0..<POM_V3_K + 1])) =
    slice (x * POM_V3_D) ((x + 1) * POM_V3_D) (v3_state seed cs t)"
proof -
  let ?d2 = "POM_V3_D * POM_V3_D"
  have blk: "slice (t * ?d2) ((t + 1) * ?d2) (concat (map (v3_state seed cs) [0..<POM_V3_K + 1])) = v3_state seed cs t"
    using assms(1) by (subst slice_block) (auto simp: length_v3_state simp del: upt_Suc)
  have "(x + 1) * POM_V3_D \<le> ?d2" using assms(2) by (intro mult_right_mono) auto
  then show ?thesis
    by (subst blk [symmetric], subst slice_in_slice) (auto simp: algebra_simps)
qed

lemma sparse_laws:
  assumes "sparse_ok blake3 idx"
  shows "wi_n_chunks idx = length (sparse_chunks idx)" and "\<forall>c \<in> set (sparse_chunks idx). length c = 32"
    and "\<And>i. i < length (sparse_chunks idx) \<Longrightarrow>
      merkle_path blake3 idx i = Some (merkle_proof blake3 (map (blake blake3) (sparse_chunks idx)) i)"
  using sparse.size_law [OF assms] sparse.chunk_law [OF assms] sparse.path_law [OF assms] by auto

text \<open>The column of a tile that a check opens.\<close>

lemma v3_column_opens:
  assumes ok: "sparse_ok blake3 idx" and off: "off * 2048 + 2048 \<le> wi_n_chunks idx" and j: "j < POM_V3_D"
  defines "cs \<equiv> sparse_chunks idx" and "a \<equiv> off * 2048 + j * 8"
  shows "\<exists>parts. collect (map (\<lambda>c. read_chunk_bytes idx (a + c)) [0..<8]) = Some parts \<and>
    concat parts = slice (j * POM_V3_D) ((j + 1) * POM_V3_D) (v3_tile (concat cs) off) \<and>
    length (concat parts) = POM_V3_D \<and>
    verify_merkle blake3 (col_subtree_root blake3 (concat parts)) (off * 256 + j)
      (drop 3 (merkle_proof blake3 (map (blake blake3) cs) a)) (wi_r_t idx) \<and>
    3 \<le> length (merkle_proof blake3 (map (blake blake3) cs) a)"
proof -
  note laws = sparse_laws [OF ok, folded cs_def]
  have a8: "a + 8 \<le> length cs" using off j laws(1) by (simp add: a_def v3_consts)
  define parts where "parts = slice a (a + 8) cs"
  have p32: "\<forall>c \<in> set parts. length c = 32"
    using laws(2) by (auto simp: parts_def slice_def dest!: in_set_takeD in_set_dropD)
  have rd: "collect (map (\<lambda>c. read_chunk_bytes idx (a + c)) [0..<8]) = Some parts"
    unfolding parts_def cs_def using sparse.read_range [OF ok, of a 8] a8 laws(1) by simp
  have q: "(off * 256 + j) * 2 ^ 3 = a" "(off * 256 + j + 1) * 2 ^ 3 = a + 8" by (simp_all add: a_def)
  have "(off * 256 + j + 1) * 2 ^ 3 \<le> wi_n_chunks idx" unfolding q laws(1) by (rule a8)
  note tile = sparse.tile_opens [OF ok this, folded cs_def, unfolded q, folded parts_def]
  have "chunks 32 (concat parts) = parts" using p32 by (intro chunks_concat) auto
  then have root: "col_subtree_root blake3 (concat parts) = root_loop blake3 (map (blake blake3) parts)"
    by (simp add: col_subtree_root_def v3_consts)
  have "length (concat parts) = 256" using concat_length_uniform [OF p32] a8 by (simp add: parts_def)
  moreover have "concat parts = slice (j * 256) ((j + 1) * 256) (v3_tile (concat cs) off)"
    using v3_tile_column [OF laws(2), of j off] j by (simp add: parts_def a_def v3_consts)
  ultimately show ?thesis
    using rd tile root by (simp add: POM_V3_D_def)
qed

lemma v3_row_length:
  assumes "x < POM_V3_D" and "t \<le> POM_V3_K"
  shows "length (slice (x * POM_V3_D) ((x + 1) * POM_V3_D) (v3_state seed cs t)) = POM_V3_D"
proof -
  have "x * POM_V3_D + POM_V3_D \<le> POM_V3_D * POM_V3_D"
    using mult_right_mono [of "x + 1" POM_V3_D POM_V3_D] assms(1) by (simp add: add.commute)
  then show ?thesis by (simp add: length_v3_state [OF assms(2)])
qed

definition v3_leaves :: "(bytes \<Rightarrow> hash) \<Rightarrow> u64 \<Rightarrow> bytes list \<Rightarrow> hash list list" where
  "v3_leaves blake3 seed cs = map (\<lambda>t. state_leaves blake3 (v3_state seed cs t)) [0..<POM_V3_K + 1]"

lemma v3_leaves_nth: "t \<le> POM_V3_K \<Longrightarrow> v3_leaves blake3 seed cs ! t = state_leaves blake3 (v3_state seed cs t)"
  by (simp add: v3_leaves_def del: upt_Suc)

lemma length_v3_leaves [simp]: "length (v3_leaves blake3 seed cs) = POM_V3_K + 1"
  by (simp add: v3_leaves_def)

text \<open>One spot check of a proof whose roots and snippets are those of the walk.\<close>

lemma v3_point_ok:
  assumes ok: "sparse_ok blake3 idx" and nt: "0 < wi_n_chunks idx div POM_V3_TILE_CHUNKS"
    and t: "1 \<le> t" "t \<le> POM_V3_K" and x: "x < POM_V3_D" and j: "j < POM_V3_D"
    and cs: "cs = sparse_chunks idx"
    and p: "v3_roots p = map (root_loop blake3) (v3_leaves blake3 seed cs)"
      "v3_snippets p = map (fst \<circ> snd) (v3_steps seed cs)"
  shows "\<exists>op. v3_open blake3 idx (concat (map (v3_state seed cs) [0..<POM_V3_K + 1])) (v3_leaves blake3 seed cs)
      (map (\<lambda>i. v3_off seed cs (i + 1)) [0..<POM_V3_K]) (t, x, j) = Some op \<and>
    v3_check_ok blake3 p (wi_r_t idx) (map (\<lambda>i. v3_off seed cs (i + 1)) [0..<POM_V3_K]) (t, x, j) op"
proof -
  note laws = sparse_laws [OF ok, folded cs]
  define off where "off = v3_off seed cs t"
  define offsets where "offsets = map (\<lambda>i. v3_off seed cs (i + 1)) [0..<POM_V3_K]"
  define states where "states = concat (map (v3_state seed cs) [0..<POM_V3_K + 1])"
  have "off < length cs div 2048" unfolding off_def
    using nt t laws(1) by (intro v3_off_less) (auto simp: v3_consts)
  then have off: "off * 2048 + 2048 \<le> length cs" "off * 2048 < length cs" by linarith+
  have "t - 1 < POM_V3_K" using t by linarith
  then have offs: "offsets ! (t - 1) = off" using t by (simp add: offsets_def off_def)
  obtain parts where parts: "collect (map (\<lambda>c. read_chunk_bytes idx (off * 2048 + j * 8 + c)) [0..<8]) = Some parts"
    "concat parts = slice (j * POM_V3_D) ((j + 1) * POM_V3_D) (v3_tile (concat cs) off)"
    "length (concat parts) = POM_V3_D"
    "verify_merkle blake3 (col_subtree_root blake3 (concat parts)) (off * 256 + j)
      (drop 3 (merkle_proof blake3 (map (blake blake3) cs) (off * 2048 + j * 8))) (wi_r_t idx)"
    "3 \<le> length (merkle_proof blake3 (map (blake blake3) cs) (off * 2048 + j * 8))"
    using v3_column_opens [OF ok _ j, of off] off(1) laws(1) by (auto simp: cs)
  have snip: "v3_snippets p ! (t - 1) = cs ! (off * 2048)"
    using v3_step_nth(2) [OF t, of seed cs] v3_tile_snippet [OF laws(2) off(2)] t by (simp add: off_def p(2))
  have snipv: "verify_merkle blake3 (blake blake3 (cs ! (off * 2048))) (off * 2048)
      (merkle_proof blake3 (map (blake blake3) cs) (off * 2048)) (wi_r_t idx)"
    using sparse.path_opens [OF ok, of "off * 2048"] off laws(1) by (simp add: cs)
  have entry: "slice (x * POM_V3_D) ((x + 1) * POM_V3_D) (v3_state seed cs t) ! j =
      rho8 (dot_i8 (slice (x * POM_V3_D) ((x + 1) * POM_V3_D) (v3_state seed cs (t - 1))) (concat parts)) (rho_tweak t x j)"
    unfolding v3_step_nth(1) [OF t, of seed cs] matrix_step_entry [OF x j] parts(2) off_def ..
  have t1: "t - 1 \<le> POM_V3_K" using t by simp
  have roots: "v3_roots p ! t' = v3_state_root blake3 (v3_state seed cs t')" if "t' \<le> POM_V3_K" for t'
    using that by (simp add: p(1) v3_leaves_nth v3_state_root_def)
  have j8: "off * 2048 + j * 8 < length cs" using off(1) j by (simp add: v3_consts)
  define op where "op = \<lparr>row_before = slice (x * POM_V3_D) ((x + 1) * POM_V3_D) (v3_state seed cs (t - 1)),
    path_before = merkle_proof blake3 (state_leaves blake3 (v3_state seed cs (t - 1))) x,
    row_after = slice (x * POM_V3_D) ((x + 1) * POM_V3_D) (v3_state seed cs t),
    path_after = merkle_proof blake3 (state_leaves blake3 (v3_state seed cs t)) x, tile_col = concat parts,
    col_path = drop 3 (merkle_proof blake3 (map (blake blake3) cs) (off * 2048 + j * 8)),
    snippet_path = merkle_proof blake3 (map (blake blake3) cs) (off * 2048)\<rparr>"
  have tc: "POM_V3_TILE_CHUNKS = 2048" "POM_V3_COL_CHUNKS = 8" "POM_V3_COL_SUBTREE_DEPTH = 3"
    by (simp_all add: v3_consts)
  have "v3_open blake3 idx states (v3_leaves blake3 seed cs) offsets (t, x, j) = Some op"
    unfolding v3_open_def prod.case Let_def tc offs states_def
      state_row_slice [OF t1 x, of seed cs] state_row_slice [OF t(2) x, of seed cs]
      v3_leaves_nth [OF t1] v3_leaves_nth [OF t(2)]
    using parts(1,5) laws(3) [OF j8] laws(3) [OF off(2)]
    by (simp add: slice_from_def op_def)
  moreover have "v3_check_ok blake3 p (wi_r_t idx) offsets (t, x, j) op"
    unfolding v3_check_ok_def prod.case Let_def tc offs
    using v3_row_length [OF x t1, of seed cs] v3_row_length [OF x t(2), of seed cs] parts(3,4) snip snipv entry
      state_row_opens [OF x] roots [OF t1] roots [OF t(2)]
    by (simp add: op_def)
  ultimately show ?thesis unfolding states_def offsets_def by blast
qed

lemma v3_check_points_range:
  "(t, x, j) \<in> set (v3_check_points blake3 pph nonce roots snippets) \<Longrightarrow>
     1 \<le> t \<and> t \<le> POM_V3_K \<and> x < POM_V3_D \<and> j < POM_V3_D"
  by (auto simp: v3_check_points_def Let_def v3_consts Suc_le_eq)

lemma length_v3_check_points [simp]:
  "length (v3_check_points blake3 pph nonce roots snippets) = POM_V3_CHECKS"
  by (simp add: v3_check_points_def Let_def)

lemma collect_list_all:
  assumes "\<And>x. x \<in> set xs \<Longrightarrow> \<exists>y. f x = Some y \<and> P x y"
  shows "\<exists>ys. collect (map f xs) = Some ys \<and> length ys = length xs \<and> list_all (\<lambda>(x, y). P x y) (zip xs ys)"
  using assms
proof (induction xs)
  case (Cons x xs)
  then obtain ys where "collect (map f xs) = Some ys" "length ys = length xs" "list_all (\<lambda>(x, y). P x y) (zip xs ys)"
    by force
  moreover obtain y where "f x = Some y" "P x y" using Cons.prems [of x] by auto
  ultimately show ?case by simp
qed simp

lemma v3_build_shapes:
  assumes ok: "sparse_ok blake3 idx" and nt: "0 < wi_n_chunks idx div POM_V3_TILE_CHUNKS"
  defines "cs \<equiv> sparse_chunks idx"
  shows "length (concat (map (v3_state seed cs) [0..<POM_V3_K + 1])) = (POM_V3_K + 1) * (POM_V3_D * POM_V3_D)"
    and "chunks 32 (concat (map (fst \<circ> snd) (v3_steps seed cs))) = map (fst \<circ> snd) (v3_steps seed cs)"
    and "length (concat (map (fst \<circ> snd) (v3_steps seed cs))) = POM_V3_K * POM_V3_SNIPPET_BYTES"
    and "map (\<lambda>t. state_leaves blake3 (slice (t * (POM_V3_D * POM_V3_D)) ((t + 1) * (POM_V3_D * POM_V3_D))
        (concat (map (v3_state seed cs) [0..<POM_V3_K + 1])))) [0..<POM_V3_K + 1] = v3_leaves blake3 seed cs"
proof -
  note laws = sparse_laws [OF ok, folded cs_def]
  have st: "\<forall>x \<in> set (map (v3_state seed cs) [0..<POM_V3_K + 1]). length x = POM_V3_D * POM_V3_D"
    by (auto simp: length_v3_state simp del: upt_Suc)
  show "length (concat (map (v3_state seed cs) [0..<POM_V3_K + 1])) = (POM_V3_K + 1) * (POM_V3_D * POM_V3_D)"
    using concat_length_uniform [OF st] by simp
  have "length (fst (snd (v3_steps seed cs ! i))) = 32" if "i < POM_V3_K" for i
  proof -
    have t: "1 \<le> i + 1" "i + 1 \<le> POM_V3_K" using that by auto
    have "v3_off seed cs (i + 1) < length cs div 2048"
      using nt laws(1) by (intro v3_off_less [OF t]) (simp add: v3_consts)
    then have o: "v3_off seed cs (i + 1) * 2048 < length cs" by linarith
    then show ?thesis
      using v3_step_nth(2) [OF t, of seed cs] v3_tile_snippet [OF laws(2) o] laws(2) by simp
  qed
  then have sn: "\<forall>x \<in> set (map (fst \<circ> snd) (v3_steps seed cs)). length x = 32"
    by (auto simp: in_set_conv_nth) (metis fst_conv snd_conv)
  show "chunks 32 (concat (map (fst \<circ> snd) (v3_steps seed cs))) = map (fst \<circ> snd) (v3_steps seed cs)"
    using sn by (intro chunks_concat) auto
  show "length (concat (map (fst \<circ> snd) (v3_steps seed cs))) = POM_V3_K * POM_V3_SNIPPET_BYTES"
    using concat_length_uniform [OF sn] by (simp add: POM_V3_SNIPPET_BYTES_def)
  have "slice (t * (POM_V3_D * POM_V3_D)) ((t + 1) * (POM_V3_D * POM_V3_D))
      (concat (map (v3_state seed cs) [0..<POM_V3_K + 1])) = v3_state seed cs t" if "t < POM_V3_K + 1" for t
    using that by (subst slice_block [OF st]) (simp_all del: upt_Suc)
  then show "map (\<lambda>t. state_leaves blake3 (slice (t * (POM_V3_D * POM_V3_D)) ((t + 1) * (POM_V3_D * POM_V3_D))
      (concat (map (v3_state seed cs) [0..<POM_V3_K + 1])))) [0..<POM_V3_K + 1] = v3_leaves blake3 seed cs"
    unfolding v3_leaves_def by (intro map_cong refl) (simp del: upt_Suc)
qed

lemma v3_check_ok_cong:
  "v3_roots p = v3_roots q \<Longrightarrow> v3_snippets p = v3_snippets q \<Longrightarrow> v3_check_ok blake3 p = v3_check_ok blake3 q"
  by (intro ext) (simp add: v3_check_ok_def)

section \<open>Properties\<close>

text \<open>C7: the dump of the reference walk over the model's chunks leads to a v3 proof, and the self-check
  accepts it against the index's root: all 32 openings of rows, tile columns and snippets verify.\<close>

theorem v3_proof_of_walk_verifies:
  assumes ok: "sparse_ok blake3 idx" and nt: "0 < wi_n_chunks idx div POM_V3_TILE_CHUNKS"
    and walk: "ref_walk seed (concat (sparse_chunks idx)) = (states, snippets, offsets)"
  shows "\<exists>p. build_proof_v3 blake3 tier pph nonce seed states snippets idx = Some (Inr p) \<and>
    verify_proof_v3 blake3 pph nonce seed p (wi_r_t idx) (wi_n_chunks idx)"
proof -
  define cs where "cs = sparse_chunks idx"
  define L where "L = v3_leaves blake3 seed cs"
  define snips where "snips = map (fst \<circ> snd) (v3_steps seed cs)"
  define offs where "offs = map (\<lambda>i. v3_off seed cs (i + 1)) [0..<POM_V3_K]"
  define points where "points = v3_check_points blake3 pph nonce (map (root_loop blake3) L) snips"
  note laws = sparse_laws [OF ok, folded cs_def] and shapes = v3_build_shapes [OF ok nt, folded cs_def, of seed]
  have walk': "states = concat (map (v3_state seed cs) [0..<POM_V3_K + 1])" "snippets = concat snips"
    using walk ref_walk_eq [OF laws(2), of seed] by (simp_all add: cs_def snips_def)
  define p0 where "p0 = \<lparr>v3_tier = tier, v3_roots = map (root_loop blake3) L, v3_snippets = snips, v3_checks = []\<rparr>"
  have "\<exists>ops. collect (map (v3_open blake3 idx states L offs) points) = Some ops \<and> length ops = length points \<and>
      list_all (\<lambda>(pt, op). v3_check_ok blake3 p0 (wi_r_t idx) offs pt op) (zip points ops)"
  proof (rule collect_list_all)
    fix pt assume "pt \<in> set points"
    moreover obtain t x j where pt: "pt = (t, x, j)" by (cases pt)
    ultimately have r: "1 \<le> t" "t \<le> POM_V3_K" "x < POM_V3_D" "j < POM_V3_D"
      using v3_check_points_range by (auto simp: points_def)
    show "\<exists>op. v3_open blake3 idx states L offs pt = Some op \<and> v3_check_ok blake3 p0 (wi_r_t idx) offs pt op"
      unfolding pt walk'(1) L_def offs_def
      by (rule v3_point_ok [OF ok nt r cs_def]) (simp_all add: p0_def L_def snips_def)
  qed
  then obtain ops where ops: "collect (map (v3_open blake3 idx states L offs) points) = Some ops"
    "length ops = POM_V3_CHECKS" "list_all (\<lambda>(pt, op). v3_check_ok blake3 p0 (wi_r_t idx) offs pt op) (zip points ops)"
    by (auto simp: points_def)
  define p where "p = p0\<lparr>v3_checks := ops\<rparr>"
  have nt': "wi_n_chunks idx div POM_V3_TILE_CHUNKS = length cs div 2048" using laws(1) by (simp add: v3_consts)
  have offs: "v3_offsets seed snips (length cs div 2048) = offs" unfolding snips_def offs_def by (rule v3_offsets_eq)
  have "build_proof_v3 blake3 tier pph nonce seed states snippets idx = Some (Inr p)"
    unfolding build_proof_v3_def walk' nt' Let_def shapes [folded snips_def] offs L_def [symmetric] points_def [symmetric]
    using ops(1) nt nt' walk'(1) by (simp add: p_def p0_def)
  moreover have "v3_roots p ! 0 = v3_state_root blake3 (v3_initial_state seed)"
    by (simp add: p_def p0_def L_def v3_leaves_nth v3_state_root_def v3_state_def)
  then have "verify_proof_v3 blake3 pph nonce seed p (wi_r_t idx) (wi_n_chunks idx)"
    using nt nt' ops(2,3) v3_check_ok_cong [of p p0 blake3]
    by (simp add: verify_proof_v3_def Let_def p_def p0_def offs points_def [symmetric] L_def [symmetric]
        snips_def [symmetric]) (simp add: L_def snips_def)
  ultimately show ?thesis by blast
qed

definition toy_model :: "nat \<Rightarrow> (nat \<times> bytes) list" where
  "toy_model n = [(3, replicate (n * 32 + 5) 7)]"

lemma toy_model_index:
  assumes "32 < n"
  obtains idx where "build_from_gguf toy_hash (replicate 3 1 @ replicate (n * 32 + 5) 7) (toy_model n) = Some idx"
    "sparse_ok toy_hash idx" "wi_n_chunks idx = n"
proof -
  have "gguf_holds (replicate 3 1 @ replicate (n * 32 + 5) 7) (toy_model n)"
    by (simp add: gguf_holds_def toy_model_def slice_def)
  moreover have len: "length (canonical (toy_model n)) = n" by (simp add: toy_model_def)
  ultimately obtain idx where "build_from_gguf toy_hash (replicate 3 1 @ replicate (n * 32 + 5) 7) (toy_model n) = Some idx"
    and ix: "index_ok toy_hash (canonical (toy_model n)) idx"
    using build_index_ok [OF digest32_toy] assms by metis
  moreover have "sparse_ok toy_hash idx" using ix digest32_toy unfolding sparse_ok_def by blast
  moreover have "wi_n_chunks idx = n" using ix len by (simp add: index_ok_def)
  ultimately show ?thesis using that by blast
qed

theorem v3_proof_of_walk_verifies_witness:
  "\<exists>idx states snippets p.
    build_from_gguf toy_hash (replicate 3 1 @ replicate (2048 * 32 + 5) 7) (toy_model 2048) = Some idx \<and>
    build_proof_v3 toy_hash 1 (replicate 32 7) 5 77 states snippets idx = Some (Inr p) \<and>
    verify_proof_v3 toy_hash (replicate 32 7) 5 77 p (wi_r_t idx) (wi_n_chunks idx)"
proof -
  obtain idx where idx: "build_from_gguf toy_hash (replicate 3 1 @ replicate (2048 * 32 + 5) 7) (toy_model 2048) = Some idx"
    and ok: "sparse_ok toy_hash idx" and n: "wi_n_chunks idx = 2048"
    by (rule toy_model_index [of 2048]) simp
  obtain states snippets offsets where w: "ref_walk 77 (concat (sparse_chunks idx)) = (states, snippets, offsets)"
    by (cases "ref_walk 77 (concat (sparse_chunks idx))")
  have "0 < wi_n_chunks idx div POM_V3_TILE_CHUNKS" by (simp add: n v3_consts)
  from v3_proof_of_walk_verifies [OF ok this w] idx show ?thesis by blast
qed

lemma sint_u8_bounds: "- 128 \<le> sint (a :: u8)" "sint a \<le> 127"
  using sint_greater_eq [of a] sint_less [of a] by simp_all

lemma dot_i8_Cons: "dot_i8 (a # row) (b # col) = sint a * sint b + dot_i8 row col"
  by (simp add: dot_i8_def)

lemma prod_i8_bound: "\<bar>sint (a :: u8) * sint (b :: u8)\<bar> \<le> 16384"
proof -
  have "\<bar>sint a\<bar> \<le> 128" "\<bar>sint b\<bar> \<le> 128" using sint_u8_bounds [of a] sint_u8_bounds [of b] by auto
  then have "\<bar>sint a\<bar> * \<bar>sint b\<bar> \<le> 128 * 128" by (intro mult_mono) auto
  then show ?thesis by (simp add: abs_mult)
qed

lemma dot_i8_bound: "\<bar>dot_i8 row col\<bar> \<le> 16384 * int (length row)"
proof (induction row arbitrary: col)
  case (Cons a row)
  show ?case
  proof (cases col)
    case (Cons b col')
    then show ?thesis
      using Cons.IH [of col'] prod_i8_bound [of a b] by (simp add: dot_i8_Cons)
  qed (simp add: dot_i8_def)
qed (simp add: dot_i8_def)

text \<open>The accumulator of a matrix entry never leaves the 32-bit range: a product of two bytes is at
  most \<open>2^14\<close> in absolute value, so for the 256 (v3) or 32 (v4) terms of a row the sum stays
  within \<open>2^22\<close> and the wrapping cast of \<open>rho8\<close> is exact.\<close>

theorem dot_i8_no_overflow:
  assumes "length row \<le> 256"
  shows "\<bar>dot_i8 row col\<bar> \<le> 2 ^ 22 \<and> sint (word_of_int (dot_i8 row col) :: u32) = dot_i8 row col"
proof -
  have b: "\<bar>dot_i8 row col\<bar> \<le> 4194304" using dot_i8_bound [of row col] assms by linarith
  then have "sint (word_of_int (dot_i8 row col) :: u32) = dot_i8 row col"
    by (simp only: signed_of_int of_int_eq_id id_apply) (rule signed_take_bit_int_eq_self, auto)
  with b show ?thesis by simp
qed

theorem dot_i8_no_overflow_witness: "\<bar>dot_i8 [0x80, 5] [0x80, 0xFF]\<bar> \<le> 2 ^ 22 \<and> dot_i8 [0x80, 5] [0x80, 0xFF] = 16379"
  using dot_i8_no_overflow [of "[0x80, 5]" "[0x80, 0xFF]"] by (simp add: dot_i8_def)

end
