(* ===== verification/Pom_V4.thy ===== *)
theory Pom_V4
  imports Pom_V3
begin

text \<open>
  \<open>src/src/pom_v4.rs\<close>: the re-walk in dimension 32. Each of the 256 steps reads a whole 1 KiB tile,
  which the proof carries with the path of its aligned subtree, so the verifier repeats the walk
  instead of sampling it. \<open>Inl\<close> is the error of the source, \<open>None\<close> a panic of a read.

  The lemmas show that prover and verifier derive the same final state, and that an accepted proof
  carries the model's tiles.
\<close>

section \<open>Definitions\<close>

definition POM_V4_D :: nat where "POM_V4_D = 32"
definition POM_V4_K :: nat where "POM_V4_K = 256"
definition POM_V4_CHUNK_BYTES :: nat where "POM_V4_CHUNK_BYTES = 32"
definition POM_V4_TILE_BYTES :: nat where "POM_V4_TILE_BYTES = POM_V4_D * POM_V4_D"
definition POM_V4_TILE_CHUNKS :: nat where "POM_V4_TILE_CHUNKS = POM_V4_TILE_BYTES div POM_V4_CHUNK_BYTES"
definition POM_V4_SNIPPET_BYTES :: nat where "POM_V4_SNIPPET_BYTES = 32"
definition POM_V4_TILE_SUBTREE_DEPTH :: nat where "POM_V4_TILE_SUBTREE_DEPTH = 5"
definition POM_V4_S0_ROW_SALT :: u64 where "POM_V4_S0_ROW_SALT = 0x03421325594C3C51"
definition POM_V4_OFFSET_FIRST_SALT :: u64 where "POM_V4_OFFSET_FIRST_SALT = 0x6D1CCF96AC4D76F9"
definition POM_V4_OFFSET_STEP_SALT :: u64 where "POM_V4_OFFSET_STEP_SALT = 0x89050E78D34609EF"

definition v4_first_offset :: "u64 \<Rightarrow> nat \<Rightarrow> nat" where
  "v4_first_offset seed n_tiles = unat (mix64 (seed XOR POM_V4_OFFSET_FIRST_SALT)) mod n_tiles"

definition v4_next_offset :: "u64 \<Rightarrow> nat \<Rightarrow> bytes \<Rightarrow> nat \<Rightarrow> nat" where
  "v4_next_offset seed step snippet n_tiles =
     unat (mix64 (seed XOR word_of_nat (step + 1) * POM_V4_OFFSET_STEP_SALT XOR snippet_fold snippet)) mod n_tiles"

definition v4_initial_state :: "u64 \<Rightarrow> bytes" where
  "v4_initial_state seed =
     concat (map (\<lambda>r. keystream (POM_V4_D div 4) (mix64 (seed XOR (POM_V4_S0_ROW_SALT + word_of_nat r)))) [0..<POM_V4_D])"

definition v4_transition :: "bytes \<Rightarrow> bytes \<Rightarrow> nat \<Rightarrow> bytes" where
  "v4_transition state tile step = matrix_step POM_V4_D state tile step"

definition v4_state_leaves :: "(bytes \<Rightarrow> hash) \<Rightarrow> bytes \<Rightarrow> hash list" where
  "v4_state_leaves blake3 state =
     map (\<lambda>r. blake blake3 (slice (r * POM_V4_D) ((r + 1) * POM_V4_D) state)) [0..<POM_V4_D]"

definition v4_state_root :: "(bytes \<Rightarrow> hash) \<Rightarrow> bytes \<Rightarrow> hash" where
  "v4_state_root blake3 state = root_loop blake3 (v4_state_leaves blake3 state)"

definition v4_tile_subtree_root :: "(bytes \<Rightarrow> hash) \<Rightarrow> bytes \<Rightarrow> hash" where
  "v4_tile_subtree_root blake3 tile = root_loop blake3 (map (blake blake3) (chunks POM_V4_CHUNK_BYTES tile))"

text \<open>The chunk reads of one tile.\<close>

definition read_tile :: "WeightIndex \<Rightarrow> nat \<Rightarrow> bytes option" where
  "read_tile index off =
     map_option concat (collect (map (\<lambda>c. read_chunk_bytes index (off * POM_V4_TILE_CHUNKS + c)) [0..<POM_V4_TILE_CHUNKS]))"

text \<open>The loop of \<open>walk_final_v4\<close> over the steps \<open>step, \<dots>, POM_V4_K\<close>; the final state matrix.\<close>

function walk_v4_loop :: "u64 \<Rightarrow> WeightIndex \<Rightarrow> nat \<Rightarrow> nat \<Rightarrow> bytes \<Rightarrow> nat \<Rightarrow> bytes option" where
  "walk_v4_loop seed index n_tiles step state off =
     (if step \<le> POM_V4_K
      then do {
        tile \<leftarrow> read_tile index off;
        let state = v4_transition state tile step;
        let off = (if step < POM_V4_K then v4_next_offset seed step (take POM_V4_SNIPPET_BYTES tile) n_tiles else off);
        walk_v4_loop seed index n_tiles (step + 1) state off
      }
      else Some state)"
  by pat_completeness auto
termination
  by (relation "measure (\<lambda>(seed, index, n_tiles, step, state, off). Suc POM_V4_K - step)") auto

declare walk_v4_loop.simps [simp del]

definition walk_final_v4 :: "(bytes \<Rightarrow> hash) \<Rightarrow> u64 \<Rightarrow> WeightIndex \<Rightarrow> (walk_error + u64) option" where
  "walk_final_v4 blake3 seed index =
     (let n_tiles = wi_n_chunks index div POM_V4_TILE_CHUNKS
      in if n_tiles = 0 then Some (Inl BlobTooSmall)
         else do {
           state \<leftarrow> walk_v4_loop seed index n_tiles 1 (v4_initial_state seed) (v4_first_offset seed n_tiles);
           Some (Inr (fold64 (v4_state_root blake3 state)))
         })"

function build_v4_loop ::
  "(bytes \<Rightarrow> hash) \<Rightarrow> u64 \<Rightarrow> WeightIndex \<Rightarrow> nat \<Rightarrow> nat \<Rightarrow> bytes \<Rightarrow> nat \<Rightarrow>
     (bytes list \<times> PomV4RangeProof list \<times> bytes) option" where
  "build_v4_loop blake3 seed index n_tiles step state off =
     (if step \<le> POM_V4_K
      then do {
        tile \<leftarrow> read_tile index off;
        leaf_path \<leftarrow> merkle_path blake3 index (off * POM_V4_TILE_CHUNKS);
        path \<leftarrow> slice_from POM_V4_TILE_SUBTREE_DEPTH leaf_path;
        let state = v4_transition state tile step;
        let off = (if step < POM_V4_K then v4_next_offset seed step (take POM_V4_SNIPPET_BYTES tile) n_tiles else off);
        (tiles, merkle, final) \<leftarrow> build_v4_loop blake3 seed index n_tiles (step + 1) state off;
        Some (tile # tiles, \<lparr>rp_path = path\<rparr> # merkle, final)
      }
      else Some ([], [], state))"
  by pat_completeness auto
termination
  by (relation "measure (\<lambda>(blake3, seed, index, n_tiles, step, state, off). Suc POM_V4_K - step)") auto

declare build_v4_loop.simps [simp del]

definition build_proof_v4 ::
  "(bytes \<Rightarrow> hash) \<Rightarrow> u8 \<Rightarrow> u64 \<Rightarrow> WeightIndex \<Rightarrow> (walk_error + PomProofV4 \<times> u64) option" where
  "build_proof_v4 blake3 tier seed index =
     (let n_tiles = wi_n_chunks index div POM_V4_TILE_CHUNKS
      in if n_tiles = 0 then Some (Inl BlobTooSmall)
         else do {
           (tiles, merkle, state) \<leftarrow> build_v4_loop blake3 seed index n_tiles 1 (v4_initial_state seed)
              (v4_first_offset seed n_tiles);
           Some (Inr (\<lparr>v4_tier = tier, v4_tiles = tiles, v4_merkle = merkle\<rparr>, fold64 (v4_state_root blake3 state)))
         })"

text \<open>The verifier's loop walks both vectors, whose lengths it has checked.\<close>

fun verify_v4_loop ::
  "(bytes \<Rightarrow> hash) \<Rightarrow> u64 \<Rightarrow> hash \<Rightarrow> nat \<Rightarrow> nat \<Rightarrow> bytes list \<Rightarrow> PomV4RangeProof list \<Rightarrow> bytes \<Rightarrow> nat \<Rightarrow> walk_error + bytes" where
  "verify_v4_loop blake3 seed r_t n_tiles step (tile # tiles) (rp # merkle) state off =
     (if length tile \<noteq> POM_V4_TILE_BYTES then Inl (TileWrongShape step)
      else if \<not> verify_merkle blake3 (v4_tile_subtree_root blake3 tile) off (rp_path rp) r_t
      then Inl (RangeProofFails step)
      else verify_v4_loop blake3 seed r_t n_tiles (step + 1) tiles merkle (v4_transition state tile step)
             (if step < POM_V4_K then v4_next_offset seed step (take POM_V4_SNIPPET_BYTES tile) n_tiles else off))"
| "verify_v4_loop blake3 seed r_t n_tiles step _ _ state off = Inr state"

definition verify_proof_v4 :: "(bytes \<Rightarrow> hash) \<Rightarrow> u64 \<Rightarrow> PomProofV4 \<Rightarrow> hash \<Rightarrow> nat \<Rightarrow> walk_error + u64" where
  "verify_proof_v4 blake3 seed proof r_t n_chunks =
     (let n_tiles = n_chunks div POM_V4_TILE_CHUNKS
      in if length (v4_tiles proof) \<noteq> POM_V4_K \<or> length (v4_merkle proof) \<noteq> POM_V4_K then Inl WrongShape
         else if n_tiles = 0 then Inl BlobTooSmall
         else map_sum id (\<lambda>state. fold64 (v4_state_root blake3 state))
                (verify_v4_loop blake3 seed r_t n_tiles 1 (v4_tiles proof) (v4_merkle proof)
                   (v4_initial_state seed) (v4_first_offset seed n_tiles)))"

section \<open>Tiles\<close>

lemmas v4_consts = POM_V4_D_def POM_V4_K_def POM_V4_CHUNK_BYTES_def POM_V4_TILE_BYTES_def POM_V4_TILE_CHUNKS_def
  POM_V4_SNIPPET_BYTES_def POM_V4_TILE_SUBTREE_DEPTH_def

text \<open>The tile \<open>off\<close> of a model, as the concatenation of its 32 chunks.\<close>

definition model_tile :: "bytes list \<Rightarrow> nat \<Rightarrow> bytes" where
  "model_tile cs off = concat (slice (off * 32) ((off + 1) * 32) cs)"

lemma tile_chunks_32: "POM_V4_TILE_CHUNKS = 32" by (simp add: v4_consts)

lemma tile_fits: "off < n div 32 \<Longrightarrow> off * 32 + 32 \<le> (n :: nat)" by linarith

lemma slice_uniform: "\<forall>c \<in> set cs. length c = k \<Longrightarrow> \<forall>c \<in> set (slice a b cs). length c = k"
  by (auto simp: slice_def dest!: in_set_takeD in_set_dropD)

lemma model_tile_chunks:
  assumes "\<forall>c \<in> set cs. length c = 32" and "off < length cs div 32"
  shows "length (model_tile cs off) = POM_V4_TILE_BYTES"
    and "chunks 32 (model_tile cs off) = slice (off * 32) ((off + 1) * 32) cs"
proof -
  note u = slice_uniform [OF assms(1), of "off * 32" "(off + 1) * 32"]
  show "length (model_tile cs off) = POM_V4_TILE_BYTES"
    using concat_length_uniform [OF u] tile_fits [OF assms(2)] by (simp add: model_tile_def v4_consts)
  show "chunks 32 (model_tile cs off) = slice (off * 32) ((off + 1) * 32) cs"
    unfolding model_tile_def using u by (intro chunks_concat) auto
qed

lemma read_tile_opens:
  assumes ok: "sparse_ok blake3 idx" and off: "off < wi_n_chunks idx div 32"
  defines "cs \<equiv> sparse_chunks idx"
  shows "read_tile idx off = Some (model_tile cs off)"
    and "\<exists>leaf_path path. merkle_path blake3 idx (off * POM_V4_TILE_CHUNKS) = Some leaf_path \<and>
      slice_from POM_V4_TILE_SUBTREE_DEPTH leaf_path = Some path \<and>
      verify_merkle blake3 (v4_tile_subtree_root blake3 (model_tile cs off)) off path (wi_r_t idx)"
proof -
  note laws = sparse_laws [OF ok, folded cs_def]
  have fit: "off * 32 + 32 \<le> wi_n_chunks idx" by (rule tile_fits [OF off])
  show "read_tile idx off = Some (model_tile cs off)"
    using sparse.read_range [OF ok fit] by (simp add: read_tile_def tile_chunks_32 model_tile_def cs_def add.commute)
  have q: "(off + 1) * 2 ^ 5 \<le> wi_n_chunks idx" using fit by simp
  note t = sparse.tile_opens [OF ok q, folded cs_def]
  have p5: "(2 :: nat) ^ 5 = 32" by simp
  have "merkle_path blake3 idx (off * 32) = Some (merkle_proof blake3 (map (blake blake3) cs) (off * 32))"
    using laws(3) [of "off * 32"] fit laws(1) by simp
  with t show "\<exists>leaf_path path. merkle_path blake3 idx (off * POM_V4_TILE_CHUNKS) = Some leaf_path \<and>
      slice_from POM_V4_TILE_SUBTREE_DEPTH leaf_path = Some path \<and>
      verify_merkle blake3 (v4_tile_subtree_root blake3 (model_tile cs off)) off path (wi_r_t idx)"
    using model_tile_chunks(2) [OF laws(2), of off] off laws(1)
    by (simp add: slice_from_def POM_V4_TILE_SUBTREE_DEPTH_def tile_chunks_32 v4_tile_subtree_root_def
        POM_V4_CHUNK_BYTES_def p5)
qed

section \<open>The walk as a specification\<close>

text \<open>The walk over the chunk list itself, \<open>left\<close> steps from the end.\<close>

primrec v4_spec :: "u64 \<Rightarrow> bytes list \<Rightarrow> nat \<Rightarrow> bytes \<Rightarrow> nat \<Rightarrow> bytes" where
  "v4_spec seed cs 0 state off = state"
| "v4_spec seed cs (Suc left) state off =
     (let step = POM_V4_K - left; tile = model_tile cs off
      in v4_spec seed cs left (v4_transition state tile step)
           (v4_next_offset seed step (take POM_V4_SNIPPET_BYTES tile) (length cs div 32)))"

definition v4_final :: "(bytes \<Rightarrow> hash) \<Rightarrow> u64 \<Rightarrow> bytes list \<Rightarrow> u64" where
  "v4_final blake3 seed cs =
     fold64 (v4_state_root blake3
       (v4_spec seed cs POM_V4_K (v4_initial_state seed) (v4_first_offset seed (length cs div 32))))"

lemma v4_spec_step:
  assumes "step \<le> POM_V4_K"
  shows "v4_spec seed cs (Suc POM_V4_K - step) state off =
    v4_spec seed cs (POM_V4_K - step) (v4_transition state (model_tile cs off) step)
      (if step < POM_V4_K
       then v4_next_offset seed step (take POM_V4_SNIPPET_BYTES (model_tile cs off)) (length cs div 32) else off)"
proof -
  have "Suc POM_V4_K - step = Suc (POM_V4_K - step)" and "POM_V4_K - (POM_V4_K - step) = step"
    using assms by auto
  then show ?thesis by (simp add: Let_def)
qed

lemma v4_offset_less: "0 < n \<Longrightarrow> v4_first_offset seed n < n" "0 < n \<Longrightarrow> v4_next_offset seed step snip n < n"
  by (simp_all add: v4_first_offset_def v4_next_offset_def)

lemma build_v4_loop_ok:
  assumes ok: "sparse_ok blake3 idx"
  defines "cs \<equiv> sparse_chunks idx" and "n \<equiv> wi_n_chunks idx div 32"
  shows "1 \<le> step \<Longrightarrow> step \<le> Suc POM_V4_K \<Longrightarrow> off < n \<Longrightarrow> \<exists>tiles merkle.
    build_v4_loop blake3 seed idx n step state off =
      Some (tiles, merkle, v4_spec seed cs (Suc POM_V4_K - step) state off) \<and>
    length tiles = Suc POM_V4_K - step \<and> length merkle = Suc POM_V4_K - step \<and>
    verify_v4_loop blake3 seed (wi_r_t idx) n step tiles merkle state off =
      Inr (v4_spec seed cs (Suc POM_V4_K - step) state off) \<and>
    walk_v4_loop seed idx n step state off = Some (v4_spec seed cs (Suc POM_V4_K - step) state off)"
proof (induction "Suc POM_V4_K - step" arbitrary: step state off)
  case 0
  then have "step = Suc POM_V4_K" by simp
  then show ?case by (simp add: build_v4_loop.simps walk_v4_loop.simps)
next
  case (Suc left)
  define tile where "tile = model_tile cs off"
  define state' where "state' = v4_transition state tile step"
  define off' where "off' = (if step < POM_V4_K then v4_next_offset seed step (take POM_V4_SNIPPET_BYTES tile) n else off)"
  have le: "step \<le> POM_V4_K" and left: "left = POM_V4_K - step" using Suc(2) by linarith+
  have nn: "n = length cs div 32" using sparse_laws(1) [OF ok] by (simp add: n_def cs_def)
  have off': "off' < n" using Suc.prems(3) v4_offset_less(2) [of n] by (auto simp: off'_def)
  obtain tiles merkle where IH: "build_v4_loop blake3 seed idx n (step + 1) state' off' =
      Some (tiles, merkle, v4_spec seed cs (POM_V4_K - step) state' off')"
    "length tiles = POM_V4_K - step" "length merkle = POM_V4_K - step"
    "verify_v4_loop blake3 seed (wi_r_t idx) n (step + 1) tiles merkle state' off' =
      Inr (v4_spec seed cs (POM_V4_K - step) state' off')"
    "walk_v4_loop seed idx n (step + 1) state' off' = Some (v4_spec seed cs (POM_V4_K - step) state' off')"
    using Suc(1) [of "step + 1" off' state'] left le off' by auto
  have spec: "v4_spec seed cs (Suc POM_V4_K - step) state off = v4_spec seed cs (POM_V4_K - step) state' off'"
    unfolding v4_spec_step [OF le] state'_def off'_def tile_def nn ..
  have o: "off < wi_n_chunks idx div 32" using Suc.prems(3) by (simp add: n_def)
  note rd = read_tile_opens [OF ok o, folded cs_def, folded tile_def]
  obtain leaf_path path where path: "merkle_path blake3 idx (off * POM_V4_TILE_CHUNKS) = Some leaf_path"
    "slice_from POM_V4_TILE_SUBTREE_DEPTH leaf_path = Some path"
    "verify_merkle blake3 (v4_tile_subtree_root blake3 tile) off path (wi_r_t idx)" using rd(2) by blast
  have len: "length tile = POM_V4_TILE_BYTES"
    unfolding tile_def using sparse_laws(2) [OF ok] o nn n_def by (intro model_tile_chunks(1)) (auto simp: cs_def)
  have "build_v4_loop blake3 seed idx n step state off =
      Some (tile # tiles, \<lparr>rp_path = path\<rparr> # merkle, v4_spec seed cs (Suc POM_V4_K - step) state off)"
    using le rd(1) path IH(1) by (subst build_v4_loop.simps) (simp add: spec state'_def off'_def Let_def)
  moreover have "verify_v4_loop blake3 seed (wi_r_t idx) n step (tile # tiles) (\<lparr>rp_path = path\<rparr> # merkle) state off =
      Inr (v4_spec seed cs (Suc POM_V4_K - step) state off)"
    using path(3) len IH(4) by (simp add: spec state'_def off'_def)
  moreover have "walk_v4_loop seed idx n step state off = Some (v4_spec seed cs (Suc POM_V4_K - step) state off)"
    using le rd(1) IH(5) by (subst walk_v4_loop.simps) (simp add: spec state'_def off'_def Let_def)
  ultimately show ?case using IH(2,3) le by (auto simp: Suc_diff_le)
qed

section \<open>Soundness\<close>

text \<open>A tile that opens at \<open>off\<close> opens each of its chunks at its own leaf index.\<close>

definition tile_inputs :: "(bytes \<Rightarrow> hash) \<Rightarrow> bytes \<Rightarrow> nat \<Rightarrow> hash list \<Rightarrow> bytes set" where
  "tile_inputs blake3 tile off path =
     (let leaves = map (blake blake3) (chunks 32 tile)
      in set (chunks 32 tile) \<union>
         (\<Union>r < 32. climb_inputs blake3 (leaves ! r) (off * 32 + r) (merkle_proof blake3 leaves r @ path)))"

lemma climb_low_bits: "length p \<le> k \<Longrightarrow> climb blake3 x (q * 2 ^ k + i) p = climb blake3 x i p"
proof (induction p arbitrary: x i k)
  case (Cons h p)
  then obtain m where k: "k = Suc m" "length p \<le> m" by (cases k) auto
  have "(q * 2 ^ k + i) div 2 = q * 2 ^ m + i div 2" by (simp add: k)
  then show ?case using Cons.IH [OF k(2)] by (simp add: k)
qed simp

lemma merkle_proof_32:
  assumes "digest32 blake3" and "\<forall>x \<in> set ls. length x = 32" and "i < length ls"
  shows "\<forall>h \<in> set (merkle_proof blake3 ls i). length h = 32"
proof -
  have "sibling_index (node_count (length ls) lv) (i div 2 ^ lv) < length (level_at blake3 ls lv)" for lv
    using length_level_at_less [OF assms(3), of lv blake3] by (simp add: node_count_level sibling_index_less)
  then have "length (level_at blake3 ls lv ! sibling_index (node_count (length ls) lv) (i div 2 ^ lv)) = 32" for lv
    using level_at_32 [OF assms(1,2)] nth_mem by blast
  then show ?thesis by (auto simp: merkle_proof_levels)
qed

lemma tile_chunk_opens:
  assumes len: "length tile = POM_V4_TILE_BYTES" and r: "r < 32"
    and leaves: "leaves = map (blake blake3) (chunks 32 tile)"
  shows "climb blake3 (leaves ! r) (off * 32 + r) (merkle_proof blake3 leaves r @ path) =
    climb blake3 (v4_tile_subtree_root blake3 tile) off path"
proof -
  have ch: "length leaves = 32" using chunks_full [of 32 tile 32] len by (simp add: leaves v4_consts)
  have mp: "length (merkle_proof blake3 leaves r) = 5"
    using height_pow [of 5] by (simp add: length_merkle_proof ch)
  have "climb blake3 (leaves ! r) (off * 2 ^ 5 + r) (merkle_proof blake3 leaves r) =
      climb blake3 (leaves ! r) r (merkle_proof blake3 leaves r)"
    by (rule climb_low_bits) (simp add: mp)
  also have "\<dots> = v4_tile_subtree_root blake3 tile"
    using climb_merkle_proof [of r leaves blake3] r ch
    by (simp add: v4_tile_subtree_root_def leaves POM_V4_CHUNK_BYTES_def)
  finally show ?thesis using r by (simp add: climb_append mp)
qed

lemma tile_sound:
  assumes inj: "inj_on blake3 (tile_inputs blake3 tile off path \<union> tree_inputs blake3 (map (blake blake3) cs) \<union> set cs)"
    and dig: "digest32 blake3" and p32: "\<forall>h \<in> set path. length h = 32"
    and c32: "\<forall>c \<in> set cs. length c = 32" and off: "off < length cs div 32"
    and len: "length tile = POM_V4_TILE_BYTES"
    and root: "climb blake3 (v4_tile_subtree_root blake3 tile) off path = root_loop blake3 (map (blake blake3) cs)"
  shows "tile = model_tile cs off"
proof -
  let ?ch = "chunks 32 tile" and ?lv = "map (blake blake3) (chunks 32 tile)"
  have ch: "length ?ch = 32" "\<forall>c \<in> set ?ch. length c = 32"
    using chunks_full [of 32 tile 32] len by (simp_all add: v4_consts)
  have fit: "off * 32 + 32 \<le> length cs" by (rule tile_fits [OF off])
  have lv32: "\<forall>x \<in> set ?lv. length x = 32" using dig by (auto simp: digest32_def blake_def)
  have nth: "?ch ! r = cs ! (off * 32 + r)" if r: "r < 32" for r
  proof -
    have lv: "?lv ! r = blake blake3 (?ch ! r)" and mem: "?ch ! r \<in> set ?ch" using r ch(1) by auto
    have sub: "climb_inputs blake3 (blake blake3 (?ch ! r)) (off * 32 + r) (merkle_proof blake3 ?lv r @ path) \<union>
        tree_inputs blake3 (map (blake blake3) cs) \<union> insert (?ch ! r) (set cs) \<subseteq>
      tile_inputs blake3 tile off path \<union> tree_inputs blake3 (map (blake blake3) cs) \<union> set cs"
      unfolding tile_inputs_def Let_def lv [symmetric] using r mem by blast
    have p32': "\<forall>h \<in> set (merkle_proof blake3 ?lv r @ path). length h = 32"
      using merkle_proof_32 [OF dig lv32, of r] p32 r ch(1) by auto
    have rt: "climb blake3 (blake blake3 (?ch ! r)) (off * 32 + r) (merkle_proof blake3 ?lv r @ path) =
        root_loop blake3 (map (blake blake3) cs)"
      using tile_chunk_opens [OF len r refl, of blake3 off path] root lv by simp
    show ?thesis
      using ch(2) mem fit r by (intro climb_sound [OF inj_on_subset [OF inj sub] dig p32' _ c32 _ rt]) auto
  qed
  have "?ch = slice (off * 32) ((off + 1) * 32) cs"
    using ch(1) fit by (intro nth_equalityI) (auto simp: nth nth_slice)
  then show ?thesis using concat_chunks [of 32 tile] by (simp add: model_tile_def)
qed

text \<open>The strings hashed by the verifier of a whole proof.\<close>

fun v4_inputs :: "(bytes \<Rightarrow> hash) \<Rightarrow> u64 \<Rightarrow> nat \<Rightarrow> nat \<Rightarrow> bytes list \<Rightarrow> PomV4RangeProof list \<Rightarrow> nat \<Rightarrow> bytes set" where
  "v4_inputs blake3 seed n_tiles step (tile # tiles) (rp # merkle) off =
     tile_inputs blake3 tile off (rp_path rp) \<union>
     v4_inputs blake3 seed n_tiles (step + 1) tiles merkle
       (if step < POM_V4_K then v4_next_offset seed step (take POM_V4_SNIPPET_BYTES tile) n_tiles else off)"
| "v4_inputs blake3 seed n_tiles step _ _ off = {}"

lemma verify_v4_loop_sound:
  assumes dig: "digest32 blake3" and c32: "\<forall>c \<in> set cs. length c = 32"
    and root: "root_loop blake3 (map (blake blake3) cs) = r_t"
  shows "verify_v4_loop blake3 seed r_t (length cs div 32) step tiles merkle state off = Inr final \<Longrightarrow>
    1 \<le> step \<Longrightarrow> length tiles = Suc POM_V4_K - step \<Longrightarrow> length merkle = Suc POM_V4_K - step \<Longrightarrow>
    off < length cs div 32 \<Longrightarrow> \<forall>rp \<in> set merkle. \<forall>h \<in> set (rp_path rp). length h = 32 \<Longrightarrow>
    inj_on blake3 (v4_inputs blake3 seed (length cs div 32) step tiles merkle off \<union>
      tree_inputs blake3 (map (blake blake3) cs) \<union> set cs) \<Longrightarrow>
    final = v4_spec seed cs (Suc POM_V4_K - step) state off"
proof (induction tiles arbitrary: step merkle state off)
  case (Cons tile tiles)
  then obtain rp merkle' where m: "merkle = rp # merkle'" by (cases merkle) auto
  define off' where "off' = (if step < POM_V4_K
    then v4_next_offset seed step (take POM_V4_SNIPPET_BYTES tile) (length cs div 32) else off)"
  have le: "step \<le> POM_V4_K" and d: "Suc POM_V4_K - Suc step = POM_V4_K - step" using Cons.prems(3) by auto
  have v: "length tile = POM_V4_TILE_BYTES"
    "climb blake3 (v4_tile_subtree_root blake3 tile) off (rp_path rp) = root_loop blake3 (map (blake blake3) cs)"
    "verify_v4_loop blake3 seed r_t (length cs div 32) (step + 1) tiles merkle' (v4_transition state tile step) off' = Inr final"
    using Cons.prems(1) root by (auto simp: m verify_merkle_def off'_def split: if_splits)
  have injs: "inj_on blake3 (tile_inputs blake3 tile off (rp_path rp) \<union> tree_inputs blake3 (map (blake blake3) cs) \<union> set cs)"
    "inj_on blake3 (v4_inputs blake3 seed (length cs div 32) (step + 1) tiles merkle' off' \<union>
      tree_inputs blake3 (map (blake blake3) cs) \<union> set cs)"
    by (rule inj_on_subset [OF Cons.prems(7)], auto simp: m off'_def)+
  have tile: "tile = model_tile cs off"
    using Cons.prems(5,6) v(1,2) by (intro tile_sound [OF injs(1) dig _ c32]) (auto simp: m)
  have "off' < length cs div 32" using Cons.prems(5) v4_offset_less(2) by (auto simp: off'_def)
  then have "final = v4_spec seed cs (Suc POM_V4_K - (step + 1)) (v4_transition state tile step) off'"
    using Cons.prems(3,4,6) by (intro Cons.IH [OF v(3)] injs(2)) (auto simp: m)
  then show ?case unfolding v4_spec_step [OF le] by (simp add: d off'_def tile)
qed simp

section \<open>Properties\<close>

lemma v4_provers_agree:
  assumes ok: "sparse_ok blake3 idx" and nt: "0 < wi_n_chunks idx div POM_V4_TILE_CHUNKS"
  shows "\<exists>p. build_proof_v4 blake3 tier seed idx = Some (Inr (p, v4_final blake3 seed (sparse_chunks idx))) \<and>
    verify_proof_v4 blake3 seed p (wi_r_t idx) (wi_n_chunks idx) = Inr (v4_final blake3 seed (sparse_chunks idx)) \<and>
    walk_final_v4 blake3 seed idx = Some (Inr (v4_final blake3 seed (sparse_chunks idx)))"
proof -
  let ?n = "wi_n_chunks idx div 32"
  have n: "0 < ?n" "?n = length (sparse_chunks idx) div 32"
    using nt sparse_laws(1) [OF ok] by (simp_all add: tile_chunks_32)
  have k: "Suc POM_V4_K - 1 = POM_V4_K" by simp
  obtain tiles merkle where
    b: "build_v4_loop blake3 seed idx ?n 1 (v4_initial_state seed) (v4_first_offset seed ?n) =
        Some (tiles, merkle, v4_spec seed (sparse_chunks idx) POM_V4_K (v4_initial_state seed) (v4_first_offset seed ?n))"
    "length tiles = POM_V4_K" "length merkle = POM_V4_K"
    "verify_v4_loop blake3 seed (wi_r_t idx) ?n 1 tiles merkle (v4_initial_state seed) (v4_first_offset seed ?n) =
        Inr (v4_spec seed (sparse_chunks idx) POM_V4_K (v4_initial_state seed) (v4_first_offset seed ?n))"
    "walk_v4_loop seed idx ?n 1 (v4_initial_state seed) (v4_first_offset seed ?n) =
        Some (v4_spec seed (sparse_chunks idx) POM_V4_K (v4_initial_state seed) (v4_first_offset seed ?n))"
    using build_v4_loop_ok [OF ok, of 1 "v4_first_offset seed ?n" seed "v4_initial_state seed"] v4_offset_less(1) [OF n(1), of seed]
    unfolding k by auto
  then show ?thesis
    using n by (simp add: build_proof_v4_def verify_proof_v4_def walk_final_v4_def v4_final_def tile_chunks_32 Let_def)
qed

text \<open>C6: over the on-disk index the v4 prover, its cheap pre-check and the verifier all derive the final
  state of the walk over the model's chunks; the proof that the prover builds is accepted.\<close>

theorem v4_build_verifies:
  assumes ok: "sparse_ok blake3 idx" and nt: "0 < wi_n_chunks idx div POM_V4_TILE_CHUNKS"
  shows "\<exists>p. build_proof_v4 blake3 tier seed idx = Some (Inr (p, v4_final blake3 seed (sparse_chunks idx))) \<and>
    verify_proof_v4 blake3 seed p (wi_r_t idx) (wi_n_chunks idx) = Inr (v4_final blake3 seed (sparse_chunks idx)) \<and>
    walk_final_v4 blake3 seed idx = Some (Inr (v4_final blake3 seed (sparse_chunks idx)))"
  by (rule v4_provers_agree [OF assms])

theorem v4_build_verifies_witness:
  "\<exists>idx p f. build_from_gguf toy_hash (replicate 3 1 @ replicate (64 * 32 + 5) 7) (toy_model 64) = Some idx \<and>
    build_proof_v4 toy_hash 1 77 idx = Some (Inr (p, f)) \<and>
    verify_proof_v4 toy_hash 77 p (wi_r_t idx) (wi_n_chunks idx) = Inr f"
proof -
  obtain idx where idx: "build_from_gguf toy_hash (replicate 3 1 @ replicate (64 * 32 + 5) 7) (toy_model 64) = Some idx"
    and ok: "sparse_ok toy_hash idx" and n: "wi_n_chunks idx = 64"
    by (rule toy_model_index [of 64]) simp
  have "0 < wi_n_chunks idx div POM_V4_TILE_CHUNKS" by (simp add: n tile_chunks_32)
  from v4_build_verifies [OF ok this] idx show ?thesis by blast
qed

text \<open>C5: the v4 verifier is sound: where the strings hashed by it and by the builder of the tree do not
  collide, the final state that it derives from an accepted proof is that of the walk over the
  model's chunks. A prover cannot reach another final state without a collision.\<close>

theorem v4_verify_sound:
  assumes "verify_proof_v4 blake3 seed p r_t (length cs) = Inr f"
    and "merkle_root blake3 (map (blake blake3) cs) = Some r_t" and "\<forall>c \<in> set cs. length c = 32"
    and "digest32 blake3" and "\<forall>rp \<in> set (v4_merkle p). \<forall>h \<in> set (rp_path rp). length h = 32"
    and "inj_on blake3 (v4_inputs blake3 seed (length cs div 32) 1 (v4_tiles p) (v4_merkle p)
        (v4_first_offset seed (length cs div 32)) \<union> tree_inputs blake3 (map (blake blake3) cs) \<union> set cs)"
  shows "f = v4_final blake3 seed cs"
proof -
  have root: "root_loop blake3 (map (blake blake3) cs) = r_t"
    using assms(2) by (auto simp: merkle_root_def split: if_splits)
  have n: "0 < length cs div 32" and len: "length (v4_tiles p) = POM_V4_K" "length (v4_merkle p) = POM_V4_K"
    using assms(1) by (auto simp: verify_proof_v4_def tile_chunks_32 Let_def split: if_splits)
  obtain final where final: "verify_v4_loop blake3 seed r_t (length cs div 32) 1 (v4_tiles p) (v4_merkle p)
      (v4_initial_state seed) (v4_first_offset seed (length cs div 32)) = Inr final"
    "f = fold64 (v4_state_root blake3 final)"
    using assms(1) n len by (auto simp: verify_proof_v4_def tile_chunks_32 Let_def map_sum_def split: sum.splits)
  have "final = v4_spec seed cs (Suc POM_V4_K - 1) (v4_initial_state seed) (v4_first_offset seed (length cs div 32))"
    using len v4_offset_less(1) [OF n] by (intro verify_v4_loop_sound [OF assms(4,3) root final(1) _ _ _ _ assms(5,6)]) auto
  with final(2) show ?thesis by (simp add: v4_final_def)
qed

subsection \<open>A collision-free instance\<close>

text \<open>A model of 32 equal chunks under a hash that counts its levels in the first byte.\<close>

definition count_hash :: "bytes \<Rightarrow> hash" where
  "count_hash bs = (case bs of [] \<Rightarrow> 0 | b # _ \<Rightarrow> b + 1) # take 31 (bs @ replicate 31 0)"

fun tower :: "(bytes \<Rightarrow> hash) \<Rightarrow> nat \<Rightarrow> hash \<Rightarrow> hash" where
  "tower blake3 0 x = x"
| "tower blake3 (Suc k) x = tower blake3 k (hash_pair blake3 x x)"

lemma next_level_replicate: "next_level blake3 (replicate (2 * m) x) = replicate m (hash_pair blake3 x x)"
  by (induction m) simp_all

lemma tree_replicate:
  "root_loop blake3 (replicate (2 ^ d) x) = tower blake3 d x"
  "r < 2 ^ d \<Longrightarrow> climb_inputs blake3 x r (merkle_proof blake3 (replicate (2 ^ d) x) r) \<subseteq>
     {tower blake3 k x @ tower blake3 k x | k. k < d}"
proof (induction d arbitrary: x r)
  case (Suc d)
  have gt: "Suc 0 < (2 :: nat) * 2 ^ d" using one_le_power [of "2 :: nat" d] by linarith
  { case 1
    show ?case
      using Suc.IH(1) [of "hash_pair blake3 x x"] gt
      by (simp add: root_loop.simps [of _ "replicate (2 * 2 ^ d) x"] next_level_replicate)
  next
    case 2
    have r: "r div 2 < 2 ^ d" using 2 by simp
    have mp: "merkle_proof blake3 (replicate (2 * 2 ^ d) x) r =
        x # merkle_proof blake3 (replicate (2 ^ d) (hash_pair blake3 x x)) (r div 2)"
      using gt 2 by (subst merkle_proof.simps) (simp add: Let_def next_level_replicate)
    have sub: "{tower blake3 k (hash_pair blake3 x x) @ tower blake3 k (hash_pair blake3 x x) | k. k < d} \<subseteq>
        {tower blake3 k x @ tower blake3 k x | k. k < Suc d}"
    proof
      fix z assume "z \<in> {tower blake3 k (hash_pair blake3 x x) @ tower blake3 k (hash_pair blake3 x x) | k. k < d}"
      then obtain k where "z = tower blake3 (Suc k) x @ tower blake3 (Suc k) x" "Suc k < Suc d" by auto
      then show "z \<in> {tower blake3 k x @ tower blake3 k x | k. k < Suc d}" by blast
    qed
    have "x @ x \<in> {tower blake3 k x @ tower blake3 k x | k. k < Suc d}" by (auto intro!: exI [of _ 0])
    then show ?case
      using Suc.IH(2) [OF r, of "hash_pair blake3 x x"] sub by (simp add: mp) }
qed (simp_all add: root_loop.simps merkle_proof.simps)

lemma tower_snoc: "tower blake3 (Suc k) x = hash_pair blake3 (tower blake3 k x) (tower blake3 k x)"
  by (induction k arbitrary: x) simp_all

lemma level_at_replicate: "k \<le> d \<Longrightarrow> level_at blake3 (replicate (2 ^ d) x) k = replicate (2 ^ (d - k)) (tower blake3 k x)"
proof (induction k)
  case (Suc k)
  then have "2 ^ (d - k) = 2 * (2 :: nat) ^ (d - Suc k)" by (metis Suc_diff_Suc Suc_le_eq power_Suc)
  with Suc show ?case by (simp add: level_at_Suc next_level_replicate tower_snoc del: tower.simps)
qed simp

lemma level_inputs_same: "set ls \<subseteq> {x} \<Longrightarrow> level_inputs ls \<subseteq> {x @ x}"
  by (induction ls rule: level_inputs.induct) auto

lemma tree_inputs_replicate:
  "tree_inputs blake3 (replicate (2 ^ d) x) \<subseteq> {tower blake3 k x @ tower blake3 k x | k. k < d}"
proof
  fix z assume "z \<in> tree_inputs blake3 (replicate (2 ^ d) x)"
  then obtain k where k: "k < d" "z \<in> level_inputs (level_at blake3 (replicate (2 ^ d) x) k)"
    by (auto simp: tree_inputs_def height_pow)
  moreover have "set (level_at blake3 (replicate (2 ^ d) x) k) \<subseteq> {tower blake3 k x}"
    using k(1) by (simp add: level_at_replicate)
  ultimately show "z \<in> {tower blake3 k x @ tower blake3 k x | k. k < d}"
    using level_inputs_same by blast
qed

lemma digest32_count: "digest32 count_hash"
  by (auto simp: digest32_def count_hash_def)

lemma count_hash_Cons: "count_hash (b # bs) = (b + 1) # take 31 (b # bs @ replicate 31 0)"
  by (simp add: count_hash_def)

lemma tower_hd: "\<exists>bs'. tower count_hash k (b # bs) = (b + word_of_nat k) # bs'"
proof (induction k)
  case (Suc k)
  then obtain bs' where "tower count_hash k (b # bs) = (b + word_of_nat k) # bs'" by blast
  then show ?case
    by (simp add: tower_snoc hash_pair_def blake_def count_hash_Cons add.commute add.left_commute del: tower.simps)
qed simp

definition flat_chunk :: bytes where "flat_chunk = replicate 32 3"
definition flat_model :: "bytes list" where "flat_model = replicate (2 ^ 5) flat_chunk"
definition flat_root :: hash where "flat_root = tower count_hash 5 (blake count_hash flat_chunk)"

lemma flat_leaves: "map (blake count_hash) flat_model = replicate (2 ^ 5) (blake count_hash flat_chunk)"
  by (simp only: flat_model_def map_replicate)

lemma flat_chunks: "chunks 32 (concat flat_model) = flat_model"
  by (rule chunks_concat) (auto simp: flat_model_def flat_chunk_def)

lemma flat_inj:
  "inj_on count_hash (insert flat_chunk
     {tower count_hash k (blake count_hash flat_chunk) @ tower count_hash k (blake count_hash flat_chunk) | k. k < 5})"
proof -
  define h0 where "h0 = blake count_hash flat_chunk"
  obtain t where h0: "h0 = 4 # t" by (simp add: h0_def blake_def count_hash_def flat_chunk_def numeral_eq_Suc)
  define g where "g k = tower count_hash k h0 @ tower count_hash k h0" for k
  have hg: "hd (count_hash (g k)) = 5 + word_of_nat k" for k
  proof -
    obtain bs' where "tower count_hash k h0 = (4 + word_of_nat k) # bs'" using tower_hd [of k 4 t] h0 by auto
    then show ?thesis by (simp add: g_def count_hash_Cons)
  qed
  have hc: "hd (count_hash flat_chunk) = 4" by (simp add: count_hash_def flat_chunk_def numeral_eq_Suc)
  have five: "k < 5 \<longleftrightarrow> k = 0 \<or> k = 1 \<or> k = 2 \<or> k = 3 \<or> k = (4 :: nat)" for k by auto
  have gg: "k = m" if "k < 5" "m < 5" "count_hash (g k) = count_hash (g m)" for k m
    using that hg [of k] hg [of m] by (auto simp: five)
  have gc: "count_hash (g k) \<noteq> count_hash flat_chunk" if "k < 5" for k
    using that hg [of k] hc by (auto simp: five)
  have "inj_on count_hash (insert flat_chunk {g k | k. k < 5})"
  proof (rule inj_onI)
    fix u v assume "u \<in> insert flat_chunk {g k | k. k < 5}" "v \<in> insert flat_chunk {g k | k. k < 5}"
      and eq: "count_hash u = count_hash v"
    then consider "u = v" | k where "k < 5" "u = g k" "v = flat_chunk" | k where "k < 5" "v = g k" "u = flat_chunk"
      | k m where "k < 5" "m < 5" "u = g k" "v = g m" by auto
    then show "u = v" using eq gg gc [symmetric] gc by cases auto
  qed
  then show ?thesis by (simp only: g_def h0_def)
qed

lemma flat_tile_inputs:
  "tile_inputs count_hash (concat flat_model) 0 [] \<subseteq> insert flat_chunk
     {tower count_hash k (blake count_hash flat_chunk) @ tower count_hash k (blake count_hash flat_chunk) | k. k < 5}"
proof -
  let ?h = "blake count_hash flat_chunk"
  have "climb_inputs count_hash (replicate (2 ^ 5) ?h ! r) (0 * 32 + r) (merkle_proof count_hash (replicate (2 ^ 5) ?h) r @ []) \<subseteq>
      {tower count_hash k ?h @ tower count_hash k ?h | k. k < 5}" if "r < 32" for r
    using tree_replicate(2) [of r 5 count_hash ?h] that by simp
  moreover have "set flat_model \<subseteq> {flat_chunk}" by (auto simp: flat_model_def)
  ultimately show ?thesis unfolding tile_inputs_def Let_def flat_chunks flat_leaves by blast
qed

lemma flat_v4_inputs:
  "v4_inputs count_hash seed 1 step (replicate k (concat flat_model)) (replicate k \<lparr>rp_path = []\<rparr>) 0 \<subseteq>
    insert flat_chunk {tower count_hash k (blake count_hash flat_chunk) @ tower count_hash k (blake count_hash flat_chunk) | k. k < 5}"
proof (induction k arbitrary: step)
  case (Suc k)
  have "v4_next_offset seed step snip 1 = 0" for snip by (simp add: v4_next_offset_def)
  with Suc [of "Suc step"] flat_tile_inputs show ?case by (simp add: v4_next_offset_def)
qed simp

lemma flat_accepted:
  "\<exists>st. verify_v4_loop count_hash seed flat_root 1 step (replicate k (concat flat_model)) (replicate k \<lparr>rp_path = []\<rparr>) state 0 = Inr st"
proof (induction k arbitrary: step state)
  case (Suc k)
  have "length (concat flat_model) = POM_V4_TILE_BYTES"
    by (subst concat_length_uniform [of _ 32]) (auto simp: flat_model_def flat_chunk_def v4_consts)
  moreover have "v4_tile_subtree_root count_hash (concat flat_model) = flat_root"
    unfolding v4_tile_subtree_root_def POM_V4_CHUNK_BYTES_def flat_chunks flat_leaves flat_root_def
    by (rule tree_replicate(1))
  ultimately show ?case using Suc [of "Suc step"] by (simp add: verify_merkle_def v4_next_offset_def)
qed simp

theorem v4_verify_sound_witness:
  "\<exists>p f. verify_proof_v4 count_hash 77 p flat_root (length flat_model) = Inr f \<and> f = v4_final count_hash 77 flat_model"
proof -
  define p where "p = \<lparr>v4_tier = 1, v4_tiles = replicate POM_V4_K (concat flat_model),
    v4_merkle = replicate POM_V4_K \<lparr>rp_path = []\<rparr>\<rparr>"
  have n: "length flat_model = 32" "length flat_model div 32 = 1" by (simp_all add: flat_model_def)
  have first: "v4_first_offset 77 1 = 0" by (simp add: v4_first_offset_def)
  obtain f where f: "verify_proof_v4 count_hash 77 p flat_root (length flat_model) = Inr f"
    using flat_accepted [of 77 1 POM_V4_K "v4_initial_state 77"] first
    by (auto simp: verify_proof_v4_def p_def n tile_chunks_32 Let_def)
  have root: "merkle_root count_hash (map (blake count_hash) flat_model) = Some flat_root"
    unfolding flat_leaves flat_root_def using tree_replicate(1) [of count_hash 5] by (simp add: merkle_root_def)
  have tree: "tree_inputs count_hash (map (blake count_hash) flat_model) \<subseteq>
      {tower count_hash k (blake count_hash flat_chunk) @ tower count_hash k (blake count_hash flat_chunk) | k. k < 5}"
    unfolding flat_leaves by (rule tree_inputs_replicate)
  have "v4_inputs count_hash 77 1 1 (v4_tiles p) (v4_merkle p) 0 \<union>
      tree_inputs count_hash (map (blake count_hash) flat_model) \<union> set flat_model \<subseteq>
      insert flat_chunk {tower count_hash k (blake count_hash flat_chunk) @ tower count_hash k (blake count_hash flat_chunk) | k. k < 5}"
    using flat_v4_inputs [of 77 1 POM_V4_K] tree by (auto simp: p_def flat_model_def)
  then have inj: "inj_on count_hash (v4_inputs count_hash 77 (length flat_model div 32) 1 (v4_tiles p) (v4_merkle p)
      (v4_first_offset 77 (length flat_model div 32)) \<union> tree_inputs count_hash (map (blake count_hash) flat_model) \<union> set flat_model)"
    unfolding n(2) first by (rule inj_on_subset [OF flat_inj])
  have "f = v4_final count_hash 77 flat_model"
    by (rule v4_verify_sound [OF f root _ digest32_count _ inj]) (auto simp: flat_model_def flat_chunk_def p_def)
  with f show ?thesis by blast
qed

end
