(* ===== verification/Pom_V5.thy ===== *)
theory Pom_V5
  imports Pom_V4
begin

text \<open>
  \<open>src/src/pom_v5.rs\<close>: the v4 walk with a context pad. Some of the 256 steps read a tile of a pad
  that is generated from a seed instead of a tile of the model; they are spread evenly and their
  share is that of the pad in the tile space. The walk takes its tiles from a closure: the closure
  is the parameter \<open>fetch\<close>, which threads the proof under construction as a state, and returns
  \<open>None\<close> where a read panics.

  The lemmas count the pad steps, bound the offsets, show that the ARX rounds of a pad entry are a
  permutation, and relate prover and verifier to the walk over the model's chunks.
\<close>

section \<open>Definitions\<close>

definition POM_V5_P_ENTRY_BYTES :: nat where "POM_V5_P_ENTRY_BYTES = 32"
definition POM_V5_TILE_ENTRIES :: nat where "POM_V5_TILE_ENTRIES = POM_V4_TILE_BYTES div POM_V5_P_ENTRY_BYTES"
definition POM_V5_P_ROUNDS :: nat where "POM_V5_P_ROUNDS = 1920"
definition POM_V5_PAD_TILES_H14 :: "nat list" where
  "POM_V5_PAD_TILES_H14 = [638976, 3213312, 4804608, 6471680, 2450432]"
definition POM_V5_PAD_TILES_H16 :: "nat list" where
  "POM_V5_PAD_TILES_H16 = [434176, 3008512, 4599808, 6266880, 2245632]"

definition pom_v5_pad_tiles :: "bool \<Rightarrow> nat \<Rightarrow> u64 \<Rightarrow> nat" where
  "pom_v5_pad_tiles testnet tier daa =
     (let table = (if daa \<ge> pad_margin_activation_daa testnet then POM_V5_PAD_TILES_H16 else POM_V5_PAD_TILES_H14)
      in if tier < length table then table ! tier else 0)"

text \<open>\<open>b"KERYX-POM-V5-PAD"\<close>\<close>

definition PAD_DOMAIN :: bytes where
  "PAD_DOMAIN = [75, 69, 82, 89, 88, 45, 80, 79, 77, 45, 86, 53, 45, 80, 65, 68]"

definition PAD_IV :: "u64 list" where
  "PAD_IV = [0x510e527fade682d1, 0x9b05688c2b3e6c1f, 0x1f83d9abfb41bd6b, 0x5be0cd19137e2179]"

definition v5_pad_seed :: "(bytes \<Rightarrow> hash) \<Rightarrow> u8 \<Rightarrow> hash \<Rightarrow> hash \<Rightarrow> hash" where
  "v5_pad_seed blake3 tier model_id r_t = blake blake3 (PAD_DOMAIN @ [tier] @ model_id @ r_t)"

definition round4 :: "u64 \<times> u64 \<times> u64 \<times> u64 \<Rightarrow> u64 \<times> u64 \<times> u64 \<times> u64" where
  "round4 = (\<lambda>(a, b, c, d).
     let a = a + b; d = d XOR a; d = word_rotl 32 d;
         c = c + d; b = b XOR c; b = word_rotl 24 b;
         a = a + b; d = d XOR a; d = word_rotl 16 d;
         c = c + d; b = b XOR c; b = word_rotl 63 b
     in (a, b, c, d))"

definition v5_pad_seed_words :: "hash \<Rightarrow> u64 list" where
  "v5_pad_seed_words pad_seed =
     map (\<lambda>i. from_le (slice (i * 8) (i * 8 + 8) pad_seed) XOR PAD_IV ! i) [0..<4]"

definition pad_entry_into :: "u64 list \<Rightarrow> u64 \<Rightarrow> bytes" where
  "pad_entry_into words index =
     (let (a, b, c, d) = (round4 ^^ POM_V5_P_ROUNDS) (words ! 0, words ! 1 XOR index, words ! 2, words ! 3)
      in le_bytes 8 a @ le_bytes 8 b @ le_bytes 8 c @ le_bytes 8 d)"

definition v5_pad_entry :: "hash \<Rightarrow> u64 \<Rightarrow> bytes" where
  "v5_pad_entry pad_seed index = pad_entry_into (v5_pad_seed_words pad_seed) index"

definition v5_pad_tile :: "hash \<Rightarrow> nat \<Rightarrow> bytes" where
  "v5_pad_tile pad_seed tile =
     concat (map (\<lambda>k. pad_entry_into (v5_pad_seed_words pad_seed) (word_of_nat (tile * POM_V5_TILE_ENTRIES + k)))
       [0..<POM_V5_TILE_ENTRIES])"

text \<open>\<open>n.clamp(lo, hi)\<close>\<close>

definition clamp :: "nat \<Rightarrow> nat \<Rightarrow> nat \<Rightarrow> nat" where
  "clamp x lo hi = (if x < lo then lo else if x > hi then hi else x)"

definition v5_pad_steps :: "nat \<Rightarrow> nat \<Rightarrow> nat" where
  "v5_pad_steps weight_tiles pad_tiles =
     (let n = weight_tiles + pad_tiles
      in clamp ((POM_V4_K * pad_tiles + n div 2) div n) 1 (POM_V4_K - 1))"

definition v5_is_pad_step :: "nat \<Rightarrow> nat \<Rightarrow> bool" where
  "v5_is_pad_step step pad_steps \<longleftrightarrow> step * pad_steps div POM_V4_K \<noteq> (step - 1) * pad_steps div POM_V4_K"

definition v5_state_fold :: "bytes \<Rightarrow> u64" where
  "v5_state_fold state =
     fold (\<lambda>r h. h XOR mix64 (from_le (slice (r * POM_V4_D) (r * POM_V4_D + 8) state) XOR word_of_nat r)) [0..<POM_V4_D] 0"

definition v5_first_offset :: "u64 \<Rightarrow> nat \<Rightarrow> nat" where
  "v5_first_offset seed weight_tiles = v4_first_offset seed weight_tiles"

definition v5_next_offset :: "u64 \<Rightarrow> nat \<Rightarrow> bytes \<Rightarrow> u64 \<Rightarrow> nat \<Rightarrow> nat \<Rightarrow> nat \<Rightarrow> nat" where
  "v5_next_offset seed step snippet state_fold weight_tiles pad_tiles pad_steps =
     (let raw = unat (mix64 (seed XOR word_of_nat (step + 1) * POM_V4_OFFSET_STEP_SALT XOR
                        snippet_fold snippet XOR state_fold))
      in if v5_is_pad_step (step + 1) pad_steps then weight_tiles + raw mod pad_tiles else raw mod weight_tiles)"

type_synonym 's fetch = "nat \<Rightarrow> nat \<Rightarrow> 's \<Rightarrow> (walk_error + bytes option \<times> 's) option"

function walk_v5_loop ::
  "u64 \<Rightarrow> nat \<Rightarrow> nat \<Rightarrow> nat \<Rightarrow> hash \<Rightarrow> 's fetch \<Rightarrow> nat \<Rightarrow> bytes \<Rightarrow> nat \<Rightarrow> 's \<Rightarrow> (walk_error + bytes \<times> 's) option" where
  "walk_v5_loop seed weight_tiles pad_tiles pad_steps pad_seed fetch step state off s =
     (if step \<le> POM_V4_K
      then case fetch (step - 1) off s of
             None \<Rightarrow> None
           | Some (Inl e) \<Rightarrow> Some (Inl e)
           | Some (Inr (t, s)) \<Rightarrow>
               let tile = (case t of Some t \<Rightarrow> t | None \<Rightarrow> v5_pad_tile pad_seed (off - weight_tiles));
                   off = (if step < POM_V4_K
                          then v5_next_offset seed step (take POM_V4_SNIPPET_BYTES tile) (v5_state_fold state)
                                 weight_tiles pad_tiles pad_steps
                          else off);
                   state = v4_transition state tile step
               in walk_v5_loop seed weight_tiles pad_tiles pad_steps pad_seed fetch (step + 1) state off s
      else Some (Inr (state, s)))"
  by pat_completeness auto
termination
  by (relation "measure (\<lambda>(seed, wt, pt, ps, pad_seed, fetch, step, state, off, s). Suc POM_V4_K - step)") auto

declare walk_v5_loop.simps [simp del]

definition walk ::
  "(bytes \<Rightarrow> hash) \<Rightarrow> u64 \<Rightarrow> nat \<Rightarrow> nat \<Rightarrow> hash \<Rightarrow> 's fetch \<Rightarrow> 's \<Rightarrow> (walk_error + u64 \<times> 's) option" where
  "walk blake3 seed weight_tiles pad_tiles pad_seed fetch s =
     (if weight_tiles = 0 \<or> pad_tiles = 0 then Some (Inl NoTileSpace)
      else map_option (map_sum id (\<lambda>(state, s). (fold64 (v4_state_root blake3 state), s)))
             (walk_v5_loop seed weight_tiles pad_tiles (v5_pad_steps weight_tiles pad_tiles) pad_seed fetch 1
                (v4_initial_state seed) (v5_first_offset seed weight_tiles) s))"

text \<open>The closures of the three callers.\<close>

definition fetch_final :: "WeightIndex \<Rightarrow> nat \<Rightarrow> unit fetch" where
  "fetch_final index weight_tiles i off s =
     (if off \<ge> weight_tiles then Some (Inr (None, s))
      else map_option (\<lambda>t. Inr (Some t, s)) (read_tile index off))"

definition fetch_build :: "(bytes \<Rightarrow> hash) \<Rightarrow> WeightIndex \<Rightarrow> nat \<Rightarrow> PomProofV4 fetch" where
  "fetch_build blake3 index weight_tiles i off proof =
     (if off < weight_tiles
      then do {
        t \<leftarrow> read_tile index off;
        leaf_path \<leftarrow> merkle_path blake3 index (off * POM_V4_TILE_CHUNKS);
        path \<leftarrow> slice_from POM_V4_TILE_SUBTREE_DEPTH leaf_path;
        Some (Inr (Some t, proof\<lparr>v4_tiles := v4_tiles proof @ [t], v4_merkle := v4_merkle proof @ [\<lparr>rp_path = path\<rparr>]\<rparr>))
      }
      else Some (Inr (None, proof\<lparr>v4_tiles := v4_tiles proof @ [[]], v4_merkle := v4_merkle proof @ [\<lparr>rp_path = []\<rparr>]\<rparr>)))"

definition fetch_verify :: "(bytes \<Rightarrow> hash) \<Rightarrow> PomProofV4 \<Rightarrow> hash \<Rightarrow> nat \<Rightarrow> unit fetch" where
  "fetch_verify blake3 proof r_t weight_tiles i off s =
     (let step = i + 1; tile = v4_tiles proof ! i; path = rp_path (v4_merkle proof ! i)
      in if off < weight_tiles
         then if length tile \<noteq> POM_V4_TILE_BYTES then Some (Inl (TileWrongShape step))
              else if \<not> verify_merkle blake3 (v4_tile_subtree_root blake3 tile) off path r_t
              then Some (Inl (RangeProofFails step))
              else Some (Inr (Some tile, s))
         else if tile \<noteq> [] \<or> path \<noteq> [] then Some (Inl (PadNotEmpty step))
         else Some (Inr (None, s)))"

definition walk_final_v5 :: "(bytes \<Rightarrow> hash) \<Rightarrow> u64 \<Rightarrow> WeightIndex \<Rightarrow> hash \<Rightarrow> nat \<Rightarrow> (walk_error + u64) option" where
  "walk_final_v5 blake3 seed index pad_seed pad_tiles =
     (let weight_tiles = wi_n_chunks index div POM_V4_TILE_CHUNKS
      in map_option (map_sum id fst) (walk blake3 seed weight_tiles pad_tiles pad_seed (fetch_final index weight_tiles) ()))"

definition build_proof_v5 ::
  "(bytes \<Rightarrow> hash) \<Rightarrow> u8 \<Rightarrow> u64 \<Rightarrow> WeightIndex \<Rightarrow> hash \<Rightarrow> nat \<Rightarrow> (walk_error + PomProofV4 \<times> u64) option" where
  "build_proof_v5 blake3 tier seed index pad_seed pad_tiles =
     (let weight_tiles = wi_n_chunks index div POM_V4_TILE_CHUNKS
      in map_option (map_sum id prod.swap)
           (walk blake3 seed weight_tiles pad_tiles pad_seed (fetch_build blake3 index weight_tiles)
              \<lparr>v4_tier = tier, v4_tiles = [], v4_merkle = []\<rparr>))"

definition verify_proof_v5 ::
  "(bytes \<Rightarrow> hash) \<Rightarrow> u64 \<Rightarrow> PomProofV4 \<Rightarrow> hash \<Rightarrow> nat \<Rightarrow> hash \<Rightarrow> nat \<Rightarrow> (walk_error + u64) option" where
  "verify_proof_v5 blake3 seed proof r_t n_chunks pad_seed pad_tiles =
     (if length (v4_tiles proof) \<noteq> POM_V4_K \<or> length (v4_merkle proof) \<noteq> POM_V4_K then Some (Inl WrongShape)
      else let weight_tiles = n_chunks div POM_V4_TILE_CHUNKS
           in map_option (map_sum id fst)
                (walk blake3 seed weight_tiles pad_tiles pad_seed (fetch_verify blake3 proof r_t weight_tiles) ()))"

section \<open>The schedule of pad steps\<close>

lemma pad_steps_range: "1 \<le> v5_pad_steps wt pt \<and> v5_pad_steps wt pt \<le> POM_V4_K - 1"
  by (auto simp: v5_pad_steps_def clamp_def Let_def POM_V4_K_def)

lemma pad_steps_upto:
  assumes "p \<le> POM_V4_K"
  shows "card {s \<in> {1..m}. v5_is_pad_step s p} = m * p div POM_V4_K"
proof (induction m)
  case (Suc m)
  let ?a = "m * p div POM_V4_K" and ?b = "Suc m * p div POM_V4_K"
  have "?a \<le> ?b" by (intro div_le_mono) simp
  have "Suc m * p div POM_V4_K \<le> (m * p + POM_V4_K) div POM_V4_K" using assms by (intro div_le_mono) simp
  then have "?b \<le> Suc ?a" by (simp add: POM_V4_K_def)
  then have b: "?b = (if v5_is_pad_step (Suc m) p then Suc ?a else ?a)"
    using \<open>?a \<le> ?b\<close> by (auto simp: v5_is_pad_step_def)
  have "{s \<in> {1..Suc m}. v5_is_pad_step s p} =
      (if v5_is_pad_step (Suc m) p then insert (Suc m) {s \<in> {1..m}. v5_is_pad_step s p}
       else {s \<in> {1..m}. v5_is_pad_step s p})"
    by (auto simp: le_Suc_eq)
  with b Suc show ?case by simp
qed simp

lemma first_not_pad: "p < POM_V4_K \<Longrightarrow> \<not> v5_is_pad_step 1 p"
  by (simp add: v5_is_pad_step_def)

text \<open>The pad schedule: among the 256 steps exactly \<open>v5_pad_steps\<close> read the pad, at least one step
  reads the pad and at least one the model, and the first step always reads the model, whose
  offset \<open>v5_first_offset\<close> bounds by the weight tiles.\<close>

theorem pad_schedule:
  "card {s \<in> {1..POM_V4_K}. v5_is_pad_step s (v5_pad_steps wt pt)} = v5_pad_steps wt pt \<and>
   1 \<le> v5_pad_steps wt pt \<and> v5_pad_steps wt pt < POM_V4_K \<and> \<not> v5_is_pad_step 1 (v5_pad_steps wt pt)"
proof -
  have r: "1 \<le> v5_pad_steps wt pt" "v5_pad_steps wt pt < POM_V4_K"
    using pad_steps_range [of wt pt] by (auto simp: POM_V4_K_def)
  then show ?thesis
    using pad_steps_upto [of "v5_pad_steps wt pt" POM_V4_K] first_not_pad [of "v5_pad_steps wt pt"]
    by (simp add: POM_V4_K_def)
qed

text \<open>From H16 on every tier's pad is 204800 tiles smaller and still non-empty; a tier outside the
  table has no pad.\<close>

theorem pad_tables:
  "pom_v5_pad_tiles testnet tier daa =
     (if tier < 5
      then (if daa \<ge> pad_margin_activation_daa testnet
            then POM_V5_PAD_TILES_H14 ! tier - 204800 else POM_V5_PAD_TILES_H14 ! tier)
      else 0) \<and>
   (0 < pom_v5_pad_tiles testnet tier daa \<longleftrightarrow> tier < 5)"
proof -
  have five: "tier < 5 \<longleftrightarrow> tier = 0 \<or> tier = 1 \<or> tier = 2 \<or> tier = 3 \<or> tier = 4" by auto
  show ?thesis
    by (auto simp: pom_v5_pad_tiles_def POM_V5_PAD_TILES_H14_def POM_V5_PAD_TILES_H16_def five)
qed

section \<open>The pad\<close>

definition unround4 :: "u64 \<times> u64 \<times> u64 \<times> u64 \<Rightarrow> u64 \<times> u64 \<times> u64 \<times> u64" where
  "unround4 = (\<lambda>(a, b, c, d).
     let b = word_rotr 63 b; b = b XOR c; c = c - d; d = word_rotr 16 d; d = d XOR a; a = a - b;
         b = word_rotr 24 b; b = b XOR c; c = c - d; d = word_rotr 32 d; d = d XOR a; a = a - b
     in (a, b, c, d))"

lemma xor_twice: "((x :: u64) XOR y) XOR y = x"
  by (simp add: xor.assoc)

lemma unround4_round4: "unround4 (round4 x) = x"
proof -
  obtain a b c d where x: "x = (a, b, c, d)" by (cases x)
  show ?thesis
    unfolding x round4_def unround4_def Let_def prod.case word_rot_lr xor_twice add_diff_cancel_right' ..
qed

lemma inj_rounds: "inj (round4 ^^ n)"
  using unround4_round4 by (intro inj_fn inj_on_inverseI [of _ unround4]) simp

lemma pad_entry_into_inj: "pad_entry_into words i = pad_entry_into words j \<longleftrightarrow> i = j"
proof
  assume eq: "pad_entry_into words i = pad_entry_into words j"
  let ?f = "\<lambda>i. (round4 ^^ POM_V5_P_ROUNDS) (words ! 0, words ! 1 XOR i, words ! 2, words ! 3)"
  obtain a b c d where i: "?f i = (a, b, c, d)" by (cases "?f i")
  obtain a' b' c' d' where j: "?f j = (a', b', c', d')" by (cases "?f j")
  have "a = a' \<and> b = b' \<and> c = c' \<and> d = d'"
    using eq unfolding pad_entry_into_def i j by (simp add: le_bytes_inj)
  with i j have "?f i = ?f j" by simp
  then have "(words ! 0, words ! 1 XOR i, words ! 2, words ! 3) = (words ! 0, words ! 1 XOR j, words ! 2, words ! 3)"
    by (rule injD [OF inj_rounds])
  then show "i = j" by simp
qed simp

lemma length_pad_entry: "length (pad_entry_into words i) = 32"
  by (simp add: pad_entry_into_def split: prod.splits)

lemma entries_32: "POM_V5_TILE_ENTRIES = 32"
  by (simp add: POM_V5_TILE_ENTRIES_def POM_V5_P_ENTRY_BYTES_def v4_consts)

lemma length_pad_tile: "length (v5_pad_tile pad_seed t) = POM_V4_TILE_BYTES"
  unfolding v5_pad_tile_def
  by (subst concat_length_uniform [of _ 32]) (auto simp: length_pad_entry entries_32 v4_consts)

lemma pad_tile_first: "take 32 (v5_pad_tile pad_seed t) = pad_entry_into (v5_pad_seed_words pad_seed) (word_of_nat (t * 32))"
  unfolding v5_pad_tile_def entries_32
  by (simp add: upt_conv_Cons length_pad_entry)

text \<open>The ARX rounds lose nothing: for one pad seed two entries are equal only at the same index,
  and the tiles of a pad of at most \<open>2^59\<close> tiles are pairwise distinct, as are the snippets at their head.
  No pad tile can be served from another.\<close>

theorem pad_tiles_distinct:
  assumes "t < 2 ^ 59" and "u < 2 ^ 59"
  shows "(v5_pad_entry pad_seed i = v5_pad_entry pad_seed j \<longleftrightarrow> i = j) \<and>
    (v5_pad_tile pad_seed t = v5_pad_tile pad_seed u \<longleftrightarrow> t = u) \<and>
    (take POM_V4_SNIPPET_BYTES (v5_pad_tile pad_seed t) = take POM_V4_SNIPPET_BYTES (v5_pad_tile pad_seed u) \<longleftrightarrow> t = u)"
proof -
  have "t = u" if "take 32 (v5_pad_tile pad_seed t) = take 32 (v5_pad_tile pad_seed u)"
  proof -
    have "(word_of_nat (t * 32) :: u64) = word_of_nat (u * 32)"
      using that pad_entry_into_inj by (simp only: pad_tile_first)
    then have "unat (word_of_nat (t * 32) :: u64) = unat (word_of_nat (u * 32) :: u64)" by (rule arg_cong)
    moreover have "t * 32 < 2 ^ 64" "u * 32 < 2 ^ 64" using assms by simp_all
    ultimately show ?thesis by (simp only: unat_word_of_nat_u64)
  qed
  then show ?thesis
    by (auto simp: v5_pad_entry_def pad_entry_into_inj POM_V4_SNIPPET_BYTES_def)
qed

theorem pad_tiles_distinct_witness:
  "v5_pad_tile (replicate 32 9) 3 \<noteq> v5_pad_tile (replicate 32 9) 4"
  using pad_tiles_distinct [of 3 4 "replicate 32 9"] by simp

section \<open>The walk as a specification\<close>

definition v5_tile :: "bytes list \<Rightarrow> hash \<Rightarrow> nat \<Rightarrow> bytes" where
  "v5_tile cs pad_seed off =
     (let wt = length cs div 32 in if off < wt then model_tile cs off else v5_pad_tile pad_seed (off - wt))"

primrec v5_spec :: "u64 \<Rightarrow> bytes list \<Rightarrow> hash \<Rightarrow> nat \<Rightarrow> nat \<Rightarrow> bytes \<Rightarrow> nat \<Rightarrow> bytes" where
  "v5_spec seed cs pad_seed pt 0 state off = state"
| "v5_spec seed cs pad_seed pt (Suc left) state off =
     (let step = POM_V4_K - left; tile = v5_tile cs pad_seed off; wt = length cs div 32
      in v5_spec seed cs pad_seed pt left (v4_transition state tile step)
           (v5_next_offset seed step (take POM_V4_SNIPPET_BYTES tile) (v5_state_fold state) wt pt (v5_pad_steps wt pt)))"

definition v5_final :: "(bytes \<Rightarrow> hash) \<Rightarrow> u64 \<Rightarrow> bytes list \<Rightarrow> hash \<Rightarrow> nat \<Rightarrow> u64" where
  "v5_final blake3 seed cs pad_seed pt =
     fold64 (v4_state_root blake3
       (v5_spec seed cs pad_seed pt POM_V4_K (v4_initial_state seed) (v5_first_offset seed (length cs div 32))))"

text \<open>One iteration of the loop, on a fetch that returns.\<close>

definition v5_off' :: "u64 \<Rightarrow> bytes list \<Rightarrow> hash \<Rightarrow> nat \<Rightarrow> nat \<Rightarrow> bytes \<Rightarrow> nat \<Rightarrow> nat" where
  "v5_off' seed cs pad_seed pt step state off =
     (let wt = length cs div 32
      in if step < POM_V4_K
         then v5_next_offset seed step (take POM_V4_SNIPPET_BYTES (v5_tile cs pad_seed off)) (v5_state_fold state)
                wt pt (v5_pad_steps wt pt)
         else off)"

lemma v5_spec_step:
  assumes "step \<le> POM_V4_K"
  shows "v5_spec seed cs pad_seed pt (Suc POM_V4_K - step) state off =
    v5_spec seed cs pad_seed pt (POM_V4_K - step) (v4_transition state (v5_tile cs pad_seed off) step)
      (v5_off' seed cs pad_seed pt step state off)"
proof -
  have "Suc POM_V4_K - step = Suc (POM_V4_K - step)" and "POM_V4_K - (POM_V4_K - step) = step"
    using assms by auto
  then show ?thesis by (simp add: Let_def v5_off'_def)
qed

lemma walk_v5_loop_step:
  assumes "step \<le> POM_V4_K" and "fetch (step - 1) off s = Some (Inr (t, s'))"
    and "(case t of Some t \<Rightarrow> t | None \<Rightarrow> v5_pad_tile pad_seed (off - length cs div 32)) = v5_tile cs pad_seed off"
  shows "walk_v5_loop seed (length cs div 32) pt (v5_pad_steps (length cs div 32) pt) pad_seed fetch step state off s =
    walk_v5_loop seed (length cs div 32) pt (v5_pad_steps (length cs div 32) pt) pad_seed fetch (step + 1)
      (v4_transition state (v5_tile cs pad_seed off) step) (v5_off' seed cs pad_seed pt step state off) s'"
  using assms by (subst walk_v5_loop.simps) (simp add: Let_def v5_off'_def)

text \<open>Along the walk the offset of a step lies in the model exactly when the step is no pad step.\<close>

definition v5_off_ok :: "nat \<Rightarrow> nat \<Rightarrow> nat \<Rightarrow> nat \<Rightarrow> bool" where
  "v5_off_ok wt pt step off \<longleftrightarrow>
     (if v5_is_pad_step step (v5_pad_steps wt pt) then wt \<le> off \<and> off < wt + pt else off < wt)"

lemma v5_next_offset_ok:
  "0 < wt \<Longrightarrow> 0 < pt \<Longrightarrow> v5_off_ok wt pt (step + 1) (v5_next_offset seed step snip f wt pt (v5_pad_steps wt pt))"
  by (simp add: v5_off_ok_def v5_next_offset_def Let_def)

lemma v5_first_offset_ok: "0 < wt \<Longrightarrow> v5_off_ok wt pt 1 (v5_first_offset seed wt)"
  using first_not_pad [of "v5_pad_steps wt pt"] pad_steps_range [of wt pt]
  by (simp add: v5_off_ok_def v5_first_offset_def v4_offset_less POM_V4_K_def)

text \<open>The offsets of the v5 walk: a pad step addresses a tile of the pad and every other step a tile
  of the model; the walk never reads outside the tile space.\<close>

theorem v5_offsets_in_range:
  assumes "0 < wt" and "0 < pt"
  shows "v5_off_ok wt pt 1 (v5_first_offset seed wt) \<and>
    v5_off_ok wt pt (step + 1) (v5_next_offset seed step snip f wt pt (v5_pad_steps wt pt)) \<and>
    v5_next_offset seed step snip f wt pt (v5_pad_steps wt pt) < wt + pt"
  using v5_first_offset_ok [OF assms(1)] v5_next_offset_ok [OF assms, of step seed snip f]
  by (auto simp: v5_off_ok_def split: if_splits)

theorem v5_offsets_in_range_witness:
  "v5_next_offset 77 5 (replicate 32 1) 3 64 61 (v5_pad_steps 64 61) < 64 + 61"
  using v5_offsets_in_range [of 64 61 77 5 "replicate 32 1" 3] by simp

section \<open>Prover and verifier\<close>

text \<open>One step of the prover appends what the same step of the verifier accepts.\<close>

lemma fetch_build_verify:
  assumes ok: "sparse_ok blake3 idx"
  defines "cs \<equiv> sparse_chunks idx" and "wt \<equiv> wi_n_chunks idx div 32"
  shows "\<exists>t rp ot. fetch_build blake3 idx wt i off proof =
      Some (Inr (ot, proof\<lparr>v4_tiles := v4_tiles proof @ [t], v4_merkle := v4_merkle proof @ [rp]\<rparr>)) \<and>
    (case ot of Some t \<Rightarrow> t | None \<Rightarrow> v5_pad_tile pad_seed (off - length cs div 32)) = v5_tile cs pad_seed off \<and>
    fetch_final idx wt i off () = Some (Inr (ot, ())) \<and>
    (\<forall>p. v4_tiles p ! i = t \<longrightarrow> v4_merkle p ! i = rp \<longrightarrow>
       fetch_verify blake3 p (wi_r_t idx) wt i off () = Some (Inr (ot, ())))"
proof -
  note laws = sparse_laws [OF ok, folded cs_def]
  have wt: "wt = length cs div 32" by (simp add: wt_def laws(1))
  show ?thesis
  proof (cases "off < wt")
    case True
    then have o: "off < wi_n_chunks idx div 32" by (simp add: wt_def)
    note rd = read_tile_opens [OF ok o, folded cs_def]
    obtain leaf_path path where path: "merkle_path blake3 idx (off * POM_V4_TILE_CHUNKS) = Some leaf_path"
      "slice_from POM_V4_TILE_SUBTREE_DEPTH leaf_path = Some path"
      "verify_merkle blake3 (v4_tile_subtree_root blake3 (model_tile cs off)) off path (wi_r_t idx)" using rd(2) by blast
    have len: "length (model_tile cs off) = POM_V4_TILE_BYTES"
      using laws(2) True wt by (intro model_tile_chunks(1)) auto
    show ?thesis
      using True rd(1) path len
      by (intro exI [of _ "model_tile cs off"] exI [of _ "\<lparr>rp_path = path\<rparr>"] exI [of _ "Some (model_tile cs off)"])
        (simp add: fetch_build_def fetch_final_def fetch_verify_def v5_tile_def Let_def flip: wt)
  next
    case False
    then show ?thesis
      by (intro exI [of _ "[]"] exI [of _ "\<lparr>rp_path = []\<rparr>"] exI [of _ None])
        (simp add: fetch_build_def fetch_final_def fetch_verify_def v5_tile_def Let_def flip: wt)
  qed
qed

lemma build_v5_loop_ok:
  assumes ok: "sparse_ok blake3 idx"
  defines "cs \<equiv> sparse_chunks idx" and "wt \<equiv> wi_n_chunks idx div 32"
  shows "1 \<le> step \<Longrightarrow> step \<le> Suc POM_V4_K \<Longrightarrow> length (v4_tiles proof) = step - 1 \<Longrightarrow> length (v4_merkle proof) = step - 1 \<Longrightarrow>
    \<exists>ts ms.
    walk_v5_loop seed wt pt (v5_pad_steps wt pt) pad_seed (fetch_build blake3 idx wt) step state off proof =
      Some (Inr (v5_spec seed cs pad_seed pt (Suc POM_V4_K - step) state off,
        proof\<lparr>v4_tiles := v4_tiles proof @ ts, v4_merkle := v4_merkle proof @ ms\<rparr>)) \<and>
    length ts = Suc POM_V4_K - step \<and> length ms = Suc POM_V4_K - step \<and>
    walk_v5_loop seed wt pt (v5_pad_steps wt pt) pad_seed (fetch_final idx wt) step state off () =
      Some (Inr (v5_spec seed cs pad_seed pt (Suc POM_V4_K - step) state off, ())) \<and>
    (\<forall>p. (\<forall>i < length ts. v4_tiles p ! (step - 1 + i) = ts ! i \<and> v4_merkle p ! (step - 1 + i) = ms ! i) \<longrightarrow>
      walk_v5_loop seed wt pt (v5_pad_steps wt pt) pad_seed (fetch_verify blake3 p (wi_r_t idx) wt) step state off () =
        Some (Inr (v5_spec seed cs pad_seed pt (Suc POM_V4_K - step) state off, ())))"
proof (induction "Suc POM_V4_K - step" arbitrary: step state off "proof")
  case 0
  then have "step = Suc POM_V4_K" by simp
  then show ?case by (simp add: walk_v5_loop.simps)
next
  case (Suc left)
  have le: "step \<le> POM_V4_K" and left: "left = Suc POM_V4_K - (step + 1)" using Suc(2) by linarith+
  have wt: "wt = length cs div 32" using sparse_laws(1) [OF ok] by (simp add: wt_def cs_def)
  define st' where "st' = v4_transition state (v5_tile cs pad_seed off) step"
  define off' where "off' = v5_off' seed cs pad_seed pt step state off"
  obtain t rp ot where f: "fetch_build blake3 idx wt (step - 1) off proof =
      Some (Inr (ot, proof\<lparr>v4_tiles := v4_tiles proof @ [t], v4_merkle := v4_merkle proof @ [rp]\<rparr>))"
    "(case ot of Some t \<Rightarrow> t | None \<Rightarrow> v5_pad_tile pad_seed (off - length cs div 32)) = v5_tile cs pad_seed off"
    "fetch_final idx wt (step - 1) off () = Some (Inr (ot, ()))"
    "\<And>p. v4_tiles p ! (step - 1) = t \<Longrightarrow> v4_merkle p ! (step - 1) = rp \<Longrightarrow>
       fetch_verify blake3 p (wi_r_t idx) wt (step - 1) off () = Some (Inr (ot, ()))"
    using fetch_build_verify [OF ok, of "step - 1" off "proof" pad_seed, folded cs_def wt_def] by blast
  define proof' where "proof' = proof\<lparr>v4_tiles := v4_tiles proof @ [t], v4_merkle := v4_merkle proof @ [rp]\<rparr>"
  have sh: "1 \<le> step + 1" "step + 1 \<le> Suc POM_V4_K" "length (v4_tiles proof') = step + 1 - 1" "length (v4_merkle proof') = step + 1 - 1"
    using Suc.prems le by (simp_all add: proof'_def)
  obtain ts ms where ih:
    "walk_v5_loop seed wt pt (v5_pad_steps wt pt) pad_seed (fetch_build blake3 idx wt) (step + 1) st' off' proof' =
      Some (Inr (v5_spec seed cs pad_seed pt (Suc POM_V4_K - (step + 1)) st' off',
        proof'\<lparr>v4_tiles := v4_tiles proof' @ ts, v4_merkle := v4_merkle proof' @ ms\<rparr>))"
    "length ts = Suc POM_V4_K - (step + 1)" "length ms = Suc POM_V4_K - (step + 1)"
    "walk_v5_loop seed wt pt (v5_pad_steps wt pt) pad_seed (fetch_final idx wt) (step + 1) st' off' () =
      Some (Inr (v5_spec seed cs pad_seed pt (Suc POM_V4_K - (step + 1)) st' off', ()))"
    "\<And>p. (\<forall>i < length ts. v4_tiles p ! (step + 1 - 1 + i) = ts ! i \<and> v4_merkle p ! (step + 1 - 1 + i) = ms ! i) \<Longrightarrow>
      walk_v5_loop seed wt pt (v5_pad_steps wt pt) pad_seed (fetch_verify blake3 p (wi_r_t idx) wt) (step + 1) st' off' () =
        Some (Inr (v5_spec seed cs pad_seed pt (Suc POM_V4_K - (step + 1)) st' off', ()))"
    using Suc.hyps(1) [OF left sh] by blast
  have spec: "v5_spec seed cs pad_seed pt (Suc POM_V4_K - step) state off =
      v5_spec seed cs pad_seed pt (Suc POM_V4_K - (step + 1)) st' off'"
    using v5_spec_step [OF le] by (simp add: st'_def off'_def)
  have fold: "v4_transition state (v5_tile cs pad_seed off) step = st'" "v5_off' seed cs pad_seed pt step state off = off'"
    by (simp_all add: st'_def off'_def)
  note stp_build = walk_v5_loop_step [where fetch = "fetch_build blake3 idx wt" and state = state and seed = seed and pt = pt,
      OF le f(1) f(2), folded wt proof'_def, unfolded fold]
  note stp_final = walk_v5_loop_step [where fetch = "fetch_final idx wt" and state = state and seed = seed and pt = pt,
      OF le f(3) f(2), folded wt, unfolded fold]
  have ver: "walk_v5_loop seed wt pt (v5_pad_steps wt pt) pad_seed (fetch_verify blake3 p (wi_r_t idx) wt) step state off () =
        Some (Inr (v5_spec seed cs pad_seed pt (Suc POM_V4_K - step) state off, ()))"
    if p: "\<forall>i < length (t # ts). v4_tiles p ! (step - 1 + i) = (t # ts) ! i \<and> v4_merkle p ! (step - 1 + i) = (rp # ms) ! i" for p
  proof -
    have hd: "v4_tiles p ! (step - 1) = t" "v4_merkle p ! (step - 1) = rp" using p [rule_format, of 0] by simp_all
    have "v4_tiles p ! (step + 1 - 1 + i) = ts ! i \<and> v4_merkle p ! (step + 1 - 1 + i) = ms ! i" if "i < length ts" for i
    proof -
      have "step - 1 + Suc i = step + 1 - 1 + i" using Suc.prems(1) by simp
      with p [rule_format, of "Suc i"] that show ?thesis by simp
    qed
    then have "walk_v5_loop seed wt pt (v5_pad_steps wt pt) pad_seed (fetch_verify blake3 p (wi_r_t idx) wt) (step + 1) st' off' () =
        Some (Inr (v5_spec seed cs pad_seed pt (Suc POM_V4_K - (step + 1)) st' off', ()))" by (intro ih(5)) blast
    then show ?thesis
      unfolding spec walk_v5_loop_step [where fetch = "fetch_verify blake3 p (wi_r_t idx) wt" and s = "()" and s' = "()" and
        state = state and seed = seed and pt = pt, OF le f(4) [OF hd] f(2), folded wt, unfolded fold] .
  qed
  show ?case
    unfolding stp_build stp_final ih(1) ih(4) spec
    using ih(2,3) Suc(2) left ver
    by (intro exI [of _ "t # ts"] exI [of _ "rp # ms"]) (simp add: proof'_def spec)
qed

section \<open>Properties\<close>

lemma v5_provers_agree:
  assumes ok: "sparse_ok blake3 idx" and nt: "0 < wi_n_chunks idx div POM_V4_TILE_CHUNKS" and pt: "0 < pad_tiles"
  shows "\<exists>p. build_proof_v5 blake3 tier seed idx pad_seed pad_tiles =
      Some (Inr (p, v5_final blake3 seed (sparse_chunks idx) pad_seed pad_tiles)) \<and>
    v4_tier p = tier \<and>
    verify_proof_v5 blake3 seed p (wi_r_t idx) (wi_n_chunks idx) pad_seed pad_tiles =
      Some (Inr (v5_final blake3 seed (sparse_chunks idx) pad_seed pad_tiles)) \<and>
    walk_final_v5 blake3 seed idx pad_seed pad_tiles =
      Some (Inr (v5_final blake3 seed (sparse_chunks idx) pad_seed pad_tiles))"
proof -
  let ?n = "wi_n_chunks idx div 32" and ?p = "\<lparr>v4_tier = tier, v4_tiles = [], v4_merkle = []\<rparr>"
  have n: "0 < ?n" "?n = length (sparse_chunks idx) div 32"
    using nt sparse_laws(1) [OF ok] by (simp_all add: tile_chunks_32)
  define final where "final = v5_spec seed (sparse_chunks idx) pad_seed pad_tiles POM_V4_K (v4_initial_state seed) (v5_first_offset seed ?n)"
  have k: "Suc POM_V4_K - 1 = POM_V4_K" by simp
  obtain ts ms where
    b: "walk_v5_loop seed ?n pad_tiles (v5_pad_steps ?n pad_tiles) pad_seed (fetch_build blake3 idx ?n) 1
        (v4_initial_state seed) (v5_first_offset seed ?n) ?p = Some (Inr (final, ?p\<lparr>v4_tiles := ts, v4_merkle := ms\<rparr>))"
      "length ts = POM_V4_K" "length ms = POM_V4_K"
      "walk_v5_loop seed ?n pad_tiles (v5_pad_steps ?n pad_tiles) pad_seed (fetch_final idx ?n) 1
        (v4_initial_state seed) (v5_first_offset seed ?n) () = Some (Inr (final, ()))"
      "walk_v5_loop seed ?n pad_tiles (v5_pad_steps ?n pad_tiles) pad_seed
        (fetch_verify blake3 (?p\<lparr>v4_tiles := ts, v4_merkle := ms\<rparr>) (wi_r_t idx) ?n) 1
        (v4_initial_state seed) (v5_first_offset seed ?n) () = Some (Inr (final, ()))"
    using build_v5_loop_ok [OF ok, of 1 ?p seed pad_tiles pad_seed "v4_initial_state seed" "v5_first_offset seed ?n"]
    unfolding k final_def by auto
  have "fold64 (v4_state_root blake3 final) = v5_final blake3 seed (sparse_chunks idx) pad_seed pad_tiles"
    by (simp add: v5_final_def final_def n(2))
  then show ?thesis
    using n(1) pt b by (simp add: build_proof_v5_def verify_proof_v5_def walk_final_v5_def walk_def tile_chunks_32 Let_def)
qed

text \<open>C4: over the on-disk index the v5 prover, its cheap pre-check and the verifier all derive the final
  state of the walk over the model's chunks and the generated pad; the proof that the prover builds
  is accepted, and no read fails. The pad tiles are not in the proof: the verifier generates them.\<close>

theorem v5_build_verifies:
  assumes ok: "sparse_ok blake3 idx" and nt: "0 < wi_n_chunks idx div POM_V4_TILE_CHUNKS" and pt: "0 < pad_tiles"
  shows "\<exists>p. build_proof_v5 blake3 tier seed idx pad_seed pad_tiles =
      Some (Inr (p, v5_final blake3 seed (sparse_chunks idx) pad_seed pad_tiles)) \<and>
    v4_tier p = tier \<and>
    verify_proof_v5 blake3 seed p (wi_r_t idx) (wi_n_chunks idx) pad_seed pad_tiles =
      Some (Inr (v5_final blake3 seed (sparse_chunks idx) pad_seed pad_tiles)) \<and>
    walk_final_v5 blake3 seed idx pad_seed pad_tiles =
      Some (Inr (v5_final blake3 seed (sparse_chunks idx) pad_seed pad_tiles))"
  by (rule v5_provers_agree [OF assms])

theorem v5_build_verifies_witness:
  "\<exists>idx p f. build_from_gguf toy_hash (replicate 3 1 @ replicate (64 * 32 + 5) 7) (toy_model 64) = Some idx \<and>
    build_proof_v5 toy_hash 1 77 idx (replicate 32 3) 61 = Some (Inr (p, f)) \<and>
    verify_proof_v5 toy_hash 77 p (wi_r_t idx) (wi_n_chunks idx) (replicate 32 3) 61 = Some (Inr f)"
proof -
  obtain idx where idx: "build_from_gguf toy_hash (replicate 3 1 @ replicate (64 * 32 + 5) 7) (toy_model 64) = Some idx"
    and ok: "sparse_ok toy_hash idx" and n: "wi_n_chunks idx = 64"
    by (rule toy_model_index [of 64]) simp
  have "0 < wi_n_chunks idx div POM_V4_TILE_CHUNKS" by (simp add: n tile_chunks_32)
  from v5_build_verifies [OF ok this, of 61 1 77 "replicate 32 3"] idx show ?thesis by auto
qed

text \<open>The strings the v5 verifier may hash for the tiles of a proof.\<close>

definition v5_inputs :: "(bytes \<Rightarrow> hash) \<Rightarrow> nat \<Rightarrow> PomProofV4 \<Rightarrow> bytes set" where
  "v5_inputs blake3 wt p = (\<Union>i \<in> {i. i < POM_V4_K \<and> v4_tiles p ! i \<noteq> []}. \<Union>off < wt.
     tile_inputs blake3 (v4_tiles p ! i) off (rp_path (v4_merkle p ! i)))"

lemma fetch_verify_sound:
  assumes dig: "digest32 blake3" and c32: "\<forall>c \<in> set cs. length c = 32"
    and root: "root_loop blake3 (map (blake blake3) cs) = r_t"
    and p32: "\<forall>rp \<in> set (v4_merkle p). \<forall>h \<in> set (rp_path rp). length h = 32"
    and inj: "inj_on blake3 (v5_inputs blake3 (length cs div 32) p \<union> tree_inputs blake3 (map (blake blake3) cs) \<union> set cs)"
    and len: "length (v4_merkle p) = POM_V4_K" and i: "i < POM_V4_K"
    and f: "fetch_verify blake3 p r_t (length cs div 32) i off () = Some (Inr (t, ()))"
  shows "(case t of Some t \<Rightarrow> t | None \<Rightarrow> v5_pad_tile pad_seed (off - length cs div 32)) = v5_tile cs pad_seed off"
proof (cases "off < length cs div 32")
  case True
  let ?t = "v4_tiles p ! i" and ?path = "rp_path (v4_merkle p ! i)"
  have a: "length ?t = POM_V4_TILE_BYTES" "t = Some ?t"
    "climb blake3 (v4_tile_subtree_root blake3 ?t) off ?path = root_loop blake3 (map (blake blake3) cs)"
    using f True root by (auto simp: fetch_verify_def verify_merkle_def Let_def split: if_splits)
  then have "?t \<noteq> []" by (auto simp: v4_consts)
  then have "tile_inputs blake3 ?t off ?path \<subseteq> v5_inputs blake3 (length cs div 32) p"
    using i True by (auto simp: v5_inputs_def)
  then have inj': "inj_on blake3 (tile_inputs blake3 ?t off ?path \<union> tree_inputs blake3 (map (blake blake3) cs) \<union> set cs)"
    by (intro inj_on_subset [OF inj]) auto
  have "v4_merkle p ! i \<in> set (v4_merkle p)" using i len by simp
  then have "?t = model_tile cs off"
    using p32 by (intro tile_sound [OF inj' dig _ c32 True a(1,3)]) blast
  with a(2) True show ?thesis by (simp add: v5_tile_def)
next
  case False
  then show ?thesis using f by (auto simp: fetch_verify_def v5_tile_def Let_def split: if_splits)
qed

lemma verify_v5_loop_sound:
  assumes fetched: "\<And>i off t. i < POM_V4_K \<Longrightarrow> fetch i off () = Some (Inr (t, ())) \<Longrightarrow>
      (case t of Some t \<Rightarrow> t | None \<Rightarrow> v5_pad_tile pad_seed (off - length cs div 32)) = v5_tile cs pad_seed off"
  shows "walk_v5_loop seed (length cs div 32) pt (v5_pad_steps (length cs div 32) pt) pad_seed fetch step state off () =
      Some (Inr (final, ())) \<Longrightarrow> 1 \<le> step \<Longrightarrow> final = v5_spec seed cs pad_seed pt (Suc POM_V4_K - step) state off"
proof (induction "Suc POM_V4_K - step" arbitrary: step state off)
  case 0
  then show ?case by (subst (asm) walk_v5_loop.simps) simp
next
  case (Suc left)
  have le: "step \<le> POM_V4_K" and left: "left = Suc POM_V4_K - (step + 1)" using Suc(2) by linarith+
  have "fetch (step - 1) off () \<noteq> None \<and> (\<forall>e. fetch (step - 1) off () \<noteq> Some (Inl e))"
    using Suc.prems(1) le by (subst (asm) walk_v5_loop.simps) (auto split: option.splits sum.splits)
  then obtain t where t: "fetch (step - 1) off () = Some (Inr (t, ()))"
    by (cases "fetch (step - 1) off ()" rule: option.exhaust; cases "the (fetch (step - 1) off ())") auto
  have "step - 1 < POM_V4_K" using le Suc.prems(2) by linarith
  note ft = fetched [OF this t]
  have "final = v5_spec seed cs pad_seed pt (Suc POM_V4_K - (step + 1)) (v4_transition state (v5_tile cs pad_seed off) step)
      (v5_off' seed cs pad_seed pt step state off)"
    using Suc.prems(1) by (intro Suc.hyps(1) [OF left]) (simp_all add: walk_v5_loop_step [where fetch = fetch, OF le t ft])
  then show ?case using v5_spec_step [OF le] by simp
qed

lemma walk_mapped:
  assumes "map_option (map_sum id fst) (map_option (map_sum id (\<lambda>(st, s). (g st, s))) x) = Some (Inr f)"
  shows "\<exists>st. x = Some (Inr (st, ())) \<and> f = g st"
proof -
  obtain r where r: "x = Some r" "map_sum id fst (map_sum id (\<lambda>(st, s). (g st, s)) r) = Inr f" using assms by auto
  then obtain z where "r = Inr z" by (cases r) auto
  with r show ?thesis by (cases z) auto
qed

text \<open>C3: the v5 verifier is sound: where the strings hashed by it and by the builder of the tree do not
  collide, the final state that it derives from an accepted proof is that of the walk over the
  model's chunks and the generated pad.\<close>

theorem v5_verify_sound:
  assumes "verify_proof_v5 blake3 seed p r_t (length cs) pad_seed pad_tiles = Some (Inr f)"
    and "merkle_root blake3 (map (blake blake3) cs) = Some r_t" and "\<forall>c \<in> set cs. length c = 32"
    and "digest32 blake3" and "\<forall>rp \<in> set (v4_merkle p). \<forall>h \<in> set (rp_path rp). length h = 32"
    and "inj_on blake3 (v5_inputs blake3 (length cs div 32) p \<union> tree_inputs blake3 (map (blake blake3) cs) \<union> set cs)"
  shows "f = v5_final blake3 seed cs pad_seed pad_tiles"
proof -
  have root: "root_loop blake3 (map (blake blake3) cs) = r_t"
    using assms(2) by (auto simp: merkle_root_def split: if_splits)
  have len: "length (v4_merkle p) = POM_V4_K" using assms(1) by (auto simp: verify_proof_v5_def split: if_splits)
  obtain final where final: "walk_v5_loop seed (length cs div 32) pad_tiles (v5_pad_steps (length cs div 32) pad_tiles) pad_seed
      (fetch_verify blake3 p r_t (length cs div 32)) 1 (v4_initial_state seed) (v5_first_offset seed (length cs div 32)) () =
      Some (Inr (final, ()))" "f = fold64 (v4_state_root blake3 final)"
    using assms(1) walk_mapped [of "\<lambda>st. fold64 (v4_state_root blake3 st)"]
    by (auto simp: verify_proof_v5_def walk_def tile_chunks_32 Let_def simp del: map_option_eq_Some split: if_splits)
  have "final = v5_spec seed cs pad_seed pad_tiles (Suc POM_V4_K - 1) (v4_initial_state seed) (v5_first_offset seed (length cs div 32))"
    by (rule verify_v5_loop_sound [OF fetch_verify_sound [OF assms(4,3) root assms(5,6) len] final(1)]) simp_all
  with final(2) show ?thesis by (simp add: v5_final_def)
qed

definition flat_v5_proof :: "nat \<Rightarrow> PomProofV4" where
  "flat_v5_proof pt = \<lparr>v4_tier = 1,
     v4_tiles = map (\<lambda>i. if v5_is_pad_step (i + 1) (v5_pad_steps 1 pt) then [] else concat flat_model) [0..<POM_V4_K],
     v4_merkle = replicate POM_V4_K \<lparr>rp_path = []\<rparr>\<rparr>"

lemma flat_fetch:
  assumes "v5_off_ok 1 pt (i + 1) off" and "i < POM_V4_K"
  shows "\<exists>t. fetch_verify count_hash (flat_v5_proof pt) flat_root 1 i off () = Some (Inr (t, ()))"
proof -
  define tile where "tile = concat flat_model"
  have "length tile = POM_V4_TILE_BYTES"
    unfolding tile_def by (subst concat_length_uniform [of _ 32]) (auto simp: flat_model_def flat_chunk_def v4_consts)
  moreover have "v4_tile_subtree_root count_hash tile = flat_root"
    unfolding tile_def v4_tile_subtree_root_def POM_V4_CHUNK_BYTES_def flat_chunks flat_leaves flat_root_def
    by (rule tree_replicate(1))
  moreover have "v4_tiles (flat_v5_proof pt) ! i = (if v5_is_pad_step (i + 1) (v5_pad_steps 1 pt) then [] else tile)"
    "v4_merkle (flat_v5_proof pt) ! i = \<lparr>rp_path = []\<rparr>"
    using assms(2) by (simp_all add: flat_v5_proof_def tile_def)
  moreover have "0 < POM_V4_TILE_BYTES" by (simp add: v4_consts)
  ultimately show ?thesis
    using assms by (auto simp: fetch_verify_def v5_off_ok_def verify_merkle_def Let_def split: if_splits)
qed

lemma flat_v5_accepted:
  assumes "0 < pt"
  shows "1 \<le> step \<Longrightarrow> v5_off_ok 1 pt step off \<or> step = Suc POM_V4_K \<Longrightarrow>
    \<exists>st. walk_v5_loop seed 1 pt (v5_pad_steps 1 pt) pad_seed (fetch_verify count_hash (flat_v5_proof pt) flat_root 1) step state off () =
      Some (Inr (st, ()))"
proof (induction "Suc POM_V4_K - step" arbitrary: step state off)
  case 0
  then show ?case by (subst walk_v5_loop.simps) simp
next
  case (Suc left)
  have le: "step \<le> POM_V4_K" and left: "left = Suc POM_V4_K - (step + 1)" using Suc(2) by linarith+
  have "v5_off_ok 1 pt (step - 1 + 1) off" "step - 1 < POM_V4_K" using Suc.prems le by auto
  from flat_fetch [OF this] obtain t
    where t: "fetch_verify count_hash (flat_v5_proof pt) flat_root 1 (step - 1) off () = Some (Inr (t, ()))" by blast
  define tile where "tile = (case t of Some t \<Rightarrow> t | None \<Rightarrow> v5_pad_tile pad_seed (off - 1))"
  define off' where "off' = (if step < POM_V4_K
    then v5_next_offset seed step (take POM_V4_SNIPPET_BYTES tile) (v5_state_fold state) 1 pt (v5_pad_steps 1 pt) else off)"
  have "v5_off_ok 1 pt (step + 1) off' \<or> step + 1 = Suc POM_V4_K"
    using le v5_next_offset_ok [OF _ assms, of 1 step] by (auto simp: off'_def)
  then have "\<exists>st. walk_v5_loop seed 1 pt (v5_pad_steps 1 pt) pad_seed (fetch_verify count_hash (flat_v5_proof pt) flat_root 1) (step + 1)
      (v4_transition state tile step) off' () = Some (Inr (st, ()))"
    by (intro Suc.hyps(1) [OF left]) simp_all
  then show ?case using le t unfolding off'_def tile_def by (subst walk_v5_loop.simps) (simp add: Let_def split: if_splits)
qed

theorem v5_verify_sound_witness:
  "\<exists>f. verify_proof_v5 count_hash 77 (flat_v5_proof 3) flat_root (length flat_model) (replicate 32 3) 3 = Some (Inr f) \<and>
    f = v5_final count_hash 77 flat_model (replicate 32 3) 3"
proof -
  have n: "length flat_model = 32" "length flat_model div 32 = 1" by (simp_all add: flat_model_def)
  obtain st where "walk_v5_loop 77 1 3 (v5_pad_steps 1 3) (replicate 32 3) (fetch_verify count_hash (flat_v5_proof 3) flat_root 1) 1
      (v4_initial_state 77) (v5_first_offset 77 1) () = Some (Inr (st, ()))"
    using flat_v5_accepted [of 3 1 "v5_first_offset 77 1" 77 "replicate 32 3" "v4_initial_state 77"] v5_first_offset_ok [of 1 3 77] by auto
  then obtain f where f: "verify_proof_v5 count_hash 77 (flat_v5_proof 3) flat_root (length flat_model) (replicate 32 3) 3 = Some (Inr f)"
    by (simp add: verify_proof_v5_def walk_def n tile_chunks_32 Let_def flat_v5_proof_def)
  have root: "merkle_root count_hash (map (blake count_hash) flat_model) = Some flat_root"
    unfolding flat_leaves flat_root_def using tree_replicate(1) [of count_hash 5] by (simp add: merkle_root_def)
  have "v5_inputs count_hash 1 (flat_v5_proof 3) \<subseteq> insert flat_chunk
     {tower count_hash k (blake count_hash flat_chunk) @ tower count_hash k (blake count_hash flat_chunk) | k. k < 5}"
    unfolding v5_inputs_def using flat_tile_inputs by (force simp: flat_v5_proof_def split: if_splits)
  moreover have "tree_inputs count_hash (map (blake count_hash) flat_model) \<subseteq>
      {tower count_hash k (blake count_hash flat_chunk) @ tower count_hash k (blake count_hash flat_chunk) | k. k < 5}"
    unfolding flat_leaves by (rule tree_inputs_replicate)
  moreover have "set flat_model \<subseteq> {flat_chunk}" by (auto simp: flat_model_def)
  ultimately have inj: "inj_on count_hash (v5_inputs count_hash (length flat_model div 32) (flat_v5_proof 3) \<union>
      tree_inputs count_hash (map (blake count_hash) flat_model) \<union> set flat_model)"
    unfolding n(2) by (intro inj_on_subset [OF flat_inj]) blast
  have "f = v5_final count_hash 77 flat_model (replicate 32 3) 3"
    by (rule v5_verify_sound [OF f root _ digest32_count _ inj]) (auto simp: flat_model_def flat_chunk_def flat_v5_proof_def)
  with f show ?thesis by blast
qed

end
