(* ===== verification/Pom_Wire.thy ===== *)
theory Pom_Wire
  imports Pom_Proof
begin

text \<open>
  \<open>src/src/pom.rs\<close>, the wire encoding of a possession proof. A proof is encoded in the layout of its
  era: the fields that later eras appended are left out when they are absent, so that nodes of an
  earlier era still decode it; the decoder tries the layouts from the longest to the shortest.

  The serialiser is the crate \<open>borsh\<close>, a parameter: a record of one \<open>to_vec\<close> and one \<open>from_slice\<close> per
  layout. The locale \<open>borsh_layouts\<close> states what its format promises. The last section gives the
  documented format as concrete functions and shows that they keep the promise.
\<close>

section \<open>Definitions\<close>

record PomProofPreTask =
  pt_tier :: u8
  pt_trace_root :: hash
  pt_pow_value :: hash
  pt_final_state :: u64
  pt_initial_trace_path :: "hash list"
  pt_final_trace_path :: "hash list"
  pt_openings :: "PomOpening list"
  pt_steps_v2 :: "PomStep list option"
  pt_v3 :: "PomProofV3 option"
  pt_v4 :: "PomProofV4 option"

record PomProofPreV4 =
  p4_tier :: u8
  p4_trace_root :: hash
  p4_pow_value :: hash
  p4_final_state :: u64
  p4_initial_trace_path :: "hash list"
  p4_final_trace_path :: "hash list"
  p4_openings :: "PomOpening list"
  p4_steps_v2 :: "PomStep list option"
  p4_v3 :: "PomProofV3 option"

record PomProofPreV3 =
  p3_tier :: u8
  p3_trace_root :: hash
  p3_pow_value :: hash
  p3_final_state :: u64
  p3_initial_trace_path :: "hash list"
  p3_final_trace_path :: "hash list"
  p3_openings :: "PomOpening list"
  p3_steps_v2 :: "PomStep list option"

record PomProofPreH4 =
  ph_tier :: u8
  ph_trace_root :: hash
  ph_pow_value :: hash
  ph_final_state :: u64
  ph_initial_trace_path :: "hash list"
  ph_final_trace_path :: "hash list"
  ph_openings :: "PomOpening list"

text \<open>The layouts that \<open>to_wire_bytes\<close> fills, and the conversions \<open>PomProof::from\<close> back.\<close>

definition pre_task :: "PomProof \<Rightarrow> PomProofPreTask" where
    "pre_task p = \<lparr>pt_tier = pp_tier p, pt_trace_root = pp_trace_root p, pt_pow_value = pp_pow_value p,
     pt_final_state = pp_final_state p, pt_initial_trace_path = pp_initial_trace_path p, pt_final_trace_path =
     pp_final_trace_path p, pt_openings = pp_openings p, pt_steps_v2 = pp_steps_v2 p, pt_v3 = pp_v3 p, pt_v4 = pp_v4
     p\<rparr>"

definition pre_v4 :: "PomProof \<Rightarrow> PomProofPreV4" where
    "pre_v4 p = \<lparr>p4_tier = pp_tier p, p4_trace_root = pp_trace_root p, p4_pow_value = pp_pow_value p,
     p4_final_state = pp_final_state p, p4_initial_trace_path = pp_initial_trace_path p, p4_final_trace_path =
     pp_final_trace_path p, p4_openings = pp_openings p, p4_steps_v2 = pp_steps_v2 p, p4_v3 = pp_v3 p\<rparr>"

definition pre_v3 :: "PomProof \<Rightarrow> PomProofPreV3" where
    "pre_v3 p = \<lparr>p3_tier = pp_tier p, p3_trace_root = pp_trace_root p, p3_pow_value = pp_pow_value p,
     p3_final_state = pp_final_state p, p3_initial_trace_path = pp_initial_trace_path p, p3_final_trace_path =
     pp_final_trace_path p, p3_openings = pp_openings p, p3_steps_v2 = pp_steps_v2 p\<rparr>"

definition pre_h4 :: "PomProof \<Rightarrow> PomProofPreH4" where
    "pre_h4 p = \<lparr>ph_tier = pp_tier p, ph_trace_root = pp_trace_root p, ph_pow_value = pp_pow_value p,
     ph_final_state = pp_final_state p, ph_initial_trace_path = pp_initial_trace_path p, ph_final_trace_path =
     pp_final_trace_path p, ph_openings = pp_openings p\<rparr>"

definition from_pre_task :: "PomProofPreTask \<Rightarrow> PomProof" where
    "from_pre_task p = \<lparr>pp_tier = pt_tier p, pp_trace_root = pt_trace_root p, pp_pow_value = pt_pow_value p,
     pp_final_state = pt_final_state p, pp_initial_trace_path = pt_initial_trace_path p, pp_final_trace_path =
     pt_final_trace_path p, pp_openings = pt_openings p, pp_steps_v2 = pt_steps_v2 p, pp_v3 = pt_v3 p, pp_v4 = pt_v4 p,
     pp_task = None\<rparr>"

definition from_pre_v4 :: "PomProofPreV4 \<Rightarrow> PomProof" where
    "from_pre_v4 p = \<lparr>pp_tier = p4_tier p, pp_trace_root = p4_trace_root p, pp_pow_value = p4_pow_value p,
     pp_final_state = p4_final_state p, pp_initial_trace_path = p4_initial_trace_path p, pp_final_trace_path =
     p4_final_trace_path p, pp_openings = p4_openings p, pp_steps_v2 = p4_steps_v2 p, pp_v3 = p4_v3 p, pp_v4 = None,
     pp_task = None\<rparr>"

definition from_pre_v3 :: "PomProofPreV3 \<Rightarrow> PomProof" where
    "from_pre_v3 p = \<lparr>pp_tier = p3_tier p, pp_trace_root = p3_trace_root p, pp_pow_value = p3_pow_value p,
     pp_final_state = p3_final_state p, pp_initial_trace_path = p3_initial_trace_path p, pp_final_trace_path =
     p3_final_trace_path p, pp_openings = p3_openings p, pp_steps_v2 = p3_steps_v2 p, pp_v3 = None, pp_v4 = None,
     pp_task = None\<rparr>"

definition from_pre_h4 :: "PomProofPreH4 \<Rightarrow> PomProof" where
    "from_pre_h4 p = \<lparr>pp_tier = ph_tier p, pp_trace_root = ph_trace_root p, pp_pow_value = ph_pow_value p,
     pp_final_state = ph_final_state p, pp_initial_trace_path = ph_initial_trace_path p, pp_final_trace_path =
     ph_final_trace_path p, pp_openings = ph_openings p, pp_steps_v2 = None, pp_v3 = None, pp_v4 = None, pp_task =
     None\<rparr>"

record Borsh =
  to_vec_proof :: "PomProof \<Rightarrow> bytes option"
  to_vec_pre_task :: "PomProofPreTask \<Rightarrow> bytes option"
  to_vec_pre_v4 :: "PomProofPreV4 \<Rightarrow> bytes option"
  to_vec_pre_v3 :: "PomProofPreV3 \<Rightarrow> bytes option"
  to_vec_pre_h4 :: "PomProofPreH4 \<Rightarrow> bytes option"
  slice_proof :: "bytes \<Rightarrow> PomProof option"
  slice_pre_task :: "bytes \<Rightarrow> PomProofPreTask option"
  slice_pre_v4 :: "bytes \<Rightarrow> PomProofPreV4 option"
  slice_pre_v3 :: "bytes \<Rightarrow> PomProofPreV3 option"
  slice_pre_h4 :: "bytes \<Rightarrow> PomProofPreH4 option"

text \<open>\<open>None\<close> is the panic of \<open>expect\<close>.\<close>

definition to_wire_bytes :: "Borsh \<Rightarrow> PomProof \<Rightarrow> bytes option" where
  "to_wire_bytes borsh self =
     (if pp_task self \<noteq> None then to_vec_proof borsh self
      else if pp_v4 self \<noteq> None then to_vec_pre_task borsh (pre_task self)
      else if pp_v3 self \<noteq> None then to_vec_pre_v4 borsh (pre_v4 self)
      else if pp_steps_v2 self \<noteq> None then to_vec_pre_v3 borsh (pre_v3 self)
      else to_vec_pre_h4 borsh (pre_h4 self))"

text \<open>\<open>Result::or_else\<close>\<close>

definition or_else :: "'a option \<Rightarrow> 'a option \<Rightarrow> 'a option" where
  "or_else x y = (case x of Some v \<Rightarrow> Some v | None \<Rightarrow> y)"

definition from_wire_bytes :: "Borsh \<Rightarrow> bytes \<Rightarrow> PomProof option" where
  "from_wire_bytes borsh bs =
     or_else (or_else (or_else (or_else (slice_proof borsh bs)
       (map_option from_pre_task (slice_pre_task borsh bs)))
       (map_option from_pre_v4 (slice_pre_v4 borsh bs)))
       (map_option from_pre_v3 (slice_pre_v3 borsh bs)))
       (map_option from_pre_h4 (slice_pre_h4 borsh bs))"

section \<open>What the format promises\<close>

definition encodings :: "('a \<Rightarrow> bytes option) \<Rightarrow> bytes set" where
  "encodings f = {bs. \<exists>x. f x = Some bs}"

definition extends :: "bytes set \<Rightarrow> bytes set \<Rightarrow> bool" where
  "extends A B \<longleftrightarrow> (\<forall>bs \<in> A. \<exists>a \<in> B. \<exists>t. bs = a @ t \<and> t \<noteq> [])"

definition prefix_free :: "bytes set \<Rightarrow> bool" where
  "prefix_free A \<longleftrightarrow> (\<forall>a \<in> A. \<forall>r. a @ r \<in> A \<longrightarrow> r = [])"

lemma extends_encodings:
  assumes "\<And>x bs. f x = Some bs \<Longrightarrow> \<exists>a t. g (h x) = Some a \<and> bs = a @ t \<and> t \<noteq> []"
  shows "extends (encodings f) (encodings g)"
  unfolding extends_def encodings_def
proof
  fix bs assume "bs \<in> {bs. \<exists>x. f x = Some bs}"
  then obtain x where "f x = Some bs" by blast
  then obtain a t where "g (h x) = Some a" "bs = a @ t" "t \<noteq> []" using assms by blast
  then show "\<exists>a \<in> {bs. \<exists>x. g x = Some bs}. \<exists>t. bs = a @ t \<and> t \<noteq> []" by blast
qed

lemma from_layouts:
  "pp_task p = None \<Longrightarrow> from_pre_task (pre_task p) = p"
  "pp_task p = None \<Longrightarrow> pp_v4 p = None \<Longrightarrow> from_pre_v4 (pre_v4 p) = p"
  "pp_task p = None \<Longrightarrow> pp_v4 p = None \<Longrightarrow> pp_v3 p = None \<Longrightarrow> from_pre_v3 (pre_v3 p) = p"
  "pp_task p = None \<Longrightarrow> pp_v4 p = None \<Longrightarrow> pp_v3 p = None \<Longrightarrow> pp_steps_v2 p = None \<Longrightarrow> from_pre_h4 (pre_h4 p) = p"
  by (simp_all add: from_pre_task_def pre_task_def from_pre_v4_def pre_v4_def from_pre_v3_def pre_v3_def from_pre_h4_def pre_h4_def)

text \<open>Strict decoding inverts encoding and consumes all bytes; a layout with one more field appends the
  field's bytes, at least its option tag; no encoding of a layout is a proper prefix of another.\<close>

locale borsh_layouts =
  fixes borsh :: Borsh
  assumes proof_law: "slice_proof borsh bs = Some p \<longleftrightarrow> to_vec_proof borsh p = Some bs"
    and task_law: "slice_pre_task borsh bs = Some pt \<longleftrightarrow> to_vec_pre_task borsh pt = Some bs"
    and v4_law: "slice_pre_v4 borsh bs = Some p4 \<longleftrightarrow> to_vec_pre_v4 borsh p4 = Some bs"
    and v3_law: "slice_pre_v3 borsh bs = Some p3 \<longleftrightarrow> to_vec_pre_v3 borsh p3 = Some bs"
    and h4_law: "slice_pre_h4 borsh bs = Some ph \<longleftrightarrow> to_vec_pre_h4 borsh ph = Some bs"
    and proof_appends: "to_vec_proof borsh p = Some bs \<Longrightarrow>
      \<exists>a t. to_vec_pre_task borsh (pre_task p) = Some a \<and> bs = a @ t \<and> t \<noteq> []"
    and task_appends: "to_vec_pre_task borsh pt = Some bs \<Longrightarrow>
      \<exists>a t. to_vec_pre_v4 borsh (pre_v4 (from_pre_task pt)) = Some a \<and> bs = a @ t \<and> t \<noteq> []"
    and v4_appends: "to_vec_pre_v4 borsh p4 = Some bs \<Longrightarrow>
      \<exists>a t. to_vec_pre_v3 borsh (pre_v3 (from_pre_v4 p4)) = Some a \<and> bs = a @ t \<and> t \<noteq> []"
    and v3_appends: "to_vec_pre_v3 borsh p3 = Some bs \<Longrightarrow>
      \<exists>a t. to_vec_pre_h4 borsh (pre_h4 (from_pre_v3 p3)) = Some a \<and> bs = a @ t \<and> t \<noteq> []"
    and task_delimits: "to_vec_pre_task borsh x = Some a \<Longrightarrow> to_vec_pre_task borsh y = Some (a @ r) \<Longrightarrow> r = []"
    and v4_delimits: "to_vec_pre_v4 borsh x4 = Some a \<Longrightarrow> to_vec_pre_v4 borsh y4 = Some (a @ r) \<Longrightarrow> r = []"
    and v3_delimits: "to_vec_pre_v3 borsh x3 = Some a \<Longrightarrow> to_vec_pre_v3 borsh y3 = Some (a @ r) \<Longrightarrow> r = []"
    and h4_delimits: "to_vec_pre_h4 borsh xh = Some a \<Longrightarrow> to_vec_pre_h4 borsh yh = Some (a @ r) \<Longrightarrow> r = []"
begin

text \<open>The encodings of a layout, and a layout whose encodings extend those of another one.\<close>

lemma extends_trans: "extends A B \<Longrightarrow> extends B C \<Longrightarrow> extends A C"
  unfolding extends_def by (metis append.assoc append_is_Nil_conv)

lemma chain_proof: "extends (encodings (to_vec_proof borsh)) (encodings (to_vec_pre_task borsh))"
  by (rule extends_encodings [where h = pre_task], rule proof_appends)

lemma chain_task: "extends (encodings (to_vec_pre_task borsh)) (encodings (to_vec_pre_v4 borsh))"
  by (rule extends_encodings [where h = "\<lambda>p. pre_v4 (from_pre_task p)"], rule task_appends)

lemma chain_v4: "extends (encodings (to_vec_pre_v4 borsh)) (encodings (to_vec_pre_v3 borsh))"
  by (rule extends_encodings [where h = "\<lambda>p. pre_v3 (from_pre_v4 p)"], rule v4_appends)

lemma chain_v3: "extends (encodings (to_vec_pre_v3 borsh)) (encodings (to_vec_pre_h4 borsh))"
  by (rule extends_encodings [where h = "\<lambda>p. pre_h4 (from_pre_v3 p)"], rule v3_appends)

lemmas chain = chain_proof chain_task chain_v4 chain_v3

lemma delimited:
  "prefix_free (encodings (to_vec_pre_task borsh))" "prefix_free (encodings (to_vec_pre_v4 borsh))"
  "prefix_free (encodings (to_vec_pre_v3 borsh))" "prefix_free (encodings (to_vec_pre_h4 borsh))"
  unfolding prefix_free_def encodings_def using task_delimits v4_delimits v3_delimits h4_delimits by blast+

lemma extends_rejects: "extends A B \<Longrightarrow> prefix_free B \<Longrightarrow> bs \<in> B \<Longrightarrow> bs \<notin> A"
  unfolding extends_def prefix_free_def by metis

lemma slice_None:
  "bs \<notin> encodings (to_vec_proof borsh) \<Longrightarrow> slice_proof borsh bs = None"
  "bs \<notin> encodings (to_vec_pre_task borsh) \<Longrightarrow> slice_pre_task borsh bs = None"
  "bs \<notin> encodings (to_vec_pre_v4 borsh) \<Longrightarrow> slice_pre_v4 borsh bs = None"
  "bs \<notin> encodings (to_vec_pre_v3 borsh) \<Longrightarrow> slice_pre_v3 borsh bs = None"
  unfolding encodings_def using proof_law task_law v4_law v3_law by fastforce+

text \<open>Each layout rejects the bytes of every shorter one.\<close>

lemma reject:
  "bs \<in> encodings (to_vec_pre_task borsh) \<Longrightarrow> slice_proof borsh bs = None"
  "bs \<in> encodings (to_vec_pre_v4 borsh) \<Longrightarrow> slice_proof borsh bs = None \<and> slice_pre_task borsh bs = None"
  "bs \<in> encodings (to_vec_pre_v3 borsh) \<Longrightarrow>
     slice_proof borsh bs = None \<and> slice_pre_task borsh bs = None \<and> slice_pre_v4 borsh bs = None"
  "bs \<in> encodings (to_vec_pre_h4 borsh) \<Longrightarrow>
     slice_proof borsh bs = None \<and> slice_pre_task borsh bs = None \<and> slice_pre_v4 borsh bs = None \<and>
     slice_pre_v3 borsh bs = None"
  using chain delimited by (meson extends_trans extends_rejects slice_None)+

lemma round_trip:
  assumes "to_wire_bytes borsh p = Some bs"
  shows "from_wire_bytes borsh bs = Some p"
proof -
  consider "pp_task p \<noteq> None" | "pp_task p = None" "pp_v4 p \<noteq> None"
    | "pp_task p = None" "pp_v4 p = None" "pp_v3 p \<noteq> None"
    | "pp_task p = None" "pp_v4 p = None" "pp_v3 p = None" "pp_steps_v2 p \<noteq> None"
    | "pp_task p = None" "pp_v4 p = None" "pp_v3 p = None" "pp_steps_v2 p = None" by blast
  then show ?thesis
  proof cases
    case 1
    then have "slice_proof borsh bs = Some p" using assms by (simp add: to_wire_bytes_def proof_law)
    then show ?thesis by (simp add: from_wire_bytes_def or_else_def)
  next
    case 2
    then have "to_vec_pre_task borsh (pre_task p) = Some bs" using assms by (simp add: to_wire_bytes_def)
    moreover from this have "bs \<in> encodings (to_vec_pre_task borsh)" by (auto simp: encodings_def)
    ultimately show ?thesis using 2 reject(1) by (simp add: from_wire_bytes_def or_else_def task_law [symmetric] from_layouts)
  next
    case 3
    then have "to_vec_pre_v4 borsh (pre_v4 p) = Some bs" using assms by (simp add: to_wire_bytes_def)
    moreover from this have "bs \<in> encodings (to_vec_pre_v4 borsh)" by (auto simp: encodings_def)
    ultimately show ?thesis using 3 reject(2) by (simp add: from_wire_bytes_def or_else_def v4_law [symmetric] from_layouts)
  next
    case 4
    then have "to_vec_pre_v3 borsh (pre_v3 p) = Some bs" using assms by (simp add: to_wire_bytes_def)
    moreover from this have "bs \<in> encodings (to_vec_pre_v3 borsh)" by (auto simp: encodings_def)
    ultimately show ?thesis using 4 reject(3) by (simp add: from_wire_bytes_def or_else_def v3_law [symmetric] from_layouts)
  next
    case 5
    then have "to_vec_pre_h4 borsh (pre_h4 p) = Some bs" using assms by (simp add: to_wire_bytes_def)
    moreover from this have "bs \<in> encodings (to_vec_pre_h4 borsh)" by (auto simp: encodings_def)
    ultimately show ?thesis using 5 reject(4) by (simp add: from_wire_bytes_def or_else_def h4_law [symmetric] from_layouts)
  qed
qed

end

section \<open>The documented format\<close>

text \<open>A codec: parsing an encoding followed by anything returns the value and the rest, and whatever is
  parsed was an encoding.\<close>

locale codec =
  fixes ser :: "'a \<Rightarrow> bytes option" and par :: "bytes \<Rightarrow> ('a \<times> bytes) option"
  assumes parse: "ser x = Some a \<Longrightarrow> par (a @ r) = Some (x, r)"
    and parsed: "par bs = Some (x, r) \<Longrightarrow> \<exists>a. ser x = Some a \<and> bs = a @ r"
begin

lemma delimits: "ser x = Some a \<Longrightarrow> ser y = Some (a @ r) \<Longrightarrow> r = []"
  using parse [of x a r] parse [of y "a @ r" "[]"] by simp

lemma strict: "(case par bs of Some (x, []) \<Rightarrow> Some x | _ \<Rightarrow> None) = Some x \<longleftrightarrow> ser x = Some bs"
  using parse [of x bs "[]"] parsed [of bs] by (fastforce split: option.splits list.splits)

end

definition ser_u8 :: "u8 \<Rightarrow> bytes option" where "ser_u8 x = Some [x]"
fun par_u8 :: "bytes \<Rightarrow> (u8 \<times> bytes) option" where
  "par_u8 [] = None" | "par_u8 (b # bs) = Some (b, bs)"

definition ser_arr :: "nat \<Rightarrow> bytes \<Rightarrow> bytes option" where
  "ser_arr n xs = (if length xs = n then Some xs else None)"
definition par_arr :: "nat \<Rightarrow> bytes \<Rightarrow> (bytes \<times> bytes) option" where
  "par_arr n bs = (if n \<le> length bs then Some (take n bs, drop n bs) else None)"

definition ser_map :: "('a \<Rightarrow> 'b) \<Rightarrow> ('b \<Rightarrow> bytes option) \<Rightarrow> 'a \<Rightarrow> bytes option" where
  "ser_map f s x = s (f x)"
definition par_map :: "('b \<Rightarrow> 'a) \<Rightarrow> (bytes \<Rightarrow> ('b \<times> bytes) option) \<Rightarrow> bytes \<Rightarrow> ('a \<times> bytes) option" where
  "par_map g p bs = map_option (\<lambda>(y, r). (g y, r)) (p bs)"

definition ser_pair :: "('a \<Rightarrow> bytes option) \<Rightarrow> ('b \<Rightarrow> bytes option) \<Rightarrow> 'a \<times> 'b \<Rightarrow> bytes option" where
  "ser_pair s t = (\<lambda>(x, y). do { a \<leftarrow> s x; b \<leftarrow> t y; Some (a @ b) })"
definition par_pair ::
  "(bytes \<Rightarrow> ('a \<times> bytes) option) \<Rightarrow> (bytes \<Rightarrow> ('b \<times> bytes) option) \<Rightarrow> bytes \<Rightarrow> (('a \<times> 'b) \<times> bytes) option" where
  "par_pair p q bs = do { (x, bs) \<leftarrow> p bs; (y, bs) \<leftarrow> q bs; Some ((x, y), bs) }"

primrec ser_seq :: "('a \<Rightarrow> bytes option) \<Rightarrow> 'a list \<Rightarrow> bytes option" where
  "ser_seq s [] = Some []"
| "ser_seq s (x # xs) = do { a \<leftarrow> s x; b \<leftarrow> ser_seq s xs; Some (a @ b) }"
primrec par_seq :: "(bytes \<Rightarrow> ('a \<times> bytes) option) \<Rightarrow> nat \<Rightarrow> bytes \<Rightarrow> ('a list \<times> bytes) option" where
  "par_seq p 0 bs = Some ([], bs)"
| "par_seq p (Suc n) bs = do { (x, bs) \<leftarrow> p bs; (xs, bs) \<leftarrow> par_seq p n bs; Some (x # xs, bs) }"

definition ser_vec :: "('a \<Rightarrow> bytes option) \<Rightarrow> 'a list \<Rightarrow> bytes option" where
  "ser_vec s xs = (if length xs < 2 ^ 32
     then do { b \<leftarrow> ser_seq s xs; Some (le_bytes 4 (word_of_nat (length xs) :: u32) @ b) } else None)"
definition par_vec :: "(bytes \<Rightarrow> ('a \<times> bytes) option) \<Rightarrow> bytes \<Rightarrow> ('a list \<times> bytes) option" where
  "par_vec p bs = do { (l, bs) \<leftarrow> par_arr 4 bs; par_seq p (unat (from_le l :: u32)) bs }"

definition ser_opt :: "('a \<Rightarrow> bytes option) \<Rightarrow> 'a option \<Rightarrow> bytes option" where
  "ser_opt s x = (case x of None \<Rightarrow> Some [0] | Some y \<Rightarrow> map_option ((#) 1) (s y))"
definition par_opt :: "(bytes \<Rightarrow> ('a \<times> bytes) option) \<Rightarrow> bytes \<Rightarrow> ('a option \<times> bytes) option" where
  "par_opt p bs = do {
     (tag, bs) \<leftarrow> par_u8 bs;
     if tag = 0 then Some (None, bs) else if tag = 1 then map_option (\<lambda>(x, r). (Some x, r)) (p bs) else None
   }"

lemma codec_u8: "codec ser_u8 par_u8"
proof
  show "par_u8 bs = Some (x, r) \<Longrightarrow> \<exists>a. ser_u8 x = Some a \<and> bs = a @ r" for bs x r
    by (cases bs) (auto simp: ser_u8_def)
qed (auto simp: ser_u8_def)

lemma codec_arr: "codec (ser_arr n) (par_arr n)"
  by unfold_locales (auto simp: ser_arr_def par_arr_def split: if_splits)

lemma codec_map:
  assumes "codec s p" and "\<And>x. g (f x) = x" and "\<And>y a. s y = Some a \<Longrightarrow> f (g y) = y"
  shows "codec (ser_map f s) (par_map g p)"
proof
  show "ser_map f s x = Some a \<Longrightarrow> par_map g p (a @ r) = Some (x, r)" for x a r
    using codec.parse [OF assms(1)] by (simp add: ser_map_def par_map_def assms(2))
  show "par_map g p bs = Some (x, r) \<Longrightarrow> \<exists>a. ser_map f s x = Some a \<and> bs = a @ r" for bs x r
    using codec.parsed [OF assms(1), of bs] assms(3) by (fastforce simp: ser_map_def par_map_def)
qed

lemma codec_pair: "codec s p \<Longrightarrow> codec t q \<Longrightarrow> codec (ser_pair s t) (par_pair p q)"
  unfolding codec_def ser_pair_def par_pair_def by (fastforce simp: bind_eq_Some_conv)

lemma codec_seq:
  assumes "codec s p"
  shows "ser_seq s xs = Some a \<Longrightarrow> par_seq p (length xs) (a @ r) = Some (xs, r)"
    and "par_seq p n bs = Some (xs, r) \<Longrightarrow> length xs = n \<and> (\<exists>a. ser_seq s xs = Some a \<and> bs = a @ r)"
proof -
  show "ser_seq s xs = Some a \<Longrightarrow> par_seq p (length xs) (a @ r) = Some (xs, r)"
    by (induction xs arbitrary: a) (auto simp: bind_eq_Some_conv codec.parse [OF assms])
  show "par_seq p n bs = Some (xs, r) \<Longrightarrow> length xs = n \<and> (\<exists>a. ser_seq s xs = Some a \<and> bs = a @ r)"
    by (induction n arbitrary: bs xs) (fastforce simp: bind_eq_Some_conv dest: codec.parsed [OF assms])+
qed

lemma codec_vec:
  assumes "codec s p"
  shows "codec (ser_vec s) (par_vec p)"
proof
  fix xs a r assume "ser_vec s xs = Some a"
  then obtain b where b: "ser_seq s xs = Some b" "a = le_bytes 4 (word_of_nat (length xs) :: u32) @ b" "length xs < 2 ^ 32"
    by (auto simp: ser_vec_def bind_eq_Some_conv split: if_splits)
  have "unat (word_of_nat (length xs) :: u32) = length xs" using b(3) by (simp add: unat_of_nat)
  then show "par_vec p (a @ r) = Some (xs, r)"
    using codec_seq(1) [OF assms b(1)] by (simp add: b(2) par_vec_def par_arr_def from_le_bytes)
next
  fix bs xs r assume "par_vec p bs = Some (xs, r)"
  then obtain l bs' where l: "length l = 4" "bs = l @ bs'" "par_seq p (unat (from_le l :: u32)) bs' = Some (xs, r)"
    by (cases "4 \<le> length bs") (auto simp: par_vec_def par_arr_def intro: that [of "take 4 bs" "drop 4 bs"])
  from codec_seq(2) [OF assms l(3)] obtain a where a: "length xs = unat (from_le l :: u32)" "ser_seq s xs = Some a" "bs' = a @ r"
    by blast
  have "length xs < 2 ^ 32" using unsigned_less [of "from_le l :: u32"] a(1) by simp
  moreover have "le_bytes 4 (word_of_nat (length xs) :: u32) = l" using l(1) by (simp add: a(1) le_bytes_from_le)
  ultimately show "\<exists>a. ser_vec s xs = Some a \<and> bs = a @ r" using a l by (simp add: ser_vec_def)
qed

lemma codec_opt:
  assumes "codec s p"
  shows "codec (ser_opt s) (par_opt p)"
proof
  show "ser_opt s x = Some a \<Longrightarrow> par_opt p (a @ r) = Some (x, r)" for x a r
    using codec.parse [OF assms] by (auto simp: ser_opt_def par_opt_def split: option.splits)
  fix bs x r assume x: "par_opt p bs = Some (x, r)"
  then obtain tag bs' where bs: "bs = tag # bs'" by (cases bs) (auto simp: par_opt_def)
  show "\<exists>a. ser_opt s x = Some a \<and> bs = a @ r"
    using x codec.parsed [OF assms, of bs'] by (fastforce simp: bs ser_opt_def par_opt_def split: if_splits)
qed

text \<open>Codecs as pairs, and those of the wire records: a structure is the concatenation of its fields.\<close>

type_synonym 'a borsh = "('a \<Rightarrow> bytes option) \<times> (bytes \<Rightarrow> ('a \<times> bytes) option)"

abbreviation codec_ok :: "'a borsh \<Rightarrow> bool" where "codec_ok C \<equiv> codec (fst C) (snd C)"

definition b_u8 :: "u8 borsh" where "b_u8 = (ser_u8, par_u8)"
definition b_arr :: "nat \<Rightarrow> bytes borsh" where "b_arr n = (ser_arr n, par_arr n)"
definition b_map :: "('a \<Rightarrow> 'b) \<Rightarrow> ('b \<Rightarrow> 'a) \<Rightarrow> 'b borsh \<Rightarrow> 'a borsh" where
  "b_map f g C = (ser_map f (fst C), par_map g (snd C))"
definition b_pair :: "'a borsh \<Rightarrow> 'b borsh \<Rightarrow> ('a \<times> 'b) borsh" where
  "b_pair C D = (ser_pair (fst C) (fst D), par_pair (snd C) (snd D))"
definition b_vec :: "'a borsh \<Rightarrow> 'a list borsh" where "b_vec C = (ser_vec (fst C), par_vec (snd C))"
definition b_opt :: "'a borsh \<Rightarrow> 'a option borsh" where "b_opt C = (ser_opt (fst C), par_opt (snd C))"
definition b_u64 :: "u64 borsh" where "b_u64 = b_map (le_bytes 8) from_le (b_arr 8)"

lemma b_codecs [simp]:
  "codec_ok b_u8" "codec_ok (b_arr n)" "codec_ok b_u64"
  "codec_ok C \<Longrightarrow> codec_ok D \<Longrightarrow> codec_ok (b_pair C D)" "codec_ok C \<Longrightarrow> codec_ok (b_vec C)"
  "codec_ok C \<Longrightarrow> codec_ok (b_opt C)"
proof -
  show "codec_ok b_u64"
    unfolding b_u64_def b_map_def fst_conv snd_conv
    by (rule codec_map) (auto simp: b_arr_def codec_arr from_le_bytes ser_arr_def le_bytes_from_le split: if_splits)
qed (simp_all add: b_u8_def b_arr_def b_pair_def b_vec_def b_opt_def codec_u8 codec_arr codec_pair codec_vec codec_opt)

lemma b_map_codec: "codec_ok C \<Longrightarrow> (\<And>x. g (f x) = x) \<Longrightarrow> (\<And>y. f (g y) = y) \<Longrightarrow> codec_ok (b_map f g C)"
  by (simp add: b_map_def codec_map)

abbreviation b_path :: "hash list borsh" where "b_path \<equiv> b_vec (b_arr 32)"
abbreviation b_bytes :: "bytes borsh" where "b_bytes \<equiv> b_vec b_u8"

definition b_opening :: "PomOpening borsh" where
  "b_opening = b_map
     (\<lambda>x. (op_state_before x, op_chunk x, op_weight_path x, op_trace_path_before x, op_trace_path_after x))
     (\<lambda>(a, b, c, d, e). \<lparr>op_state_before = a, op_chunk = b, op_weight_path = c, op_trace_path_before = d, op_trace_path_after = e\<rparr>)
     (b_pair b_u64 (b_pair (b_arr 32) (b_pair b_path (b_pair b_path b_path))))"

definition b_step :: "PomStep borsh" where
  "b_step = b_map (\<lambda>x. (ps_chunk x, ps_weight_path x)) (\<lambda>(a, b). \<lparr>ps_chunk = a, ps_weight_path = b\<rparr>)
     (b_pair (b_arr 32) b_path)"

definition b_v3_opening :: "PomV3Opening borsh" where
  "b_v3_opening = b_map
     (\<lambda>x. (row_before x, path_before x, row_after x, path_after x, tile_col x, col_path x, snippet_path x))
     (\<lambda>(a, b, c, d, e, f, g). \<lparr>row_before = a, path_before = b, row_after = c, path_after = d, tile_col = e, col_path = f, snippet_path = g\<rparr>)
     (b_pair b_bytes (b_pair b_path (b_pair b_bytes (b_pair b_path (b_pair b_bytes (b_pair b_path b_path))))))"

definition b_v3 :: "PomProofV3 borsh" where
  "b_v3 = b_map (\<lambda>x. (v3_tier x, v3_roots x, v3_snippets x, v3_checks x))
     (\<lambda>(a, b, c, d). \<lparr>v3_tier = a, v3_roots = b, v3_snippets = c, v3_checks = d\<rparr>)
     (b_pair b_u8 (b_pair b_path (b_pair b_path (b_vec b_v3_opening))))"

definition b_v4 :: "PomProofV4 borsh" where
  "b_v4 = b_map (\<lambda>x. (v4_tier x, v4_tiles x, v4_merkle x)) (\<lambda>(a, b, c). \<lparr>v4_tier = a, v4_tiles = b, v4_merkle = c\<rparr>)
     (b_pair b_u8 (b_pair (b_vec b_bytes) (b_vec (b_map rp_path (\<lambda>p. \<lparr>rp_path = p\<rparr>) b_path))))"

definition b_h4 :: "PomProofPreH4 borsh" where
  "b_h4 = b_map
     (\<lambda>x. (ph_tier x, ph_trace_root x, ph_pow_value x, ph_final_state x, ph_initial_trace_path x, ph_final_trace_path x, ph_openings x))
     (\<lambda>(a, b, c, d, e, f, g). \<lparr>ph_tier = a, ph_trace_root = b, ph_pow_value = c, ph_final_state = d,
        ph_initial_trace_path = e, ph_final_trace_path = f, ph_openings = g\<rparr>)
     (b_pair b_u8 (b_pair (b_arr 32) (b_pair (b_arr 32) (b_pair b_u64 (b_pair b_path (b_pair b_path (b_vec b_opening)))))))"

definition b_pre_v3 :: "PomProofPreV3 borsh" where
  "b_pre_v3 = b_map (\<lambda>x. (pre_h4 (from_pre_v3 x), p3_steps_v2 x))
     (\<lambda>(h, y). pre_v3 ((from_pre_h4 h)\<lparr>pp_steps_v2 := y\<rparr>)) (b_pair b_h4 (b_opt (b_vec b_step)))"

definition b_pre_v4 :: "PomProofPreV4 borsh" where
  "b_pre_v4 = b_map (\<lambda>x. (pre_v3 (from_pre_v4 x), p4_v3 x))
     (\<lambda>(h, y). pre_v4 ((from_pre_v3 h)\<lparr>pp_v3 := y\<rparr>)) (b_pair b_pre_v3 (b_opt b_v3))"

definition b_pre_task :: "PomProofPreTask borsh" where
  "b_pre_task = b_map (\<lambda>x. (pre_v4 (from_pre_task x), pt_v4 x))
     (\<lambda>(h, y). pre_task ((from_pre_v4 h)\<lparr>pp_v4 := y\<rparr>)) (b_pair b_pre_v4 (b_opt b_v4))"

definition b_proof :: "PomProof borsh" where
  "b_proof = b_map (\<lambda>x. (pre_task x, pp_task x)) (\<lambda>(h, y). (from_pre_task h)\<lparr>pp_task := y\<rparr>)
     (b_pair b_pre_task (b_opt b_bytes))"

definition from_slice :: "'a borsh \<Rightarrow> bytes \<Rightarrow> 'a option" where
  "from_slice C bs = (case snd C bs of Some (x, []) \<Rightarrow> Some x | _ \<Rightarrow> None)"

definition spec_borsh :: Borsh where
  "spec_borsh = \<lparr>to_vec_proof = fst b_proof, to_vec_pre_task = fst b_pre_task, to_vec_pre_v4 = fst b_pre_v4,
     to_vec_pre_v3 = fst b_pre_v3, to_vec_pre_h4 = fst b_h4, slice_proof = from_slice b_proof,
     slice_pre_task = from_slice b_pre_task, slice_pre_v4 = from_slice b_pre_v4, slice_pre_v3 = from_slice b_pre_v3,
     slice_pre_h4 = from_slice b_h4\<rparr>"

lemmas layout_defs = from_pre_task_def pre_task_def from_pre_v4_def pre_v4_def from_pre_v3_def pre_v3_def from_pre_h4_def pre_h4_def

lemma b_v4_codec: "codec_ok b_v4"
  unfolding b_v4_def by (intro b_map_codec b_codecs) (auto split: prod.splits)

lemma b_v3_codec: "codec_ok b_v3"
  unfolding b_v3_def b_v3_opening_def by (intro b_map_codec b_codecs) (auto split: prod.splits)

lemma b_h4_codec: "codec_ok b_h4"
  unfolding b_h4_def b_opening_def by (intro b_map_codec b_codecs) (auto split: prod.splits)

lemma b_pre_v3_codec: "codec_ok b_pre_v3"
  unfolding b_pre_v3_def b_step_def
  by (intro b_map_codec b_codecs b_h4_codec) (auto simp: layout_defs split: prod.splits)

lemma b_pre_v4_codec: "codec_ok b_pre_v4"
  unfolding b_pre_v4_def
  by (intro b_map_codec b_codecs b_pre_v3_codec b_v3_codec) (auto simp: layout_defs split: prod.splits)

lemma b_pre_task_codec: "codec_ok b_pre_task"
  unfolding b_pre_task_def
  by (intro b_map_codec b_codecs b_pre_v4_codec b_v4_codec) (auto simp: layout_defs split: prod.splits)

lemma b_proof_codec: "codec_ok b_proof"
  unfolding b_proof_def
  by (intro b_map_codec b_codecs b_pre_task_codec) (auto simp: layout_defs split: prod.splits)

lemma appends:
  "fst (b_map f g (b_pair C (b_opt D))) p = Some bs \<Longrightarrow> \<exists>a t. fst C (fst (f p)) = Some a \<and> bs = a @ t \<and> t \<noteq> []"
  by (cases "f p") (auto simp: b_map_def b_pair_def b_opt_def ser_map_def ser_pair_def ser_opt_def bind_eq_Some_conv split: option.splits)

interpretation spec: borsh_layouts spec_borsh
proof
  note strict = codec.strict [OF b_proof_codec] codec.strict [OF b_pre_task_codec] codec.strict [OF b_pre_v4_codec]
    codec.strict [OF b_pre_v3_codec] codec.strict [OF b_h4_codec]
  show "slice_proof spec_borsh bs = Some p \<longleftrightarrow> to_vec_proof spec_borsh p = Some bs"
    "slice_pre_task spec_borsh bs = Some pt \<longleftrightarrow> to_vec_pre_task spec_borsh pt = Some bs"
    "slice_pre_v4 spec_borsh bs = Some p4 \<longleftrightarrow> to_vec_pre_v4 spec_borsh p4 = Some bs"
    "slice_pre_v3 spec_borsh bs = Some p3 \<longleftrightarrow> to_vec_pre_v3 spec_borsh p3 = Some bs"
    "slice_pre_h4 spec_borsh bs = Some ph \<longleftrightarrow> to_vec_pre_h4 spec_borsh ph = Some bs" for bs p pt p4 p3 ph
    by (simp_all add: spec_borsh_def from_slice_def strict)
  show "to_vec_proof spec_borsh p = Some bs \<Longrightarrow> \<exists>a t. to_vec_pre_task spec_borsh (pre_task p) = Some a \<and> bs = a @ t \<and> t \<noteq> []"
    "to_vec_pre_task spec_borsh pt = Some bs \<Longrightarrow>
      \<exists>a t. to_vec_pre_v4 spec_borsh (pre_v4 (from_pre_task pt)) = Some a \<and> bs = a @ t \<and> t \<noteq> []"
    "to_vec_pre_v4 spec_borsh p4 = Some bs \<Longrightarrow>
      \<exists>a t. to_vec_pre_v3 spec_borsh (pre_v3 (from_pre_v4 p4)) = Some a \<and> bs = a @ t \<and> t \<noteq> []"
    "to_vec_pre_v3 spec_borsh p3 = Some bs \<Longrightarrow>
      \<exists>a t. to_vec_pre_h4 spec_borsh (pre_h4 (from_pre_v3 p3)) = Some a \<and> bs = a @ t \<and> t \<noteq> []" for bs p pt p4 p3
    by (simp_all add: spec_borsh_def b_proof_def b_pre_task_def b_pre_v4_def b_pre_v3_def) (drule appends, simp)+
qed (simp_all add: spec_borsh_def, (erule (1) codec.delimits [OF b_pre_task_codec] codec.delimits [OF b_pre_v4_codec]
  codec.delimits [OF b_pre_v3_codec] codec.delimits [OF b_h4_codec])+)

section \<open>Properties\<close>

text \<open>C18: a possession proof survives the wire: whatever era's layout \<open>to_wire_bytes\<close> chooses for it, the
  decoder, which tries the layouts from the longest, returns exactly the proof, with no field lost or
  invented. Two proofs with the same bytes are the same proof.\<close>

theorem wire_round_trip:
  assumes "borsh_layouts borsh" and "to_wire_bytes borsh p = Some bs"
  shows "from_wire_bytes borsh bs = Some p \<and> (\<forall>q. to_wire_bytes borsh q = Some bs \<longrightarrow> q = p)"
  using borsh_layouts.round_trip [OF assms(1)] assms(2) by (metis option.inject)

theorem wire_round_trip_witness:
  "\<exists>bs. to_wire_bytes spec_borsh \<lparr>pp_tier = 2, pp_trace_root = replicate 32 0, pp_pow_value = replicate 32 1, pp_final_state = 7,
      pp_initial_trace_path = [], pp_final_trace_path = [], pp_openings = [], pp_steps_v2 = None, pp_v3 = None,
      pp_v4 = Some \<lparr>v4_tier = 2, v4_tiles = [[1, 2]], v4_merkle = [\<lparr>rp_path = [replicate 32 3]\<rparr>]\<rparr>, pp_task = None\<rparr> = Some bs \<and>
    from_wire_bytes spec_borsh bs = Some \<lparr>pp_tier = 2, pp_trace_root = replicate 32 0, pp_pow_value = replicate 32 1, pp_final_state = 7,
      pp_initial_trace_path = [], pp_final_trace_path = [], pp_openings = [], pp_steps_v2 = None, pp_v3 = None,
      pp_v4 = Some \<lparr>v4_tier = 2, v4_tiles = [[1, 2]], v4_merkle = [\<lparr>rp_path = [replicate 32 3]\<rparr>]\<rparr>, pp_task = None\<rparr>"
  (is "\<exists>bs. to_wire_bytes spec_borsh ?p = Some bs \<and> _")
proof -
  have "to_wire_bytes spec_borsh ?p \<noteq> None"
    by (simp add: to_wire_bytes_def spec_borsh_def b_pre_task_def b_pre_v4_def b_pre_v3_def b_h4_def b_v4_def b_map_def b_pair_def
        b_vec_def b_opt_def b_u8_def b_u64_def b_arr_def ser_map_def ser_pair_def ser_vec_def ser_opt_def ser_u8_def ser_arr_def layout_defs)
  then obtain bs where "to_wire_bytes spec_borsh ?p = Some bs" by blast
  with wire_round_trip [OF spec.borsh_layouts_axioms this] show ?thesis by blast
qed

end
