(* ===== verification/Index_Cache.thy ===== *)
theory Index_Cache
  imports Weight_Index
begin

text \<open>
  \<open>src/src/pom.rs\<close>, \<open>index_for\<close> and \<open>get_or_build_index\<close>: the possession indices of the process, built once
  per model although every worker thread races into the first activation. The functions are modelled
  as they run alone, and as a step relation in which the threads interleave between any two
  operations on the two mutexes.
\<close>

section \<open>Definitions\<close>

type_synonym indices = "(hash \<times> WeightIndex) list"

definition index_for :: "indices \<Rightarrow> hash \<Rightarrow> WeightIndex option" where
  "index_for indices model_id = map_option snd (find (\<lambda>(id, idx). id = model_id) indices)"

text \<open>The call when no other thread runs: \<open>build\<close> is the closure, \<open>None\<close> its error.\<close>

definition get_or_build_index :: "indices \<Rightarrow> hash \<Rightarrow> (unit \<Rightarrow> WeightIndex option) \<Rightarrow> bool \<times> indices" where
  "get_or_build_index indices model_id build =
     (if index_for indices model_id \<noteq> None then (True, indices)
      else case build () of
             Some idx \<Rightarrow> (True, indices @ [(model_id, idx)])
           | None \<Rightarrow> (False, indices))"

text \<open>Where a thread stands in the call. It holds \<open>INDEX_BUILD_LOCK\<close> from \<open>Locked\<close> to its return; a panic of
  \<open>build\<close> releases the lock poisoned, which the next \<open>lock\<close> ignores.\<close>

datatype pc = Enter | Waiting | Locked | Building | Installing WeightIndex | Returned bool | Panicked

record shared =
  POM_INDICES :: indices
  INDEX_BUILD_LOCK :: "nat option"
  threads :: "nat \<Rightarrow> pc"

definition goto :: "nat \<Rightarrow> pc \<Rightarrow> shared \<Rightarrow> shared" where
  "goto w c s = s\<lparr>threads := (threads s)(w := c)\<rparr>"

inductive call_step :: "(nat \<Rightarrow> hash) \<Rightarrow> shared \<Rightarrow> shared \<Rightarrow> bool" for model where
  found: "threads s w = Enter \<Longrightarrow> index_for (POM_INDICES s) (model w) \<noteq> None \<Longrightarrow>
    call_step model s (goto w (Returned True) s)"
| missing: "threads s w = Enter \<Longrightarrow> index_for (POM_INDICES s) (model w) = None \<Longrightarrow>
    call_step model s (goto w Waiting s)"
| lock: "threads s w = Waiting \<Longrightarrow> INDEX_BUILD_LOCK s = None \<Longrightarrow>
    call_step model s (goto w Locked (s\<lparr>INDEX_BUILD_LOCK := Some w\<rparr>))"
| found_locked: "threads s w = Locked \<Longrightarrow> index_for (POM_INDICES s) (model w) \<noteq> None \<Longrightarrow>
    call_step model s (goto w (Returned True) (s\<lparr>INDEX_BUILD_LOCK := None\<rparr>))"
| start_build: "threads s w = Locked \<Longrightarrow> index_for (POM_INDICES s) (model w) = None \<Longrightarrow>
    call_step model s (goto w Building s)"
| build_ok: "threads s w = Building \<Longrightarrow> call_step model s (goto w (Installing idx) s)"
| build_err: "threads s w = Building \<Longrightarrow>
    call_step model s (goto w (Returned False) (s\<lparr>INDEX_BUILD_LOCK := None\<rparr>))"
| build_panic: "threads s w = Building \<Longrightarrow> call_step model s (goto w Panicked (s\<lparr>INDEX_BUILD_LOCK := None\<rparr>))"
| push: "threads s w = Installing idx \<Longrightarrow>
    call_step model s (goto w (Returned True)
      (s\<lparr>INDEX_BUILD_LOCK := None, POM_INDICES := POM_INDICES s @ [(model w, idx)]\<rparr>))"

definition cache_init :: shared where
  "cache_init = \<lparr>POM_INDICES = [], INDEX_BUILD_LOCK = None, threads = (\<lambda>w. Enter)\<rparr>"

section \<open>The invariant\<close>

definition holds_lock :: "pc \<Rightarrow> bool" where
  "holds_lock c \<longleftrightarrow> c = Locked \<or> c = Building \<or> (\<exists>idx. c = Installing idx)"

definition cache_inv :: "(nat \<Rightarrow> hash) \<Rightarrow> shared \<Rightarrow> bool" where
  "cache_inv model s \<longleftrightarrow>
     (\<forall>w. holds_lock (threads s w) \<longleftrightarrow> INDEX_BUILD_LOCK s = Some w) \<and>
     distinct (map fst (POM_INDICES s)) \<and>
     (\<forall>w. threads s w = Building \<or> (\<exists>idx. threads s w = Installing idx) \<longrightarrow> index_for (POM_INDICES s) (model w) = None) \<and>
     (\<forall>w. threads s w = Returned True \<longrightarrow> index_for (POM_INDICES s) (model w) \<noteq> None)"

lemma index_for_Nil [simp]: "index_for [] m = None"
  by (simp add: index_for_def)

lemma index_for_append:
  "index_for (xs @ ys) m = (case index_for xs m of Some i \<Rightarrow> Some i | None \<Rightarrow> index_for ys m)"
  by (induction xs) (auto simp: index_for_def)

lemma index_for_single [simp]: "index_for [(m', i)] m = (if m' = m then Some i else None)"
  by (simp add: index_for_def)

lemma index_for_None: "index_for xs m = None \<longleftrightarrow> m \<notin> fst ` set xs"
  by (induction xs) (auto simp: index_for_def)

lemma goto_simps [simp]:
  "POM_INDICES (goto w c s) = POM_INDICES s" "INDEX_BUILD_LOCK (goto w c s) = INDEX_BUILD_LOCK s"
  "threads (goto w c s) v = (if v = w then c else threads s v)"
  by (simp_all add: goto_def)

lemma holds_lock_simps [simp]:
  "holds_lock Locked" "holds_lock Building" "holds_lock (Installing idx)"
  "\<not> holds_lock Enter" "\<not> holds_lock Waiting" "\<not> holds_lock (Returned b)" "\<not> holds_lock Panicked"
  by (simp_all add: holds_lock_def)

lemma cache_inv_init: "cache_inv model cache_init"
  by (simp add: cache_inv_def cache_init_def)

text \<open>A thread that holds the lock is the only one.\<close>

lemma sole_holder: "cache_inv model s \<Longrightarrow> holds_lock (threads s w) \<Longrightarrow> holds_lock (threads s v) \<Longrightarrow> v = w"
  unfolding cache_inv_def by (metis option.inject)

lemma cache_inv_step:
  assumes "call_step model s t" and "cache_inv model s"
  shows "cache_inv model t"
  using assms
proof (cases rule: call_step.cases)
  case (push w idx)
  have lock: "INDEX_BUILD_LOCK s = Some w" using push assms(2) by (auto simp: cache_inv_def)
  have new: "index_for (POM_INDICES s) (model w) = None" using push assms(2) by (auto simp: cache_inv_def)
  have alone: "\<not> holds_lock (threads s v)" if "v \<noteq> w" for v using that lock assms(2) by (auto simp: cache_inv_def)
  then have none: "threads s v \<noteq> Building \<and> threads s v \<noteq> Installing i" if "v \<noteq> w" for v i using that by fastforce
  have dist: "distinct (map fst (POM_INDICES s @ [(model w, idx)]))"
    using assms(2) new by (simp add: cache_inv_def index_for_None)
  have ret: "index_for (POM_INDICES s @ [(model w, idx)]) (model v) \<noteq> None" if "threads s v = Returned True" for v
    using that assms(2) by (auto simp: cache_inv_def index_for_append split: option.splits)
  show ?thesis
    unfolding cache_inv_def using push(1) dist alone none ret by (auto simp: index_for_append split: option.splits)
next
  case (lock w)
  then show ?thesis using assms(2) by (auto simp: cache_inv_def) 
next
  case (found_locked w)
  have alone: "\<not> holds_lock (threads s v)" if "v \<noteq> w" for v using sole_holder [OF assms(2), of w v] found_locked(2) that by auto
  then show ?thesis using found_locked assms(2) by (auto simp: cache_inv_def)
next
  case (build_err w)
  have alone: "\<not> holds_lock (threads s v)" if "v \<noteq> w" for v using sole_holder [OF assms(2), of w v] build_err(2) that by auto
  then show ?thesis using build_err assms(2) by (auto simp: cache_inv_def)
next
  case (build_panic w)
  have alone: "\<not> holds_lock (threads s v)" if "v \<noteq> w" for v using sole_holder [OF assms(2), of w v] build_panic(2) that by auto
  then show ?thesis using build_panic assms(2) by (auto simp: cache_inv_def)
next
  case (found w)
  have "INDEX_BUILD_LOCK s \<noteq> Some w" using found(2) assms(2) by (force simp: cache_inv_def)
  then show ?thesis using found assms(2) by (auto simp: cache_inv_def)
next
  case (missing w)
  have "INDEX_BUILD_LOCK s \<noteq> Some w" using missing(2) assms(2) by (force simp: cache_inv_def)
  then show ?thesis using missing assms(2) by (auto simp: cache_inv_def)
qed (auto simp: cache_inv_def)

lemma cache_inv_reachable: "(call_step model)\<^sup>*\<^sup>* cache_init s \<Longrightarrow> cache_inv model s"
  by (induction rule: rtranclp_induct) (auto intro: cache_inv_init cache_inv_step)

lemma index_kept_step: "call_step model s t \<Longrightarrow> index_for (POM_INDICES s) m = Some i \<Longrightarrow> index_for (POM_INDICES t) m = Some i"
  by (cases rule: call_step.cases) (auto simp: index_for_append)

lemma index_kept: "(call_step model)\<^sup>*\<^sup>* s t \<Longrightarrow> index_for (POM_INDICES s) m = Some i \<Longrightarrow> index_for (POM_INDICES t) m = Some i"
  by (induction rule: rtranclp_induct) (auto intro: index_kept_step)

section \<open>Properties\<close>

text \<open>C29: racing workers build each possession index once: in every interleaving at most one thread
  builds (and so writes the tree file) at a time, no model is installed twice, a thread that
  returned true finds its index installed, and an installed index is never replaced.\<close>

theorem index_built_once:
  assumes "(call_step model)\<^sup>*\<^sup>* cache_init s" and "(call_step model)\<^sup>*\<^sup>* s t"
  shows "(\<forall>v w. threads s v = Building \<longrightarrow> threads s w = Building \<longrightarrow> v = w) \<and>
    distinct (map fst (POM_INDICES s)) \<and>
    (\<forall>w. threads s w = Returned True \<longrightarrow> index_for (POM_INDICES s) (model w) \<noteq> None) \<and>
    (\<forall>w. threads s w = Building \<longrightarrow> index_for (POM_INDICES s) (model w) = None) \<and>
    (\<forall>m i. index_for (POM_INDICES s) m = Some i \<longrightarrow> index_for (POM_INDICES t) m = Some i)"
proof -
  note cache_inv = cache_inv_reachable [OF assms(1)]
  have "v = w" if "threads s v = Building" "threads s w = Building" for v w
    using sole_holder [OF cache_inv, of w v] that by simp
  then show ?thesis using cache_inv index_kept [OF assms(2)] by (auto simp: cache_inv_def)
qed

text \<open>A run in which two workers of one model arrive and the first one builds.\<close>

lemma steps_4: "R a b \<Longrightarrow> R b c \<Longrightarrow> R c d \<Longrightarrow> R d e \<Longrightarrow> R\<^sup>*\<^sup>* a e"
  by (meson converse_rtranclp_into_rtranclp rtranclp.rtrancl_refl)

lemma race:
  defines "s2 \<equiv> goto 1 Waiting (goto 0 Waiting cache_init)"
  shows "(call_step (\<lambda>w. m))\<^sup>*\<^sup>* cache_init (goto 0 Building (goto 0 Locked (s2\<lparr>INDEX_BUILD_LOCK := Some 0\<rparr>)))"
proof (rule steps_4)
  show "call_step (\<lambda>w. m) cache_init (goto 0 Waiting cache_init)" by (rule missing) (simp_all add: cache_init_def)
  show "call_step (\<lambda>w. m) (goto 0 Waiting cache_init) s2" unfolding s2_def by (rule missing) (simp_all add: cache_init_def)
  show "call_step (\<lambda>w. m) s2 (goto 0 Locked (s2\<lparr>INDEX_BUILD_LOCK := Some 0\<rparr>))"
    by (rule lock) (simp_all add: s2_def cache_init_def)
  show "call_step (\<lambda>w. m) (goto 0 Locked (s2\<lparr>INDEX_BUILD_LOCK := Some 0\<rparr>))
      (goto 0 Building (goto 0 Locked (s2\<lparr>INDEX_BUILD_LOCK := Some 0\<rparr>)))"
    by (rule start_build) (simp_all add: s2_def cache_init_def)
qed

theorem index_built_once_witness:
  "\<exists>s. (call_step (\<lambda>w. [1]))\<^sup>*\<^sup>* cache_init s \<and> threads s 0 = Building \<and> threads s 1 = Waiting \<and>
     index_for (POM_INDICES s) [1] = None"
proof -
  let ?s = "goto 0 Building (goto 0 Locked ((goto 1 Waiting (goto 0 Waiting cache_init))\<lparr>INDEX_BUILD_LOCK := Some 0\<rparr>))"
  have "threads ?s 0 = Building" "threads ?s 1 = Waiting" by (simp_all add: goto_def)
  with index_built_once [OF race rtranclp.rtrancl_refl, of "[1]"] race [of "[1]"] show ?thesis by metis
qed

text \<open>C30: the lock never deadlocks: in every reachable state some thread can move as long as any call has
  not returned; and a call that runs while no other thread holds the lock reaches its return, with
  the result and the indices of the sequential \<open>get_or_build_index\<close>, for whatever its \<open>build\<close> returns.\<close>

theorem index_call_progress:
  assumes "(call_step model)\<^sup>*\<^sup>* cache_init s"
  shows "((\<exists>w. threads s w \<noteq> Panicked \<and> (\<forall>r. threads s w \<noteq> Returned r)) \<longrightarrow> (\<exists>t. call_step model s t)) \<and>
    (threads s w = Enter \<longrightarrow> INDEX_BUILD_LOCK s = None \<longrightarrow>
     (\<exists>t. (call_step model)\<^sup>*\<^sup>* s t \<and>
        (case get_or_build_index (POM_INDICES s) (model w) (\<lambda>_. built) of (r, indices) \<Rightarrow>
           threads t w = Returned r \<and> POM_INDICES t = indices) \<and> INDEX_BUILD_LOCK t = None))"
proof (intro conjI impI)
  assume "\<exists>w. threads s w \<noteq> Panicked \<and> (\<forall>r. threads s w \<noteq> Returned r)"
  then obtain w where w: "threads s w \<noteq> Panicked" "\<And>r. threads s w \<noteq> Returned r" by blast
  show "\<exists>t. call_step model s t"
  proof (cases "INDEX_BUILD_LOCK s")
    case None
    then have "\<not> holds_lock (threads s w)" using cache_inv_reachable [OF assms] by (simp add: cache_inv_def)
    with w have "threads s w = Enter \<or> threads s w = Waiting" by (cases "threads s w") auto
    then show ?thesis
      using None found [of s w model] missing [of s w model] lock [of s w model] by blast
  next
    case (Some v)
    then have "holds_lock (threads s v)" using cache_inv_reachable [OF assms] by (simp add: cache_inv_def)
    then show ?thesis
      using found_locked [of s v model] start_build [of s v model] build_ok [of s v model] push [of s v _ model]
      by (cases "threads s v") auto
  qed
next
  assume w: "threads s w = Enter" and free: "INDEX_BUILD_LOCK s = None"
  show "\<exists>t. (call_step model)\<^sup>*\<^sup>* s t \<and>
        (case get_or_build_index (POM_INDICES s) (model w) (\<lambda>_. built) of (r, indices) \<Rightarrow>
           threads t w = Returned r \<and> POM_INDICES t = indices) \<and> INDEX_BUILD_LOCK t = None"
  proof (cases "index_for (POM_INDICES s) (model w)")
    case None
    let ?s1 = "goto w Waiting s" and ?s2 = "goto w Locked ((goto w Waiting s)\<lparr>INDEX_BUILD_LOCK := Some w\<rparr>)"
    have run: "(call_step model)\<^sup>*\<^sup>* s (goto w Building ?s2)"
      using missing [of s w model] lock [of ?s1 w model] start_build [of ?s2 w model] w free None
      by (auto intro!: rtranclp.rtrancl_into_rtrancl)
    show ?thesis
    proof (cases built)
      case None
      show ?thesis
        using rtranclp.rtrancl_into_rtrancl [OF run build_err [of _ w]] \<open>index_for _ _ = None\<close> None
        by (intro exI conjI) (auto simp: get_or_build_index_def)
    next
      case (Some idx)
      have "(call_step model)\<^sup>*\<^sup>* s (goto w (Installing idx) (goto w Building ?s2))"
        by (rule rtranclp.rtrancl_into_rtrancl [OF run build_ok]) simp
      from rtranclp.rtrancl_into_rtrancl [OF this push [of _ w idx]] show ?thesis
        using \<open>index_for _ _ = None\<close> Some by (intro exI conjI) (auto simp: get_or_build_index_def)
    qed
  next
    case (Some i)
    then have "call_step model s (goto w (Returned True) s)" using w by (intro found) auto
    then show ?thesis using Some free by (intro exI [of _ "goto w (Returned True) s"]) (simp add: get_or_build_index_def)
  qed
qed

theorem index_call_progress_witness:
  "\<exists>t. (call_step (\<lambda>w. [1]))\<^sup>*\<^sup>* cache_init t \<and> threads t 3 = Returned False \<and> POM_INDICES t = []"
  using index_call_progress [of "\<lambda>w. [1]" cache_init 3 None] by (auto simp: cache_init_def get_or_build_index_def)

end
