(* ===== verification/Ai_Payload.thy ===== *)
theory Ai_Payload
  imports Prelude
begin

text \<open>
  \<open>src/inference/src/ai_payload.rs\<close>: the binary payloads of the AI transactions. A request, a response
  (with its optional responder, inline body and trace commitment) and a challenge are records; each
  has its \<open>serialize\<close> and its \<open>deserialize\<close>, which checks every length. Arrays of the source are byte lists:
  the predicates \<open>typed_*\<close> say that they have the length of their type. The base58 text of a content id is
  modelled digit by digit. \<open>hex::decode\<close> is a parameter.

  The lemmas show that each format is a bijection between the canonical payloads and the accepted
  byte strings, that the signed message determines the payload, and that the text determines the
  bytes.
\<close>

section \<open>Definitions\<close>

definition MIN_AI_REQUEST_PAYLOAD_LEN :: nat where "MIN_AI_REQUEST_PAYLOAD_LEN = 52"
definition MAX_AI_REQUEST_PRIVATE_PAYLOAD_LEN :: nat where "MAX_AI_REQUEST_PRIVATE_PAYLOAD_LEN = 65536"
definition AI_RESPONSE_PAYLOAD_LEN :: nat where "AI_RESPONSE_PAYLOAD_LEN = 78"
definition AI_RESPONSE_PAYLOAD_V2_LEN :: nat where "AI_RESPONSE_PAYLOAD_V2_LEN = AI_RESPONSE_PAYLOAD_LEN + 32 + 64"
definition AI_RESPONSE_EXT_PRIVATE_BODY :: u8 where "AI_RESPONSE_EXT_PRIVATE_BODY = 0x80"
definition AI_RESPONSE_EXT_TRACE :: u8 where "AI_RESPONSE_EXT_TRACE = 0x81"
definition AI_RESPONSE_TRACE_LEN :: nat where "AI_RESPONSE_TRACE_LEN = 32 + 4 + 4 + 1"
definition AI_RESPONSE_TRACE_TOKENS_LEN :: nat where "AI_RESPONSE_TRACE_TOKENS_LEN = AI_RESPONSE_TRACE_LEN + 32"
definition AI_RESPONSE_EXT_HEADER_LEN :: nat where "AI_RESPONSE_EXT_HEADER_LEN = 1 + 4"
definition MAX_AI_RESPONSE_PRIVATE_BODY_LEN :: nat where "MAX_AI_RESPONSE_PRIVATE_BODY_LEN = 48 * 1024"
definition MAX_AI_RESPONSE_PAYLOAD_LEN :: nat where
  "MAX_AI_RESPONSE_PAYLOAD_LEN = AI_RESPONSE_PAYLOAD_V2_LEN + AI_RESPONSE_EXT_HEADER_LEN + MAX_AI_RESPONSE_PRIVATE_BODY_LEN +
     AI_RESPONSE_EXT_HEADER_LEN + AI_RESPONSE_TRACE_TOKENS_LEN"
definition MIN_AI_CHALLENGE_PAYLOAD_LEN :: nat where "MIN_AI_CHALLENGE_PAYLOAD_LEN = 74"
definition MAX_AI_CHALLENGE_PAYLOAD_LEN :: nat where "MAX_AI_CHALLENGE_PAYLOAD_LEN = 32768"

lemmas ai_consts = MIN_AI_REQUEST_PAYLOAD_LEN_def MAX_AI_REQUEST_PRIVATE_PAYLOAD_LEN_def AI_RESPONSE_PAYLOAD_LEN_def
  AI_RESPONSE_PAYLOAD_V2_LEN_def AI_RESPONSE_EXT_PRIVATE_BODY_def AI_RESPONSE_EXT_TRACE_def AI_RESPONSE_TRACE_LEN_def
  AI_RESPONSE_TRACE_TOKENS_LEN_def AI_RESPONSE_EXT_HEADER_LEN_def MAX_AI_RESPONSE_PRIVATE_BODY_LEN_def
  MAX_AI_RESPONSE_PAYLOAD_LEN_def MIN_AI_CHALLENGE_PAYLOAD_LEN_def MAX_AI_CHALLENGE_PAYLOAD_LEN_def

subsection \<open>Requests\<close>

record AiRequestPayload =
  rq_model_id :: bytes
  rq_max_tokens :: u32
  rq_inference_reward :: u64
  rq_priority_fee :: u64
  rq_prompt :: bytes

definition header_bytes_of :: "bytes \<Rightarrow> u32 \<Rightarrow> u64 \<Rightarrow> u64 \<Rightarrow> bytes" where
  "header_bytes_of model_id max_tokens inference_reward priority_fee =
     model_id @ le_bytes 4 max_tokens @ le_bytes 8 inference_reward @ le_bytes 8 priority_fee"

definition header_bytes :: "AiRequestPayload \<Rightarrow> bytes" where
  "header_bytes p = header_bytes_of (rq_model_id p) (rq_max_tokens p) (rq_inference_reward p) (rq_priority_fee p)"

definition serialize_request :: "AiRequestPayload \<Rightarrow> bytes" where
  "serialize_request p = header_bytes p @ rq_prompt p"

definition deserialize_request :: "bytes \<Rightarrow> AiRequestPayload option" where
  "deserialize_request data =
     (if length data < MIN_AI_REQUEST_PAYLOAD_LEN \<or> length data > MAX_AI_REQUEST_PRIVATE_PAYLOAD_LEN then None
      else Some \<lparr>rq_model_id = slice 0 32 data, rq_max_tokens = from_le (slice 32 36 data),
                 rq_inference_reward = from_le (slice 36 44 data), rq_priority_fee = from_le (slice 44 52 data),
                 rq_prompt = drop 52 data\<rparr>)"

definition request_from_hex :: "(string \<Rightarrow> bytes option) \<Rightarrow> string \<Rightarrow> AiRequestPayload option" where
  "request_from_hex hex_decode payload_hex = Option.bind (hex_decode payload_hex) deserialize_request"

subsection \<open>Responses\<close>

record AiResponder =
  escrow_pubkey :: bytes
  signature :: bytes

record TraceCommitment =
  trace_root :: bytes
  n_prompt :: u32
  n_pos :: u32
  stage :: u8
  tokens_root :: "bytes option"

definition trace_len :: "TraceCommitment \<Rightarrow> nat" where
  "trace_len t = (if tokens_root t \<noteq> None then AI_RESPONSE_TRACE_TOKENS_LEN else AI_RESPONSE_TRACE_LEN)"

definition trace_to_bytes :: "TraceCommitment \<Rightarrow> bytes" where
  "trace_to_bytes t = trace_root t @ le_bytes 4 (n_prompt t) @ le_bytes 4 (n_pos t) @ [stage t] @
     (case tokens_root t of Some r \<Rightarrow> r | None \<Rightarrow> [])"

definition trace_from_bytes :: "bytes \<Rightarrow> TraceCommitment option" where
  "trace_from_bytes b =
     (if length b \<noteq> AI_RESPONSE_TRACE_LEN \<and> length b \<noteq> AI_RESPONSE_TRACE_TOKENS_LEN then None
      else Some \<lparr>trace_root = slice 0 32 b, n_prompt = from_le (slice 32 36 b), n_pos = from_le (slice 36 40 b),
                 stage = b ! 40,
                 tokens_root = (if length b = AI_RESPONSE_TRACE_TOKENS_LEN then Some (slice 41 73 b) else None)\<rparr>)"

record AiResponsePayload =
  rs_request_hash :: bytes
  rs_challenge_window_end :: u64
  rs_response_ipfs_cid :: bytes
  rs_response_length :: u32
  rs_responder :: "AiResponder option"
  rs_private_body :: "bytes option"
  rs_trace :: "TraceCommitment option"

definition with_private_body :: "AiResponsePayload \<Rightarrow> bytes \<Rightarrow> AiResponsePayload" where
  "with_private_body p body = p\<lparr>rs_private_body := Some body\<rparr>"

definition with_trace :: "AiResponsePayload \<Rightarrow> TraceCommitment \<Rightarrow> AiResponsePayload" where
  "with_trace p trace = p\<lparr>rs_trace := Some trace\<rparr>"

definition v1_bytes :: "AiResponsePayload \<Rightarrow> bytes" where
  "v1_bytes p = rs_request_hash p @ le_bytes 8 (rs_challenge_window_end p) @ rs_response_ipfs_cid p @
     le_bytes 4 (rs_response_length p)"

definition extension_bytes :: "AiResponsePayload \<Rightarrow> bytes" where
  "extension_bytes p =
     (case rs_private_body p of
        Some body \<Rightarrow> [AI_RESPONSE_EXT_PRIVATE_BODY] @ le_bytes 4 (word_of_nat (length body) :: u32) @ body @
          (case rs_trace p of
             Some trace \<Rightarrow> [AI_RESPONSE_EXT_TRACE] @ le_bytes 4 (word_of_nat (trace_len trace) :: u32) @ trace_to_bytes trace
           | None \<Rightarrow> [])
      | None \<Rightarrow> [])"

definition signed_bytes :: "AiResponsePayload \<Rightarrow> bytes" where
  "signed_bytes p = v1_bytes p @ extension_bytes p"

definition serialize_response :: "AiResponsePayload \<Rightarrow> bytes" where
  "serialize_response p = v1_bytes p @
     (case rs_responder p of Some r \<Rightarrow> escrow_pubkey r @ signature r | None \<Rightarrow> []) @ extension_bytes p"

definition parse_trace_extension :: "bytes \<Rightarrow> TraceCommitment option option" where
  "parse_trace_extension rest =
     (if rest = [] then Some None
      else if length rest < AI_RESPONSE_EXT_HEADER_LEN then None
      else let n = length rest - AI_RESPONSE_EXT_HEADER_LEN
           in if (n \<noteq> AI_RESPONSE_TRACE_LEN \<and> n \<noteq> AI_RESPONSE_TRACE_TOKENS_LEN) \<or> rest ! 0 \<noteq> AI_RESPONSE_EXT_TRACE \<or>
                 unat (from_le (slice 1 5 rest) :: u32) \<noteq> n
              then None
              else map_option Some (trace_from_bytes (drop AI_RESPONSE_EXT_HEADER_LEN rest)))"

definition parse_extension :: "bytes \<Rightarrow> (bytes \<times> TraceCommitment option) option" where
  "parse_extension ext =
     (if length ext < AI_RESPONSE_EXT_HEADER_LEN \<or> ext ! 0 \<noteq> AI_RESPONSE_EXT_PRIVATE_BODY then None
      else let len = unat (from_le (slice 1 5 ext) :: u32); body_end = AI_RESPONSE_EXT_HEADER_LEN + len
           in if len = 0 \<or> len > MAX_AI_RESPONSE_PRIVATE_BODY_LEN \<or> body_end > length ext then None
              else map_option (\<lambda>trace. (slice AI_RESPONSE_EXT_HEADER_LEN body_end ext, trace))
                     (parse_trace_extension (drop body_end ext)))"

definition deserialize_response :: "bytes \<Rightarrow> AiResponsePayload option" where
  "deserialize_response data =
     (let has_responder = length data \<ge> AI_RESPONSE_PAYLOAD_V2_LEN; has_extension = length data > AI_RESPONSE_PAYLOAD_V2_LEN
      in if \<not> has_responder \<and> length data \<noteq> AI_RESPONSE_PAYLOAD_LEN then None
         else let responder = (if has_responder
                    then Some \<lparr>escrow_pubkey = slice 78 110 data, signature = slice 110 174 data\<rparr> else None)
              in map_option (\<lambda>(private_body, trace).
                     \<lparr>rs_request_hash = slice 0 32 data, rs_challenge_window_end = from_le (slice 32 40 data),
                      rs_response_ipfs_cid = slice 40 74 data, rs_response_length = from_le (slice 74 78 data),
                      rs_responder = responder, rs_private_body = private_body, rs_trace = trace\<rparr>)
                   (if has_extension
                    then map_option (\<lambda>(body, trace). (Some body, trace)) (parse_extension (drop AI_RESPONSE_PAYLOAD_V2_LEN data))
                    else Some (None, None)))"

definition response_from_hex :: "(string \<Rightarrow> bytes option) \<Rightarrow> string \<Rightarrow> AiResponsePayload option" where
  "response_from_hex hex_decode payload_hex = Option.bind (hex_decode payload_hex) deserialize_response"

subsection \<open>Challenges\<close>

record AiChallengePayload =
  ch_response_hash :: bytes
  ch_challenger_deposit :: u64
  ch_challenger_spk_version :: u16
  ch_challenger_spk :: bytes
  ch_proof_data :: bytes

definition serialize_challenge :: "AiChallengePayload \<Rightarrow> bytes" where
  "serialize_challenge p = ch_response_hash p @ le_bytes 8 (ch_challenger_deposit p) @ le_bytes 2 (ch_challenger_spk_version p) @
     ch_challenger_spk p @ ch_proof_data p"

definition deserialize_challenge :: "bytes \<Rightarrow> AiChallengePayload option" where
  "deserialize_challenge data =
     (if length data < MIN_AI_CHALLENGE_PAYLOAD_LEN \<or> length data > MAX_AI_CHALLENGE_PAYLOAD_LEN then None
      else Some \<lparr>ch_response_hash = slice 0 32 data, ch_challenger_deposit = from_le (slice 32 40 data),
                 ch_challenger_spk_version = from_le (slice 40 42 data), ch_challenger_spk = slice 42 74 data,
                 ch_proof_data = drop 74 data\<rparr>)"

definition challenge_from_hex :: "(string \<Rightarrow> bytes option) \<Rightarrow> string \<Rightarrow> AiChallengePayload option" where
  "challenge_from_hex hex_decode payload_hex = Option.bind (hex_decode payload_hex) deserialize_challenge"

subsection \<open>Base58\<close>

definition ALPHABET :: string where
  "ALPHABET = ''123456789ABCDEFGHJKLMNPQRSTUVWXYZabcdefghijkmnopqrstuvwxyz''"

text \<open>The inner loop over the digits: \<open>carry += d << 8; d = carry % 58; carry /= 58\<close>.\<close>

primrec digit_pass :: "nat \<Rightarrow> nat list \<Rightarrow> nat list \<times> nat" where
  "digit_pass carry [] = ([], carry)"
| "digit_pass carry (d # ds) =
     (let c = carry + d * 2 ^ 8; (ds', carry') = digit_pass (c div 58) ds in (c mod 58 # ds', carry'))"

fun push_carry :: "nat \<Rightarrow> nat list" where
  "push_carry carry = (if carry > 0 then carry mod 58 # push_carry (carry div 58) else [])"

declare push_carry.simps [simp del]

definition push_byte :: "u8 \<Rightarrow> nat list \<Rightarrow> nat list" where
  "push_byte byte digits = (let (ds, carry) = digit_pass (unat byte) digits in ds @ push_carry carry)"

definition base58btc_encode :: "bytes \<Rightarrow> string" where
  "base58btc_encode input =
     (let digits = fold push_byte input [0]; leading_zeros = length (takeWhile (\<lambda>b. b = 0) input)
      in replicate leading_zeros (CHR ''1'') @ map (\<lambda>d. ALPHABET ! d) (rev digits))"

definition cid_v0 :: "AiResponsePayload \<Rightarrow> string" where
  "cid_v0 p = base58btc_encode (rs_response_ipfs_cid p)"

section \<open>The layouts\<close>

definition typed_request :: "AiRequestPayload \<Rightarrow> bool" where
  "typed_request p \<longleftrightarrow> length (rq_model_id p) = 32"

definition typed_trace :: "TraceCommitment \<Rightarrow> bool" where
  "typed_trace t \<longleftrightarrow> length (trace_root t) = 32 \<and> (case tokens_root t of Some r \<Rightarrow> length r = 32 | None \<Rightarrow> True)"

definition typed_response :: "AiResponsePayload \<Rightarrow> bool" where
  "typed_response p \<longleftrightarrow> length (rs_request_hash p) = 32 \<and> length (rs_response_ipfs_cid p) = 34 \<and>
     (case rs_responder p of Some r \<Rightarrow> length (escrow_pubkey r) = 32 \<and> length (signature r) = 64 | None \<Rightarrow> True) \<and>
     (case rs_trace p of Some t \<Rightarrow> typed_trace t | None \<Rightarrow> True)"

definition typed_challenge :: "AiChallengePayload \<Rightarrow> bool" where
  "typed_challenge p \<longleftrightarrow> length (ch_response_hash p) = 32 \<and> length (ch_challenger_spk p) = 32"

text \<open>An inline body is non-empty, bounded and only in a payload with a responder; a trace follows a body.\<close>

definition canonical_response :: "AiResponsePayload \<Rightarrow> bool" where
  "canonical_response p \<longleftrightarrow>
     (case rs_private_body p of
        Some body \<Rightarrow> rs_responder p \<noteq> None \<and> 0 < length body \<and> length body \<le> MAX_AI_RESPONSE_PRIVATE_BODY_LEN
      | None \<Rightarrow> rs_trace p = None)"

lemma request_parse: "typed_request p \<Longrightarrow> length (rq_prompt p) \<le> 65484 \<Longrightarrow> deserialize_request (serialize_request p) = Some p"
  by (simp add: deserialize_request_def serialize_request_def header_bytes_def header_bytes_of_def typed_request_def
      ai_consts layout_simps from_le_bytes)

lemma request_print: "deserialize_request d = Some p \<Longrightarrow> serialize_request p = d \<and> typed_request p \<and> length (rq_prompt p) \<le> 65484"
  by (auto simp: deserialize_request_def serialize_request_def header_bytes_def header_bytes_of_def typed_request_def
      ai_consts le_slice slice_joins split: if_splits)

lemma challenge_parse: "typed_challenge p \<Longrightarrow> length (ch_proof_data p) \<le> 32694 \<Longrightarrow> deserialize_challenge (serialize_challenge p) = Some p"
  by (simp add: deserialize_challenge_def serialize_challenge_def typed_challenge_def ai_consts layout_simps from_le_bytes)

lemma challenge_print: "deserialize_challenge d = Some p \<Longrightarrow> serialize_challenge p = d \<and> typed_challenge p \<and> length (ch_proof_data p) \<le> 32694"
  by (auto simp: deserialize_challenge_def serialize_challenge_def typed_challenge_def ai_consts le_slice slice_joins split: if_splits)

lemma trace_parse: "typed_trace t \<Longrightarrow> trace_from_bytes (trace_to_bytes t) = Some t"
  by (auto simp: trace_from_bytes_def trace_to_bytes_def typed_trace_def ai_consts layout_simps from_le_bytes nth_append split: option.splits)

lemma length_trace: "typed_trace t \<Longrightarrow> length (trace_to_bytes t) = trace_len t"
  by (auto simp: trace_to_bytes_def typed_trace_def trace_len_def ai_consts split: option.splits)

lemma trace_print: "trace_from_bytes b = Some t \<Longrightarrow> trace_to_bytes t = b \<and> typed_trace t"
proof -
  assume t: "trace_from_bytes b = Some t"
  then have len: "length b = 41 \<or> length b = 73" by (auto simp: trace_from_bytes_def ai_consts split: if_splits)
  have d: "b ! 40 # drop 41 b = drop 40 b" using len Cons_nth_drop_Suc [of 40 b] by auto
  have "slice 41 73 b = drop 41 b" if "length b = 73" using that by (simp add: slice_def)
  moreover have "[b ! 40] = drop 40 b" if "length b = 41" using that d by simp
  ultimately show ?thesis
    using t len d by (auto simp: trace_from_bytes_def trace_to_bytes_def typed_trace_def ai_consts le_slice slice_joins split: if_splits)
qed

lemma trace_extension_parse:
  assumes "typed_trace t"
  shows "parse_trace_extension ([AI_RESPONSE_EXT_TRACE] @ le_bytes 4 (word_of_nat (trace_len t) :: u32) @ trace_to_bytes t) = Some (Some t)"
proof -
  have len: "trace_len t = 41 \<or> trace_len t = 73" by (simp add: trace_len_def ai_consts)
  then have "unat (word_of_nat (trace_len t) :: u32) = trace_len t" by auto
  with len show ?thesis
    using trace_parse [OF assms] length_trace [OF assms]
    by (auto simp: parse_trace_extension_def ai_consts Let_def layout_simps from_le_bytes)
qed

lemma header_split:
  assumes "5 \<le> length ext"
  shows "ext = [ext ! 0] @ slice 1 5 ext @ drop 5 ext" "ext \<noteq> []"
proof -
  have "slice 1 5 ext @ drop 5 ext = drop 1 ext" by (simp add: slice_joins)
  then show "ext = [ext ! 0] @ slice 1 5 ext @ drop 5 ext" using assms by (cases ext) auto
  show "ext \<noteq> []" using assms by auto
qed

lemma trace_extension_print:
  assumes "parse_trace_extension rest = Some tr"
  shows "rest = (case tr of Some t \<Rightarrow> [AI_RESPONSE_EXT_TRACE] @ le_bytes 4 (word_of_nat (trace_len t) :: u32) @ trace_to_bytes t
      | None \<Rightarrow> []) \<and> (case tr of Some t \<Rightarrow> typed_trace t | None \<Rightarrow> True)"
proof (cases "rest = []")
  case False
  then have five: "5 \<le> length rest" and hd: "rest ! 0 = AI_RESPONSE_EXT_TRACE"
    and n: "unat (from_le (slice 1 5 rest) :: u32) = length rest - 5"
    and tr: "map_option Some (trace_from_bytes (drop 5 rest)) = Some tr"
    using assms by (auto simp: parse_trace_extension_def ai_consts Let_def split: if_splits)
  then obtain t where t: "tr = Some t" "trace_from_bytes (drop 5 rest) = Some t" by auto
  note p = trace_print [OF t(2)]
  have "length (trace_to_bytes t) = trace_len t" using length_trace p by blast
  then have "trace_len t = unat (from_le (slice 1 5 rest) :: u32)" using n p by auto
  then have "word_of_nat (trace_len t) = (from_le (slice 1 5 rest) :: u32)" by simp
  then have "le_bytes 4 (word_of_nat (trace_len t) :: u32) = slice 1 5 rest"
    using five by (simp add: le_slice)
  with header_split [OF five] hd t(1) p show ?thesis by simp
qed (use assms in \<open>simp add: parse_trace_extension_def\<close>)

lemma extension_parse:
  assumes "typed_response p" and "canonical_response p" and "rs_private_body p = Some body"
  shows "parse_extension (extension_bytes p) = Some (body, rs_trace p)"
proof -
  define rest where "rest = (case rs_trace p of
      Some t \<Rightarrow> [AI_RESPONSE_EXT_TRACE] @ le_bytes 4 (word_of_nat (trace_len t) :: u32) @ trace_to_bytes t | None \<Rightarrow> [])"
  have rest: "parse_trace_extension rest = Some (rs_trace p)"
    using trace_extension_parse assms(1)
    by (cases "rs_trace p") (auto simp: rest_def typed_response_def parse_trace_extension_def)
  have b: "0 < length body" "length body \<le> 49152" using assms(2,3) by (auto simp: canonical_response_def ai_consts)
  then have "unat (word_of_nat (length body) :: u32) = length body" by (simp add: unat_of_nat)
  moreover have "extension_bytes p = AI_RESPONSE_EXT_PRIVATE_BODY # le_bytes 4 (word_of_nat (length body) :: u32) @ body @ rest"
    by (simp add: extension_bytes_def assms(3) rest_def)
  moreover have "drop (5 + length body) (AI_RESPONSE_EXT_PRIVATE_BODY # le_bytes 4 (word_of_nat (length body) :: u32) @ body @ rest) = rest"
    by (simp add: numeral_eq_Suc)
  ultimately show ?thesis
    using b rest by (simp add: parse_extension_def ai_consts Let_def layout_simps from_le_bytes)
qed

lemma extension_print:
  assumes "parse_extension ext = Some (body, tr)"
  shows "extension_bytes (p\<lparr>rs_private_body := Some body, rs_trace := tr\<rparr>) = ext \<and> 0 < length body \<and>
    length body \<le> MAX_AI_RESPONSE_PRIVATE_BODY_LEN \<and> (case tr of Some t \<Rightarrow> typed_trace t | None \<Rightarrow> True)"
proof -
  define len where "len = unat (from_le (slice 1 5 ext) :: u32)"
  have five: "5 \<le> length ext" and hd: "ext ! 0 = AI_RESPONSE_EXT_PRIVATE_BODY"
    and len: "0 < len" "len \<le> MAX_AI_RESPONSE_PRIVATE_BODY_LEN" "5 + len \<le> length ext" "body = slice 5 (5 + len) ext"
    and tr: "parse_trace_extension (drop (5 + len) ext) = Some tr"
    using assms by (auto simp: parse_extension_def AI_RESPONSE_EXT_HEADER_LEN_def Let_def len_def split: if_splits)
  have b: "length body = len" using len by simp
  then have "le_bytes 4 (word_of_nat (length body) :: u32) = slice 1 5 ext" using five by (simp add: len_def le_slice)
  moreover have "body @ drop (5 + len) ext = drop 5 ext" using len(4) by (simp add: slice_joins)
  ultimately show ?thesis
    using header_split [OF five] hd trace_extension_print [OF tr] len b by (simp add: extension_bytes_def)
qed

lemma response_parse:
  assumes "typed_response p" and "canonical_response p"
  shows "deserialize_response (serialize_response p) = Some p"
proof -
  have lens: "length (rs_request_hash p) = 32" "length (rs_response_ipfs_cid p) = 34"
    using assms(1) by (auto simp: typed_response_def)
  show ?thesis
  proof (cases "rs_responder p")
    case None
    then have "rs_private_body p = None" "rs_trace p = None"
      using assms(2) by (auto simp: canonical_response_def split: option.splits)
    then show ?thesis
      using lens None
      by (simp add: deserialize_response_def serialize_response_def v1_bytes_def extension_bytes_def ai_consts layout_simps from_le_bytes)
  next
    case (Some r)
    then have r: "length (escrow_pubkey r) = 32" "length (signature r) = 64" using assms(1) by (auto simp: typed_response_def)
    show ?thesis
    proof (cases "rs_private_body p")
      case None
      then have "rs_trace p = None" using assms(2) by (simp add: canonical_response_def)
      then show ?thesis
        using lens r Some None
        by (simp add: deserialize_response_def serialize_response_def v1_bytes_def extension_bytes_def ai_consts layout_simps from_le_bytes)
    next
      case (Some body)
      note ext = extension_parse [OF assms Some]
      have ne: "extension_bytes p \<noteq> []" by (simp add: extension_bytes_def Some)
      show ?thesis
        using lens r ext ne \<open>rs_responder p = Some r\<close> Some
        by (simp add: deserialize_response_def serialize_response_def v1_bytes_def ai_consts layout_simps from_le_bytes)
    qed
  qed
qed

lemma response_print:
  assumes "deserialize_response d = Some p"
  shows "serialize_response p = d \<and> typed_response p \<and> canonical_response p"
proof -
  have head: "v1_bytes p = take 78 d" "typed_response (p\<lparr>rs_responder := None, rs_trace := None\<rparr>)" if "78 \<le> length d"
    using assms that
    by (auto simp: deserialize_response_def v1_bytes_def typed_response_def Let_def le_slice slice_joins slice_slice_append slice_zero take_slice_append
        split: if_splits)
  consider (v1) "length d = 78" | (v2) "length d = 174" | (ext) "174 < length d"
    using assms by (fastforce simp: deserialize_response_def ai_consts Let_def split: if_splits)
  then show ?thesis
  proof cases
    case v1
    then show ?thesis
      using assms
      by (auto simp: deserialize_response_def serialize_response_def v1_bytes_def typed_response_def canonical_response_def
          extension_bytes_def ai_consts Let_def le_slice slice_joins slice_slice_append slice_zero take_slice_append)
  next
    case v2
    then show ?thesis
      using assms
      by (auto simp: deserialize_response_def serialize_response_def v1_bytes_def typed_response_def canonical_response_def
          extension_bytes_def ai_consts Let_def le_slice slice_joins slice_slice_append slice_zero take_slice_append)
  next
    case ext
    then obtain body tr where bt: "parse_extension (drop 174 d) = Some (body, tr)"
      "rs_private_body p = Some body" "rs_trace p = tr"
      "rs_responder p = Some \<lparr>escrow_pubkey = slice 78 110 d, signature = slice 110 174 d\<rparr>"
      using assms by (auto simp: deserialize_response_def ai_consts Let_def)
    have e: "extension_bytes p = drop 174 d" "0 < length body" "length body \<le> MAX_AI_RESPONSE_PRIVATE_BODY_LEN"
      "case tr of Some t \<Rightarrow> typed_trace t | None \<Rightarrow> True"
      using extension_print [OF bt(1), of p] bt(2,3) by (cases p, simp)+
    have "take 78 d @ slice 78 110 d @ slice 110 174 d @ drop 174 d = d" by (simp add: slice_joins)
    then show ?thesis
      using head ext bt e by (simp add: serialize_response_def typed_response_def canonical_response_def)
  qed
qed

lemma length_v1: "typed_response p \<Longrightarrow> length (v1_bytes p) = 78"
  by (simp add: v1_bytes_def typed_response_def)

section \<open>Base58\<close>

primrec base58_value :: "nat list \<Rightarrow> nat" where
  "base58_value [] = 0"
| "base58_value (d # ds) = d + 58 * base58_value ds"

definition be_value :: "bytes \<Rightarrow> nat" where
  "be_value bs = fold (\<lambda>b v. v * 256 + unat b) bs 0"

lemma base58_value_append: "base58_value (xs @ ys) = base58_value xs + 58 ^ length xs * base58_value ys"
  by (induction xs) (auto simp: algebra_simps)

lemma digit_pass_value:
  "digit_pass c ds = (ds', c') \<Longrightarrow>
   base58_value ds' + 58 ^ length ds * c' = base58_value ds * 256 + c \<and> length ds' = length ds \<and> (\<forall>d \<in> set ds'. d < 58)"
proof (induction ds arbitrary: c ds' c')
  case (Cons d ds)
  obtain es e where es: "digit_pass ((c + d * 256) div 58) ds = (es, e)" by fastforce
  with Cons.prems have ds': "ds' = (c + d * 256) mod 58 # es" "c' = e" by (auto simp: Let_def)
  have ih: "base58_value es + 58 ^ length ds * e = base58_value ds * 256 + (c + d * 256) div 58"
    "length es = length ds" "\<forall>d \<in> set es. d < 58" using Cons.IH [OF es] by auto
  have "base58_value ds' + 58 ^ length (d # ds) * c' = (c + d * 256) mod 58 + 58 * (base58_value es + 58 ^ length ds * e)"
    by (simp add: ds' algebra_simps)
  also have "\<dots> = c + d * 256 + 58 * (base58_value ds * 256)"
    unfolding ih(1) by (simp add: algebra_simps)
  finally show ?case using ih(2,3) by (simp add: ds' algebra_simps)
qed simp

lemma push_carry_value: "base58_value (push_carry c) = c" "d \<in> set (push_carry c) \<Longrightarrow> d < 58"
  "push_carry c = [] \<longleftrightarrow> c = 0" "c \<noteq> 0 \<Longrightarrow> last (push_carry c) \<noteq> 0"
proof (induction c rule: push_carry.induct)
  case (1 c)
  { case 1 then show ?case using "1.IH"(1) by (subst push_carry.simps) simp
  next
    case 2 then show ?case using "1.IH"(2) by (subst (asm) push_carry.simps) (auto split: if_splits)
  next
    case 3 then show ?case by (subst push_carry.simps) simp
  next
    case 4
    then show ?case using "1.IH"(3,4) by (subst push_carry.simps) (auto simp: div_eq_0_iff) }
qed

text \<open>The invariant of the digits: their value, their range, and no superfluous top digit.\<close>

definition digits_ok :: "nat \<Rightarrow> nat list \<Rightarrow> bool" where
  "digits_ok v ds \<longleftrightarrow> base58_value ds = v \<and> (\<forall>d \<in> set ds. d < 58) \<and> ds \<noteq> [] \<and> (v = 0 \<longrightarrow> ds = [0]) \<and> (v \<noteq> 0 \<longrightarrow> last ds \<noteq> 0)"

lemma base58_value_less: "\<forall>d \<in> set ds. d < 58 \<Longrightarrow> base58_value ds < 58 ^ length ds"
  by (induction ds) auto

lemma base58_value_ge: "ds \<noteq> [] \<Longrightarrow> last ds \<noteq> 0 \<Longrightarrow> 58 ^ (length ds - 1) \<le> base58_value ds"
proof (induction ds)
  case (Cons d ds)
  show ?case
  proof (cases "ds = []")
    case False
    then have "58 * 58 ^ (length ds - 1) \<le> 58 * base58_value ds" using Cons by simp
    moreover have "(58 :: nat) * 58 ^ (length ds - 1) = 58 ^ length ds" using False by (cases ds) auto
    ultimately show ?thesis by simp
  qed (use Cons in simp)
qed simp

lemma digits_ok_push:
  assumes "digits_ok v ds"
  shows "digits_ok (v * 256 + unat b) (push_byte b ds)"
proof -
  obtain es c where es: "digit_pass (unat b) ds = (es, c)" by fastforce
  have p: "base58_value es + 58 ^ length ds * c = v * 256 + unat b" "length es = length ds" "\<forall>d \<in> set es. d < 58"
    using digit_pass_value [OF es] assms by (auto simp: digits_ok_def)
  have push: "push_byte b ds = es @ push_carry c" by (simp add: push_byte_def es)
  have val: "base58_value (push_byte b ds) = v * 256 + unat b" using p(1,2) by (simp add: push base58_value_append push_carry_value(1))
  have rng: "\<forall>d \<in> set (push_byte b ds). d < 58" using p(3) push_carry_value(2) by (auto simp: push)
  have ne: "ds \<noteq> []" using assms by (simp add: digits_ok_def)
  have top: "last (push_byte b ds) \<noteq> 0" if "c \<noteq> 0" using that push_carry_value(3,4) by (simp add: push)
  show ?thesis
  proof (cases "v = 0")
    case True
    then have ds: "ds = [0]" using assms by (simp add: digits_ok_def)
    then have "es = [unat b mod 58]" "c = unat b div 58" using es by (auto simp: Let_def)
    then have "unat b = 0 \<longrightarrow> push_byte b ds = [0]" "c = 0 \<Longrightarrow> unat b \<noteq> 0 \<Longrightarrow> last (push_byte b ds) \<noteq> 0"
      by (auto simp: push push_carry.simps [of 0] div_eq_0_iff)
    then show ?thesis using val rng top ne p(2) True by (auto simp: digits_ok_def push)
  next
    case False
    then have "58 ^ (length ds - 1) \<le> v" using assms base58_value_ge by (auto simp: digits_ok_def)
    then have "58 ^ (length ds - 1) * 256 \<le> v * 256 + unat b" by simp
    moreover have "(58 :: nat) ^ length ds \<le> 58 ^ (length ds - 1) * 256" using ne by (cases ds) auto
    ultimately have "58 ^ length ds \<le> base58_value es + 58 ^ length ds * c" using p(1) by linarith
    then have "c \<noteq> 0" using base58_value_less [OF p(3)] p(2) by (cases "c = 0") simp_all
    then show ?thesis using val rng top ne p(2) False by (auto simp: digits_ok_def push)
  qed
qed

lemma be_value_snoc: "be_value (bs @ [b]) = be_value bs * 256 + unat b"
  by (simp add: be_value_def)

lemma be_value_rev: "be_value bs = le_value (rev bs)"
  by (induction bs rule: rev_induct) (simp_all add: be_value_snoc, simp add: be_value_def)

lemma encode_digits: "digits_ok (be_value bs) (fold push_byte bs [0])"
  by (induction bs rule: rev_induct) (auto simp: be_value_snoc intro: digits_ok_push, simp add: digits_ok_def be_value_def)

lemma le_value_inj: "length xs = length ys \<Longrightarrow> le_value xs = le_value ys \<Longrightarrow> xs = ys"
proof (induction xs ys rule: list_induct2)
  case (Cons x xs y ys)
  have "unat x = (unat x + 256 * le_value xs) mod 256" "unat y = (unat y + 256 * le_value ys) mod 256"
    using unat_u8_lt [of x] unat_u8_lt [of y] by auto
  with Cons.prems have "unat x = unat y" by simp
  with Cons show ?case by (simp add: word_unat_eq_iff)
qed simp

lemma le_value_ge: "xs \<noteq> [] \<Longrightarrow> last xs \<noteq> 0 \<Longrightarrow> 256 ^ (length xs - 1) \<le> le_value xs"
proof (induction xs)
  case (Cons x xs)
  show ?case
  proof (cases "xs = []")
    case True
    with Cons.prems have "unat x \<noteq> 0" by (simp add: word_unat_eq_iff)
    with True show ?thesis by simp
  next
    case False
    then have "256 * 256 ^ (length xs - 1) \<le> 256 * le_value xs" using Cons by simp
    moreover have "(256 :: nat) * 256 ^ (length xs - 1) = 256 ^ length xs" using False by (cases xs) auto
    ultimately show ?thesis by simp
  qed
qed simp

text \<open>Two numbers without leading zero bytes are equal only if their bytes are.\<close>

lemma be_value_canonical_inj:
  assumes "xs = [] \<or> hd xs \<noteq> 0" and "ys = [] \<or> hd ys \<noteq> 0" and eq: "be_value xs = be_value ys"
  shows "xs = ys"
proof -
  have len: "length xs \<le> length ys" if "be_value xs = be_value ys" "xs = [] \<or> hd xs \<noteq> 0" for xs ys
  proof (rule ccontr)
    assume l: "\<not> length xs \<le> length ys"
    then have "xs \<noteq> []" by auto
    then have "256 ^ (length xs - 1) \<le> be_value xs"
      using that(2) le_value_ge [of "rev xs"] by (simp add: be_value_rev last_rev)
    moreover have "be_value ys < 256 ^ length ys" using le_value_less [of "rev ys"] by (simp add: be_value_rev)
    moreover have "(256 :: nat) ^ length ys \<le> 256 ^ (length xs - 1)" using l by (intro power_increasing) auto
    ultimately show False using that(1) by linarith
  qed
  from len [OF eq assms(1)] len [OF eq [symmetric] assms(2)] have "length xs = length ys" by simp
  then have "rev xs = rev ys" using eq by (intro le_value_inj) (auto simp: be_value_rev)
  then show ?thesis by simp
qed

lemma be_value_zeros: "be_value (replicate n 0 @ bs) = be_value bs"
  by (induction n) (simp_all add: be_value_rev le_value_append)

lemma alphabet_inj: "d < 58 \<Longrightarrow> e < 58 \<Longrightarrow> ALPHABET ! d = ALPHABET ! e \<longleftrightarrow> d = e"
proof -
  have "distinct ALPHABET" "length ALPHABET = 58" by (simp_all add: ALPHABET_def)
  then show "d < 58 \<Longrightarrow> e < 58 \<Longrightarrow> ALPHABET ! d = ALPHABET ! e \<longleftrightarrow> d = e" by (simp add: nth_eq_iff_index_eq)
qed

lemma alphabet_one: "d < 58 \<Longrightarrow> ALPHABET ! d = CHR ''1'' \<longleftrightarrow> d = 0"
  using alphabet_inj [of d 0] by (simp add: ALPHABET_def)

text \<open>The text splits into its ones and the digits from the first non-zero one on.\<close>

definition zeros :: "bytes \<Rightarrow> nat" where "zeros bs = length (takeWhile (\<lambda>b. b = 0) bs)"

lemma zeros_split: "bs = replicate (zeros bs) 0 @ dropWhile (\<lambda>b. b = 0) bs"
proof -
  have "takeWhile (\<lambda>b. b = 0) bs = replicate (zeros bs) 0"
    unfolding zeros_def by (rule replicate_eqI) (auto dest: set_takeWhileD)
  then show ?thesis by (metis takeWhile_dropWhile_id)
qed

lemma be_value_drop_zeros: "be_value (dropWhile (\<lambda>b. b = 0) bs) = be_value bs"
  by (metis be_value_zeros zeros_split)

lemma hd_drop_zeros: "dropWhile (\<lambda>b. b = 0) bs = [] \<or> hd (dropWhile (\<lambda>b. b = 0) bs) \<noteq> 0"
  using hd_dropWhile [of "\<lambda>b. b = 0" bs] by blast

lemma be_value_0: "be_value bs = 0 \<longleftrightarrow> dropWhile (\<lambda>b. b = 0) bs = []"
proof
  assume "be_value bs = 0"
  then have "be_value (dropWhile (\<lambda>b. b = 0) bs) = be_value []" by (simp add: be_value_drop_zeros) (simp add: be_value_def)
  then show "dropWhile (\<lambda>b. b = 0) bs = []"
    by (intro be_value_canonical_inj hd_drop_zeros) simp_all
next
  assume "dropWhile (\<lambda>b. b = 0) bs = []"
  then show "be_value bs = 0" by (metis be_value_drop_zeros be_value_def fold_simps(1))
qed

lemma encode_split:
  defines "one \<equiv> \<lambda>c. c = CHR ''1''"
  shows "dropWhile one (base58btc_encode bs) =
      (if be_value bs = 0 then [] else map (\<lambda>d. ALPHABET ! d) (rev (fold push_byte bs [0])))"
    and "length (takeWhile one (base58btc_encode bs)) = (if be_value bs = 0 then Suc (zeros bs) else zeros bs)"
proof -
  let ?ds = "fold push_byte bs [0]"
  have ok: "digits_ok (be_value bs) ?ds" by (rule encode_digits)
  have enc: "base58btc_encode bs = replicate (zeros bs) (CHR ''1'') @ map (\<lambda>d. ALPHABET ! d) (rev ?ds)"
    by (simp add: base58btc_encode_def zeros_def)
  have top: "map (\<lambda>d. ALPHABET ! d) (rev ?ds) = (ALPHABET ! last ?ds) # map (\<lambda>d. ALPHABET ! d) (tl (rev ?ds))" "last ?ds < 58"
    using ok last_in_set [of ?ds] by (auto simp: digits_ok_def hd_rev [symmetric] simp flip: list.map(2))
  show "dropWhile one (base58btc_encode bs) =
      (if be_value bs = 0 then [] else map (\<lambda>d. ALPHABET ! d) (rev ?ds))"
    using ok top by (auto simp: enc one_def digits_ok_def dropWhile_append alphabet_one split: if_splits)
  show "length (takeWhile one (base58btc_encode bs)) = (if be_value bs = 0 then Suc (zeros bs) else zeros bs)"
    using ok top by (auto simp: enc one_def digits_ok_def takeWhile_append alphabet_one split: if_splits)
qed

section \<open>Properties\<close>

text \<open>C31: the response format is canonical: every payload that respects the rules of the inline body is
  decoded from its encoding, and an accepted byte string is exactly the encoding of the payload it is
  decoded to, which respects the rules; nothing else is accepted and no byte is ignored.\<close>

theorem response_codec:
  "(typed_response p \<and> canonical_response p \<longrightarrow> deserialize_response (serialize_response p) = Some p) \<and>
   (deserialize_response d = Some q \<longrightarrow> serialize_response q = d \<and> typed_response q \<and> canonical_response q)"
  using response_parse response_print by blast

definition sample_response :: AiResponsePayload where
  "sample_response = \<lparr>rs_request_hash = replicate 32 7, rs_challenge_window_end = 9, rs_response_ipfs_cid = [0x12, 0x20] @ replicate 32 1,
     rs_response_length = 3, rs_responder = Some \<lparr>escrow_pubkey = replicate 32 2, signature = replicate 64 3\<rparr>,
     rs_private_body = Some [1, 2, 3],
     rs_trace = Some \<lparr>trace_root = replicate 32 4, n_prompt = 5, n_pos = 6, stage = 1, tokens_root = None\<rparr>\<rparr>"

lemma sample_ok: "typed_response sample_response \<and> canonical_response sample_response"
  by (simp add: sample_response_def typed_response_def typed_trace_def canonical_response_def ai_consts)

theorem response_codec_witness:
  "deserialize_response (serialize_response sample_response) = Some sample_response \<and>
   serialize_response sample_response = serialize_response sample_response"
  using response_codec [of sample_response "serialize_response sample_response" sample_response] sample_ok by simp

text \<open>C32: the responder's signature binds the whole answer: two canonical payloads with the same signed
  bytes agree in every field but the responder, so neither the body nor the trace commitment can be
  exchanged under a signed head.\<close>

theorem signed_bytes_bind:
  assumes "typed_response p" and "canonical_response p" and "typed_response q" and "canonical_response q"
    and "signed_bytes p = signed_bytes q"
  shows "q = p\<lparr>rs_responder := rs_responder q\<rparr>"
proof -
  let ?r = "\<lparr>escrow_pubkey = replicate 32 0, signature = replicate 64 0\<rparr>"
  define p' q' where "p' = p\<lparr>rs_responder := Some ?r\<rparr>" and "q' = q\<lparr>rs_responder := Some ?r\<rparr>"
  have eq: "v1_bytes p = v1_bytes q" "extension_bytes p = extension_bytes q"
    using assms(5) length_v1 [OF assms(1)] length_v1 [OF assms(3)] by (auto simp: signed_bytes_def)
  have same: "v1_bytes p' = v1_bytes p" "v1_bytes q' = v1_bytes q" "extension_bytes p' = extension_bytes p" "extension_bytes q' = extension_bytes q"
    by (simp_all add: p'_def q'_def v1_bytes_def extension_bytes_def split: option.splits)
  have ok: "typed_response p'" "canonical_response p'" "typed_response q'" "canonical_response q'"
    using assms by (auto simp: p'_def q'_def typed_response_def canonical_response_def split: option.splits)
  have "serialize_response p' = serialize_response q'"
    using eq unfolding serialize_response_def same by (simp add: p'_def q'_def)
  then have "p' = q'" using response_parse ok by (metis option.inject)
  then show ?thesis by (simp add: p'_def q'_def) (metis AiResponsePayload.surjective AiResponsePayload.update_convs(5))
qed

theorem signed_bytes_bind_witness:
  "signed_bytes sample_response \<noteq> signed_bytes (with_private_body sample_response [1, 2, 4])"
proof
  assume eq: "signed_bytes sample_response = signed_bytes (with_private_body sample_response [1, 2, 4])"
  have "typed_response (with_private_body sample_response [1, 2, 4])" "canonical_response (with_private_body sample_response [1, 2, 4])"
    using sample_ok by (auto simp: with_private_body_def typed_response_def canonical_response_def ai_consts sample_response_def)
  from signed_bytes_bind [OF conjunct1 [OF sample_ok] conjunct2 [OF sample_ok] this eq]
  have "rs_private_body (with_private_body sample_response [1, 2, 4]) = rs_private_body sample_response"
    by (metis AiResponsePayload.ext_inject AiResponsePayload.surjective AiResponsePayload.update_convs(5))
  then show False by (simp add: with_private_body_def sample_response_def)
qed

text \<open>Requests and challenges round-trip: an accepted request or challenge is exactly the encoding of the
  payload it is decoded to, and every payload within the size limit is decoded from its encoding.\<close>

theorem request_challenge_codec:
  "(typed_request p \<and> length (rq_prompt p) + MIN_AI_REQUEST_PAYLOAD_LEN \<le> MAX_AI_REQUEST_PRIVATE_PAYLOAD_LEN \<longleftrightarrow>
     deserialize_request (serialize_request p) = Some p) \<and>
   (deserialize_request d = Some p \<longrightarrow> serialize_request p = d) \<and>
   (typed_challenge c \<and> length (ch_proof_data c) + MIN_AI_CHALLENGE_PAYLOAD_LEN \<le> MAX_AI_CHALLENGE_PAYLOAD_LEN \<longleftrightarrow>
     deserialize_challenge (serialize_challenge c) = Some c) \<and>
   (deserialize_challenge e = Some c \<longrightarrow> serialize_challenge c = e)"
proof -
  have a: "(length (rq_prompt p) + MIN_AI_REQUEST_PAYLOAD_LEN \<le> MAX_AI_REQUEST_PRIVATE_PAYLOAD_LEN) = (length (rq_prompt p) \<le> 65484)"
    and b: "(length (ch_proof_data c) + MIN_AI_CHALLENGE_PAYLOAD_LEN \<le> MAX_AI_CHALLENGE_PAYLOAD_LEN) = (length (ch_proof_data c) \<le> 32694)"
    by (auto simp: ai_consts)
  show ?thesis unfolding a b using request_parse request_print challenge_parse challenge_print by blast
qed

theorem request_challenge_codec_witness:
  "\<exists>p. rq_prompt p = [1, 2, 3] \<and> deserialize_request (serialize_request p) = Some p"
  using request_challenge_codec [of "\<lparr>rq_model_id = replicate 32 5, rq_max_tokens = 7, rq_inference_reward = 1, rq_priority_fee = 2, rq_prompt = [1, 2, 3]\<rparr>"]
  by (intro exI [of _ "\<lparr>rq_model_id = replicate 32 5, rq_max_tokens = 7, rq_inference_reward = 1, rq_priority_fee = 2, rq_prompt = [1, 2, 3]\<rparr>"])
    (simp add: typed_request_def ai_consts)

text \<open>The text form of a content id loses nothing: two byte strings with the same base58 text are equal;
  the digits after the leading ones are those of the big-endian number in base 58, each below 58.\<close>

theorem base58_faithful:
  "(base58btc_encode x = base58btc_encode y \<longleftrightarrow> x = y) \<and>
   base58_value (fold push_byte x [0]) = be_value x \<and> list_all (\<lambda>d. d < 58) (fold push_byte x [0])"
proof -
  have "x = y" if eq: "base58btc_encode x = base58btc_encode y"
  proof -
    have nz: "be_value x = 0 \<longleftrightarrow> be_value y = 0"
      using encode_split(1) [of x] encode_split(1) [of y] encode_digits [of x] encode_digits [of y] eq
      by (auto simp: digits_ok_def split: if_splits)
    then have z: "zeros x = zeros y"
      using encode_split(2) [of x] encode_split(2) [of y] eq by (auto split: if_splits)
    have "be_value x = be_value y"
    proof (cases "be_value x = 0")
      case False
      have "map (\<lambda>d. ALPHABET ! d) (rev (fold push_byte x [0])) = map (\<lambda>d. ALPHABET ! d) (rev (fold push_byte y [0]))"
        using encode_split(1) [of x] encode_split(1) [of y] eq nz False by simp
      moreover have "inj_on (\<lambda>d. ALPHABET ! d) (set (rev (fold push_byte x [0])) \<union> set (rev (fold push_byte y [0])))"
        using encode_digits [of x] encode_digits [of y] alphabet_inj by (auto simp: digits_ok_def inj_on_def)
      ultimately have "fold push_byte x [0] = fold push_byte y [0]" by (auto simp: inj_on_map_eq_map)
      then show ?thesis using encode_digits [of x] encode_digits [of y] by (simp add: digits_ok_def)
    qed (use nz in simp)
    then have "dropWhile (\<lambda>b. b = 0) x = dropWhile (\<lambda>b. b = 0) y"
      by (intro be_value_canonical_inj hd_drop_zeros) (simp add: be_value_drop_zeros)
    then show ?thesis using zeros_split [of x] zeros_split [of y] z by metis
  qed
  then show ?thesis using encode_digits [of x] by (auto simp: digits_ok_def list_all_iff)
qed

end
