(* ===== verification/Private_Envelope.thy ===== *)
theory Private_Envelope
  imports Ai_Payload "HOL-Library.List_Lexorder" "HOL-Library.Monad_Syntax"
begin

text \<open>
  \<open>src/inference/src/private.rs\<close>: prompts encrypted to a cohort of responders and answers encrypted back. The
  envelopes, their strict parser, the two key schedules, and the sealing and opening of requests and responses.

  secp256k1, HMAC-SHA256 and ChaCha20-Poly1305 are parameters: a secret key is its 32 bytes, a point its 33 compressed bytes,
  of which the x-only key is the tail and the parity the first byte. Random bytes are the values of a sequence. Arrays are byte
  lists. A panic is \<open>None\<close>, an error \<open>Inl\<close>.

  The lemmas show that parsing accepts exactly the canonical envelopes, when sealing succeeds, and that what is sealed
  to a responder opens for it, and its answer for the requester.
\<close>

section \<open>Definitions\<close>

record crypto =
  c_hmac :: "bytes \<Rightarrow> bytes \<Rightarrow> bytes"
  c_encrypt :: "bytes \<Rightarrow> bytes \<Rightarrow> bytes \<Rightarrow> bytes \<Rightarrow> bytes option"
  c_decrypt :: "bytes \<Rightarrow> bytes \<Rightarrow> bytes \<Rightarrow> bytes \<Rightarrow> bytes option"
  c_secret_ok :: "bytes \<Rightarrow> bool"
  c_public :: "bytes \<Rightarrow> bytes"
  c_negate :: "bytes \<Rightarrow> bytes"
  c_ecdh :: "bytes \<Rightarrow> bytes \<Rightarrow> bytes"
  c_point_ok :: "bytes \<Rightarrow> bool"
  c_xonly_ok :: "bytes \<Rightarrow> bool"
  c_new_secret :: "(nat \<Rightarrow> u8) \<Rightarrow> bytes"

definition PRIVATE_MAGIC :: bytes where "PRIVATE_MAGIC = [0x00, 0x4b, 0x58, 0x50]"
definition PRIVATE_VERSION :: u8 where "PRIVATE_VERSION = 1"
definition MAX_PRIVATE_RECIPIENTS :: nat where "MAX_PRIVATE_RECIPIENTS = 128"
definition PRIVATE_NONCE_LEN :: nat where "PRIVATE_NONCE_LEN = 12"
definition PRIVATE_TAG_LEN :: nat where "PRIVATE_TAG_LEN = 16"
definition PRIVATE_ROOT_KEY_LEN :: nat where "PRIVATE_ROOT_KEY_LEN = 32"
definition PRIVATE_WRAPPED_KEY_LEN :: nat where "PRIVATE_WRAPPED_KEY_LEN = PRIVATE_ROOT_KEY_LEN + PRIVATE_TAG_LEN"
definition PRIVATE_RECIPIENT_ENTRY_LEN :: nat where "PRIVATE_RECIPIENT_ENTRY_LEN = 32 + PRIVATE_WRAPPED_KEY_LEN"
definition PRIVATE_REQUEST_HEADER_LEN :: nat where
  "PRIVATE_REQUEST_HEADER_LEN = length PRIVATE_MAGIC + 1 + 33 + PRIVATE_NONCE_LEN + 1"
definition PRIVATE_RESPONSE_HEADER_LEN :: nat where
  "PRIVATE_RESPONSE_HEADER_LEN = length PRIVATE_MAGIC + 1 + PRIVATE_NONCE_LEN"
definition SECRET_V2_TAG :: u8 where "SECRET_V2_TAG = 0x02"
definition INFO_ROOT :: bytes where "INFO_ROOT = ascii8 ''root''"
definition INFO_EPHEMERAL :: bytes where "INFO_EPHEMERAL = ascii8 ''ephemeral''"
definition INFO_KEK :: bytes where "INFO_KEK = ascii8 ''kek''"
definition INFO_PROMPT :: bytes where "INFO_PROMPT = ascii8 ''prompt''"
definition INFO_RESPONSE :: bytes where "INFO_RESPONSE = ascii8 ''response''"

lemmas private_lens = PRIVATE_MAGIC_def MAX_PRIVATE_RECIPIENTS_def PRIVATE_NONCE_LEN_def PRIVATE_TAG_LEN_def PRIVATE_ROOT_KEY_LEN_def
  PRIVATE_WRAPPED_KEY_LEN_def PRIVATE_RECIPIENT_ENTRY_LEN_def PRIVATE_REQUEST_HEADER_LEN_def PRIVATE_RESPONSE_HEADER_LEN_def

datatype KeySchedule = V1 | V2

fun schedule_salt :: "KeySchedule \<Rightarrow> bytes" where
  "schedule_salt V1 = ascii8 ''KeryxPrivateInferenceV1''"
| "schedule_salt V2 = ascii8 ''KeryxPrivateInferenceV2''"

datatype PrivateError =
    NotPrivate | Malformed string | TooManyRecipients nat | PromptTooLarge nat nat | InvalidKey | NotARecipient | Authentication

subsection \<open>Envelopes\<close>

record PrivateRecipient =
  pr_escrow_pubkey :: bytes
  pr_wrapped_root_key :: bytes

record PrivateRequestEnvelope =
  pe_ephemeral_pubkey :: bytes
  pe_nonce :: bytes
  pe_recipients :: "PrivateRecipient list"
  pe_ciphertext :: bytes

definition is_private :: "bytes \<Rightarrow> bool" where
  "is_private prompt \<longleftrightarrow> length prompt \<ge> length PRIVATE_MAGIC \<and> take (length PRIVATE_MAGIC) prompt = PRIVATE_MAGIC"

text \<open>The loop over the recipients: the numbers of those to come and the key before.\<close>

fun parse_recipients :: "crypto \<Rightarrow> bytes \<Rightarrow> nat list \<Rightarrow> bytes option \<Rightarrow> PrivateRecipient list \<Rightarrow> PrivateError + PrivateRecipient list" where
  "parse_recipients c prompt [] prev recipients = Inr recipients"
| "parse_recipients c prompt (i # ix) prev recipients =
     (let at = PRIVATE_REQUEST_HEADER_LEN + i * PRIVATE_RECIPIENT_ENTRY_LEN;
          key = slice at (at + 32) prompt
      in if \<not> c_xonly_ok c key then Inl InvalidKey
         else if (case prev of None \<Rightarrow> False | Some p \<Rightarrow> p \<ge> key) then Inl (Malformed ''recipients not strictly ascending'')
         else parse_recipients c prompt ix (Some key)
                (recipients @ [\<lparr>pr_escrow_pubkey = key,
                   pr_wrapped_root_key = slice (at + 32) (at + PRIVATE_RECIPIENT_ENTRY_LEN) prompt\<rparr>]))"

definition PrivateRequestEnvelope_parse :: "crypto \<Rightarrow> bytes \<Rightarrow> PrivateError + PrivateRequestEnvelope" where
  "PrivateRequestEnvelope_parse c prompt =
     (if \<not> is_private prompt then Inl NotPrivate
      else if length prompt < PRIVATE_REQUEST_HEADER_LEN then Inl (Malformed ''truncated header'')
      else if prompt ! 4 \<noteq> PRIVATE_VERSION then Inl (Malformed ''unsupported version'')
      else if \<not> c_point_ok c (slice 5 38 prompt) then Inl InvalidKey
      else
        let n = unat (prompt ! 50);
            entries_end = PRIVATE_REQUEST_HEADER_LEN + n * PRIVATE_RECIPIENT_ENTRY_LEN
        in if n = 0 then Inl (Malformed ''no recipients'')
           else if n > MAX_PRIVATE_RECIPIENTS then Inl (TooManyRecipients n)
           else if length prompt < entries_end + PRIVATE_TAG_LEN then Inl (Malformed ''truncated recipients or ciphertext'')
           else
             (case parse_recipients c prompt [0..<n] None [] of
                Inl e \<Rightarrow> Inl e
              | Inr recipients \<Rightarrow>
                  Inr \<lparr>pe_ephemeral_pubkey = slice 5 38 prompt, pe_nonce = slice 38 50 prompt, pe_recipients = recipients,
                       pe_ciphertext = drop entries_end prompt\<rparr>))"

definition recipient_bytes :: "PrivateRecipient \<Rightarrow> bytes" where
  "recipient_bytes r = pr_escrow_pubkey r @ pr_wrapped_root_key r"

definition PrivateRequestEnvelope_serialize :: "PrivateRequestEnvelope \<Rightarrow> bytes" where
  "PrivateRequestEnvelope_serialize e =
     PRIVATE_MAGIC @ [PRIVATE_VERSION] @ pe_ephemeral_pubkey e @ pe_nonce e @ [of_nat (length (pe_recipients e))] @
     concat (map recipient_bytes (pe_recipients e)) @ pe_ciphertext e"

definition header_len :: "PrivateRequestEnvelope \<Rightarrow> nat" where
  "header_len e = PRIVATE_REQUEST_HEADER_LEN + length (pe_recipients e) * PRIVATE_RECIPIENT_ENTRY_LEN"

definition recipient_index :: "PrivateRequestEnvelope \<Rightarrow> bytes \<Rightarrow> nat option" where
  "recipient_index e key =
     List.find (\<lambda>i. pr_escrow_pubkey (pe_recipients e ! i) = key) [0..<length (pe_recipients e)]"

record PrivateResponseEnvelope =
  ps_nonce :: bytes
  ps_ciphertext :: bytes

definition PrivateResponseEnvelope_parse :: "bytes \<Rightarrow> PrivateError + PrivateResponseEnvelope" where
  "PrivateResponseEnvelope_parse body =
     (if \<not> is_private body then Inl NotPrivate
      else if length body < PRIVATE_RESPONSE_HEADER_LEN + PRIVATE_TAG_LEN then Inl (Malformed ''truncated response envelope'')
      else if body ! 4 \<noteq> PRIVATE_VERSION then Inl (Malformed ''unsupported version'')
      else Inr \<lparr>ps_nonce = slice 5 PRIVATE_RESPONSE_HEADER_LEN body, ps_ciphertext = drop PRIVATE_RESPONSE_HEADER_LEN body\<rparr>)"

definition PrivateResponseEnvelope_serialize :: "PrivateResponseEnvelope \<Rightarrow> bytes" where
  "PrivateResponseEnvelope_serialize e = PRIVATE_MAGIC @ [PRIVATE_VERSION] @ ps_nonce e @ ps_ciphertext e"

subsection \<open>Keys\<close>

definition hkdf :: "crypto \<Rightarrow> bytes \<Rightarrow> bytes \<Rightarrow> bytes list \<Rightarrow> bytes" where
  "hkdf c salt ikm info = c_hmac c (c_hmac c salt ikm) (concat info @ [1])"

definition lift_x :: "crypto \<Rightarrow> bytes \<Rightarrow> bytes option" where
  "lift_x c key = (if c_xonly_ok c key then Some (0x02 # key) else None)"

definition ephemeral_secret_v2 :: "crypto \<Rightarrow> bytes \<Rightarrow> bytes option" where
  "ephemeral_secret_v2 c seed =
     List.find (c_secret_ok c) (map (\<lambda>ctr. hkdf c (schedule_salt V2) seed [INFO_EPHEMERAL, [of_nat ctr]]) [0..<256])"

definition response_key_v1 :: "crypto \<Rightarrow> bytes \<Rightarrow> bytes \<Rightarrow> bytes" where
  "response_key_v1 c root_key responder = hkdf c (schedule_salt V1) root_key [INFO_RESPONSE, responder]"

definition response_key_v2 :: "crypto \<Rightarrow> bytes \<Rightarrow> bytes \<Rightarrow> bytes \<Rightarrow> bytes" where
  "response_key_v2 c shared root_key responder = hkdf c (schedule_salt V2) (shared @ root_key) [INFO_RESPONSE, responder]"

record PrivateRequestSecret =
  sc_schedule :: KeySchedule
  sc_bytes :: bytes

definition secret_bytes :: "PrivateRequestSecret \<Rightarrow> bytes" where
  "secret_bytes s = (case sc_schedule s of V1 \<Rightarrow> sc_bytes s | V2 \<Rightarrow> SECRET_V2_TAG # sc_bytes s)"

text \<open>\<open>from_hex\<close> after the hexadecimal digits are decoded.\<close>

definition secret_of_bytes :: "bytes \<Rightarrow> PrivateError + PrivateRequestSecret" where
  "secret_of_bytes b =
     (if b \<noteq> [] \<and> hd b = SECRET_V2_TAG \<and> length (tl b) = PRIVATE_ROOT_KEY_LEN then Inr \<lparr>sc_schedule = V2, sc_bytes = tl b\<rparr>
      else if length b = PRIVATE_ROOT_KEY_LEN then Inr \<lparr>sc_schedule = V1, sc_bytes = b\<rparr>
      else Inl (Malformed ''request secret must be 02 + a 32-byte seed, or a 32-byte root key''))"

definition root_key :: "crypto \<Rightarrow> PrivateRequestSecret \<Rightarrow> bytes" where
  "root_key c s = (case sc_schedule s of V1 \<Rightarrow> sc_bytes s | V2 \<Rightarrow> hkdf c (schedule_salt V2) (sc_bytes s) [INFO_ROOT])"

definition response_key :: "crypto \<Rightarrow> PrivateRequestSecret \<Rightarrow> bytes \<Rightarrow> (PrivateError + bytes) option" where
  "response_key c s responder =
     (case sc_schedule s of
        V1 \<Rightarrow> Some (Inr (response_key_v1 c (root_key c s) responder))
      | V2 \<Rightarrow>
          (case lift_x c responder of
             None \<Rightarrow> Some (Inl InvalidKey)
           | Some point \<Rightarrow> do {
               e \<leftarrow> ephemeral_secret_v2 c (sc_bytes s);
               Some (Inr (response_key_v2 c (c_ecdh c point e) (root_key c s) responder)) }))"

definition aead_encrypt :: "crypto \<Rightarrow> bytes \<Rightarrow> bytes \<Rightarrow> bytes \<Rightarrow> bytes \<Rightarrow> PrivateError + bytes" where
  "aead_encrypt c key nonce msg aad =
     (case c_encrypt c key nonce msg aad of None \<Rightarrow> Inl (Malformed ''encryption failed'') | Some x \<Rightarrow> Inr x)"

definition aead_decrypt :: "crypto \<Rightarrow> bytes \<Rightarrow> bytes \<Rightarrow> bytes \<Rightarrow> bytes \<Rightarrow> PrivateError + bytes" where
  "aead_decrypt c key nonce msg aad = (case c_decrypt c key nonce msg aad of None \<Rightarrow> Inl Authentication | Some x \<Rightarrow> Inr x)"

subsection \<open>Requests\<close>

definition max_private_prompt_len :: "nat \<Rightarrow> nat" where
  "max_private_prompt_len n_recipients =
     (MAX_AI_REQUEST_PRIVATE_PAYLOAD_LEN - MIN_AI_REQUEST_PAYLOAD_LEN) -
       (PRIVATE_REQUEST_HEADER_LEN + n_recipients * PRIVATE_RECIPIENT_ENTRY_LEN + PRIVATE_TAG_LEN)"

definition wrap_key :: "crypto \<Rightarrow> bytes \<Rightarrow> bytes \<Rightarrow> bytes \<Rightarrow> bytes \<Rightarrow> bytes" where
  "wrap_key c salt shared ephemeral_pubkey key = hkdf c salt shared [INFO_KEK, ephemeral_pubkey, key]"

fun seal_recipients ::
  "crypto \<Rightarrow> bytes \<Rightarrow> bytes \<Rightarrow> bytes \<Rightarrow> bytes \<Rightarrow> bytes \<Rightarrow> (bytes \<times> bytes) list \<Rightarrow> PrivateError + PrivateRecipient list" where
  "seal_recipients c salt ephemeral_secret nonce root header [] = Inr []"
| "seal_recipients c salt ephemeral_secret nonce root header ((key, point) # ks) =
     (case aead_encrypt c (wrap_key c salt (c_ecdh c point ephemeral_secret) (c_public c ephemeral_secret) key) nonce root header of
        Inl e \<Rightarrow> Inl e
      | Inr wrapped \<Rightarrow>
          if length wrapped \<noteq> PRIVATE_WRAPPED_KEY_LEN then Inl (Malformed ''bad wrapped key length'')
          else
            (case seal_recipients c salt ephemeral_secret nonce root header ks of
               Inl e \<Rightarrow> Inl e
             | Inr rs \<Rightarrow> Inr (\<lparr>pr_escrow_pubkey = key, pr_wrapped_root_key = wrapped\<rparr> # rs)))"

definition seal_payload ::
  "crypto \<Rightarrow> PrivateRequestSecret \<Rightarrow> bytes \<Rightarrow> bytes \<Rightarrow> AiRequestPayload \<Rightarrow> bytes \<Rightarrow> bytes list \<Rightarrow> PrivateError + AiRequestPayload" where
  "seal_payload c secret ephemeral_secret nonce request prompt recipients =
     (let keys = remdups_adj (sort recipients)
      in if keys = [] then Inl (Malformed ''no recipients'')
         else if length keys > MAX_PRIVATE_RECIPIENTS then Inl (TooManyRecipients (length keys))
         else
           (case those (map (lift_x c) keys) of
              None \<Rightarrow> Inl InvalidKey
            | Some points \<Rightarrow>
                let max_prompt = max_private_prompt_len (length keys)
                in if length prompt > max_prompt then Inl (PromptTooLarge (length prompt) max_prompt)
                   else
                     let salt = schedule_salt (sc_schedule secret);
                         root = root_key c secret;
                         header = header_bytes request
                     in (case seal_recipients c salt ephemeral_secret nonce root header (zip keys points) of
                           Inl e \<Rightarrow> Inl e
                         | Inr rs \<Rightarrow>
                             let envelope = \<lparr>pe_ephemeral_pubkey = c_public c ephemeral_secret, pe_nonce = nonce,
                                   pe_recipients = rs, pe_ciphertext = []\<rparr>;
                                 aad = header @ PrivateRequestEnvelope_serialize envelope;
                                 k_prompt = hkdf c salt root [INFO_PROMPT]
                             in (case aead_encrypt c k_prompt nonce prompt aad of
                                   Inl e \<Rightarrow> Inl e
                                 | Inr x \<Rightarrow> Inr (request\<lparr>rq_prompt := PrivateRequestEnvelope_serialize (envelope\<lparr>pe_ciphertext := x\<rparr>)\<rparr>)))))"

definition draw :: "(nat \<Rightarrow> u8) \<Rightarrow> nat \<Rightarrow> nat \<Rightarrow> bytes" where
  "draw rng i n = map rng [i..<i + n]"

definition seal_request_with_rng ::
  "crypto \<Rightarrow> bytes \<Rightarrow> u32 \<Rightarrow> u64 \<Rightarrow> u64 \<Rightarrow> bytes \<Rightarrow> bytes list \<Rightarrow> (nat \<Rightarrow> u8) \<Rightarrow>
     (PrivateError + AiRequestPayload \<times> PrivateRequestSecret) option" where
  "seal_request_with_rng c model_id max_tokens inference_reward priority_fee prompt recipients rng =
     (let secret = \<lparr>sc_schedule = V2, sc_bytes = draw rng 0 PRIVATE_ROOT_KEY_LEN\<rparr>;
          nonce = draw rng PRIVATE_ROOT_KEY_LEN PRIVATE_NONCE_LEN;
          request = \<lparr>rq_model_id = model_id, rq_max_tokens = max_tokens, rq_inference_reward = inference_reward,
            rq_priority_fee = priority_fee, rq_prompt = []\<rparr>
      in do {
        ephemeral_secret \<leftarrow> ephemeral_secret_v2 c (sc_bytes secret);
        Some (map_sum id (\<lambda>payload. (payload, secret)) (seal_payload c secret ephemeral_secret nonce request prompt recipients)) })"

definition seal_request_v1_with_rng ::
  "crypto \<Rightarrow> bytes \<Rightarrow> u32 \<Rightarrow> u64 \<Rightarrow> u64 \<Rightarrow> bytes \<Rightarrow> bytes list \<Rightarrow> (nat \<Rightarrow> u8) \<Rightarrow>
     PrivateError + AiRequestPayload \<times> PrivateRequestSecret" where
  "seal_request_v1_with_rng c model_id max_tokens inference_reward priority_fee prompt recipients rng =
     (let secret = \<lparr>sc_schedule = V1, sc_bytes = draw rng 0 PRIVATE_ROOT_KEY_LEN\<rparr>;
          nonce = draw rng PRIVATE_ROOT_KEY_LEN PRIVATE_NONCE_LEN;
          ephemeral_secret = c_new_secret c (\<lambda>i. rng (PRIVATE_ROOT_KEY_LEN + PRIVATE_NONCE_LEN + i));
          request = \<lparr>rq_model_id = model_id, rq_max_tokens = max_tokens, rq_inference_reward = inference_reward,
            rq_priority_fee = priority_fee, rq_prompt = []\<rparr>
      in map_sum id (\<lambda>payload. (payload, secret)) (seal_payload c secret ephemeral_secret nonce request prompt recipients))"

record ResponseKey =
  rk_key :: bytes
  rk_responder :: bytes

record OpenedRequest =
  or_prompt :: bytes
  or_response_key :: ResponseKey
  or_recipient_index :: nat

text \<open>The schedules are tried in this order.\<close>

fun unwrap_root :: "crypto \<Rightarrow> bytes \<Rightarrow> bytes \<Rightarrow> bytes \<Rightarrow> bytes \<Rightarrow> bytes \<Rightarrow> bytes \<Rightarrow> KeySchedule list \<Rightarrow> (KeySchedule \<times> bytes) option" where
  "unwrap_root c shared ephemeral_pubkey my_key nonce wrapped header [] = None"
| "unwrap_root c shared ephemeral_pubkey my_key nonce wrapped header (s # ss) =
     (case aead_decrypt c (wrap_key c (schedule_salt s) shared ephemeral_pubkey my_key) nonce wrapped header of
        Inr root \<Rightarrow> if length root = PRIVATE_ROOT_KEY_LEN then Some (s, root)
                    else unwrap_root c shared ephemeral_pubkey my_key nonce wrapped header ss
      | Inl _ \<Rightarrow> unwrap_root c shared ephemeral_pubkey my_key nonce wrapped header ss)"

definition open_request :: "crypto \<Rightarrow> AiRequestPayload \<Rightarrow> bytes \<Rightarrow> PrivateError + OpenedRequest" where
  "open_request c payload sk =
     (case PrivateRequestEnvelope_parse c (rq_prompt payload) of
        Inl e \<Rightarrow> Inl e
      | Inr envelope \<Rightarrow>
          if \<not> c_secret_ok c sk then Inl InvalidKey
          else
            let my_key = tl (c_public c sk)
            in (case recipient_index envelope my_key of
                  None \<Rightarrow> Inl NotARecipient
                | Some index \<Rightarrow>
                    let sk_even = (if hd (c_public c sk) = 0x03 then c_negate c sk else sk)
                    in if \<not> c_point_ok c (pe_ephemeral_pubkey envelope) then Inl InvalidKey
                       else
                         let shared = c_ecdh c (pe_ephemeral_pubkey envelope) sk_even;
                             header = header_bytes payload
                         in (case unwrap_root c shared (pe_ephemeral_pubkey envelope) my_key (pe_nonce envelope)
                                    (pr_wrapped_root_key (pe_recipients envelope ! index)) header [V2, V1] of
                               None \<Rightarrow> Inl Authentication
                             | Some (schedule, root) \<Rightarrow>
                                 let aad = header @ take (header_len envelope) (rq_prompt payload);
                                     k_prompt = hkdf c (schedule_salt schedule) root [INFO_PROMPT]
                                 in (case aead_decrypt c k_prompt (pe_nonce envelope) (pe_ciphertext envelope) aad of
                                       Inl e \<Rightarrow> Inl e
                                     | Inr prompt \<Rightarrow>
                                         let key = (case schedule of V1 \<Rightarrow> response_key_v1 c root my_key | V2 \<Rightarrow> response_key_v2 c shared root my_key)
                                         in Inr \<lparr>or_prompt = prompt, or_response_key = \<lparr>rk_key = key, rk_responder = my_key\<rparr>,
                                                 or_recipient_index = index\<rparr>))))"

subsection \<open>Responses\<close>

definition response_aad :: "bytes \<Rightarrow> bytes \<Rightarrow> bytes" where
  "response_aad request_hash responder_escrow_pubkey = request_hash @ responder_escrow_pubkey"

definition seal_response_with_rng :: "crypto \<Rightarrow> ResponseKey \<Rightarrow> bytes \<Rightarrow> bytes \<Rightarrow> (nat \<Rightarrow> u8) \<Rightarrow> bytes option" where
  "seal_response_with_rng c key request_hash answer rng =
     (let nonce = draw rng 0 PRIVATE_NONCE_LEN
      in case aead_encrypt c (rk_key key) nonce answer (response_aad request_hash (rk_responder key)) of
           Inl _ \<Rightarrow> None
         | Inr x \<Rightarrow> Some (PrivateResponseEnvelope_serialize \<lparr>ps_nonce = nonce, ps_ciphertext = x\<rparr>))"

definition open_response :: "crypto \<Rightarrow> PrivateRequestSecret \<Rightarrow> bytes \<Rightarrow> bytes \<Rightarrow> bytes \<Rightarrow> (PrivateError + bytes) option" where
  "open_response c secret request_hash responder_escrow_pubkey body =
     (case PrivateResponseEnvelope_parse body of
        Inl e \<Rightarrow> Some (Inl e)
      | Inr envelope \<Rightarrow> do {
          k \<leftarrow> response_key c secret responder_escrow_pubkey;
          Some (case k of
            Inl e \<Rightarrow> Inl e
          | Inr key \<Rightarrow> aead_decrypt c key (ps_nonce envelope) (ps_ciphertext envelope) (response_aad request_hash responder_escrow_pubkey)) })"

section \<open>The envelope format\<close>

text \<open>What a sealed envelope looks like.\<close>

definition recipient_ok :: "crypto \<Rightarrow> PrivateRecipient \<Rightarrow> bool" where
  "recipient_ok c r \<longleftrightarrow> length (pr_escrow_pubkey r) = 32 \<and> length (pr_wrapped_root_key r) = 48 \<and> c_xonly_ok c (pr_escrow_pubkey r)"

definition envelope_ok :: "crypto \<Rightarrow> PrivateRequestEnvelope \<Rightarrow> bool" where
  "envelope_ok c e \<longleftrightarrow> length (pe_ephemeral_pubkey e) = 33 \<and> c_point_ok c (pe_ephemeral_pubkey e) \<and> length (pe_nonce e) = 12 \<and>
     pe_recipients e \<noteq> [] \<and> length (pe_recipients e) \<le> 128 \<and> list_all (recipient_ok c) (pe_recipients e) \<and>
     sorted_wrt (<) (map pr_escrow_pubkey (pe_recipients e)) \<and> length (pe_ciphertext e) \<ge> 16"

definition entry_at :: "bytes \<Rightarrow> nat \<Rightarrow> PrivateRecipient" where
  "entry_at prompt i = \<lparr>pr_escrow_pubkey = slice (51 + i * 80) (51 + i * 80 + 32) prompt,
     pr_wrapped_root_key = slice (51 + i * 80 + 32) (51 + i * 80 + 80) prompt\<rparr>"

lemma parse_recipients_iff:
  "parse_recipients c prompt ix prev rs = Inr out \<longleftrightarrow>
     out = rs @ map (entry_at prompt) ix \<and> list_all (\<lambda>i. c_xonly_ok c (pr_escrow_pubkey (entry_at prompt i))) ix \<and>
     sorted_wrt (<) ((case prev of None \<Rightarrow> [] | Some p \<Rightarrow> [p]) @ map (\<lambda>i. pr_escrow_pubkey (entry_at prompt i)) ix)"
proof (induction ix arbitrary: prev rs)
  case (Cons i ix)
  have step: "parse_recipients c prompt (i # ix) prev rs =
      (if \<not> c_xonly_ok c (pr_escrow_pubkey (entry_at prompt i)) then Inl InvalidKey
       else if (case prev of None \<Rightarrow> False | Some p \<Rightarrow> p \<ge> pr_escrow_pubkey (entry_at prompt i)) then Inl (Malformed ''recipients not strictly ascending'')
       else parse_recipients c prompt ix (Some (pr_escrow_pubkey (entry_at prompt i))) (rs @ [entry_at prompt i]))"
    by (cases prev) (simp_all add: private_lens Let_def entry_at_def)
  have "transp ((<) :: bytes \<Rightarrow> bytes \<Rightarrow> bool)" by (auto intro: transpI)
  note s = sorted_wrt2 [OF this]
  show ?case unfolding step
    by (cases prev) (auto simp: Cons.IH s not_le simp del: sorted_wrt.simps(2))
qed (auto split: option.split)

lemma recipient_bytes_entry:
  "recipient_bytes (entry_at prompt i) = slice (51 + i * 80) (51 + i * 80 + 80) prompt"
  using slice_slice_append [of "51 + i * 80" "51 + i * 80 + 32" "51 + i * 80 + 80" prompt] by (simp add: recipient_bytes_def entry_at_def)

lemma entries_bytes:
  "concat (map (\<lambda>i. recipient_bytes (entry_at prompt i)) [0..<n]) = slice 51 (51 + n * 80) prompt"
proof (induction n)
  case (Suc n)
  then show ?case
    using slice_slice_append [of 51 "51 + n * 80" "51 + n * 80 + 80" prompt] by (simp add: recipient_bytes_entry algebra_simps)
qed (simp add: slice_def)

lemma recipient_bytes_inj:
  "length (pr_escrow_pubkey r) = 32 \<Longrightarrow> length (pr_escrow_pubkey r') = 32 \<Longrightarrow> recipient_bytes r = recipient_bytes r' \<Longrightarrow> r = r'"
  by (cases r; cases r') (simp add: recipient_bytes_def)

lemma entries_parsed:
  assumes "list_all (recipient_ok c) rs" and "length pre = 51"
  shows "map (entry_at (pre @ concat (map recipient_bytes rs) @ rest)) [0..<length rs] = rs"
proof (rule nth_equalityI)
  fix i
  assume "i < length (map (entry_at (pre @ concat (map recipient_bytes rs) @ rest)) [0..<length rs])"
  then have i: "i < length rs" by simp
  let ?b = "concat (map recipient_bytes rs)" and ?p = "pre @ concat (map recipient_bytes rs) @ rest"
  have u: "\<forall>x \<in> set (map recipient_bytes rs). length x = 80"
    using assms(1) by (auto simp: list_all_iff recipient_ok_def recipient_bytes_def)
  have l: "length ?b = length rs * 80" using concat_length_uniform [OF u] by simp
  have "(i + 1) * 80 \<le> length ?b" using i unfolding l by (intro mult_le_mono) simp_all
  then have "slice (51 + i * 80) (51 + i * 80 + 80) ?p = slice (i * 80) ((i + 1) * 80) ?b"
    using assms(2) by (simp add: slice_append_right slice_append_left)
  also have "\<dots> = concat (slice i (i + 1) (map recipient_bytes rs))"
    using concat_slice_uniform [OF u, of i "i + 1"] by simp
  also have "slice i (i + 1) (map recipient_bytes rs) = [recipient_bytes (rs ! i)]"
    using i by (simp add: slice_def take_Suc hd_drop_conv_nth)
  finally have "recipient_bytes (entry_at ?p i) = recipient_bytes (rs ! i)" by (simp add: recipient_bytes_entry)
  moreover have "length (pr_escrow_pubkey (entry_at ?p i)) = 32"
    using \<open>(i + 1) * 80 \<le> length ?b\<close> assms(2) by (simp add: entry_at_def)
  moreover have "length (pr_escrow_pubkey (rs ! i)) = 32" using assms(1) i by (simp add: list_all_length recipient_ok_def)
  ultimately show "map (entry_at ?p) [0..<length rs] ! i = rs ! i" using i recipient_bytes_inj by simp
qed simp

lemma recipients_length: "list_all (recipient_ok c) rs \<Longrightarrow> length (concat (map recipient_bytes rs)) = length rs * 80"
  using concat_length_uniform [of "map recipient_bytes rs" 80] by (auto simp: list_all_iff recipient_ok_def recipient_bytes_def)

lemma parse_serialized:
  assumes "envelope_ok c e"
  shows "PrivateRequestEnvelope_parse c (PrivateRequestEnvelope_serialize e) = Inr e"
proof -
  let ?rs = "pe_recipients e" and ?p = "PrivateRequestEnvelope_serialize e"
  let ?pre = "PRIVATE_MAGIC @ [PRIVATE_VERSION] @ pe_ephemeral_pubkey e @ pe_nonce e @ [of_nat (length ?rs)]"
  let ?b = "concat (map recipient_bytes ?rs)"
  have ok: "length (pe_ephemeral_pubkey e) = 33" "c_point_ok c (pe_ephemeral_pubkey e)" "length (pe_nonce e) = 12" "?rs \<noteq> []"
    "length ?rs \<le> 128" "list_all (recipient_ok c) ?rs" "sorted_wrt (<) (map pr_escrow_pubkey ?rs)" "length (pe_ciphertext e) \<ge> 16"
    using assms by (simp_all add: envelope_ok_def)
  have p: "?p = ?pre @ ?b @ pe_ciphertext e" by (simp add: PrivateRequestEnvelope_serialize_def)
  have pre: "length ?pre = 51" using ok by (simp add: private_lens)
  have b: "length ?b = length ?rs * 80" using ok(6) by (rule recipients_length)
  have n: "unat (of_nat (length ?rs) :: u8) = length ?rs" using ok(5) by (simp add: unat_of_nat)
  have m: "map (entry_at ?p) [0..<length ?rs] = ?rs" unfolding p by (rule entries_parsed [OF ok(6) pre])
  have l: "list_all (\<lambda>i. c_xonly_ok c (pr_escrow_pubkey (entry_at ?p i))) [0..<length ?rs]"
    using ok(6) arg_cong [OF m, of "list_all (\<lambda>r. c_xonly_ok c (pr_escrow_pubkey r))"]
    by (simp add: list_all_iff recipient_ok_def)
  have w: "sorted_wrt (<) (map (\<lambda>i. pr_escrow_pubkey (entry_at ?p i)) [0..<length ?rs])"
    using ok(7) arg_cong [OF m, of "map pr_escrow_pubkey"] by (simp add: comp_def)
  have r: "parse_recipients c ?p [0..<length ?rs] None [] = Inr ?rs"
    using parse_recipients_iff [of c ?p "[0..<length ?rs]" None "[]" ?rs] l w m by simp
  have f: "is_private ?p" "?p ! 4 = PRIVATE_VERSION" "slice 5 38 ?p = pe_ephemeral_pubkey e" "slice 38 50 ?p = pe_nonce e"
    "?p ! 50 = of_nat (length ?rs)"
    using ok unfolding PrivateRequestEnvelope_serialize_def
    by (simp_all add: is_private_def private_lens layout_simps nth_append)
  have d: "drop (51 + length ?rs * 80) ?p = pe_ciphertext e"
  proof -
    have "length (?pre @ ?b) = 51 + length ?rs * 80" using pre b by (simp only: length_append)
    then show ?thesis unfolding p append_assoc [symmetric, of ?pre ?b] by (metis append_eq_conv_conj)
  qed
  have len: "length ?p = 51 + length ?rs * 80 + length (pe_ciphertext e)" unfolding p using pre b by (simp only: length_append)
  show ?thesis
    unfolding PrivateRequestEnvelope_parse_def
    using ok f n r d len by (simp add: private_lens Let_def)
qed

lemma serialize_parsed:
  assumes "PrivateRequestEnvelope_parse c prompt = Inr e"
  shows "prompt = PrivateRequestEnvelope_serialize e \<and> envelope_ok c e"
proof -
  let ?n = "unat (prompt ! 50)"
  have h: "is_private prompt" "length prompt \<ge> 51 + ?n * 80 + 16" "prompt ! 4 = PRIVATE_VERSION" "c_point_ok c (slice 5 38 prompt)"
    "?n \<noteq> 0" "?n \<le> 128"
    and r: "\<exists>rs. parse_recipients c prompt [0..<?n] None [] = Inr rs \<and>
      e = \<lparr>pe_ephemeral_pubkey = slice 5 38 prompt, pe_nonce = slice 38 50 prompt, pe_recipients = rs, pe_ciphertext = drop (51 + ?n * 80) prompt\<rparr>"
    using assms by (auto simp: PrivateRequestEnvelope_parse_def private_lens Let_def split: if_splits sum.splits)
  then have rs: "map (entry_at prompt) [0..<?n] = pe_recipients e"
    and l: "list_all (\<lambda>i. c_xonly_ok c (pr_escrow_pubkey (entry_at prompt i))) [0..<?n]"
    and w: "sorted_wrt (<) (map (\<lambda>i. pr_escrow_pubkey (entry_at prompt i)) [0..<?n])"
    and e: "pe_ephemeral_pubkey e = slice 5 38 prompt" "pe_nonce e = slice 38 50 prompt" "pe_ciphertext e = drop (51 + ?n * 80) prompt"
    using parse_recipients_iff [of c prompt "[0..<?n]" None "[]"] by auto
  have n: "length (pe_recipients e) = ?n" using arg_cong [OF rs, of length] by simp
  have "51 + i * 80 + 80 \<le> length prompt" if "i < ?n" for i
  proof -
    have "(i + 1) * 80 \<le> ?n * 80" using that by (intro mult_le_mono) simp_all
    then show ?thesis using h(2) by simp
  qed
  then have "list_all (recipient_ok c) (pe_recipients e)"
    using l unfolding rs [symmetric] by (force simp: list_all_iff recipient_ok_def entry_at_def)
  moreover have "sorted_wrt (<) (map pr_escrow_pubkey (pe_recipients e))"
    using w unfolding rs [symmetric] by (simp add: comp_def)
  ultimately have ok: "envelope_ok c e"
    using h n e unfolding envelope_ok_def by (auto simp flip: length_0_conv)
  have "take 51 prompt = PRIVATE_MAGIC @ [PRIVATE_VERSION] @ slice 5 38 prompt @ slice 38 50 prompt @ [prompt ! 50]"
  proof -
    have "take 4 prompt = PRIVATE_MAGIC" using h(1) by (simp add: is_private_def private_lens eval_nat_numeral)
    moreover have "[prompt ! 4] = slice 4 5 prompt" "[prompt ! 50] = slice 50 51 prompt"
      using h(2) by (simp_all add: slice_def take_Suc hd_drop_conv_nth)
    ultimately show ?thesis
      using h(3) take_slice_append [of 4 5 prompt] take_slice_append [of 5 38 prompt] take_slice_append [of 38 50 prompt]
        take_slice_append [of 50 51 prompt] by (metis append_assoc numeral_le_iff semiring_norm(68,69,70,71,72,73,74,75,76,77,78,79) le_numeral_extra(4))
  qed
  moreover have "prompt = take 51 prompt @ slice 51 (51 + ?n * 80) prompt @ drop (51 + ?n * 80) prompt"
    by (metis append_assoc append_take_drop_id le_add1 take_slice_append)
  moreover have "slice 51 (51 + ?n * 80) prompt = concat (map recipient_bytes (pe_recipients e))"
    using entries_bytes [of prompt ?n] unfolding rs [symmetric] by (simp add: comp_def)
  moreover have "prompt ! 50 = of_nat (length (pe_recipients e))" using n by simp
  ultimately have "prompt = PrivateRequestEnvelope_serialize e"
    unfolding PrivateRequestEnvelope_serialize_def e by (metis append_assoc)
  with ok show ?thesis by blast
qed

text \<open>A prompt is classified as private exactly if it is the serialization of a well-formed envelope: valid points and
  keys in strictly ascending order, 1 to 128 of them, and a ciphertext with its tag; and then it parses to that envelope.\<close>

theorem envelope_canonical:
  "PrivateRequestEnvelope_parse c prompt = Inr e \<longleftrightarrow> prompt = PrivateRequestEnvelope_serialize e \<and> envelope_ok c e"
  using parse_serialized serialize_parsed by auto

section \<open>Sealing\<close>

text \<open>What the model relies on: HMAC-SHA256 gives 32 bytes; a valid secret key has a valid public point of two parities, whose
  negation has the even one, and a shared point is the same from both sides; ChaCha20-Poly1305 decrypts exactly what it
  encrypted, adds 16 bytes and encrypts any message of less than \<open>2 ^ 32\<close> bytes.\<close>

definition crypto_ok :: "crypto \<Rightarrow> bool" where
  "crypto_ok c \<longleftrightarrow>
     (\<forall>k m. length (c_hmac c k m) = 32) \<and>
     (\<forall>s. c_secret_ok c s \<longrightarrow> length (c_public c s) = 33 \<and> hd (c_public c s) \<in> {0x02, 0x03} \<and> c_point_ok c (c_public c s) \<and>
        c_xonly_ok c (tl (c_public c s)) \<and>
        (hd (c_public c s) = 0x03 \<longrightarrow> c_secret_ok c (c_negate c s) \<and> c_public c (c_negate c s) = 0x02 # tl (c_public c s))) \<and>
     (\<forall>s t. c_secret_ok c s \<longrightarrow> c_secret_ok c t \<longrightarrow> c_ecdh c (c_public c s) t = c_ecdh c (c_public c t) s) \<and>
     (\<forall>r. c_secret_ok c (c_new_secret c r)) \<and>
     (\<forall>k n m a x. c_encrypt c k n m a = Some x \<longleftrightarrow> c_decrypt c k n x a = Some m) \<and>
     (\<forall>k n m a x. c_encrypt c k n m a = Some x \<longrightarrow> length x = length m + 16) \<and>
     (\<forall>k n m a. length m < 2 ^ 32 \<longrightarrow> c_encrypt c k n m a \<noteq> None)"

lemma length_hkdf: "crypto_ok c \<Longrightarrow> length (hkdf c salt ikm info) = 32"
  by (simp add: crypto_ok_def hkdf_def)

lemma crypto_laws:
  assumes "crypto_ok c"
  shows "c_encrypt c k n m a = Some x \<longleftrightarrow> c_decrypt c k n x a = Some m"
    and "c_encrypt c k n m a = Some x \<Longrightarrow> length x = length m + 16"
    and "length m < 2 ^ 32 \<Longrightarrow> c_encrypt c k n m a \<noteq> None"
    and "c_secret_ok c s \<Longrightarrow> c_secret_ok c t \<Longrightarrow> c_ecdh c (c_public c s) t = c_ecdh c (c_public c t) s"
    and "c_secret_ok c (c_new_secret c r)"
  using assms unfolding crypto_ok_def by blast+

lemma decrypts: "crypto_ok c \<Longrightarrow> aead_encrypt c k n m a = Inr x \<longleftrightarrow> aead_decrypt c k n x a = Inr m"
  using crypto_laws(1) [of c k n m a x]
  by (cases "c_encrypt c k n m a"; cases "c_decrypt c k n x a") (auto simp: aead_encrypt_def aead_decrypt_def)

lemma encrypted_length: "crypto_ok c \<Longrightarrow> aead_encrypt c k n m a = Inr x \<Longrightarrow> length x = length m + 16"
  using crypto_laws(2) [of c k n m a x] by (simp add: aead_encrypt_def split: option.splits)

lemma encrypts: "crypto_ok c \<Longrightarrow> length m < 2 ^ 32 \<Longrightarrow> \<exists>x. aead_encrypt c k n m a = Inr x"
  using crypto_laws(3) [of c m k n a] by (auto simp: aead_encrypt_def split: option.splits)

lemma sorted_adj_strict: "sorted (xs :: bytes list) \<Longrightarrow> sorted_wrt (<) (remdups_adj xs)"
proof (induction xs rule: remdups_adj.induct)
  case (3 x y xs)
  then show ?case by (cases "x = y") (auto simp: order.strict_iff_order dest: order_trans)
qed simp_all

lemma strict_keys: "sorted_wrt (<) (remdups_adj (sort (ks :: bytes list)))"
  by (rule sorted_adj_strict) simp

text \<open>The recipients of a sealed envelope, one for each key.\<close>

definition sealed_to :: "crypto \<Rightarrow> bytes \<Rightarrow> bytes \<Rightarrow> bytes \<Rightarrow> bytes \<Rightarrow> bytes \<Rightarrow> bytes \<Rightarrow> PrivateRecipient \<Rightarrow> bool" where
  "sealed_to c salt ephemeral_secret nonce root header key r \<longleftrightarrow> pr_escrow_pubkey r = key \<and> length (pr_wrapped_root_key r) = 48 \<and>
     aead_encrypt c (wrap_key c salt (c_ecdh c (0x02 # key) ephemeral_secret) (c_public c ephemeral_secret) key) nonce root header =
       Inr (pr_wrapped_root_key r)"

lemma seal_recipients_sound:
  "seal_recipients c salt es nonce root header (zip keys (map ((#) 0x02) keys)) = Inr rs \<Longrightarrow>
     list_all2 (sealed_to c salt es nonce root header) keys rs"
proof (induction keys arbitrary: rs)
  case (Cons k ks)
  then show ?case by (auto simp: sealed_to_def private_lens split: sum.splits if_splits)
qed simp

lemma seal_recipients_total:
  assumes "crypto_ok c" and "length root = 32"
  shows "\<exists>rs. seal_recipients c salt es nonce root header kps = Inr rs"
proof (induction kps)
  case (Cons kp kps)
  obtain k p where kp: "kp = (k, p)" by (cases kp)
  obtain x where x: "aead_encrypt c (wrap_key c salt (c_ecdh c p es) (c_public c es) k) nonce root header = Inr x"
    using encrypts [OF assms(1)] assms(2) by force
  have "length x = 48" using encrypted_length [OF assms(1) x] assms(2) by simp
  then show ?case using Cons x by (auto simp: kp private_lens)
qed simp

lemma lift_all:
  "those (map (lift_x c) keys) = (if list_all (c_xonly_ok c) keys then Some (map ((#) 0x02) keys) else None)"
  by (induction keys) (auto simp: lift_x_def)

lemma seal_payload_parts:
  assumes "seal_payload c secret es nonce request prompt recipients = Inr payload"
  obtains rs x where
    "payload = request\<lparr>rq_prompt := PrivateRequestEnvelope_serialize
       \<lparr>pe_ephemeral_pubkey = c_public c es, pe_nonce = nonce, pe_recipients = rs, pe_ciphertext = x\<rparr>\<rparr>"
    "list_all2 (sealed_to c (schedule_salt (sc_schedule secret)) es nonce (root_key c secret) (header_bytes request))
       (remdups_adj (sort recipients)) rs"
    "aead_encrypt c (hkdf c (schedule_salt (sc_schedule secret)) (root_key c secret) [INFO_PROMPT]) nonce prompt
       (header_bytes request @ PrivateRequestEnvelope_serialize
         \<lparr>pe_ephemeral_pubkey = c_public c es, pe_nonce = nonce, pe_recipients = rs, pe_ciphertext = []\<rparr>) = Inr x"
    "recipients \<noteq> []" "length (remdups_adj (sort recipients)) \<le> 128" "list_all (c_xonly_ok c) recipients"
    "length prompt \<le> max_private_prompt_len (length (remdups_adj (sort recipients)))"
proof -
  have ne: "remdups_adj (sort recipients) \<noteq> []" "length (remdups_adj (sort recipients)) \<le> 128"
    "list_all (c_xonly_ok c) (remdups_adj (sort recipients))"
    "length prompt \<le> max_private_prompt_len (length (remdups_adj (sort recipients)))"
    using assms by (auto simp: seal_payload_def Let_def private_lens lift_all split: if_splits sum.splits)
  then have l: "list_all (c_xonly_ok c) recipients" "recipients \<noteq> []" by (auto simp: list_all_iff)
  obtain rs where rs: "seal_recipients c (schedule_salt (sc_schedule secret)) es nonce (root_key c secret) (header_bytes request)
      (zip (remdups_adj (sort recipients)) (map ((#) 0x02) (remdups_adj (sort recipients)))) = Inr rs"
    using assms ne by (auto simp: seal_payload_def Let_def private_lens lift_all split: if_splits sum.splits)
  obtain x where x: "aead_encrypt c (hkdf c (schedule_salt (sc_schedule secret)) (root_key c secret) [INFO_PROMPT]) nonce prompt
       (header_bytes request @ PrivateRequestEnvelope_serialize
         \<lparr>pe_ephemeral_pubkey = c_public c es, pe_nonce = nonce, pe_recipients = rs, pe_ciphertext = []\<rparr>) = Inr x"
    and p: "payload = request\<lparr>rq_prompt := PrivateRequestEnvelope_serialize
       \<lparr>pe_ephemeral_pubkey = c_public c es, pe_nonce = nonce, pe_recipients = rs, pe_ciphertext = x\<rparr>\<rparr>"
    using assms ne rs by (auto simp: seal_payload_def Let_def private_lens lift_all split: if_splits sum.splits)
  show thesis by (rule that [OF p seal_recipients_sound [OF rs] x l(2) ne(2) l(1) ne(4)])
qed

section \<open>Opening\<close>

text \<open>The key a responder and its requester share is the same from both sides, whatever the parity of the responder's point.\<close>

lemma own_key:
  assumes "crypto_ok c" and "c_secret_ok c sk" and "c_secret_ok c es"
  shows "c_ecdh c (c_public c es) (if hd (c_public c sk) = 0x03 then c_negate c sk else sk) = c_ecdh c (0x02 # tl (c_public c sk)) es"
    and "c_xonly_ok c (tl (c_public c sk))" and "length (c_public c sk) = 33" and "c_point_ok c (c_public c sk)"
proof -
  have sk: "length (c_public c sk) = 33" "hd (c_public c sk) \<in> {0x02, 0x03}" "c_point_ok c (c_public c sk)" "c_xonly_ok c (tl (c_public c sk))"
    "hd (c_public c sk) = 0x03 \<Longrightarrow> c_secret_ok c (c_negate c sk) \<and> c_public c (c_negate c sk) = 0x02 # tl (c_public c sk)"
    using assms(1,2) unfolding crypto_ok_def by blast+
  show "c_xonly_ok c (tl (c_public c sk))" "length (c_public c sk) = 33" "c_point_ok c (c_public c sk)" by fact+
  have "c_public c sk = 0x02 # tl (c_public c sk)" if "hd (c_public c sk) \<noteq> 0x03"
    using that sk(1,2) by (cases "c_public c sk") auto
  then show "c_ecdh c (c_public c es) (if hd (c_public c sk) = 0x03 then c_negate c sk else sk) = c_ecdh c (0x02 # tl (c_public c sk)) es"
    using crypto_laws(4) [OF assms(1), of es sk] crypto_laws(4) [OF assms(1), of es "c_negate c sk"] sk(5) assms(2,3)
    by (cases "hd (c_public c sk) = 0x03") simp_all
qed

lemma header_bytes_prompt [simp]: "header_bytes (r\<lparr>rq_prompt := p\<rparr>) = header_bytes r"
  by (simp add: header_bytes_def)

lemma take_header:
  assumes "list_all (recipient_ok c) rs" and "length eph = 33" and "length nonce = 12"
  shows "take (header_len \<lparr>pe_ephemeral_pubkey = eph, pe_nonce = nonce, pe_recipients = rs, pe_ciphertext = x\<rparr>)
      (PrivateRequestEnvelope_serialize \<lparr>pe_ephemeral_pubkey = eph, pe_nonce = nonce, pe_recipients = rs, pe_ciphertext = x\<rparr>) =
    PrivateRequestEnvelope_serialize \<lparr>pe_ephemeral_pubkey = eph, pe_nonce = nonce, pe_recipients = rs, pe_ciphertext = []\<rparr>"
proof -
  define pre where "pre = PRIVATE_MAGIC @ [PRIVATE_VERSION] @ eph @ nonce @ [of_nat (length rs)] @ concat (map recipient_bytes rs)"
  have "length pre = 51 + length rs * 80"
    unfolding pre_def using recipients_length [OF assms(1)] assms(2,3) by (simp add: PRIVATE_MAGIC_def)
  then have "take (51 + length rs * 80) (pre @ x) = pre" by simp
  then show ?thesis by (simp add: pre_def header_len_def PrivateRequestEnvelope_serialize_def private_lens)
qed

lemma opens:
  assumes c: "crypto_ok c" and es: "c_secret_ok c es" and sk: "c_secret_ok c sk"
    and typed: "length nonce = 12" "list_all (\<lambda>k. length k = 32) recipients" "length (root_key c secret) = 32"
    and sealed: "seal_payload c secret es nonce request prompt recipients = Inr payload"
    and mine: "tl (c_public c sk) \<in> set recipients"
    and v1: "sc_schedule secret = V1 \<Longrightarrow>
      aead_decrypt c (wrap_key c (schedule_salt V2) (c_ecdh c (0x02 # tl (c_public c sk)) es) (c_public c es) (tl (c_public c sk))) nonce
        (projr (aead_encrypt c (wrap_key c (schedule_salt V1) (c_ecdh c (0x02 # tl (c_public c sk)) es) (c_public c es) (tl (c_public c sk)))
          nonce (root_key c secret) (header_bytes request))) (header_bytes request) = Inl Authentication"
  obtains i where
    "open_request c payload sk = Inr \<lparr>or_prompt = prompt,
       or_response_key = \<lparr>rk_key = (case sc_schedule secret of V1 \<Rightarrow> response_key_v1 c (root_key c secret) (tl (c_public c sk))
          | V2 \<Rightarrow> response_key_v2 c (c_ecdh c (0x02 # tl (c_public c sk)) es) (root_key c secret) (tl (c_public c sk))),
         rk_responder = tl (c_public c sk)\<rparr>, or_recipient_index = i\<rparr>"
    "length (serialize_request payload) = length (header_bytes request) + 51 + length (remdups_adj (sort recipients)) * 80 + length prompt + 16"
proof -
  let ?me = "tl (c_public c sk)" and ?keys = "remdups_adj (sort recipients)" and ?salt = "schedule_salt (sc_schedule secret)"
  obtain rs x where p: "payload = request\<lparr>rq_prompt := PrivateRequestEnvelope_serialize
       \<lparr>pe_ephemeral_pubkey = c_public c es, pe_nonce = nonce, pe_recipients = rs, pe_ciphertext = x\<rparr>\<rparr>"
    and rs: "list_all2 (sealed_to c ?salt es nonce (root_key c secret) (header_bytes request)) ?keys rs"
    and x: "aead_encrypt c (hkdf c ?salt (root_key c secret) [INFO_PROMPT]) nonce prompt
       (header_bytes request @ PrivateRequestEnvelope_serialize
         \<lparr>pe_ephemeral_pubkey = c_public c es, pe_nonce = nonce, pe_recipients = rs, pe_ciphertext = []\<rparr>) = Inr x"
    and n: "recipients \<noteq> []" "length ?keys \<le> 128" "list_all (c_xonly_ok c) recipients"
    by (rule seal_payload_parts [OF sealed])
  let ?e = "\<lparr>pe_ephemeral_pubkey = c_public c es, pe_nonce = nonce, pe_recipients = rs, pe_ciphertext = x\<rparr>"
  have len: "length rs = length ?keys" using rs by (simp add: list_all2_lengthD)
  have keys: "map pr_escrow_pubkey rs = ?keys"
    using rs by (intro nth_equalityI) (auto simp: len list_all2_conv_all_nth sealed_to_def)
  have ok: "list_all (recipient_ok c) rs"
  proof -
    have "recipient_ok c (rs ! j)" if "j < length rs" for j
    proof -
      have s: "sealed_to c ?salt es nonce (root_key c secret) (header_bytes request) (?keys ! j) (rs ! j)"
        using rs that by (simp add: list_all2_conv_all_nth)
      have "?keys ! j \<in> set recipients" using that len nth_mem [of j ?keys] by simp
      then show ?thesis using s n(3) typed(2) by (simp add: recipient_ok_def sealed_to_def list_all_iff)
    qed
    then show ?thesis by (simp add: list_all_length)
  qed
  have xl: "length x = length prompt + 16" by (rule encrypted_length [OF c x])
  have "sort recipients \<noteq> []" using n(1) by (metis set_empty set_sort)
  then have env: "envelope_ok c ?e"
    using own_key(3,4) [OF c es es] typed(1) ok n len keys strict_keys [of recipients] xl
    by (auto simp: envelope_ok_def)
  obtain i where i: "recipient_index ?e ?me = Some i" "i < length rs" "pr_escrow_pubkey (rs ! i) = ?me"
  proof -
    have "?me \<in> set (map pr_escrow_pubkey rs)" using mine keys by simp
    then obtain j where "j < length rs" "pr_escrow_pubkey (rs ! j) = ?me" by (auto simp: in_set_conv_nth)
    then have "recipient_index ?e ?me \<noteq> None" by (auto simp: recipient_index_def find_None_iff)
    then obtain j where j: "recipient_index ?e ?me = Some j" by blast
    then have "j < length rs" "pr_escrow_pubkey (rs ! j) = ?me" unfolding recipient_index_def find_Some_iff by auto
    with j show thesis by (rule that)
  qed
  have w: "aead_encrypt c (wrap_key c ?salt (c_ecdh c (0x02 # ?me) es) (c_public c es) ?me) nonce (root_key c secret) (header_bytes request) =
      Inr (pr_wrapped_root_key (rs ! i))"
    using rs i(2,3) by (auto simp: list_all2_conv_all_nth sealed_to_def)
  note sh = own_key(1) [OF c sk es]
  have u: "unwrap_root c (c_ecdh c (0x02 # ?me) es) (c_public c es) ?me nonce (pr_wrapped_root_key (rs ! i)) (header_bytes request) [V2, V1] =
      Some (sc_schedule secret, root_key c secret)"
    using w [unfolded decrypts [OF c]] typed(3) v1 w by (cases "sc_schedule secret") (simp_all add: private_lens)
  have "open_request c payload sk = Inr \<lparr>or_prompt = prompt,
       or_response_key = \<lparr>rk_key = (case sc_schedule secret of V1 \<Rightarrow> response_key_v1 c (root_key c secret) ?me
          | V2 \<Rightarrow> response_key_v2 c (c_ecdh c (0x02 # ?me) es) (root_key c secret) ?me),
         rk_responder = ?me\<rparr>, or_recipient_index = i\<rparr>"
    using sk i(1) own_key(4) [OF c es es] x [unfolded decrypts [OF c]] take_header [OF ok _ typed(1), of "c_public c es" x] own_key(3) [OF c es es]
    by (simp add: open_request_def p parse_serialized [OF env] Let_def sh u del: unwrap_root.simps split del: if_split cong: KeySchedule.case_cong)
  moreover have "length (serialize_request payload) = length (header_bytes request) + 51 + length ?keys * 80 + length prompt + 16"
    using recipients_length [OF ok] own_key(3) [OF c es es] typed(1) xl len
    by (simp add: serialize_request_def p PrivateRequestEnvelope_serialize_def private_lens)
  ultimately show thesis using that by blast
qed

lemma payload_fits:
  assumes "crypto_ok c" and "c_secret_ok c es" and "length nonce = 12" and "list_all (\<lambda>k. length k = 32) recipients"
    and "length (root_key c secret) = 32" and "seal_payload c secret es nonce request prompt recipients = Inr payload"
  shows "header_bytes payload = header_bytes request"
    and "length (rq_model_id request) = 32 \<Longrightarrow> length (serialize_request payload) \<le> MAX_AI_REQUEST_PRIVATE_PAYLOAD_LEN"
proof -
  let ?keys = "remdups_adj (sort recipients)"
  obtain rs x where p: "payload = request\<lparr>rq_prompt := PrivateRequestEnvelope_serialize
       \<lparr>pe_ephemeral_pubkey = c_public c es, pe_nonce = nonce, pe_recipients = rs, pe_ciphertext = x\<rparr>\<rparr>"
    and rs: "list_all2 (sealed_to c (schedule_salt (sc_schedule secret)) es nonce (root_key c secret) (header_bytes request)) ?keys rs"
    and x: "aead_encrypt c (hkdf c (schedule_salt (sc_schedule secret)) (root_key c secret) [INFO_PROMPT]) nonce prompt
       (header_bytes request @ PrivateRequestEnvelope_serialize
         \<lparr>pe_ephemeral_pubkey = c_public c es, pe_nonce = nonce, pe_recipients = rs, pe_ciphertext = []\<rparr>) = Inr x"
    and n: "length ?keys \<le> 128" "length prompt \<le> max_private_prompt_len (length ?keys)"
    by (rule seal_payload_parts [OF assms(6)])
  show "header_bytes payload = header_bytes request" by (simp add: p)
  have "length (recipient_bytes r) = 80" if r: "r \<in> set rs" for r
  proof -
    obtain j where j: "j < length rs" "rs ! j = r" using r by (auto simp: in_set_conv_nth)
    then have s: "sealed_to c (schedule_salt (sc_schedule secret)) es nonce (root_key c secret) (header_bytes request) (?keys ! j) r"
      "j < length ?keys" using rs by (auto simp: list_all2_conv_all_nth)
    then have "?keys ! j \<in> set recipients" using nth_mem [of j ?keys] by simp
    then show ?thesis using s(1) assms(4) by (auto simp: sealed_to_def recipient_bytes_def list_all_iff)
  qed
  then have "length (concat (map recipient_bytes rs)) = length rs * 80" using concat_length_uniform [of "map recipient_bytes rs" 80] by auto
  moreover have "length (c_public c es) = 33" using own_key(3) [OF assms(1,2,2)] .
  moreover have "length x = length prompt + 16" by (rule encrypted_length [OF assms(1) x])
  moreover have "length rs = length ?keys" using rs by (simp add: list_all2_lengthD)
  ultimately show "length (serialize_request payload) \<le> MAX_AI_REQUEST_PRIVATE_PAYLOAD_LEN" if "length (rq_model_id request) = 32"
    using that assms(3) n by (simp add: serialize_request_def p header_bytes_def header_bytes_of_def PrivateRequestEnvelope_serialize_def private_lens
        max_private_prompt_len_def MAX_AI_REQUEST_PRIVATE_PAYLOAD_LEN_def MIN_AI_REQUEST_PAYLOAD_LEN_def)
qed

lemma response_parsed: "length n = 12 \<Longrightarrow> length x \<ge> 16 \<Longrightarrow>
    PrivateResponseEnvelope_parse (PrivateResponseEnvelope_serialize \<lparr>ps_nonce = n, ps_ciphertext = x\<rparr>) = Inr \<lparr>ps_nonce = n, ps_ciphertext = x\<rparr>"
  by (simp add: PrivateResponseEnvelope_parse_def PrivateResponseEnvelope_serialize_def is_private_def private_lens layout_simps nth_append)

lemma answer_opens:
  assumes "crypto_ok c" and "response_key c secret responder = Some (Inr key)"
    and "seal_response_with_rng c \<lparr>rk_key = key, rk_responder = responder\<rparr> request_hash answer rng = Some body"
  shows "open_response c secret request_hash responder body = Some (Inr answer)"
proof -
  obtain x where x: "aead_encrypt c key (draw rng 0 PRIVATE_NONCE_LEN) answer (response_aad request_hash responder) = Inr x"
    and body: "body = PrivateResponseEnvelope_serialize \<lparr>ps_nonce = draw rng 0 PRIVATE_NONCE_LEN, ps_ciphertext = x\<rparr>"
    using assms(3) by (auto simp: seal_response_with_rng_def Let_def split: sum.splits)
  have "length x \<ge> 16" using encrypted_length [OF assms(1) x] by simp
  then have "PrivateResponseEnvelope_parse body = Inr \<lparr>ps_nonce = draw rng 0 PRIVATE_NONCE_LEN, ps_ciphertext = x\<rparr>"
    unfolding body by (intro response_parsed) (simp_all add: draw_def private_lens)
  then show ?thesis using x [unfolded decrypts [OF assms(1)]] by (simp add: open_response_def assms(2))
qed

lemma own_response_key:
  assumes "crypto_ok c" and "c_secret_ok c sk" and "ephemeral_secret_v2 c (sc_bytes secret) = Some es" and "sc_schedule secret = V2"
  shows "response_key c secret (tl (c_public c sk)) =
    Some (Inr (response_key_v2 c (c_ecdh c (0x02 # tl (c_public c sk)) es) (root_key c secret) (tl (c_public c sk))))"
  using own_key(2) [OF assms(1,2,2)] assms(3,4) by (simp add: response_key_def lift_x_def)

text \<open>Sealing succeeds exactly for 1 to 128 different keys on the curve and a prompt that leaves room for the tag and the entries
  of the recipients; the payload is then at most 64 KiB.\<close>

lemma seal_payload_succeeds:
  assumes "crypto_ok c" and "length (root_key c secret) = 32"
  shows "(\<exists>payload. seal_payload c secret es nonce request prompt recipients = Inr payload) \<longleftrightarrow>
    recipients \<noteq> [] \<and> card (set recipients) \<le> 128 \<and> list_all (c_xonly_ok c) recipients \<and>
    length prompt \<le> max_private_prompt_len (card (set recipients))"
proof -
  let ?keys = "remdups_adj (sort recipients)"
  have k: "length ?keys = card (set recipients)" "?keys = [] \<longleftrightarrow> recipients = []" "list_all (c_xonly_ok c) ?keys = list_all (c_xonly_ok c) recipients"
    using strict_keys [of recipients] distinct_card [of ?keys] unfolding strict_sorted_iff by (auto simp: list_all_iff simp flip: set_empty)
  obtain rs where rs: "seal_recipients c (schedule_salt (sc_schedule secret)) es nonce (root_key c secret) (header_bytes request)
      (zip ?keys (map ((#) 0x02) ?keys)) = Inr rs" using seal_recipients_total [OF assms] by blast
  have "aead_encrypt c k nonce prompt a \<noteq> Inl e" if "length prompt \<le> max_private_prompt_len (card (set recipients))" for k a e
  proof -
    have "max_private_prompt_len (card (set recipients)) \<le> 65536" by (simp add: max_private_prompt_len_def MAX_AI_REQUEST_PRIVATE_PAYLOAD_LEN_def)
    then have "length prompt < 2 ^ 32" using that by simp
    from encrypts [OF assms(1) this, of k nonce a] show ?thesis by auto
  qed
  then show ?thesis
    using rs k by (auto simp: seal_payload_def Let_def private_lens lift_all split: sum.splits)
qed

text \<open>C33: what is sealed can be read, and by whom it is meant for. Sealing a request of 32-byte keys succeeds exactly for 1 to
  128 different keys on the curve and a prompt within the room that they leave; the payload is then at most
  64 KiB. Every responder whose key is among the recipients opens it to the
  prompt, and any answer it seals with the key it is given opens for the requester, with the secret kept, to that answer.\<close>

theorem private_round_trip:
  assumes "crypto_ok c" and "list_all (\<lambda>k. length k = 32) recipients"
  shows "case seal_request_with_rng c model_id max_tokens inference_reward priority_fee prompt recipients rng of
      None \<Rightarrow> ephemeral_secret_v2 c (draw rng 0 32) = None
    | Some (Inl e) \<Rightarrow> \<not> (recipients \<noteq> [] \<and> card (set recipients) \<le> 128 \<and> list_all (c_xonly_ok c) recipients \<and>
        length prompt \<le> max_private_prompt_len (card (set recipients)))
    | Some (Inr (payload, secret)) \<Rightarrow>
        recipients \<noteq> [] \<and> card (set recipients) \<le> 128 \<and> list_all (c_xonly_ok c) recipients \<and>
        length prompt \<le> max_private_prompt_len (card (set recipients)) \<and>
        (length model_id = 32 \<longrightarrow> length (serialize_request payload) \<le> MAX_AI_REQUEST_PRIVATE_PAYLOAD_LEN) \<and>
        header_bytes payload = header_bytes \<lparr>rq_model_id = model_id, rq_max_tokens = max_tokens, rq_inference_reward = inference_reward,
          rq_priority_fee = priority_fee, rq_prompt = []\<rparr> \<and>
        (\<forall>sk. c_secret_ok c sk \<and> tl (c_public c sk) \<in> set recipients \<longrightarrow>
          (\<exists>opened. open_request c payload sk = Inr opened \<and> or_prompt opened = prompt \<and>
            rk_responder (or_response_key opened) = tl (c_public c sk) \<and>
            (\<forall>request_hash answer rng' body. seal_response_with_rng c (or_response_key opened) request_hash answer rng' = Some body \<longrightarrow>
              open_response c secret request_hash (tl (c_public c sk)) body = Some (Inr answer))))"
proof (cases "ephemeral_secret_v2 c (draw rng 0 32)")
  case None
  then show ?thesis by (simp add: seal_request_with_rng_def Let_def private_lens)
next
  case (Some es)
  define secret where "secret = \<lparr>sc_schedule = V2, sc_bytes = draw rng 0 32\<rparr>"
  define request where "request = \<lparr>rq_model_id = model_id, rq_max_tokens = max_tokens, rq_inference_reward = inference_reward,
          rq_priority_fee = priority_fee, rq_prompt = []\<rparr>"
  let ?sealed = "seal_payload c secret es (draw rng 32 12) request prompt recipients"
  have r: "seal_request_with_rng c model_id max_tokens inference_reward priority_fee prompt recipients rng =
      Some (map_sum id (\<lambda>payload. (payload, secret)) ?sealed)"
    using Some by (simp add: seal_request_with_rng_def Let_def private_lens secret_def request_def)
  have root: "length (root_key c secret) = 32" using length_hkdf [OF assms(1)] by (simp add: secret_def root_key_def)
  have n: "length (draw rng 32 12) = 12" by (simp add: draw_def)
  have es: "c_secret_ok c es" using Some by (auto simp: ephemeral_secret_v2_def find_Some_iff)
  note ok = seal_payload_succeeds [OF assms(1) root, of es "draw rng 32 12" request prompt recipients]
  show ?thesis
  proof (cases ?sealed)
    case (Inl e)
    then show ?thesis using ok unfolding r Inl by simp
  next
    case (Inr payload)
    have opened: "\<exists>opened. open_request c payload sk = Inr opened \<and> or_prompt opened = prompt \<and>
            rk_responder (or_response_key opened) = tl (c_public c sk) \<and>
            (\<forall>request_hash answer rng' body. seal_response_with_rng c (or_response_key opened) request_hash answer rng' = Some body \<longrightarrow>
              open_response c secret request_hash (tl (c_public c sk)) body = Some (Inr answer))"
      if sk: "c_secret_ok c sk" "tl (c_public c sk) \<in> set recipients" for sk
    proof -
      let ?me = "tl (c_public c sk)"
      have v2: "sc_schedule secret = V2" "sc_bytes secret = draw rng 0 32" by (simp_all add: secret_def)
      obtain i where "open_request c payload sk = Inr \<lparr>or_prompt = prompt,
          or_response_key = \<lparr>rk_key = response_key_v2 c (c_ecdh c (0x02 # ?me) es) (root_key c secret) ?me, rk_responder = ?me\<rparr>,
          or_recipient_index = i\<rparr>"
        using opens [OF assms(1) es sk(1) n assms(2) root Inr sk(2)] v2(1) by (metis KeySchedule.distinct(1) KeySchedule.simps(4))
      moreover note answer_opens [OF assms(1) own_response_key [OF assms(1) sk(1) Some [folded v2(2)] v2(1)]]
      ultimately show ?thesis by auto
    qed
    have "header_bytes payload = header_bytes request" "length model_id = 32 \<longrightarrow> length (serialize_request payload) \<le> MAX_AI_REQUEST_PRIVATE_PAYLOAD_LEN"
      using payload_fits [OF assms(1) es n assms(2) root Inr] by (simp_all add: request_def)
    then show ?thesis using ok Inr opened unfolding r Inr request_def by auto
  qed
qed

text \<open>Sums in place of the primitives, a recipient and a prompt.\<close>

definition toy_crypto :: crypto where
  "toy_crypto = \<lparr>c_hmac = (\<lambda>k m. replicate 32 (sum_list k + sum_list m)),
     c_encrypt = (\<lambda>k n m a. Some (m @ replicate 16 (sum_list k + sum_list a))),
     c_decrypt = (\<lambda>k n x a. if length x \<ge> 16 \<and> drop (length x - 16) x = replicate 16 (sum_list k + sum_list a) then Some (take (length x - 16) x) else None),
     c_secret_ok = (\<lambda>s. length s = 32), c_public = (\<lambda>s. 0x02 # s), c_negate = id,
     c_ecdh = (\<lambda>p s. replicate 32 (sum_list (tl p) + sum_list s)), c_point_ok = (\<lambda>p. length p = 33), c_xonly_ok = (\<lambda>k. length k = 32),
     c_new_secret = (\<lambda>r. replicate 32 0)\<rparr>"

lemma toy_crypto_ok: "crypto_ok toy_crypto"
proof -
  have d: "m @ t = x \<longleftrightarrow> length x \<ge> 16 \<and> drop (length x - 16) x = t \<and> take (length x - 16) x = m" if "length t = 16" for m t x :: bytes
    using that append_take_drop_id [of "length x - 16" x] by auto
  show ?thesis unfolding crypto_ok_def by (auto simp: toy_crypto_def add.commute d)
qed

theorem private_round_trip_witness:
  "\<exists>payload secret opened. seal_request_with_rng toy_crypto (replicate 32 3) 100 5 6 [0x68, 0x69] [replicate 32 9, replicate 32 7] (\<lambda>_. 1) =
       Some (Inr (payload, secret)) \<and>
     open_request toy_crypto payload (replicate 32 7) = Inr opened \<and> or_prompt opened = [0x68, 0x69]"
proof -
  let ?rs = "[replicate 32 9, replicate 32 7 :: u8 list]" and ?rng = "\<lambda>_. 1 :: u8"
  have l: "list_all (\<lambda>k. length k = 32) ?rs" by simp
  have e: "ephemeral_secret_v2 toy_crypto (draw ?rng 0 32) \<noteq> None"
  proof -
    have "c_secret_ok toy_crypto x \<longleftrightarrow> length x = 32" for x by (simp add: toy_crypto_def)
    then show ?thesis
      using length_hkdf [OF toy_crypto_ok] by (auto simp: ephemeral_secret_v2_def find_None_iff intro: exI [of _ 0])
  qed
  have n: "card (set ?rs) = 2" by simp
  have ok: "?rs \<noteq> [] \<and> card (set ?rs) \<le> 128 \<and> list_all (c_xonly_ok toy_crypto) ?rs \<and> length [0x68, 0x69 :: u8] \<le> max_private_prompt_len (card (set ?rs))"
    unfolding n by (simp add: toy_crypto_def max_private_prompt_len_def MAX_AI_REQUEST_PRIVATE_PAYLOAD_LEN_def MIN_AI_REQUEST_PAYLOAD_LEN_def private_lens)
  have sk: "c_secret_ok toy_crypto (replicate 32 7) \<and> tl (c_public toy_crypto (replicate 32 7)) \<in> set ?rs" by (simp add: toy_crypto_def)
  note t = private_round_trip [OF toy_crypto_ok l, where model_id = "replicate 32 3" and max_tokens = 100 and inference_reward = 5
      and priority_fee = 6 and prompt = "[0x68, 0x69]" and rng = ?rng]
  obtain r where r: "seal_request_with_rng toy_crypto (replicate 32 3) 100 5 6 [0x68, 0x69] ?rs ?rng = Some r" using t e by (auto split: option.splits)
  obtain payload secret where ps: "r = Inr (payload, secret)"
    using t ok unfolding r by (cases r) (auto split: sum.splits)
  show ?thesis using t sk unfolding r ps option.case sum.case prod.case by blast
qed

end
