(* ===== verification/Opoi.thy ===== *)
theory Opoi
  imports Prelude
begin

text \<open>
  \<open>src/inference/src/lib.rs\<close>, \<open>task.rs\<close>, \<open>model_fixed.rs\<close> and \<open>fraud_proof.rs\<close>: the optimistic proof of
  inference. The fixed-point network is modelled over the integers, with the 64-bit accumulators of
  the source shown not to overflow; the weights come from a linear congruential generator over 64-bit
  words. The tag of a nonce is written into the coinbase extra data and found again by \<open>parse_opoi\<close>.
  \<open>hex::encode\<close> is a parameter; texts are byte strings.
\<close>

section \<open>Definitions\<close>

subsection \<open>Tasks\<close>

definition MODEL_SEED :: u64 where "MODEL_SEED = 0x4B657279784F5000"

text \<open>The 24 bytes after the nonce are three full copies of the seed.\<close>

definition from_nonce :: "u64 \<Rightarrow> bytes" where
  "from_nonce nonce = le_bytes 8 nonce @ concat (replicate 3 (le_bytes 8 MODEL_SEED))"

subsection \<open>The fixed-point network\<close>

definition NORM_SHIFT :: nat where "NORM_SHIFT = 10"
definition N_IN :: nat where "N_IN = 32"
definition N_H1 :: nat where "N_H1 = 256"
definition N_H2 :: nat where "N_H2 = 128"
definition N_OUT :: nat where "N_OUT = 32"
definition HE_L1 :: int where "HE_L1 = 256"
definition HE_L2 :: int where "HE_L2 = 90"
definition HE_L3 :: int where "HE_L3 = 128"

definition lcg_weight :: "u64 \<Rightarrow> int \<Rightarrow> int \<times> u64" where
  "lcg_weight state he_scale =
     (let state = state * 6364136223846793005 + 1442695040888963407;
          raw = sint (ucast (drop_bit 32 state) :: u32)
      in (drop_bit 31 (raw * he_scale), state))"

primrec lcg_weights :: "nat \<Rightarrow> u64 \<Rightarrow> int \<Rightarrow> int list" where
  "lcg_weights 0 s he = []"
| "lcg_weights (Suc n) s he = (let (w, s) = lcg_weight s he in w # lcg_weights n s he)"

definition make_weights :: "nat \<Rightarrow> nat \<Rightarrow> u64 \<Rightarrow> int \<Rightarrow> int list" where
  "make_weights rows cols layer_id he = lcg_weights (rows * cols) (MODEL_SEED + layer_id * 0xDEADBEEFCAFE1337) he"

definition acc :: "int list \<Rightarrow> int list \<Rightarrow> nat \<Rightarrow> nat \<Rightarrow> int" where
  "acc x w n i = (\<Sum>j \<leftarrow> [0..<n]. x ! j * w ! (i * n + j))"

definition relu_layer :: "int list \<Rightarrow> int list \<Rightarrow> nat \<Rightarrow> nat \<Rightarrow> int list" where
  "relu_layer x w n rows = map (\<lambda>i. max (drop_bit NORM_SHIFT (acc x w n i)) 0) [0..<rows]"

definition hidden1 :: "bytes \<Rightarrow> int list" where
  "hidden1 input = relu_layer (map (\<lambda>b. uint b - 128) input) (make_weights N_H1 N_IN 0 HE_L1) N_IN N_H1"

definition hidden2 :: "bytes \<Rightarrow> int list" where
  "hidden2 input = relu_layer (hidden1 input) (make_weights N_H2 N_H1 1 HE_L2) N_H1 N_H2"

definition hidden3 :: "bytes \<Rightarrow> int list" where
  "hidden3 input = map (\<lambda>i. acc (hidden2 input) (make_weights N_OUT N_H2 2 HE_L3) N_H2 i) [0..<N_OUT]"

definition forward :: "bytes \<Rightarrow> bytes" where
  "forward input = map (\<lambda>v. fold (XOR) (le_bytes 8 (word_of_int v :: u64)) 0) (hidden3 input)"

subsection \<open>Fraud proofs\<close>

datatype FraudProofResult = Valid | Invalid

definition verify_fraud_proof :: "bytes \<Rightarrow> bytes \<Rightarrow> FraudProofResult" where
  "verify_fraud_proof request_hash claimed_commitment =
     (let expected = forward request_hash in if expected \<noteq> claimed_commitment then Valid else Invalid)"

definition compute_ai_commitment :: "bytes \<Rightarrow> bytes" where
  "compute_ai_commitment request_hash = forward request_hash"

subsection \<open>Tags\<close>

definition ascii :: "string \<Rightarrow> bytes" where
  "ascii s = map (\<lambda>c. word_of_nat (of_char c)) s"

definition COINBASE_MIN_BINARY_HEADER :: nat where "COINBASE_MIN_BINARY_HEADER = 19"

definition MARKER :: bytes where "MARKER = ascii ''/ai:v1:''"

text \<open>\<open>slice.windows(n).position(|w| w == needle)\<close>, and the \<open>u8::is_ascii_hexdigit\<close> and \<open>u64::from_str_radix(_, 16)\<close>
  of the standard library, the latter on hexadecimal digits.\<close>

fun position :: "bytes \<Rightarrow> bytes \<Rightarrow> nat option" where
  "position needle xs =
     (if length xs < length needle then None
      else if take (length needle) xs = needle then Some 0
      else case xs of [] \<Rightarrow> None | _ # ys \<Rightarrow> map_option Suc (position needle ys))"

declare position.simps [simp del]

definition is_ascii_hexdigit :: "u8 \<Rightarrow> bool" where
  "is_ascii_hexdigit b \<longleftrightarrow> (48 \<le> b \<and> b \<le> 57) \<or> (65 \<le> b \<and> b \<le> 70) \<or> (97 \<le> b \<and> b \<le> 102)"

definition digit_value :: "u8 \<Rightarrow> nat" where
  "digit_value b = (if b \<le> 57 then unat b - 48 else if b \<le> 70 then unat b - 55 else unat b - 87)"

definition from_str_radix_16 :: "bytes \<Rightarrow> u64 option" where
  "from_str_radix_16 s =
     (let v = fold (\<lambda>b v. v * 16 + digit_value b) s 0 in if s \<noteq> [] \<and> v < 2 ^ 64 then Some (word_of_nat v) else None)"

text \<open>\<open>from_utf8\<close> fails only on bytes that are no ASCII, which the test of the digits after it rejects as well.\<close>

definition parse_opoi :: "bytes \<Rightarrow> (u64 \<times> bytes) option" where
  "parse_opoi payload =
     (let search_start = min COINBASE_MIN_BINARY_HEADER (length payload)
      in case position MARKER (drop search_start payload) of
           None \<Rightarrow> None
         | Some relative_pos \<Rightarrow>
             let marker_pos = search_start + relative_pos; tag_start = marker_pos + length MARKER
             in if length payload < tag_start + 16 then None
                else let claimed_tag = slice tag_start (tag_start + 16) payload
                in if \<not> list_all is_ascii_hexdigit claimed_tag then None
                else if marker_pos < 16 + 1 then None
                else let slash_pos = marker_pos - 16 - 1
                in if payload ! slash_pos \<noteq> 47 then None
                else let nonce_hex = slice (slash_pos + 1) marker_pos payload
                in if \<not> list_all is_ascii_hexdigit nonce_hex then None
                else map_option (\<lambda>nonce. (nonce, claimed_tag)) (from_str_radix_16 nonce_hex))"

text \<open>\<open>u64::from_le_bytes(*b"KERYX:2\0")\<close>\<close>

definition PHASE2_OPOI_SALT :: u64 where "PHASE2_OPOI_SALT = from_le [0x4B, 0x45, 0x52, 0x59, 0x58, 0x3A, 0x32, 0]"

definition run_inference_fixed :: "u64 \<Rightarrow> bytes" where
  "run_inference_fixed nonce = forward (from_nonce nonce)"

definition tag_fixed :: "(bytes \<Rightarrow> bytes) \<Rightarrow> u64 \<Rightarrow> bytes" where
  "tag_fixed hex_encode nonce = hex_encode (take 8 (run_inference_fixed (nonce XOR PHASE2_OPOI_SALT)))"

definition verify_tag_fixed :: "(bytes \<Rightarrow> bytes) \<Rightarrow> u64 \<Rightarrow> bytes \<Rightarrow> bool" where
  "verify_tag_fixed hex_encode nonce claimed_hex16 \<longleftrightarrow> tag_fixed hex_encode nonce = claimed_hex16"

text \<open>\<open>{:016x}\<close>\<close>

definition hex_of_digit :: "nat \<Rightarrow> u8" where
  "hex_of_digit d = (if d < 10 then word_of_nat (48 + d) else word_of_nat (87 + d))"

definition format_016x :: "u64 \<Rightarrow> bytes" where
  "format_016x n = map (\<lambda>i. hex_of_digit (unat n div 16 ^ (15 - i) mod 16)) [0..<16]"

definition gen_opoi_extra_data :: "(bytes \<Rightarrow> bytes) \<Rightarrow> u64 \<Rightarrow> bytes" where
  "gen_opoi_extra_data hex_encode nonce = ascii ''/'' @ format_016x nonce @ MARKER @ tag_fixed hex_encode nonce"

section \<open>Bounds of the network\<close>

lemma lcg_weight_bounds: "0 < he \<Longrightarrow> - he \<le> fst (lcg_weight s he) \<and> fst (lcg_weight s he) < he"
proof -
  assume he: "0 < he"
  define raw where "raw = sint (ucast (drop_bit 32 (s * 6364136223846793005 + 1442695040888963407)) :: u32)"
  have rng: "- 2147483648 \<le> sint x" "sint x \<le> 2147483647" for x :: u32
    using sint_greater_eq [of x] sint_less [of x] by simp_all
  then have raw: "- 2147483648 \<le> raw" "raw \<le> 2147483647" unfolding raw_def by blast+
  have "- 2147483648 * he \<le> raw * he" "raw * he \<le> 2147483647 * he"
    using mult_right_mono [OF raw(1), of he] mult_right_mono [OF raw(2), of he] he by auto
  moreover define t where "t = raw * he"
  ultimately have "- he \<le> t div 2147483648 \<and> t div 2147483648 < he" using he by linarith
  then show ?thesis by (simp add: lcg_weight_def Let_def drop_bit_eq_div raw_def t_def)
qed

lemma length_lcg_weights [simp]: "length (lcg_weights n s he) = n"
  by (induction n arbitrary: s) (auto simp: Let_def split: prod.splits)

lemma lcg_weights_range: "0 < he \<Longrightarrow> w \<in> set (lcg_weights n s he) \<Longrightarrow> - he \<le> w \<and> w < he"
proof (induction n arbitrary: s)
  case (Suc n)
  then show ?case using lcg_weight_bounds [of he s] by (cases "lcg_weight s he") auto
qed simp

lemma lcg_weights_bounds: "0 < he \<Longrightarrow> w \<in> set (lcg_weights n s he) \<Longrightarrow> \<bar>w\<bar> \<le> he"
  using lcg_weights_range [of he w n s] by auto

text \<open>Every partial sum of an accumulator is bounded.\<close>

definition partial_acc :: "int list \<Rightarrow> int list \<Rightarrow> nat \<Rightarrow> nat \<Rightarrow> nat \<Rightarrow> int" where
  "partial_acc x w n i m = (\<Sum>j \<leftarrow> [0..<m]. x ! j * w ! (i * n + j))"

lemma partial_acc_bound:
  assumes "\<forall>v \<in> set x. \<bar>v\<bar> \<le> X" and "\<forall>v \<in> set w. \<bar>v\<bar> \<le> W" and "length x = n" and "length w = rows * n" and "i < rows" and "m \<le> n"
  shows "\<bar>partial_acc x w n i m\<bar> \<le> int m * (X * W)"
  using assms(6)
proof (induction m)
  case (Suc m)
  have "i * n + m < rows * n"
  proof -
    have "i * n + m < Suc i * n" using Suc.prems by simp
    also have "\<dots> \<le> rows * n" using assms(5) by (intro mult_le_mono1) simp
    finally show ?thesis .
  qed
  then have "\<bar>x ! m\<bar> \<le> X" "\<bar>w ! (i * n + m)\<bar> \<le> W" using assms Suc.prems by auto
  then have "\<bar>x ! m * w ! (i * n + m)\<bar> \<le> X * W" by (auto simp: abs_mult intro!: mult_mono)
  with Suc show ?case by (simp add: partial_acc_def algebra_simps)
qed (simp add: partial_acc_def)

lemma relu_layer_bound:
  assumes "\<forall>v \<in> set x. \<bar>v\<bar> \<le> X" and "\<forall>v \<in> set w. \<bar>v\<bar> \<le> W" and "length x = n" and "length w = rows * n"
    and "int n * (X * W) \<le> 1024 * H" and "0 \<le> H" and "v \<in> set (relu_layer x w n rows)"
  shows "0 \<le> v \<and> v \<le> H"
proof -
  obtain i where i: "i < rows" "v = max (drop_bit NORM_SHIFT (acc x w n i)) 0" using assms(7) by (auto simp: relu_layer_def)
  have "acc x w n i \<le> int n * (X * W)"
    using partial_acc_bound [OF assms(1-4) i(1), of n] by (simp add: partial_acc_def acc_def)
  then have "acc x w n i div 1024 \<le> H" using assms(5) by linarith
  then show ?thesis using assms(6) by (simp add: i(2) drop_bit_eq_div NORM_SHIFT_def)
qed

lemma length_relu_layer [simp]: "length (relu_layer x w n rows) = rows"
  by (simp add: relu_layer_def)

lemma make_weights_bounds: "0 < he \<Longrightarrow> \<forall>w \<in> set (make_weights rows cols l he). \<bar>w\<bar> \<le> he" "length (make_weights rows cols l he) = rows * cols"
  using lcg_weights_bounds by (auto simp: make_weights_def)

lemmas net_consts = N_IN_def N_H1_def N_H2_def N_OUT_def HE_L1_def HE_L2_def HE_L3_def

lemma input_bound: "\<forall>v \<in> set (map (\<lambda>b. uint b - 128) (input :: bytes)). \<bar>v\<bar> \<le> 128"
proof
  fix v assume "v \<in> set (map (\<lambda>b. uint b - 128) input)"
  then obtain b :: u8 where "v = uint b - 128" by auto
  moreover have "0 \<le> uint b" "uint b < 256" using unsigned_less [of b] by simp_all
  ultimately show "\<bar>v\<bar> \<le> 128" by linarith
qed

lemma hidden1_bound: "length input = 32 \<Longrightarrow> v \<in> set (hidden1 input) \<Longrightarrow> 0 \<le> v \<and> v \<le> 1024"
  unfolding hidden1_def
  by (rule relu_layer_bound [OF input_bound make_weights_bounds(1)]) (auto simp: net_consts make_weights_bounds)

lemma hidden2_bound:
  assumes "length input = 32" and "v \<in> set (hidden2 input)"
  shows "0 \<le> v \<and> v \<le> 23040"
proof -
  have h1: "\<forall>v \<in> set (hidden1 input). \<bar>v\<bar> \<le> 1024" using hidden1_bound [OF assms(1)] by fastforce
  have "length (hidden1 input) = N_H1" by (simp add: hidden1_def)
  from relu_layer_bound [OF h1 make_weights_bounds(1) this make_weights_bounds(2) _ _ assms(2) [unfolded hidden2_def], of 23040]
  show ?thesis by (simp add: net_consts)
qed

section \<open>Properties\<close>

text \<open>C34: the fixed-point network never overflows: the activations of the two hidden layers stay in
  \<open>[0, 1024]\<close> and \<open>[0, 23040]\<close>, every partial sum of an accumulator is far below \<open>2^63\<close>, each weight
  of a layer of scale 256, 90 or 128 lies in \<open>[-256, 256)\<close>, \<open>[-90, 90)\<close> or \<open>[-128, 128)\<close>, and the output is 32 bytes; so the 64-bit arithmetic of the source
  is exact and its result is the same on every machine.\<close>

theorem forward_bounds:
  assumes "length input = 32"
  shows "(\<forall>v \<in> set (hidden1 input). 0 \<le> v \<and> v \<le> 1024) \<and>
    (\<forall>v \<in> set (hidden2 input). 0 \<le> v \<and> v \<le> 23040) \<and>
    (\<forall>v \<in> set (hidden3 input). \<bar>v\<bar> \<le> 377487360) \<and>
    (\<forall>i < N_H1. \<forall>m \<le> N_IN. \<bar>partial_acc (map (\<lambda>b. uint b - 128) input) (make_weights N_H1 N_IN 0 HE_L1) N_IN i m\<bar> \<le> 1048576) \<and>
    (\<forall>i < N_H2. \<forall>m \<le> N_H1. \<bar>partial_acc (hidden1 input) (make_weights N_H2 N_H1 1 HE_L2) N_H1 i m\<bar> \<le> 23592960) \<and>
    (\<forall>i < N_OUT. \<forall>m \<le> N_H2. \<bar>partial_acc (hidden2 input) (make_weights N_OUT N_H2 2 HE_L3) N_H2 i m\<bar> \<le> 377487360) \<and>
    (\<forall>l. \<forall>w \<in> set (make_weights N_H1 N_IN l HE_L1). - 256 \<le> w \<and> w < 256) \<and>
    (\<forall>l. \<forall>w \<in> set (make_weights N_H2 N_H1 l HE_L2). - 90 \<le> w \<and> w < 90) \<and>
    (\<forall>l. \<forall>w \<in> set (make_weights N_OUT N_H2 l HE_L3). - 128 \<le> w \<and> w < 128) \<and>
    length (forward input) = 32"
proof -
  have h1: "\<forall>v \<in> set (hidden1 input). \<bar>v\<bar> \<le> 1024" and h2: "\<forall>v \<in> set (hidden2 input). \<bar>v\<bar> \<le> 23040"
    using hidden1_bound [OF assms] hidden2_bound [OF assms] by fastforce+
  have len: "length (hidden1 input) = N_H1" "length (hidden2 input) = N_H2" by (simp_all add: hidden1_def hidden2_def)
  have s1: "\<bar>partial_acc (map (\<lambda>b. uint b - 128) input) (make_weights N_H1 N_IN 0 HE_L1) N_IN i m\<bar> \<le> 1048576"
    if "i < N_H1" "m \<le> N_IN" for i m
    using partial_acc_bound [OF input_bound make_weights_bounds(1) _ make_weights_bounds(2) that, of HE_L1 input 0] assms that(2)
    by (simp add: net_consts)
  have s2: "\<bar>partial_acc (hidden1 input) (make_weights N_H2 N_H1 1 HE_L2) N_H1 i m\<bar> \<le> 23592960"
    if "i < N_H2" "m \<le> N_H1" for i m
    using partial_acc_bound [OF h1 make_weights_bounds(1) len(1) make_weights_bounds(2) that, of HE_L2 1] that(2)
    by (simp add: net_consts)
  have s3: "\<bar>partial_acc (hidden2 input) (make_weights N_OUT N_H2 2 HE_L3) N_H2 i m\<bar> \<le> 377487360"
    if "i < N_OUT" "m \<le> N_H2" for i m
    using partial_acc_bound [OF h2 make_weights_bounds(1) len(2) make_weights_bounds(2) that, of HE_L3 2] that(2)
    by (simp add: net_consts)
  have h3: "\<bar>v\<bar> \<le> 377487360" if "v \<in> set (hidden3 input)" for v
    using that s3 [of _ N_H2] by (auto simp: hidden3_def acc_def partial_acc_def)
  have "length (forward input) = 32" by (simp add: forward_def hidden3_def N_OUT_def)
  moreover have "\<forall>w \<in> set (make_weights rows cols l he). - he \<le> w \<and> w < he" if "0 < he" for rows cols l he
    using that lcg_weights_range by (simp add: make_weights_def)
  from this [of HE_L1 N_H1 N_IN] this [of HE_L2 N_H2 N_H1] this [of HE_L3 N_OUT N_H2]
  have "\<forall>l. \<forall>w \<in> set (make_weights N_H1 N_IN l HE_L1). - 256 \<le> w \<and> w < 256"
    "\<forall>l. \<forall>w \<in> set (make_weights N_H2 N_H1 l HE_L2). - 90 \<le> w \<and> w < 90"
    "\<forall>l. \<forall>w \<in> set (make_weights N_OUT N_H2 l HE_L3). - 128 \<le> w \<and> w < 128"
    unfolding HE_L1_def HE_L2_def HE_L3_def by simp_all
  ultimately show ?thesis using s1 s2 s3 h3 hidden1_bound [OF assms] hidden2_bound [OF assms] by blast
qed

theorem forward_bounds_witness: "length (forward (replicate 32 200)) = 32"
  using forward_bounds [of "replicate 32 200"] by simp

section \<open>Tags in the coinbase\<close>

lemma position_first:
  assumes "needle \<noteq> []"
  shows "\<forall>k < n. take (length needle) (drop k s) \<noteq> needle \<Longrightarrow> take (length needle) (drop n s) = needle \<Longrightarrow> position needle s = Some n"
proof (induction n arbitrary: s)
  case 0
  then have "length needle \<le> length s" by (metis drop0 length_take min.absorb_iff2)
  with 0 show ?case by (simp add: position.simps [of needle s])
next
  case (Suc n)
  have "drop (Suc n) s \<noteq> []" using Suc.prems(2) assms by auto
  then obtain x xs where s: "s = x # xs" by (cases s) auto
  have "length needle \<le> length s - Suc n" using Suc.prems(2) by (metis length_drop length_take min.cobounded1)
  moreover have "\<forall>k < n. take (length needle) (drop k xs) \<noteq> needle" using Suc.prems(1) by (auto simp: s)
  then have "position needle xs = Some n" using Suc.prems(2) by (intro Suc.IH) (auto simp: s)
  moreover have "take (length needle) s \<noteq> needle" using Suc.prems(1) by (metis drop0 zero_less_Suc)
  ultimately show ?case by (simp add: position.simps [of needle s]) (simp add: s)
qed

lemma position_None: "needle \<noteq> [] \<Longrightarrow> position needle s = None \<Longrightarrow> take (length needle) (drop k s) \<noteq> needle"
proof (induction k arbitrary: s)
  case 0
  then show ?case by (subst (asm) position.simps) (auto split: if_splits)
next
  case (Suc k)
  show ?case
  proof (cases s)
    case (Cons x xs)
    have "position needle xs = None" if "\<not> length s < length needle"
      using Suc.prems(2) that by (subst (asm) position.simps) (auto simp: Cons split: if_splits)
    moreover have "take (length needle) (drop k xs) \<noteq> needle" if "length s < length needle"
      using that by (metis Cons length_Cons length_drop length_take less_Suc_eq less_imp_diff_less linorder_not_less min_less_iff_conj not_less_eq)
    ultimately show ?thesis using Suc.IH [of xs] Suc.prems(1) Cons by (cases "length s < length needle") auto
  qed (use Suc.prems in auto)
qed

lemma hex_of_digit_digit: "d < 16 \<Longrightarrow> is_ascii_hexdigit (hex_of_digit d) \<and> digit_value (hex_of_digit d) = d"
proof -
  have "\<forall>d \<in> set [0..<16]. is_ascii_hexdigit (hex_of_digit d) \<and> digit_value (hex_of_digit d) = d"
    by (simp add: upt_rec hex_of_digit_def is_ascii_hexdigit_def digit_value_def)
  then show "d < 16 \<Longrightarrow> is_ascii_hexdigit (hex_of_digit d) \<and> digit_value (hex_of_digit d) = d" by simp
qed

lemma hex_value:
  "fold (\<lambda>b v. v * 16 + digit_value b) (map (\<lambda>i. hex_of_digit (m div 16 ^ (k - Suc i) mod 16)) [0..<k]) 0 = m mod 16 ^ k"
proof (induction k arbitrary: m)
  case (Suc k)
  have "m div 16 ^ (k - i) = m div 16 div 16 ^ (k - Suc i)" if "i < k" for i
  proof -
    have "k - i = Suc (k - Suc i)" using that by simp
    then show ?thesis by (simp add: div_mult2_eq)
  qed
  then have snoc: "map (\<lambda>i. hex_of_digit (m div 16 ^ (Suc k - Suc i) mod 16)) [0..<Suc k] =
      map (\<lambda>i. hex_of_digit (m div 16 div 16 ^ (k - Suc i) mod 16)) [0..<k] @ [hex_of_digit (m mod 16)]" by simp
  have "fold (\<lambda>b v. v * 16 + digit_value b) (map (\<lambda>i. hex_of_digit (m div 16 ^ (Suc k - Suc i) mod 16)) [0..<Suc k]) 0 =
      (m div 16 mod 16 ^ k) * 16 + m mod 16"
    unfolding snoc using Suc [of "m div 16"] hex_of_digit_digit [of "m mod 16"] by simp
  also have "\<dots> = m mod 16 ^ Suc k" by (simp add: mod_mult2_eq)
  finally show ?case .
qed simp

lemma format_016x_digits: "length (format_016x n) = 16" "list_all is_ascii_hexdigit (format_016x n)"
  using hex_of_digit_digit by (auto simp: format_016x_def list_all_iff)

lemma parse_format: "from_str_radix_16 (format_016x n) = Some n"
proof -
  have "15 - i = 16 - Suc i" for i :: nat by simp
  then have "fold (\<lambda>b v. v * 16 + digit_value b) (format_016x n) 0 = unat n mod 16 ^ 16"
    unfolding format_016x_def using hex_value [of "unat n" 16] by simp
  also have "\<dots> = unat n" using unat_u64_lt [of n] by simp
  finally show ?thesis by (simp add: from_str_radix_16_def Let_def format_016x_def)
qed

lemma marker: "MARKER = [47, 97, 105, 58, 118, 49, 58]" "ascii ''/'' = [47]"
  by (simp_all add: MARKER_def ascii_def)

text \<open>The marker cannot start before the one that follows the nonce.\<close>

lemma marker_first:
  assumes "\<And>k. take 7 (drop k P) \<noteq> MARKER" and "length h = 16" and "list_all is_ascii_hexdigit h" and "k < length P + 17"
  shows "take 7 (drop k (P @ 47 # h @ MARKER @ r)) \<noteq> MARKER"
proof
  let ?s = "P @ 47 # h @ MARKER @ r"
  assume w: "take 7 (drop k ?s) = MARKER"
  have nth: "?s ! (k + i) = MARKER ! i" if "i < 7" for i
  proof -
    have "k \<le> length ?s" using assms(2,4) by simp
    then have "take 7 (drop k ?s) ! i = ?s ! (k + i)" unfolding nth_take [OF that] by (rule nth_drop)
    then show ?thesis unfolding w by (rule sym)
  qed
  have hd: "?s ! k = 47" and c: "?s ! (k + 6) = 58" using nth [of 0] nth [of 6] by (simp_all add: marker)
  have hex: "h ! i \<noteq> 58 \<and> h ! i \<noteq> 47" if "i < 16" for i
    using assms(2,3) that by (auto simp: list_all_length is_ascii_hexdigit_def)
  show False
  proof (cases "k + 6 < length P")
    case True
    then have "take 7 (drop k P) = MARKER" using w by simp
    then show False using assms(1) by blast
  next
    case False
    define r0 where "r0 = k + 6 - length P"
    have r0: "k + 6 = length P + r0" "r0 < 23" using False assms(4) by (auto simp: r0_def)
    have tail: "?s ! (length P + i) = (47 # h @ MARKER @ r) ! i" for i by (simp add: nth_append)
    have "r0 \<noteq> 0" using c tail [of 0] r0 by (cases "r0 = 0") auto
    moreover have "\<not> (1 \<le> r0 \<and> r0 < 17)"
    proof
      assume r: "1 \<le> r0 \<and> r0 < 17"
      then obtain i where i: "r0 = Suc i" "i < 16" by (cases r0) auto
      with c tail [of r0] r0(1) assms(2) have "h ! i = 58" by (simp add: nth_append)
      with hex [OF i(2)] show False by blast
    qed
    ultimately have "r0 = 17 \<or> r0 = 18 \<or> r0 = 19 \<or> r0 = 20 \<or> r0 = 21 \<or> r0 = 22" using r0(2) by linarith
    then show False
    proof (elim disjE)
      assume "r0 = 20"
      then have "k = length P + 14" using r0(1) by simp
      then show False using hd tail [of 14] hex [of 13] assms(2) by (simp add: nth_append)
    qed (use c tail [of r0] r0(1) assms(2) in \<open>simp_all add: nth_append marker\<close>)
  qed
qed

text \<open>C38: a tag written into the coinbase is found again: after any header and prefix that contain no marker
  themselves, \<open>parse_opoi\<close> returns the nonce and the tag that \<open>gen_opoi_extra_data\<close> wrote, whatever
  follows, and the tag verifies.\<close>

theorem opoi_round_trip:
  assumes hex: "\<forall>bs. length (hex_encode bs) = 2 * length bs \<and> list_all is_ascii_hexdigit (hex_encode bs)"
    and pre: "COINBASE_MIN_BINARY_HEADER \<le> length pre" and clean: "position MARKER (drop COINBASE_MIN_BINARY_HEADER pre) = None"
  shows "parse_opoi (pre @ gen_opoi_extra_data hex_encode nonce @ post) = Some (nonce, tag_fixed hex_encode nonce) \<and>
    verify_tag_fixed hex_encode nonce (tag_fixed hex_encode nonce)"
proof -
  define P h t where "P = drop 19 pre" and "h = format_016x nonce" and "t = tag_fixed hex_encode nonce"
  have h: "length h = 16" "list_all is_ascii_hexdigit h" by (simp_all add: h_def format_016x_digits)
  have t: "length t = 16" "list_all is_ascii_hexdigit t"
    using hex by (simp_all add: t_def tag_fixed_def run_inference_fixed_def forward_def hidden3_def N_OUT_def)
  have gen: "gen_opoi_extra_data hex_encode nonce @ post = 47 # h @ MARKER @ (t @ post)"
    by (simp add: gen_opoi_extra_data_def marker(2) h_def t_def)
  have pre': "19 \<le> length pre" using pre by (simp add: COINBASE_MIN_BINARY_HEADER_def)
  have m: "MARKER \<noteq> []" "length MARKER = 7" by (simp_all add: marker)
  have nm: "take 7 (drop k P) \<noteq> MARKER" for k
    using position_None [OF m(1) clean, of k] by (simp add: P_def m(2) COINBASE_MIN_BINARY_HEADER_def)
  have "position MARKER (P @ 47 # h @ MARKER @ (t @ post)) = Some (length P + 17)"
  proof (rule position_first [OF m(1)])
    show "\<forall>k < length P + 17. take (length MARKER) (drop k (P @ 47 # h @ MARKER @ (t @ post))) \<noteq> MARKER"
      using marker_first [OF nm h] by (simp add: m(2))
    show "take (length MARKER) (drop (length P + 17) (P @ 47 # h @ MARKER @ (t @ post))) = MARKER"
      using h(1) by (simp add: m(2))
  qed
  moreover have "drop 19 (pre @ 47 # h @ MARKER @ (t @ post)) = P @ 47 # h @ MARKER @ (t @ post)" using pre' by (simp add: P_def)
  ultimately have pos: "position MARKER (drop 19 (pre @ 47 # h @ MARKER @ (t @ post))) = Some (length P + 17)" by simp
  have lp: "length pre = 19 + length P" using pre' by (simp add: P_def)
  let ?p = "pre @ 47 # h @ MARKER @ (t @ post)"
  have len: "19 \<le> length ?p" "43 + length P + 16 \<le> length ?p" using h(1) t(1) m(2) by (simp_all add: lp)
  have tag: "slice (43 + length P) (59 + length P) ?p = t"
    using h(1) t(1) m(2) by (simp add: slice_def lp numeral_eq_Suc)
  have non: "slice (20 + length P) (36 + length P) ?p = h"
    using h(1) by (simp add: slice_def lp numeral_eq_Suc)
  have slash: "?p ! (19 + length P) = 47" by (simp add: nth_append lp)
  have "parse_opoi ?p = Some (nonce, t)"
  proof -
    define p where "p = ?p"
    have f: "min 19 (length p) = 19" "position MARKER (drop 19 p) = Some (length P + 17)" "\<not> length p < 59 + length P"
      "slice (43 + length P) (59 + length P) p = t" "slice (20 + length P) (36 + length P) p = h" "p ! (19 + length P) = 47"
      using len pos tag non slash by (simp_all add: p_def)
    have "parse_opoi p = Some (nonce, t)"
      unfolding parse_opoi_def COINBASE_MIN_BINARY_HEADER_def f
      using f h t m(2) parse_format [of nonce] by (simp add: Let_def h_def [symmetric])
    then show ?thesis by (simp only: p_def)
  qed
  then show ?thesis by (simp add: gen t_def verify_tag_fixed_def)
qed

definition hex_of :: "bytes \<Rightarrow> bytes" where
  "hex_of bs = concat (map (\<lambda>b. [hex_of_digit (unat b div 16), hex_of_digit (unat b mod 16)]) bs)"

theorem opoi_round_trip_witness:
  "parse_opoi (replicate 40 1 @ gen_opoi_extra_data hex_of 0x1234 @ [10]) = Some (0x1234, tag_fixed hex_of 0x1234)"
proof -
  have "length (hex_of bs) = 2 * length bs \<and> list_all is_ascii_hexdigit (hex_of bs)" for bs
  proof (induction bs)
    case (Cons b bs)
    then show ?case
      using hex_of_digit_digit [of "unat b div 16"] hex_of_digit_digit [of "unat b mod 16"] unat_u8_lt [of b] by (simp add: hex_of_def)
  qed (simp add: hex_of_def)
  moreover have "position MARKER (replicate n 1) = None" for n
    by (induction n) (simp_all add: position.simps marker)
  then have "position MARKER (drop COINBASE_MIN_BINARY_HEADER (replicate 40 1)) = None" by (simp only: drop_replicate)
  ultimately show ?thesis
    using opoi_round_trip [where hex_encode = hex_of and pre = "replicate 40 1" and nonce = "0x1234" and post = "[10]"] by (simp add: COINBASE_MIN_BINARY_HEADER_def)
qed

end
