(* ===== verification/Opening_Items.thy ===== *)
theory Opening_Items
  imports Prelude
begin

text \<open>
  \<open>src/verifiable-inference/src/opening.rs\<close>, first part: the pieces of an opening (manifest entries, chunk
  ranges, leaf chunks, whole leaves, spans, links and residual points), the writer \<open>W\<close> and the reader
  \<open>R\<close>. A method of the writer is the function that gives the bytes it appends; a reader holds the
  bytes from its offset on, and \<open>None\<close> is the \<open>?\<close> of a short or malformed input. A counter is written
  with \<open>as u8\<close>, \<open>as u16\<close> or \<open>as u32\<close>, so it wraps where a list is too long; \<open>ok_*\<close> says that it does
  not, and that a \<open>Hash\<close> has the 32 bytes of its type.

  The locale \<open>wire_item\<close> is the contract of a piece: reading what was written gives the piece and the rest of
  the input; \<open>canonical_item\<close> adds that whatever is read was written so. Each piece is an instance.
\<close>

section \<open>Pieces of an opening\<close>

record EntryOpening =
  eo_index :: u32
  eo_bytes :: bytes
  eo_path :: "hash list"

record ChunkRange =
  first_chunk :: u64
  chunk_bytes :: bytes
  range_proof :: "hash list"

record ExpertIds =
  ids_chunk :: bytes
  ids_chunk_path :: "hash list"

record LeafChunk =
  lc_total_len :: u32
  lc_index :: u32
  lc_chunk :: bytes
  lc_chunk_path :: "hash list"
  lc_leaf_path :: "hash list"

record LeafBytes =
  lb_bytes :: bytes
  lb_leaf_path :: "hash list"

record SeqSpan =
  sp_first_chunk :: u32
  sp_bytes :: bytes
  sp_chunk_proof :: "hash list"
  sp_leaf_path :: "hash list"

type_synonym Weights = "EntryOpening \<times> ChunkRange"

datatype LinkOpening =
    NoLink
  | Norm LeafBytes Weights
  | Token Weights Weights
  | Source EntryOpening LeafChunk "ExpertIds option"

datatype ResidSrc = SrcChunk LeafChunk | SrcToken EntryOpening ChunkRange

record MoeAdd =
  moe_scores :: LeafBytes
  moe_bias :: Weights
  moe_ids :: ExpertIds
  moe_slots :: "LeafChunk list"
  moe_shexp :: LeafChunk
  moe_router_row :: Weights
  moe_resid :: LeafBytes
  moe_norm :: Weights

datatype ResidAdd = AddChunk LeafChunk | Normed LeafBytes Weights | Moe MoeAdd

record ResidPoint =
  rp_n_ubatch :: u32
  rp_tok :: u32
  rp_pos_path :: "hash list"
  rp_meta_path :: "hash list"
  rp_layer :: EntryOpening
  rp_product :: EntryOpening
  rp_dst :: LeafChunk
  rp_src :: ResidSrc
  rp_add :: ResidAdd

section \<open>Writer\<close>

definition w_u8 :: "u8 \<Rightarrow> bytes" where "w_u8 v = [v]"
definition w_u16 :: "u16 \<Rightarrow> bytes" where "w_u16 v = le_bytes 2 v"
definition w_u32 :: "u32 \<Rightarrow> bytes" where "w_u32 v = le_bytes 4 v"
definition w_u64 :: "u64 \<Rightarrow> bytes" where "w_u64 v = le_bytes 8 v"

definition w_bytes32 :: "bytes \<Rightarrow> bytes" where
  "w_bytes32 b = w_u32 (of_nat (length b)) @ b"

definition w_hashes :: "hash list \<Rightarrow> bytes" where
  "w_hashes h = w_u8 (of_nat (length h)) @ concat h"

definition w_entry :: "EntryOpening \<Rightarrow> bytes" where
  "w_entry e = w_u32 (eo_index e) @ w_u16 (of_nat (length (eo_bytes e))) @ eo_bytes e @ w_hashes (eo_path e)"

definition w_range :: "ChunkRange \<Rightarrow> bytes" where
  "w_range r = w_u64 (first_chunk r) @ w_u32 (of_nat (length (chunk_bytes r) div 32)) @ chunk_bytes r @ w_hashes (range_proof r)"

definition w_weights :: "Weights \<Rightarrow> bytes" where
  "w_weights w = w_entry (fst w) @ w_range (snd w)"

definition w_leaf_chunk :: "LeafChunk \<Rightarrow> bytes" where
  "w_leaf_chunk c = w_u32 (lc_total_len c) @ w_u32 (lc_index c) @ w_bytes32 (lc_chunk c) @ w_hashes (lc_chunk_path c) @
     w_hashes (lc_leaf_path c)"

definition w_leaf_bytes :: "LeafBytes \<Rightarrow> bytes" where
  "w_leaf_bytes l = w_bytes32 (lb_bytes l) @ w_hashes (lb_leaf_path l)"

definition w_seq_span :: "SeqSpan \<Rightarrow> bytes" where
  "w_seq_span s = w_u32 (sp_first_chunk s) @ w_bytes32 (sp_bytes s) @ w_hashes (sp_chunk_proof s) @ w_hashes (sp_leaf_path s)"

text \<open>The fields of \<open>ExpertIds\<close>, which its three writers spell out, and an optional piece after its flag.\<close>

definition w_ids :: "ExpertIds \<Rightarrow> bytes" where
  "w_ids e = w_bytes32 (ids_chunk e) @ w_hashes (ids_chunk_path e)"

fun w_opt :: "('a \<Rightarrow> bytes) \<Rightarrow> 'a option \<Rightarrow> bytes" where
  "w_opt w (Some e) = w_u8 1 @ w e"
| "w_opt w None = w_u8 0"

text \<open>A list after its 8-bit count.\<close>

definition w_list :: "('a \<Rightarrow> bytes) \<Rightarrow> 'a list \<Rightarrow> bytes" where
  "w_list w xs = w_u8 (of_nat (length xs)) @ concat (map w xs)"

fun w_link :: "LinkOpening \<Rightarrow> bytes" where
  "w_link NoLink = w_u8 0"
| "w_link (Norm src norm) = w_u8 1 @ w_leaf_bytes src @ w_weights norm"
| "w_link (Token embd norm) = w_u8 2 @ w_weights embd @ w_weights norm"
| "w_link (Source src y ids) = w_u8 3 @ w_entry src @ w_leaf_chunk y @ w_opt w_ids ids"

fun w_resid_src :: "ResidSrc \<Rightarrow> bytes" where
  "w_resid_src (SrcChunk c) = w_u8 0 @ w_leaf_chunk c"
| "w_resid_src (SrcToken e r) = w_u8 1 @ w_entry e @ w_range r"

definition w_moe :: "MoeAdd \<Rightarrow> bytes" where
  "w_moe m = w_leaf_bytes (moe_scores m) @ w_weights (moe_bias m) @ w_ids (moe_ids m) @ w_list w_leaf_chunk (moe_slots m) @
     w_leaf_chunk (moe_shexp m) @ w_weights (moe_router_row m) @ w_leaf_bytes (moe_resid m) @ w_weights (moe_norm m)"

fun w_resid_add :: "ResidAdd \<Rightarrow> bytes" where
  "w_resid_add (AddChunk c) = w_u8 0 @ w_leaf_chunk c"
| "w_resid_add (Normed y norm) = w_u8 1 @ w_leaf_bytes y @ w_weights norm"
| "w_resid_add (Moe m) = w_u8 2 @ w_moe m"

definition w_resid :: "ResidPoint \<Rightarrow> bytes" where
  "w_resid p = w_u32 (rp_n_ubatch p) @ w_u32 (rp_tok p) @ w_hashes (rp_pos_path p) @ w_hashes (rp_meta_path p) @
     w_entry (rp_layer p) @ w_entry (rp_product p) @ w_leaf_chunk (rp_dst p) @ w_resid_src (rp_src p) @ w_resid_add (rp_add p)"

section \<open>Reader\<close>

type_synonym 'a reader = "bytes \<Rightarrow> ('a \<times> bytes) option"

definition r_take :: "nat \<Rightarrow> bytes reader" where
  "r_take n b = (if n \<le> length b then Some (take n b, drop n b) else None)"

definition r_u8 :: "u8 reader" where "r_u8 b = do { (s, b) \<leftarrow> r_take 1 b; Some (s ! 0, b) }"
definition r_u16 :: "u16 reader" where "r_u16 b = do { (s, b) \<leftarrow> r_take 2 b; Some (from_le s, b) }"
definition r_u32 :: "u32 reader" where "r_u32 b = do { (s, b) \<leftarrow> r_take 4 b; Some (from_le s, b) }"
definition r_u64 :: "u64 reader" where "r_u64 b = do { (s, b) \<leftarrow> r_take 8 b; Some (from_le s, b) }"

definition r_bytes32 :: "bytes reader" where
  "r_bytes32 b = do { (n, b) \<leftarrow> r_u32 b; r_take (unat n) b }"

text \<open>\<open>(0..n).map(|_| item()).collect::<Option<Vec<_>>>()\<close>\<close>

primrec r_many :: "'a reader \<Rightarrow> nat \<Rightarrow> 'a list reader" where
  "r_many r 0 b = Some ([], b)"
| "r_many r (Suc n) b = do { (x, b) \<leftarrow> r b; (xs, b) \<leftarrow> r_many r n b; Some (x # xs, b) }"

definition r_list :: "'a reader \<Rightarrow> 'a list reader" where
  "r_list r b = do { (n, b) \<leftarrow> r_u8 b; r_many r (unat n) b }"

definition r_hashes :: "hash list reader" where
  "r_hashes b = do { (n, b) \<leftarrow> r_u8 b; r_many (r_take 32) (unat n) b }"

definition r_entry :: "EntryOpening reader" where
  "r_entry b = do {
     (index, b) \<leftarrow> r_u32 b; (n, b) \<leftarrow> r_u16 b; (bs, b) \<leftarrow> r_take (unat n) b; (path, b) \<leftarrow> r_hashes b;
     Some (\<lparr>eo_index = index, eo_bytes = bs, eo_path = path\<rparr>, b) }"

definition r_range :: "ChunkRange reader" where
  "r_range b = do {
     (first, b) \<leftarrow> r_u64 b; (n, b) \<leftarrow> r_u32 b; (cs, b) \<leftarrow> r_take (unat n * 32) b; (p, b) \<leftarrow> r_hashes b;
     Some (\<lparr>first_chunk = first, chunk_bytes = cs, range_proof = p\<rparr>, b) }"

definition r_weights :: "Weights reader" where
  "r_weights b = do { (e, b) \<leftarrow> r_entry b; (r, b) \<leftarrow> r_range b; Some ((e, r), b) }"

definition r_leaf_chunk :: "LeafChunk reader" where
  "r_leaf_chunk b = do {
     (total_len, b) \<leftarrow> r_u32 b; (index, b) \<leftarrow> r_u32 b; (chunk, b) \<leftarrow> r_bytes32 b;
     (chunk_path, b) \<leftarrow> r_hashes b; (leaf_path, b) \<leftarrow> r_hashes b;
     Some (\<lparr>lc_total_len = total_len, lc_index = index, lc_chunk = chunk, lc_chunk_path = chunk_path, lc_leaf_path = leaf_path\<rparr>, b) }"

definition r_leaf_bytes :: "LeafBytes reader" where
  "r_leaf_bytes b = do { (bs, b) \<leftarrow> r_bytes32 b; (path, b) \<leftarrow> r_hashes b; Some (\<lparr>lb_bytes = bs, lb_leaf_path = path\<rparr>, b) }"

definition r_seq_span :: "SeqSpan reader" where
  "r_seq_span b = do {
     (first, b) \<leftarrow> r_u32 b; (bs, b) \<leftarrow> r_bytes32 b; (proof, b) \<leftarrow> r_hashes b; (path, b) \<leftarrow> r_hashes b;
     Some (\<lparr>sp_first_chunk = first, sp_bytes = bs, sp_chunk_proof = proof, sp_leaf_path = path\<rparr>, b) }"

definition r_ids :: "ExpertIds reader" where
  "r_ids b = do { (chunk, b) \<leftarrow> r_bytes32 b; (path, b) \<leftarrow> r_hashes b; Some (\<lparr>ids_chunk = chunk, ids_chunk_path = path\<rparr>, b) }"

text \<open>\<open>match self.u8()? { 0 => None, 1 => Some(..), _ => return None }\<close>\<close>

definition r_opt :: "'a reader \<Rightarrow> 'a option reader" where
  "r_opt r b = do {
     (tag, b) \<leftarrow> r_u8 b;
     if tag = 0 then Some (None, b) else if tag = 1 then do { (x, b) \<leftarrow> r b; Some (Some x, b) } else None }"

definition r_link :: "LinkOpening reader" where
  "r_link b = do {
     (tag, b) \<leftarrow> r_u8 b;
     if tag = 0 then Some (NoLink, b)
     else if tag = 1 then do { (src, b) \<leftarrow> r_leaf_bytes b; (norm, b) \<leftarrow> r_weights b; Some (Norm src norm, b) }
     else if tag = 2 then do { (embd, b) \<leftarrow> r_weights b; (norm, b) \<leftarrow> r_weights b; Some (Token embd norm, b) }
     else if tag = 3 then do {
       (src, b) \<leftarrow> r_entry b; (y, b) \<leftarrow> r_leaf_chunk b; (ids, b) \<leftarrow> r_opt r_ids b; Some (Source src y ids, b) }
     else None }"

definition r_resid_src :: "ResidSrc reader" where
  "r_resid_src b = do {
     (tag, b) \<leftarrow> r_u8 b;
     if tag = 0 then do { (c, b) \<leftarrow> r_leaf_chunk b; Some (SrcChunk c, b) }
     else if tag = 1 then do { (e, b) \<leftarrow> r_entry b; (r, b) \<leftarrow> r_range b; Some (SrcToken e r, b) }
     else None }"

definition r_moe :: "MoeAdd reader" where
  "r_moe b = do {
     (scores, b) \<leftarrow> r_leaf_bytes b; (bias, b) \<leftarrow> r_weights b; (ids, b) \<leftarrow> r_ids b; (slots, b) \<leftarrow> r_list r_leaf_chunk b;
     (shexp, b) \<leftarrow> r_leaf_chunk b; (router_row, b) \<leftarrow> r_weights b; (resid, b) \<leftarrow> r_leaf_bytes b; (norm, b) \<leftarrow> r_weights b;
     Some (\<lparr>moe_scores = scores, moe_bias = bias, moe_ids = ids, moe_slots = slots, moe_shexp = shexp,
            moe_router_row = router_row, moe_resid = resid, moe_norm = norm\<rparr>, b) }"

definition r_resid_add :: "ResidAdd reader" where
  "r_resid_add b = do {
     (tag, b) \<leftarrow> r_u8 b;
     if tag = 0 then do { (c, b) \<leftarrow> r_leaf_chunk b; Some (AddChunk c, b) }
     else if tag = 1 then do { (y, b) \<leftarrow> r_leaf_bytes b; (norm, b) \<leftarrow> r_weights b; Some (Normed y norm, b) }
     else if tag = 2 then do { (m, b) \<leftarrow> r_moe b; Some (Moe m, b) }
     else None }"

definition r_resid :: "ResidPoint reader" where
  "r_resid b = do {
     (n_ubatch, b) \<leftarrow> r_u32 b; (tok, b) \<leftarrow> r_u32 b; (pos_path, b) \<leftarrow> r_hashes b; (meta_path, b) \<leftarrow> r_hashes b;
     (layer, b) \<leftarrow> r_entry b; (product, b) \<leftarrow> r_entry b; (dst, b) \<leftarrow> r_leaf_chunk b; (src, b) \<leftarrow> r_resid_src b;
     (add, b) \<leftarrow> r_resid_add b;
     Some (\<lparr>rp_n_ubatch = n_ubatch, rp_tok = tok, rp_pos_path = pos_path, rp_meta_path = meta_path, rp_layer = layer,
            rp_product = product, rp_dst = dst, rp_src = src, rp_add = add\<rparr>, b) }"

section \<open>Well-formed pieces\<close>

definition ok_bytes32 :: "bytes \<Rightarrow> bool" where "ok_bytes32 b \<longleftrightarrow> length b < 2 ^ 32"
definition ok_hash :: "hash \<Rightarrow> bool" where "ok_hash h \<longleftrightarrow> length h = 32"
definition ok_list :: "('a \<Rightarrow> bool) \<Rightarrow> 'a list \<Rightarrow> bool" where "ok_list ok xs \<longleftrightarrow> length xs < 256 \<and> list_all ok xs"
abbreviation ok_hashes :: "hash list \<Rightarrow> bool" where "ok_hashes \<equiv> ok_list ok_hash"

definition ok_entry :: "EntryOpening \<Rightarrow> bool" where
  "ok_entry e \<longleftrightarrow> length (eo_bytes e) < 2 ^ 16 \<and> ok_hashes (eo_path e)"

definition ok_range :: "ChunkRange \<Rightarrow> bool" where
  "ok_range r \<longleftrightarrow> length (chunk_bytes r) mod 32 = 0 \<and> length (chunk_bytes r) div 32 < 2 ^ 32 \<and> ok_hashes (range_proof r)"

definition ok_weights :: "Weights \<Rightarrow> bool" where
  "ok_weights w \<longleftrightarrow> ok_entry (fst w) \<and> ok_range (snd w)"

definition ok_leaf_chunk :: "LeafChunk \<Rightarrow> bool" where
  "ok_leaf_chunk c \<longleftrightarrow> ok_bytes32 (lc_chunk c) \<and> ok_hashes (lc_chunk_path c) \<and> ok_hashes (lc_leaf_path c)"

definition ok_leaf_bytes :: "LeafBytes \<Rightarrow> bool" where
  "ok_leaf_bytes l \<longleftrightarrow> ok_bytes32 (lb_bytes l) \<and> ok_hashes (lb_leaf_path l)"

definition ok_seq_span :: "SeqSpan \<Rightarrow> bool" where
  "ok_seq_span s \<longleftrightarrow> ok_bytes32 (sp_bytes s) \<and> ok_hashes (sp_chunk_proof s) \<and> ok_hashes (sp_leaf_path s)"

definition ok_ids :: "ExpertIds \<Rightarrow> bool" where
  "ok_ids e \<longleftrightarrow> ok_bytes32 (ids_chunk e) \<and> ok_hashes (ids_chunk_path e)"

fun ok_link :: "LinkOpening \<Rightarrow> bool" where
  "ok_link NoLink \<longleftrightarrow> True"
| "ok_link (Norm src norm) \<longleftrightarrow> ok_leaf_bytes src \<and> ok_weights norm"
| "ok_link (Token embd norm) \<longleftrightarrow> ok_weights embd \<and> ok_weights norm"
| "ok_link (Source src y ids) \<longleftrightarrow> ok_entry src \<and> ok_leaf_chunk y \<and> pred_option ok_ids ids"

fun ok_resid_src :: "ResidSrc \<Rightarrow> bool" where
  "ok_resid_src (SrcChunk c) \<longleftrightarrow> ok_leaf_chunk c"
| "ok_resid_src (SrcToken e r) \<longleftrightarrow> ok_entry e \<and> ok_range r"

definition ok_moe :: "MoeAdd \<Rightarrow> bool" where
  "ok_moe m \<longleftrightarrow> ok_leaf_bytes (moe_scores m) \<and> ok_weights (moe_bias m) \<and> ok_ids (moe_ids m) \<and>
     ok_list ok_leaf_chunk (moe_slots m) \<and> ok_leaf_chunk (moe_shexp m) \<and> ok_weights (moe_router_row m) \<and>
     ok_leaf_bytes (moe_resid m) \<and> ok_weights (moe_norm m)"

fun ok_resid_add :: "ResidAdd \<Rightarrow> bool" where
  "ok_resid_add (AddChunk c) \<longleftrightarrow> ok_leaf_chunk c"
| "ok_resid_add (Normed y norm) \<longleftrightarrow> ok_leaf_bytes y \<and> ok_weights norm"
| "ok_resid_add (Moe m) \<longleftrightarrow> ok_moe m"

definition ok_resid :: "ResidPoint \<Rightarrow> bool" where
  "ok_resid p \<longleftrightarrow> ok_hashes (rp_pos_path p) \<and> ok_hashes (rp_meta_path p) \<and> ok_entry (rp_layer p) \<and> ok_entry (rp_product p) \<and>
     ok_leaf_chunk (rp_dst p) \<and> ok_resid_src (rp_src p) \<and> ok_resid_add (rp_add p)"

section \<open>The contract of a piece\<close>

locale wire_item =
  fixes w :: "'a \<Rightarrow> bytes" and r :: "'a reader" and ok :: "'a \<Rightarrow> bool"
  assumes parse: "ok x \<Longrightarrow> r (w x @ rest) = Some (x, rest)"
begin

lemma parse_end: "ok x \<Longrightarrow> r (w x) = Some (x, [])"
  using parse [of x "[]"] by simp

lemma prefix_free: "ok x \<Longrightarrow> ok y \<Longrightarrow> w x @ rest = w y @ rest' \<Longrightarrow> x = y \<and> rest = rest'"
  by (metis parse option.inject prod.inject)

lemma parse_many: "list_all ok xs \<Longrightarrow> r_many r (length xs) (concat (map w xs) @ rest) = Some (xs, rest)"
  by (induction xs) (simp_all add: parse)

lemma parse_list: "ok_list ok xs \<Longrightarrow> r_list r (w_list w xs @ rest) = Some (xs, rest)"
  by (simp add: r_list_def w_list_def r_u8_def w_u8_def r_take_def ok_list_def unat_of_nat parse_many)

lemma parse_opt: "pred_option ok x \<Longrightarrow> r_opt r (w_opt w x @ rest) = Some (x, rest)"
  by (cases x) (simp_all add: r_opt_def r_u8_def w_u8_def r_take_def parse)

end

locale canonical_item = wire_item +
  assumes print: "r b = Some (x, rest) \<Longrightarrow> b = w x @ rest \<and> ok x"
begin

lemma read_iff: "r b = Some (x, rest) \<longleftrightarrow> b = w x @ rest \<and> ok x"
  using parse print by blast

lemma print_many: "r_many r n b = Some (xs, rest) \<Longrightarrow> b = concat (map w xs) @ rest \<and> list_all ok xs \<and> length xs = n"
  by (induction n arbitrary: b xs rest) (fastforce simp: bind_eq_Some_conv dest!: print)+

lemma print_list: "r_list r b = Some (xs, rest) \<Longrightarrow> b = w_list w xs @ rest \<and> ok_list ok xs"
  using unat_u8_lt
  by (cases b) (auto simp: r_list_def w_list_def r_u8_def w_u8_def r_take_def ok_list_def bind_eq_Some_conv dest!: print_many)

lemma print_opt: "r_opt r b = Some (x, rest) \<Longrightarrow> b = w_opt w x @ rest \<and> pred_option ok x"
  by (cases b) (auto simp: r_opt_def r_u8_def w_u8_def r_take_def bind_eq_Some_conv dest!: print split: if_splits)

end

lemma canonical_list: "canonical_item w r ok \<Longrightarrow> canonical_item (w_list w) (r_list r) (ok_list ok)"
  by unfold_locales (blast intro: wire_item.parse_list canonical_item.axioms(1), blast dest: canonical_item.print_list)

lemma canonical_opt: "canonical_item w r ok \<Longrightarrow> canonical_item (w_opt w) (r_opt r) (pred_option ok)"
  by unfold_locales (blast intro: wire_item.parse_opt canonical_item.axioms(1), blast dest: canonical_item.print_opt)

interpretation u8: canonical_item w_u8 r_u8 "\<lambda>_. True"
proof unfold_locales
  fix b x rest assume "r_u8 b = Some (x, rest)"
  then show "b = w_u8 x @ rest \<and> True" by (cases b) (auto simp: r_u8_def w_u8_def r_take_def)
qed (simp add: r_u8_def w_u8_def r_take_def)

lemma canonical_le:
  assumes "8 * n = LENGTH('a::len)"
  shows "canonical_item (le_bytes n) (\<lambda>b. do { (s, b) \<leftarrow> r_take n b; Some (from_le s :: 'a word, b) }) (\<lambda>_. True)"
  by unfold_locales (use assms in \<open>auto simp: r_take_def from_le_bytes le_bytes_from_le split: if_splits\<close>)

interpretation u16: canonical_item w_u16 r_u16 "\<lambda>_. True"
  using canonical_le [of 2, where 'a = 16] by (simp add: w_u16_def [abs_def] r_u16_def [abs_def])

interpretation u32: canonical_item w_u32 r_u32 "\<lambda>_. True"
  using canonical_le [of 4, where 'a = 32] by (simp add: w_u32_def [abs_def] r_u32_def [abs_def])

interpretation u64: canonical_item w_u64 r_u64 "\<lambda>_. True"
  using canonical_le [of 8, where 'a = 64] by (simp add: w_u64_def [abs_def] r_u64_def [abs_def])

interpretation hash32: canonical_item "\<lambda>h. h" "r_take 32" ok_hash
  by unfold_locales (auto simp: r_take_def ok_hash_def split: if_splits)

lemma r_take_append [simp]: "length s = n \<Longrightarrow> r_take n (s @ rest) = Some (s, rest)"
  by (simp add: r_take_def)

lemma r_take_SomeD: "r_take n b = Some (s, rest) \<Longrightarrow> b = s @ rest \<and> length s = n"
  by (auto simp: r_take_def split: if_splits)

lemmas primitive_parse = u8.parse u16.parse u32.parse u64.parse
lemmas primitive_print = u8.print u16.print u32.print u64.print

lemma unat_less_simps: "unat (n :: u8) < 256" "unat (m :: u16) < 65536" "unat (k :: u32) < 4294967296"
  using unsigned_less [of n] unsigned_less [of m] unsigned_less [of k] by simp_all

interpretation bytes32: canonical_item w_bytes32 r_bytes32 ok_bytes32
  by unfold_locales (auto simp: w_bytes32_def r_bytes32_def ok_bytes32_def primitive_parse unat_of_nat bind_eq_Some_conv unat_less_simps
      dest!: primitive_print r_take_SomeD)

interpretation hashes: canonical_item w_hashes r_hashes ok_hashes
  using canonical_list [OF hash32.canonical_item_axioms]
  by (simp add: w_hashes_def [abs_def] w_list_def [abs_def] r_hashes_def [abs_def] r_list_def [abs_def])

interpretation entry: canonical_item w_entry r_entry ok_entry
  by unfold_locales (auto simp: w_entry_def r_entry_def ok_entry_def primitive_parse hashes.parse unat_of_nat bind_eq_Some_conv unat_less_simps
      dest!: primitive_print hashes.print r_take_SomeD)

lemma mult_32: "n mod 32 = 0 \<Longrightarrow> n div 32 * 32 = (n :: nat)"
  by (metis add_0_right div_mult_mod_eq)

interpretation range: canonical_item w_range r_range ok_range
  by unfold_locales (auto simp: w_range_def r_range_def ok_range_def primitive_parse hashes.parse unat_of_nat bind_eq_Some_conv
      unat_less_simps mult_32 dest!: primitive_print hashes.print r_take_SomeD)

text \<open>The pieces made of other pieces: their laws follow from those of their fields.\<close>

named_theorems piece_parse
named_theorems piece_print

declare u8.parse [piece_parse] u32.parse [piece_parse] u64.parse [piece_parse] bytes32.parse [piece_parse] hashes.parse [piece_parse]
  entry.parse [piece_parse] range.parse [piece_parse] hash32.parse [piece_parse]
declare u8.print [piece_print] u32.print [piece_print] u64.print [piece_print] bytes32.print [piece_print] hashes.print [piece_print]
  entry.print [piece_print] range.print [piece_print] hash32.print [piece_print]

interpretation weights: canonical_item w_weights r_weights ok_weights
  by unfold_locales (auto simp: w_weights_def r_weights_def ok_weights_def piece_parse bind_eq_Some_conv dest!: piece_print)

interpretation leaf_chunk: canonical_item w_leaf_chunk r_leaf_chunk ok_leaf_chunk
  by unfold_locales (auto simp: w_leaf_chunk_def r_leaf_chunk_def ok_leaf_chunk_def piece_parse bind_eq_Some_conv dest!: piece_print)

interpretation leaf_bytes: canonical_item w_leaf_bytes r_leaf_bytes ok_leaf_bytes
  by unfold_locales (auto simp: w_leaf_bytes_def r_leaf_bytes_def ok_leaf_bytes_def piece_parse bind_eq_Some_conv dest!: piece_print)

interpretation seq_span: canonical_item w_seq_span r_seq_span ok_seq_span
  by unfold_locales (auto simp: w_seq_span_def r_seq_span_def ok_seq_span_def piece_parse bind_eq_Some_conv dest!: piece_print)

interpretation ids: canonical_item w_ids r_ids ok_ids
  by unfold_locales (auto simp: w_ids_def r_ids_def ok_ids_def piece_parse bind_eq_Some_conv dest!: piece_print)

interpretation ids_opt: canonical_item "w_opt w_ids" "r_opt r_ids" "pred_option ok_ids"
  by (rule canonical_opt) unfold_locales

interpretation leaf_chunks: canonical_item "w_list w_leaf_chunk" "r_list r_leaf_chunk" "ok_list ok_leaf_chunk"
  by (rule canonical_list) unfold_locales

declare weights.parse [piece_parse] leaf_chunk.parse [piece_parse] leaf_bytes.parse [piece_parse] seq_span.parse [piece_parse]
  ids.parse [piece_parse] ids_opt.parse [piece_parse] leaf_chunks.parse [piece_parse]
declare weights.print [piece_print] leaf_chunk.print [piece_print] leaf_bytes.print [piece_print] seq_span.print [piece_print]
  ids.print [piece_print] ids_opt.print [piece_print] leaf_chunks.print [piece_print]

interpretation link: canonical_item w_link r_link ok_link
proof unfold_locales
  show "r_link (w_link x @ rest) = Some (x, rest)" if "ok_link x" for x rest
    using that by (cases x) (simp_all add: r_link_def piece_parse)
qed (auto simp: r_link_def bind_eq_Some_conv dest!: piece_print split: if_splits)

interpretation resid_src: canonical_item w_resid_src r_resid_src ok_resid_src
proof unfold_locales
  show "r_resid_src (w_resid_src x @ rest) = Some (x, rest)" if "ok_resid_src x" for x rest
    using that by (cases x) (simp_all add: r_resid_src_def piece_parse)
qed (auto simp: r_resid_src_def bind_eq_Some_conv dest!: piece_print split: if_splits)

interpretation moe: canonical_item w_moe r_moe ok_moe
  by unfold_locales (auto simp: w_moe_def r_moe_def ok_moe_def piece_parse bind_eq_Some_conv dest!: piece_print)

declare moe.parse [piece_parse] resid_src.parse [piece_parse] link.parse [piece_parse]
declare moe.print [piece_print] resid_src.print [piece_print] link.print [piece_print]

interpretation resid_add: canonical_item w_resid_add r_resid_add ok_resid_add
proof unfold_locales
  show "r_resid_add (w_resid_add x @ rest) = Some (x, rest)" if "ok_resid_add x" for x rest
    using that by (cases x) (simp_all add: r_resid_add_def piece_parse)
qed (auto simp: r_resid_add_def bind_eq_Some_conv dest!: piece_print split: if_splits)

declare resid_add.parse [piece_parse] resid_add.print [piece_print]

interpretation resid: canonical_item w_resid r_resid ok_resid
  by unfold_locales (auto simp: w_resid_def r_resid_def ok_resid_def piece_parse bind_eq_Some_conv dest!: piece_print)

declare resid.parse [piece_parse] resid.print [piece_print]

end
