(* ===== verification/Opening_Wire.thy ===== *)
theory Opening_Wire
  imports Opening_Items
begin

text \<open>
  \<open>src/verifiable-inference/src/opening.rs\<close>, second part: the four opening bodies (trace, attention, recurrent
  and residual), their encoders and decoders, the envelope that names a seed block, and the split of a
  signed payload.

  The lemmas show that a well-formed opening is decoded from its encoding, bare or in the envelope; that
  the attention, recurrent and residual formats are canonical; and that no body is an opening of two
  kinds.
\<close>

section \<open>Definitions\<close>

definition VERSION :: u8 where "VERSION = 1"
definition VERSION_PREFIX :: u8 where "VERSION_PREFIX = 2"
definition VERSION_CHAIN :: u8 where "VERSION_CHAIN = 3"
definition VERSION_SEEDED :: u8 where "VERSION_SEEDED = 4"
definition VERSION_ATTN :: u8 where "VERSION_ATTN = 5"
definition VERSION_RECUR :: u8 where "VERSION_RECUR = 6"
definition VERSION_ROOTS :: u8 where "VERSION_ROOTS = 7"
definition VERSION_RESID :: u8 where "VERSION_RESID = 8"
definition MAX_BODY_LEN :: nat where "MAX_BODY_LEN = 112 * 1024"
definition SIGNATURE_LEN :: nat where "SIGNATURE_LEN = 32 + 64"
definition MIN_PAYLOAD_LEN :: nat where "MIN_PAYLOAD_LEN = 1 + 32 + 1 + SIGNATURE_LEN"
definition MAX_PAYLOAD_LEN :: nat where "MAX_PAYLOAD_LEN = MAX_BODY_LEN + SIGNATURE_LEN"

lemmas version_defs = VERSION_def VERSION_PREFIX_def VERSION_CHAIN_def VERSION_SEEDED_def VERSION_ATTN_def VERSION_RECUR_def
  VERSION_ROOTS_def VERSION_RESID_def

record SignedPayload =
  sgn_body :: bytes
  sgn_escrow_pubkey :: bytes
  sgn_signature :: bytes

definition split_payload :: "bytes \<Rightarrow> SignedPayload option" where
  "split_payload payload =
     (if length payload < MIN_PAYLOAD_LEN \<or> length payload > MAX_PAYLOAD_LEN then None
      else let body = take (length payload - SIGNATURE_LEN) payload; tail = drop (length payload - SIGNATURE_LEN) payload
           in Some \<lparr>sgn_body = body, sgn_escrow_pubkey = take 32 tail, sgn_signature = drop 32 tail\<rparr>)"

subsection \<open>Trace openings\<close>

record Point =
  pt_n_ubatch :: u32
  pt_pos_path :: "hash list"
  pt_meta_path :: "hash list"
  pt_entry :: EntryOpening
  pt_partner :: "EntryOpening option"
  pt_bias :: "Weights option"
  pt_rows :: "ChunkRange list"
  pt_x :: bytes
  pt_x_path :: "hash list"
  pt_y_total_len :: u32
  pt_y_chunk_index :: u32
  pt_y_chunk :: bytes
  pt_y_chunk_path :: "hash list"
  pt_y_path :: "hash list"

record PrefixPoint =
  pp_n_ubatch :: u32
  pp_pos_path :: "hash list"
  pp_meta_path :: "hash list"
  pp_entry :: EntryOpening
  pp_x :: bytes
  pp_x_path :: "hash list"
  pp_embd :: Weights
  pp_norm :: Weights

record Opening =
  op_response_txid :: hash
  op_points :: "Point list"
  op_prefix :: "PrefixPoint option"
  op_links :: "(u32 \<times> LinkOpening) list"
  op_experts :: "ExpertIds option list"
  op_resid :: "ResidPoint option"
  op_roots :: "(hash \<times> hash) option"

definition w_point :: "Point \<Rightarrow> bytes" where
  "w_point p = w_u32 (pt_n_ubatch p) @ w_hashes (pt_pos_path p) @ w_hashes (pt_meta_path p) @ w_entry (pt_entry p) @
     w_opt w_entry (pt_partner p) @ w_opt w_weights (pt_bias p) @ w_list w_range (pt_rows p) @
     w_bytes32 (pt_x p) @ w_hashes (pt_x_path p) @ w_u32 (pt_y_total_len p) @ w_u32 (pt_y_chunk_index p) @
     w_bytes32 (pt_y_chunk p) @ w_hashes (pt_y_chunk_path p) @ w_hashes (pt_y_path p)"

definition w_prefix :: "PrefixPoint \<Rightarrow> bytes" where
  "w_prefix p = w_u32 (pp_n_ubatch p) @ w_hashes (pp_pos_path p) @ w_hashes (pp_meta_path p) @ w_entry (pp_entry p) @
     w_bytes32 (pp_x p) @ w_hashes (pp_x_path p) @ w_weights (pp_embd p) @ w_weights (pp_norm p)"

definition in_chain :: "Opening \<Rightarrow> bool" where
  "in_chain o1 \<longleftrightarrow> op_links o1 \<noteq> [] \<or> op_resid o1 \<noteq> None"

definition w_links :: "Opening \<Rightarrow> bytes" where
  "w_links o1 = concat (map (\<lambda>(i, (tok, link)). w_u32 tok @ w_link link @
       w_opt w_ids (if i < length (op_experts o1) then op_experts o1 ! i else None)) (enumerate 0 (op_links o1)))"

definition encode :: "Opening \<Rightarrow> bytes" where
  "encode o1 =
     (let chain = in_chain o1
      in w_u8 (if chain \<and> op_roots o1 \<noteq> None then VERSION_ROOTS else if chain then VERSION_CHAIN
               else if op_prefix o1 \<noteq> None then VERSION_PREFIX else VERSION) @
         op_response_txid o1 @
         (if chain then case op_roots o1 of Some (p, q) \<Rightarrow> p @ q | None \<Rightarrow> [] else []) @
         w_list w_point (op_points o1) @
         (if chain then w_links o1 else []) @
         (case op_prefix o1 of Some p \<Rightarrow> w_prefix p | None \<Rightarrow> []) @
         (case op_resid o1 of Some p \<Rightarrow> w_resid p | None \<Rightarrow> []))"

text \<open>\<open>if r.u8()? == 1 { Some(..) } else { None }\<close>\<close>

definition r_flag :: "'a reader \<Rightarrow> 'a option reader" where
  "r_flag r b = do { (tag, b) \<leftarrow> r_u8 b; if tag = 1 then do { (x, b) \<leftarrow> r b; Some (Some x, b) } else Some (None, b) }"

definition r_point :: "Point reader" where
  "r_point b = do {
     (n_ubatch, b) \<leftarrow> r_u32 b; (pos_path, b) \<leftarrow> r_hashes b; (meta_path, b) \<leftarrow> r_hashes b; (entry, b) \<leftarrow> r_entry b;
     (partner, b) \<leftarrow> r_flag r_entry b; (bias, b) \<leftarrow> r_flag r_weights b; (rows, b) \<leftarrow> r_list r_range b;
     (x, b) \<leftarrow> r_bytes32 b; (x_path, b) \<leftarrow> r_hashes b; (y_total_len, b) \<leftarrow> r_u32 b; (y_chunk_index, b) \<leftarrow> r_u32 b;
     (y_chunk, b) \<leftarrow> r_bytes32 b; (y_chunk_path, b) \<leftarrow> r_hashes b; (y_path, b) \<leftarrow> r_hashes b;
     Some (\<lparr>pt_n_ubatch = n_ubatch, pt_pos_path = pos_path, pt_meta_path = meta_path, pt_entry = entry, pt_partner = partner,
            pt_bias = bias, pt_rows = rows, pt_x = x, pt_x_path = x_path, pt_y_total_len = y_total_len,
            pt_y_chunk_index = y_chunk_index, pt_y_chunk = y_chunk, pt_y_chunk_path = y_chunk_path, pt_y_path = y_path\<rparr>, b) }"

definition r_prefix :: "PrefixPoint reader" where
  "r_prefix b = do {
     (n_ubatch, b) \<leftarrow> r_u32 b; (pos_path, b) \<leftarrow> r_hashes b; (meta_path, b) \<leftarrow> r_hashes b; (entry, b) \<leftarrow> r_entry b;
     (x, b) \<leftarrow> r_bytes32 b; (x_path, b) \<leftarrow> r_hashes b; (embd, b) \<leftarrow> r_weights b; (norm, b) \<leftarrow> r_weights b;
     Some (\<lparr>pp_n_ubatch = n_ubatch, pp_pos_path = pos_path, pp_meta_path = meta_path, pp_entry = entry, pp_x = x,
            pp_x_path = x_path, pp_embd = embd, pp_norm = norm\<rparr>, b) }"

definition r_linked :: "((u32 \<times> LinkOpening) \<times> ExpertIds option) reader" where
  "r_linked b = do { (tok, b) \<leftarrow> r_u32 b; (link, b) \<leftarrow> r_link b; (ids, b) \<leftarrow> r_opt r_ids b; Some (((tok, link), ids), b) }"

definition r_roots :: "(hash \<times> hash) reader" where
  "r_roots b = do { (p, b) \<leftarrow> r_take 32 b; (q, b) \<leftarrow> r_take 32 b; Some ((p, q), b) }"

definition decode_body :: "bytes \<Rightarrow> Opening option" where
  "decode_body b = do {
     (version, b) \<leftarrow> r_u8 b;
     if version \<notin> {VERSION, VERSION_PREFIX, VERSION_CHAIN, VERSION_ROOTS} then None
     else do {
       let chain = version \<in> {VERSION_CHAIN, VERSION_ROOTS};
       (response_txid, b) \<leftarrow> r_take 32 b;
       (roots, b) \<leftarrow> (if version = VERSION_ROOTS then do { (pq, b) \<leftarrow> r_roots b; Some (Some pq, b) } else Some (None, b));
       (n, b) \<leftarrow> r_u8 b;
       (points, b) \<leftarrow> r_many r_point (unat n) b;
       (linked, b) \<leftarrow> (if chain then r_many r_linked (unat n) b else Some ([], b));
       (prefix, b) \<leftarrow> (if version \<ge> VERSION_PREFIX then do { (p, b) \<leftarrow> r_prefix b; Some (Some p, b) } else Some (None, b));
       (resid, b) \<leftarrow> (if chain \<and> b \<noteq> [] then do { (p, b) \<leftarrow> r_resid b; Some (Some p, b) } else Some (None, b));
       if b = [] then Some \<lparr>op_response_txid = response_txid, op_points = points, op_prefix = prefix, op_links = map fst linked,
                            op_experts = map snd linked, op_resid = resid, op_roots = roots\<rparr>
       else None } }"

text \<open>The body inside a seeded envelope. \<open>Opening::decode\<close> unwraps in the same way and calls itself; its second call
  finds no envelope.\<close>

definition inner_body :: "bytes \<Rightarrow> bytes option" where
  "inner_body body =
     (if body = [] \<or> body ! 0 \<noteq> VERSION_SEEDED then Some body
      else if length body \<le> 65 \<or> body ! 65 = VERSION_SEEDED then None
      else Some (body ! 65 # slice 1 33 body @ drop 66 body))"

definition decode :: "bytes \<Rightarrow> Opening option" where
  "decode b =
     (if b \<noteq> [] \<and> b ! 0 = VERSION_SEEDED
      then if length b \<le> 65 \<or> b ! 65 = VERSION_SEEDED then None
           else decode_body (b ! 65 # slice 1 33 b @ drop 66 b)
      else decode_body b)"

definition seed_block :: "bytes \<Rightarrow> hash option" where
  "seed_block body =
     (if body = [] \<or> body ! 0 \<noteq> VERSION_SEEDED then None else if 65 \<le> length body then Some (slice 33 65 body) else None)"

definition seeded :: "bytes \<Rightarrow> hash \<Rightarrow> bytes option" where
  "seeded body block =
     (if body = [] then None
      else let version = body ! 0
           in if version \<notin> {VERSION, VERSION_PREFIX, VERSION_CHAIN, VERSION_ATTN, VERSION_RECUR, VERSION_ROOTS, VERSION_RESID} \<or>
                 length body < 33
              then None else Some (VERSION_SEEDED # slice 1 33 body @ block @ version # drop 33 body))"

subsection \<open>Residual openings\<close>

record FeedRow =
  fr_x :: bytes
  fr_x_path :: "hash list"
  fr_row :: ChunkRange
  fr_bias :: "Weights option"

record ExpertRow =
  er_entry :: EntryOpening
  er_x :: bytes
  er_x_path :: "hash list"
  er_row :: ChunkRange

record ResidOpening =
  ro_response_txid :: hash
  ro_roots :: "(hash \<times> hash) option"
  ro_resid :: ResidPoint
  ro_feed :: FeedRow
  ro_expert :: "ExpertRow option"

definition w_roots :: "hash \<times> hash \<Rightarrow> bytes" where
  "w_roots r = fst r @ snd r"

definition w_feed :: "FeedRow \<Rightarrow> bytes" where
  "w_feed f = w_bytes32 (fr_x f) @ w_hashes (fr_x_path f) @ w_range (fr_row f) @ w_opt w_weights (fr_bias f)"

definition r_feed :: "FeedRow reader" where
  "r_feed b = do {
     (x, b) \<leftarrow> r_bytes32 b; (x_path, b) \<leftarrow> r_hashes b; (row, b) \<leftarrow> r_range b; (bias, b) \<leftarrow> r_opt r_weights b;
     Some (\<lparr>fr_x = x, fr_x_path = x_path, fr_row = row, fr_bias = bias\<rparr>, b) }"

definition w_expert :: "ExpertRow \<Rightarrow> bytes" where
  "w_expert e = w_entry (er_entry e) @ w_bytes32 (er_x e) @ w_hashes (er_x_path e) @ w_range (er_row e)"

definition r_expert :: "ExpertRow reader" where
  "r_expert b = do {
     (entry, b) \<leftarrow> r_entry b; (x, b) \<leftarrow> r_bytes32 b; (x_path, b) \<leftarrow> r_hashes b; (row, b) \<leftarrow> r_range b;
     Some (\<lparr>er_entry = entry, er_x = x, er_x_path = x_path, er_row = row\<rparr>, b) }"

text \<open>A body: the version, checked first, then the fields, and nothing after them.\<close>

definition whole :: "u8 \<Rightarrow> 'a reader \<Rightarrow> bytes \<Rightarrow> 'a option" where
  "whole version r b =
     (if b = [] \<or> b ! 0 \<noteq> version then None
      else do { (x, rest) \<leftarrow> r (drop 1 b); if rest = [] then Some x else None })"

definition w_resid_opening :: "ResidOpening \<Rightarrow> bytes" where
  "w_resid_opening o1 = ro_response_txid o1 @ w_opt w_roots (ro_roots o1) @ w_resid (ro_resid o1) @ w_feed (ro_feed o1) @
     w_opt w_expert (ro_expert o1)"

definition r_resid_opening :: "ResidOpening reader" where
  "r_resid_opening b = do {
     (response_txid, b) \<leftarrow> r_take 32 b; (roots, b) \<leftarrow> r_opt r_roots b; (resid, b) \<leftarrow> r_resid b; (feed, b) \<leftarrow> r_feed b;
     (expert, b) \<leftarrow> r_opt r_expert b;
     Some (\<lparr>ro_response_txid = response_txid, ro_roots = roots, ro_resid = resid, ro_feed = feed, ro_expert = expert\<rparr>, b) }"

definition encode_resid :: "ResidOpening \<Rightarrow> bytes" where
  "encode_resid o1 = w_u8 VERSION_RESID @ w_resid_opening o1"

definition decode_resid :: "bytes \<Rightarrow> ResidOpening option" where
  "decode_resid b = whole VERSION_RESID r_resid_opening b"

subsection \<open>Attention openings\<close>

record AttnOpening =
  at_response_txid :: hash
  at_pos_root :: hash
  at_seq_root :: hash
  at_layer :: EntryOpening
  at_q_entry :: EntryOpening
  at_o_entry :: EntryOpening
  at_norms :: "Weights list"
  at_pos_path :: "hash list"
  at_q :: "LeafChunk list"
  at_out :: LeafBytes
  at_kcache :: SeqSpan
  at_vcache :: SeqSpan
  at_anchor_pos_path :: "hash list"
  at_anchor_k :: "LeafChunk list"
  at_anchor_v :: "LeafChunk list"
  at_absorb :: "LeafChunk list"
  at_path :: "u64 list"
  at_parent :: bytes
  at_parent_path :: "hash list"
  at_partials :: bytes
  at_lse :: SeqSpan

definition w_attn :: "AttnOpening \<Rightarrow> bytes" where
  "w_attn o1 = at_response_txid o1 @ at_pos_root o1 @ at_seq_root o1 @ w_entry (at_layer o1) @ w_entry (at_q_entry o1) @
     w_entry (at_o_entry o1) @ w_list w_weights (at_norms o1) @ w_hashes (at_pos_path o1) @ w_list w_leaf_chunk (at_q o1) @
     w_leaf_bytes (at_out o1) @ w_seq_span (at_kcache o1) @ w_seq_span (at_vcache o1) @ w_hashes (at_anchor_pos_path o1) @
     w_list w_leaf_chunk (at_anchor_k o1) @ w_list w_leaf_chunk (at_anchor_v o1) @ w_list w_leaf_chunk (at_absorb o1) @
     w_list w_u64 (at_path o1) @ w_bytes32 (at_parent o1) @ w_hashes (at_parent_path o1) @ w_bytes32 (at_partials o1) @
     w_seq_span (at_lse o1)"

definition r_attn :: "AttnOpening reader" where
  "r_attn b = do {
     (response_txid, b) \<leftarrow> r_take 32 b; (pos_root, b) \<leftarrow> r_take 32 b; (seq_root, b) \<leftarrow> r_take 32 b;
     (layer, b) \<leftarrow> r_entry b; (q_entry, b) \<leftarrow> r_entry b; (o_entry, b) \<leftarrow> r_entry b; (norms, b) \<leftarrow> r_list r_weights b;
     (pos_path, b) \<leftarrow> r_hashes b; (q, b) \<leftarrow> r_list r_leaf_chunk b; (out, b) \<leftarrow> r_leaf_bytes b;
     (kcache, b) \<leftarrow> r_seq_span b; (vcache, b) \<leftarrow> r_seq_span b; (anchor_pos_path, b) \<leftarrow> r_hashes b;
     (anchor_k, b) \<leftarrow> r_list r_leaf_chunk b; (anchor_v, b) \<leftarrow> r_list r_leaf_chunk b; (absorb, b) \<leftarrow> r_list r_leaf_chunk b;
     (path, b) \<leftarrow> r_list r_u64 b; (parent, b) \<leftarrow> r_bytes32 b; (parent_path, b) \<leftarrow> r_hashes b;
     (partials, b) \<leftarrow> r_bytes32 b; (lse, b) \<leftarrow> r_seq_span b;
     Some (\<lparr>at_response_txid = response_txid, at_pos_root = pos_root, at_seq_root = seq_root, at_layer = layer,
            at_q_entry = q_entry, at_o_entry = o_entry, at_norms = norms, at_pos_path = pos_path, at_q = q, at_out = out,
            at_kcache = kcache, at_vcache = vcache, at_anchor_pos_path = anchor_pos_path, at_anchor_k = anchor_k,
            at_anchor_v = anchor_v, at_absorb = absorb, at_path = path, at_parent = parent, at_parent_path = parent_path,
            at_partials = partials, at_lse = lse\<rparr>, b) }"

definition encode_attn :: "AttnOpening \<Rightarrow> bytes" where
  "encode_attn o1 = w_u8 VERSION_ATTN @ w_attn o1"

definition decode_attn :: "bytes \<Rightarrow> AttnOpening option" where
  "decode_attn b = whole VERSION_ATTN r_attn b"

subsection \<open>Recurrent openings\<close>

record RecurTap =
  tap_pos_path :: "hash list"
  tap_q :: LeafChunk
  tap_k :: LeafChunk
  tap_v :: LeafChunk

record RecurOpening =
  rc_response_txid :: hash
  rc_pos_root :: hash
  rc_seq_root :: hash
  rc_layer :: EntryOpening
  rc_out_entry :: EntryOpening
  rc_decay_entry :: EntryOpening
  rc_weights :: "Weights list"
  rc_records :: SeqSpan
  rc_start_rows :: SeqSpan
  rc_end_rows :: SeqSpan
  rc_taps :: "RecurTap list"
  rc_beta :: LeafChunk
  rc_decay :: LeafChunk
  rc_gate :: LeafChunk
  rc_out :: LeafBytes

definition w_tap :: "RecurTap \<Rightarrow> bytes" where
  "w_tap t = w_hashes (tap_pos_path t) @ w_leaf_chunk (tap_q t) @ w_leaf_chunk (tap_k t) @ w_leaf_chunk (tap_v t)"

definition r_tap :: "RecurTap reader" where
  "r_tap b = do {
     (pos_path, b) \<leftarrow> r_hashes b; (q, b) \<leftarrow> r_leaf_chunk b; (k, b) \<leftarrow> r_leaf_chunk b; (v, b) \<leftarrow> r_leaf_chunk b;
     Some (\<lparr>tap_pos_path = pos_path, tap_q = q, tap_k = k, tap_v = v\<rparr>, b) }"

definition w_recur :: "RecurOpening \<Rightarrow> bytes" where
  "w_recur o1 = rc_response_txid o1 @ rc_pos_root o1 @ rc_seq_root o1 @ w_entry (rc_layer o1) @ w_entry (rc_out_entry o1) @
     w_entry (rc_decay_entry o1) @ w_list w_weights (rc_weights o1) @ w_seq_span (rc_records o1) @
     w_seq_span (rc_start_rows o1) @ w_seq_span (rc_end_rows o1) @ w_list w_tap (rc_taps o1) @ w_leaf_chunk (rc_beta o1) @
     w_leaf_chunk (rc_decay o1) @ w_leaf_chunk (rc_gate o1) @ w_leaf_bytes (rc_out o1)"

definition r_recur :: "RecurOpening reader" where
  "r_recur b = do {
     (response_txid, b) \<leftarrow> r_take 32 b; (pos_root, b) \<leftarrow> r_take 32 b; (seq_root, b) \<leftarrow> r_take 32 b;
     (layer, b) \<leftarrow> r_entry b; (out_entry, b) \<leftarrow> r_entry b; (decay_entry, b) \<leftarrow> r_entry b; (weights, b) \<leftarrow> r_list r_weights b;
     (records, b) \<leftarrow> r_seq_span b; (start_rows, b) \<leftarrow> r_seq_span b; (end_rows, b) \<leftarrow> r_seq_span b;
     (taps, b) \<leftarrow> r_list r_tap b; (beta, b) \<leftarrow> r_leaf_chunk b; (decay, b) \<leftarrow> r_leaf_chunk b; (gate, b) \<leftarrow> r_leaf_chunk b;
     (out, b) \<leftarrow> r_leaf_bytes b;
     Some (\<lparr>rc_response_txid = response_txid, rc_pos_root = pos_root, rc_seq_root = seq_root, rc_layer = layer,
            rc_out_entry = out_entry, rc_decay_entry = decay_entry, rc_weights = weights, rc_records = records,
            rc_start_rows = start_rows, rc_end_rows = end_rows, rc_taps = taps, rc_beta = beta, rc_decay = decay,
            rc_gate = gate, rc_out = out\<rparr>, b) }"

definition encode_recur :: "RecurOpening \<Rightarrow> bytes" where
  "encode_recur o1 = w_u8 VERSION_RECUR @ w_recur o1"

definition decode_recur :: "bytes \<Rightarrow> RecurOpening option" where
  "decode_recur b = whole VERSION_RECUR r_recur b"

subsection \<open>Bodies of any kind\<close>

definition is_audit_body :: "bytes \<Rightarrow> bool" where
  "is_audit_body body \<longleftrightarrow> decode body \<noteq> None \<or>
     (case inner_body body of None \<Rightarrow> False
      | Some b \<Rightarrow> decode_attn b \<noteq> None \<or> decode_recur b \<noteq> None \<or> decode_resid b \<noteq> None)"

definition attn_path :: "bytes \<Rightarrow> u64 list option" where
  "attn_path body = map_option at_path (Option.bind (inner_body body) decode_attn)"

section \<open>Well-formed openings\<close>

definition ok_point :: "Point \<Rightarrow> bool" where
  "ok_point p \<longleftrightarrow> ok_hashes (pt_pos_path p) \<and> ok_hashes (pt_meta_path p) \<and> ok_entry (pt_entry p) \<and>
     pred_option ok_entry (pt_partner p) \<and> pred_option ok_weights (pt_bias p) \<and> ok_list ok_range (pt_rows p) \<and>
     ok_bytes32 (pt_x p) \<and> ok_hashes (pt_x_path p) \<and> ok_bytes32 (pt_y_chunk p) \<and> ok_hashes (pt_y_chunk_path p) \<and>
     ok_hashes (pt_y_path p)"

definition ok_prefix :: "PrefixPoint \<Rightarrow> bool" where
  "ok_prefix p \<longleftrightarrow> ok_hashes (pp_pos_path p) \<and> ok_hashes (pp_meta_path p) \<and> ok_entry (pp_entry p) \<and> ok_bytes32 (pp_x p) \<and>
     ok_hashes (pp_x_path p) \<and> ok_weights (pp_embd p) \<and> ok_weights (pp_norm p)"

definition ok_roots :: "hash \<times> hash \<Rightarrow> bool" where
  "ok_roots r \<longleftrightarrow> ok_hash (fst r) \<and> ok_hash (snd r)"

text \<open>A stage-2 opening carries a link and an expert slot for every point and the prefix point; a stage-1
  opening has neither experts nor roots.\<close>

definition ok_opening :: "Opening \<Rightarrow> bool" where
  "ok_opening o1 \<longleftrightarrow> ok_hash (op_response_txid o1) \<and> ok_list ok_point (op_points o1) \<and> pred_option ok_prefix (op_prefix o1) \<and>
     (if in_chain o1
      then length (op_links o1) = length (op_points o1) \<and> length (op_experts o1) = length (op_points o1) \<and>
           list_all (ok_link \<circ> snd) (op_links o1) \<and> list_all (pred_option ok_ids) (op_experts o1) \<and> op_prefix o1 \<noteq> None \<and>
           pred_option ok_resid (op_resid o1) \<and> pred_option ok_roots (op_roots o1)
      else op_experts o1 = [] \<and> op_roots o1 = None)"

definition ok_feed :: "FeedRow \<Rightarrow> bool" where
  "ok_feed f \<longleftrightarrow> ok_bytes32 (fr_x f) \<and> ok_hashes (fr_x_path f) \<and> ok_range (fr_row f) \<and> pred_option ok_weights (fr_bias f)"

definition ok_expert :: "ExpertRow \<Rightarrow> bool" where
  "ok_expert e \<longleftrightarrow> ok_entry (er_entry e) \<and> ok_bytes32 (er_x e) \<and> ok_hashes (er_x_path e) \<and> ok_range (er_row e)"

definition ok_resid_opening :: "ResidOpening \<Rightarrow> bool" where
  "ok_resid_opening o1 \<longleftrightarrow> ok_hash (ro_response_txid o1) \<and> pred_option ok_roots (ro_roots o1) \<and> ok_resid (ro_resid o1) \<and>
     ok_feed (ro_feed o1) \<and> pred_option ok_expert (ro_expert o1)"

definition ok_attn :: "AttnOpening \<Rightarrow> bool" where
  "ok_attn o1 \<longleftrightarrow> ok_hash (at_response_txid o1) \<and> ok_hash (at_pos_root o1) \<and> ok_hash (at_seq_root o1) \<and> ok_entry (at_layer o1) \<and>
     ok_entry (at_q_entry o1) \<and> ok_entry (at_o_entry o1) \<and> ok_list ok_weights (at_norms o1) \<and> ok_hashes (at_pos_path o1) \<and>
     ok_list ok_leaf_chunk (at_q o1) \<and> ok_leaf_bytes (at_out o1) \<and> ok_seq_span (at_kcache o1) \<and> ok_seq_span (at_vcache o1) \<and>
     ok_hashes (at_anchor_pos_path o1) \<and> ok_list ok_leaf_chunk (at_anchor_k o1) \<and> ok_list ok_leaf_chunk (at_anchor_v o1) \<and>
     ok_list ok_leaf_chunk (at_absorb o1) \<and> length (at_path o1) < 256 \<and> ok_bytes32 (at_parent o1) \<and>
     ok_hashes (at_parent_path o1) \<and> ok_bytes32 (at_partials o1) \<and> ok_seq_span (at_lse o1)"

definition ok_tap :: "RecurTap \<Rightarrow> bool" where
  "ok_tap t \<longleftrightarrow> ok_hashes (tap_pos_path t) \<and> ok_leaf_chunk (tap_q t) \<and> ok_leaf_chunk (tap_k t) \<and> ok_leaf_chunk (tap_v t)"

definition ok_recur :: "RecurOpening \<Rightarrow> bool" where
  "ok_recur o1 \<longleftrightarrow> ok_hash (rc_response_txid o1) \<and> ok_hash (rc_pos_root o1) \<and> ok_hash (rc_seq_root o1) \<and> ok_entry (rc_layer o1) \<and>
     ok_entry (rc_out_entry o1) \<and> ok_entry (rc_decay_entry o1) \<and> ok_list ok_weights (rc_weights o1) \<and> ok_seq_span (rc_records o1) \<and>
     ok_seq_span (rc_start_rows o1) \<and> ok_seq_span (rc_end_rows o1) \<and> ok_list ok_tap (rc_taps o1) \<and> ok_leaf_chunk (rc_beta o1) \<and>
     ok_leaf_chunk (rc_decay o1) \<and> ok_leaf_chunk (rc_gate o1) \<and> ok_leaf_bytes (rc_out o1)"

section \<open>The contract holds for the openings\<close>

interpretation roots: canonical_item w_roots r_roots ok_roots
  by unfold_locales (auto simp: w_roots_def r_roots_def ok_roots_def piece_parse bind_eq_Some_conv dest!: piece_print)

interpretation roots_opt: canonical_item "w_opt w_roots" "r_opt r_roots" "pred_option ok_roots"
  by (rule canonical_opt) unfold_locales

interpretation weights_opt: canonical_item "w_opt w_weights" "r_opt r_weights" "pred_option ok_weights"
  by (rule canonical_opt) unfold_locales

interpretation weights_list: canonical_item "w_list w_weights" "r_list r_weights" "ok_list ok_weights"
  by (rule canonical_list) unfold_locales

interpretation range_list: canonical_item "w_list w_range" "r_list r_range" "ok_list ok_range"
  by (rule canonical_list) unfold_locales

interpretation u64_list: canonical_item "w_list w_u64" "r_list r_u64" "ok_list (\<lambda>_. True)"
  by (rule canonical_list) unfold_locales

declare roots.parse [piece_parse] roots_opt.parse [piece_parse] weights_opt.parse [piece_parse] weights_list.parse [piece_parse]
  range_list.parse [piece_parse] u64_list.parse [piece_parse]
declare roots.print [piece_print] roots_opt.print [piece_print] weights_opt.print [piece_print] weights_list.print [piece_print]
  range_list.print [piece_print] u64_list.print [piece_print]

interpretation feed: canonical_item w_feed r_feed ok_feed
  by unfold_locales (auto simp: w_feed_def r_feed_def ok_feed_def piece_parse bind_eq_Some_conv dest!: piece_print)

interpretation expert: canonical_item w_expert r_expert ok_expert
  by unfold_locales (auto simp: w_expert_def r_expert_def ok_expert_def piece_parse bind_eq_Some_conv dest!: piece_print)

interpretation expert_opt: canonical_item "w_opt w_expert" "r_opt r_expert" "pred_option ok_expert"
  by (rule canonical_opt) unfold_locales

interpretation tap: canonical_item w_tap r_tap ok_tap
  by unfold_locales (auto simp: w_tap_def r_tap_def ok_tap_def piece_parse bind_eq_Some_conv dest!: piece_print)

interpretation tap_list: canonical_item "w_list w_tap" "r_list r_tap" "ok_list ok_tap"
  by (rule canonical_list) unfold_locales

declare feed.parse [piece_parse] expert_opt.parse [piece_parse] tap_list.parse [piece_parse]
declare feed.print [piece_print] expert_opt.print [piece_print] tap_list.print [piece_print]

interpretation resid_opening: canonical_item w_resid_opening r_resid_opening ok_resid_opening
  by unfold_locales (auto simp: w_resid_opening_def r_resid_opening_def ok_resid_opening_def piece_parse bind_eq_Some_conv
      dest!: piece_print)

lemma ok_list_True: "ok_list (\<lambda>_. True) xs \<longleftrightarrow> length xs < 256"
  by (simp add: ok_list_def list_all_iff)

interpretation attn: canonical_item w_attn r_attn ok_attn
  by unfold_locales (auto simp: w_attn_def r_attn_def ok_attn_def ok_list_True [symmetric] piece_parse bind_eq_Some_conv
      dest!: piece_print)

interpretation recur: canonical_item w_recur r_recur ok_recur
  by unfold_locales (auto simp: w_recur_def r_recur_def ok_recur_def piece_parse bind_eq_Some_conv dest!: piece_print)

text \<open>The flags of a partner and of a bias accept every byte, so the contract is the weaker one.\<close>

context wire_item
begin

lemma parse_flag: "pred_option ok x \<Longrightarrow> r_flag r (w_opt w x @ rest) = Some (x, rest)"
  by (cases x) (simp_all add: r_flag_def u8.parse parse)

end

interpretation point: wire_item w_point r_point ok_point
  by unfold_locales (simp add: w_point_def r_point_def ok_point_def piece_parse entry.parse_flag weights.parse_flag)

interpretation prefix: canonical_item w_prefix r_prefix ok_prefix
  by unfold_locales (auto simp: w_prefix_def r_prefix_def ok_prefix_def piece_parse bind_eq_Some_conv dest!: piece_print)

interpretation linked: wire_item "\<lambda>((tok, link), ids). w_u32 tok @ w_link link @ w_opt w_ids ids" r_linked
  "\<lambda>((tok, link), ids). ok_link link \<and> pred_option ok_ids ids"
  by unfold_locales (auto simp: r_linked_def piece_parse)

section \<open>Whole bodies\<close>

lemma whole_iff:
  assumes "canonical_item w r ok"
  shows "whole version r b = Some x \<longleftrightarrow> b = w_u8 version @ w x \<and> ok x"
proof -
  have "whole version r b = Some x \<longleftrightarrow> (\<exists>c. b = version # c \<and> r c = Some (x, []))"
    by (cases b) (auto simp: whole_def bind_eq_Some_conv split: if_splits)
  then show ?thesis using canonical_item.read_iff [OF assms] by (auto simp: w_u8_def)
qed

lemma w_links_zip:
  assumes "length (op_experts o1) = length (op_links o1)"
  shows "w_links o1 = concat (map (\<lambda>((tok, link), ids). w_u32 tok @ w_link link @ w_opt w_ids ids) (zip (op_links o1) (op_experts o1)))"
  unfolding w_links_def
  by (rule arg_cong [of _ _ concat], rule nth_equalityI) (use assms in \<open>auto simp: nth_enumerate_eq split: prod.split\<close>)

lemma linked_all:
  "length ls = length es \<Longrightarrow> list_all (ok_link \<circ> snd) ls \<Longrightarrow> list_all (pred_option ok_ids) es \<Longrightarrow>
     list_all (\<lambda>((tok, link), ids). ok_link link \<and> pred_option ok_ids ids) (zip ls es)"
  by (auto simp: list_all_length split: prod.split)

lemma decode_body_encode:
  assumes "ok_opening o1"
  shows "decode_body (encode o1) = Some o1"
proof -
  obtain txid ps pre ls es rs ro where o1: "o1 = \<lparr>op_response_txid = txid, op_points = ps, op_prefix = pre, op_links = ls,
      op_experts = es, op_resid = rs, op_roots = ro\<rparr>" by (cases o1)
  have ok: "ok_hash txid" "length ps < 256" "list_all ok_point ps" "pred_option ok_prefix pre"
    using assms by (simp_all add: ok_opening_def o1 ok_list_def)
  have points: "r_many r_point (length ps) (concat (map w_point ps) @ rest) = Some (ps, rest)" for rest
    using point.parse_many ok(3) by blast
  have v: "\<not> (2 :: u8) \<le> 1" by (simp add: word_le_nat_alt)
  have n: "unat (of_nat (length ps) :: u8) = length ps" using ok(2) by (simp add: unat_of_nat)
  show ?thesis
  proof (cases "in_chain o1")
    case False
    then have "ls = []" "rs = None" "es = []" "ro = None" using assms by (auto simp: ok_opening_def o1 in_chain_def)
    then show ?thesis using ok points n
      by (cases pre) (simp_all add: encode_def decode_body_def o1 in_chain_def w_list_def piece_parse prefix.parse_end version_defs v
          points [of "[]", simplified])
  next
    case True
    obtain p where pre: "pre = Some p" "ok_prefix p" using assms True by (auto simp: ok_opening_def o1 pred_option_def)
    have len: "length ls = length ps" "length es = length ps" and "list_all (ok_link \<circ> snd) ls" "list_all (pred_option ok_ids) es"
      and roots: "pred_option ok_roots ro" and resid: "pred_option ok_resid rs"
      using assms True by (simp_all add: ok_opening_def o1)
    then have "r_many r_linked (length (zip ls es)) (w_links o1 @ rest) = Some (zip ls es, rest)" for rest
      using linked.parse_many [OF linked_all, of ls es rest] by (simp add: w_links_zip o1)
    then have links: "r_many r_linked (length ps) (w_links o1 @ rest) = Some (zip ls es, rest)" for rest using len by simp
    have sel: "op_response_txid o1 = txid" "op_points o1 = ps" "op_prefix o1 = Some p" "op_links o1 = ls" "op_experts o1 = es"
      "op_resid o1 = rs" "op_roots o1 = ro" by (simp_all add: o1 pre)
    have ne: "w_resid p' \<noteq> []" for p' by (simp add: w_resid_def w_u32_def flip: length_greater_0_conv)
    have "decode_body (encode o1) = Some \<lparr>op_response_txid = txid, op_points = ps, op_prefix = Some p, op_links = ls,
        op_experts = es, op_resid = rs, op_roots = ro\<rparr>"
      using roots resid pre(2)
      by (cases ro; cases rs) (auto simp: encode_def decode_body_def True Let_def w_list_def n points links len ok piece_parse
          prefix.parse prefix.parse_end resid.parse_end version_defs w_roots_def r_roots_def ok_roots_def sel ne)
    then show ?thesis by (simp add: o1 pre)
  qed
qed

lemma encode_head: "\<exists>v rest. encode o1 = v # op_response_txid o1 @ rest \<and> v \<in> {VERSION, VERSION_PREFIX, VERSION_CHAIN, VERSION_ROOTS}"
  by (auto simp: encode_def w_u8_def Let_def)

lemma decode_unseeded: "b \<noteq> [] \<Longrightarrow> b ! 0 \<noteq> VERSION_SEEDED \<Longrightarrow> decode b = decode_body b"
  by (simp add: decode_def)

lemma decode_inner: "decode b = Option.bind (inner_body b) decode_body"
  by (simp add: decode_def inner_body_def)

lemma seeded_shape:
  assumes "seeded body block = Some b" and "length block = 32"
  shows "inner_body b = Some body" and "seed_block b = Some block" and "body \<noteq> []" and "body ! 0 \<noteq> VERSION_SEEDED"
proof -
  obtain v rest where body: "body = v # rest" and v: "v \<noteq> VERSION_SEEDED" and len: "32 \<le> length rest"
    and b: "b = VERSION_SEEDED # take 32 rest @ block @ v # drop 32 rest"
    using assms(1) by (cases body) (auto simp: seeded_def Let_def slice_def version_defs split: if_splits)
  have "slice 1 33 b = take 32 rest" "drop 66 b = drop 32 rest" "b ! 65 = v" "65 < length b" "slice 33 65 b = block"
    using len assms(2) by (simp_all add: b slice_def nth_append)
  then show "inner_body b = Some body" "seed_block b = Some block" "body \<noteq> []" "body ! 0 \<noteq> VERSION_SEEDED"
    using v by (simp_all add: inner_body_def seed_block_def b body)
qed

section \<open>Properties\<close>

text \<open>C22: a well-formed trace opening, of stage 1 or stage 2, with or without prefix, residual point and roots, is decoded
  from its encoding, and from the envelope of any seed block; no field is lost.\<close>

theorem opening_round_trip:
  assumes "ok_opening o1" and "length block = 32"
  shows "decode (encode o1) = Some o1 \<and> (\<exists>b. seeded (encode o1) block = Some b \<and> decode b = Some o1 \<and> seed_block b = Some block)"
proof -
  obtain v rest where e: "encode o1 = v # op_response_txid o1 @ rest" and v: "v \<in> {VERSION, VERSION_PREFIX, VERSION_CHAIN, VERSION_ROOTS}"
    using encode_head [of o1] by blast
  have "decode (encode o1) = Some o1"
    using v decode_body_encode [OF assms(1)] by (subst decode_unseeded) (auto simp: e version_defs)
  moreover have "33 \<le> length (encode o1)" using assms(1) by (simp add: e ok_opening_def ok_hash_def)
  then obtain b where b: "seeded (encode o1) block = Some b"
    using v by (auto simp: seeded_def e Let_def)
  moreover have "decode b = Some o1"
    using seeded_shape(1) [OF b assms(2)] decode_body_encode [OF assms(1)] by (simp add: decode_inner)
  ultimately show ?thesis using seeded_shape(2) [OF b assms(2)] by blast
qed

definition sample_entry :: EntryOpening where
  "sample_entry = \<lparr>eo_index = 3, eo_bytes = [1, 2, 3], eo_path = [replicate 32 4]\<rparr>"

definition sample_range :: ChunkRange where
  "sample_range = \<lparr>first_chunk = 9, chunk_bytes = replicate 64 5, range_proof = [replicate 32 6]\<rparr>"

definition sample_opening :: Opening where
  "sample_opening = \<lparr>op_response_txid = replicate 32 7,
     op_points = [\<lparr>pt_n_ubatch = 1, pt_pos_path = [], pt_meta_path = [replicate 32 1], pt_entry = sample_entry,
       pt_partner = Some sample_entry, pt_bias = None, pt_rows = [sample_range], pt_x = [1], pt_x_path = [], pt_y_total_len = 8,
       pt_y_chunk_index = 0, pt_y_chunk = [2], pt_y_chunk_path = [], pt_y_path = []\<rparr>],
     op_prefix = Some \<lparr>pp_n_ubatch = 1, pp_pos_path = [], pp_meta_path = [], pp_entry = sample_entry, pp_x = [3], pp_x_path = [],
       pp_embd = (sample_entry, sample_range), pp_norm = (sample_entry, sample_range)\<rparr>,
     op_links = [(5, Source sample_entry \<lparr>lc_total_len = 4, lc_index = 0, lc_chunk = [8], lc_chunk_path = [], lc_leaf_path = []\<rparr> None)],
     op_experts = [Some \<lparr>ids_chunk = [1, 0, 0, 0], ids_chunk_path = []\<rparr>], op_resid = None,
     op_roots = Some (replicate 32 1, replicate 32 2)\<rparr>"

theorem opening_round_trip_witness: "decode (encode sample_opening) = Some sample_opening"
proof -
  have "ok_entry sample_entry" "ok_range sample_range"
    by (simp_all add: ok_entry_def sample_entry_def ok_range_def sample_range_def ok_list_def ok_hash_def)
  then have "ok_opening sample_opening"
    by (simp add: ok_opening_def sample_opening_def in_chain_def ok_hash_def ok_list_def ok_point_def ok_prefix_def ok_weights_def
        ok_bytes32_def ok_leaf_chunk_def ok_ids_def ok_roots_def)
  then show ?thesis using opening_round_trip [of sample_opening "replicate 32 9"] by simp
qed

text \<open>C23: the attention, recurrent and residual formats are canonical: a body is accepted exactly if it is the
  encoding of the well-formed opening it is decoded to, to the last byte.\<close>

theorem audit_openings_canonical:
  "(decode_attn b = Some a \<longleftrightarrow> b = encode_attn a \<and> ok_attn a) \<and>
   (decode_recur b = Some c \<longleftrightarrow> b = encode_recur c \<and> ok_recur c) \<and>
   (decode_resid b = Some d \<longleftrightarrow> b = encode_resid d \<and> ok_resid_opening d)"
  unfolding decode_attn_def decode_recur_def decode_resid_def encode_attn_def encode_recur_def encode_resid_def
  by (intro conjI whole_iff) unfold_locales

text \<open>C28: the seeded envelope is transparent and the kinds of body do not overlap: a body put into the envelope of a block
  comes out of it unchanged with that block, and the four decoders see it as before; and no body is
  accepted by two of the four decoders.\<close>

theorem seeded_envelope:
  assumes "seeded body block = Some b" and "length block = 32"
  shows "inner_body b = Some body \<and> seed_block b = Some block \<and> decode b = decode body \<and> attn_path b = attn_path body \<and>
    is_audit_body b = is_audit_body body \<and> inner_body body = Some body \<and>
    length (filter id [decode body \<noteq> None, decode_attn body \<noteq> None, decode_recur body \<noteq> None, decode_resid body \<noteq> None]) \<le> 1"
proof -
  note sh = seeded_shape [OF assms]
  have inner: "inner_body body = Some body" using sh(3,4) by (simp add: inner_body_def)
  have "decode body \<noteq> None \<Longrightarrow> body ! 0 \<in> {VERSION, VERSION_PREFIX, VERSION_CHAIN, VERSION_ROOTS}"
    unfolding decode_unseeded [OF sh(3,4)]
    using sh(3) by (cases body) (auto simp: decode_body_def r_u8_def r_take_def bind_eq_Some_conv Let_def split: if_splits)
  moreover have "decode_attn body \<noteq> None \<Longrightarrow> body ! 0 = VERSION_ATTN" "decode_recur body \<noteq> None \<Longrightarrow> body ! 0 = VERSION_RECUR"
    "decode_resid body \<noteq> None \<Longrightarrow> body ! 0 = VERSION_RESID"
    by (auto simp: decode_attn_def decode_recur_def decode_resid_def whole_def split: if_splits)
  ultimately have "length (filter id [decode body \<noteq> None, decode_attn body \<noteq> None, decode_recur body \<noteq> None, decode_resid body \<noteq> None]) \<le> 1"
    unfolding version_defs
    by (cases "decode body = None"; cases "decode_attn body = None"; cases "decode_recur body = None"; cases "decode_resid body = None") auto
  then show ?thesis using sh inner by (simp add: decode_inner attn_path_def is_audit_body_def)
qed

theorem seeded_envelope_witness:
  "\<exists>b. seeded (1 # replicate 33 0) (replicate 32 9) = Some b \<and> inner_body b = Some (1 # replicate 33 0)"
proof -
  have "\<exists>b. seeded (1 # replicate 33 0) (replicate 32 9) = Some b" by (simp add: seeded_def version_defs)
  then obtain b where "seeded (1 # replicate 33 0) (replicate 32 9) = Some b" by blast
  with seeded_envelope [OF this] show ?thesis by simp
qed

end
