(* ===== verification/Trace_Tree.thy ===== *)
theory Trace_Tree
  imports Pom_Merkle
begin

text \<open>
  \<open>src/verifiable-inference/src/merkle.rs\<close>: the two authenticated lists of the trace openings. The tree
  over model chunks (\<open>rt_*\<close>) pairs the last node of an odd level with itself, the tree over trace leaves
  (\<open>b3_*\<close>) promotes it, and is the tree inside BLAKE3 itself. Both open contiguous ranges of leaves.
  The crate \<open>blake3\<close> is a parameter: its hash, the merge of two subtrees (with the flag of the root) and
  the chaining value of a chunk. Additions and products of 64-bit numbers are over the natural numbers: an
  overflowing sum exceeds every bound it is compared with.

  The lemmas are proved once for a tree with any two node functions: a range proof leads to the root,
  and an accepted range is the one committed, unless two merged pairs collide.
\<close>

section \<open>Definitions\<close>

text \<open>\<open>level.chunks(2).map(|c| if c.len() == 2 { f(c[0], c[1]) } else { g(c[0]) })\<close>\<close>

fun pair_up :: "('h \<Rightarrow> 'h \<Rightarrow> 'h) \<Rightarrow> ('h \<Rightarrow> 'h) \<Rightarrow> 'h list \<Rightarrow> 'h list" where
  "pair_up f g [] = []"
| "pair_up f g [a] = [g a]"
| "pair_up f g (a # b # xs) = f a b # pair_up f g xs"

lemma length_pair_up [simp]: "length (pair_up f g xs) = (length xs + 1) div 2"
  by (induction f g xs rule: pair_up.induct) auto

subsection \<open>Ranges\<close>

text \<open>The loop of \<open>b3_range_fold\<close>, for any node functions of a level of \<open>n\<close> nodes.\<close>

function range_loop ::
  "(nat \<Rightarrow> 'h \<Rightarrow> 'h \<Rightarrow> 'h) \<Rightarrow> (nat \<Rightarrow> 'h \<Rightarrow> 'h) \<Rightarrow> nat \<Rightarrow> nat \<Rightarrow> 'h list \<Rightarrow> 'h list \<Rightarrow> 'h option" where
  "range_loop f g n lo level p =
     (if n > 1
      then let hi = lo + length level - 1
           in case (if even lo then Some (lo, level, p) else case p of [] \<Rightarrow> None | s # p \<Rightarrow> Some (lo - 1, s # level, p)) of
                None \<Rightarrow> None
              | Some (start, cur, p) \<Rightarrow>
                  (case (if even hi \<and> hi + 1 < n then case p of [] \<Rightarrow> None | s # p \<Rightarrow> Some (cur @ [s], p) else Some (cur, p)) of
                     None \<Rightarrow> None
                   | Some (cur, p) \<Rightarrow> range_loop f g (div_ceil n 2) (start div 2) (pair_up (f n) (g n) cur) p)
      else if p = [] \<and> length level = 1 then Some (level ! 0) else None)"
  by pat_completeness auto
termination
  by (relation "measure (\<lambda>(f, g, n, lo, level, p). n)") (auto simp: div_ceil_2)

declare range_loop.simps [simp del]

text \<open>The loop of \<open>b3_range_proof\<close>; \<open>None\<close> where an index is out of bounds.\<close>

function range_proof_loop ::
  "(nat \<Rightarrow> 'h \<Rightarrow> 'h \<Rightarrow> 'h) \<Rightarrow> (nat \<Rightarrow> 'h \<Rightarrow> 'h) \<Rightarrow> 'h list \<Rightarrow> nat \<Rightarrow> nat \<Rightarrow> 'h list option" where
  "range_proof_loop f g level lo hi =
     (if length level > 1
      then let n = length level
           in if odd lo \<and> lo - 1 \<ge> n then None
              else map_option (\<lambda>rest.
                       (if odd lo then [level ! (lo - 1)] else []) @ (if even hi \<and> hi + 1 < n then [level ! (hi + 1)] else []) @ rest)
                     (range_proof_loop f g (pair_up (f n) (g n) level) (lo div 2) (hi div 2))
      else Some [])"
  by pat_completeness auto
termination
  by (relation "measure (\<lambda>(f, g, level, lo, hi). length level)") auto

declare range_proof_loop.simps [simp del]

function tree_root :: "(nat \<Rightarrow> 'h \<Rightarrow> 'h \<Rightarrow> 'h) \<Rightarrow> (nat \<Rightarrow> 'h \<Rightarrow> 'h) \<Rightarrow> 'h list \<Rightarrow> 'h" where
  "tree_root f g level =
     (if length level > 1 then tree_root f g (pair_up (f (length level)) (g (length level)) level) else level ! 0)"
  by pat_completeness auto
termination
  by (relation "measure (\<lambda>(f, g, level). length level)") auto

declare tree_root.simps [simp del]

subsection \<open>The tree over model chunks\<close>

function rt_verify_loop :: "(bytes \<Rightarrow> hash) \<Rightarrow> hash \<Rightarrow> nat \<Rightarrow> nat \<Rightarrow> hash list \<Rightarrow> hash list \<Rightarrow> bool" where
  "rt_verify_loop blake3 root n lo level p =
     (if n > 1
      then let hi = lo + length level - 1
           in case (if odd lo then case p of [] \<Rightarrow> None | s # p \<Rightarrow> Some (lo - 1, [s], p) else Some (lo, [], p)) of
                None \<Rightarrow> False
              | Some (start, cur, p) \<Rightarrow>
                  let cur = cur @ level
                  in (case (if even hi
                            then if hi + 1 < n then case p of [] \<Rightarrow> None | s # p \<Rightarrow> Some (cur @ [s], p)
                                 else Some (cur @ [last cur], p)
                            else Some (cur, p)) of
                        None \<Rightarrow> False
                      | Some (cur, p) \<Rightarrow>
                          rt_verify_loop blake3 root (div_ceil n 2) (start div 2) (pair_up (hash_pair blake3) (\<lambda>a. a) cur) p)
      else p = [] \<and> length level = 1 \<and> level ! 0 = root)"
  by pat_completeness auto
termination
  by (relation "measure (\<lambda>(blake3, root, n, lo, level, p). n)") (auto simp: div_ceil_2)

declare rt_verify_loop.simps [simp del]

definition rt_verify_range :: "(bytes \<Rightarrow> hash) \<Rightarrow> hash \<Rightarrow> nat \<Rightarrow> nat \<Rightarrow> hash list \<Rightarrow> hash list \<Rightarrow> bool" where
  "rt_verify_range blake3 root n_leaves first leaves proof =
     (if leaves = [] \<or> first + length leaves > n_leaves \<or> length proof > 128 then False
      else rt_verify_loop blake3 root n_leaves first leaves proof)"

text \<open>The proof, and the root in which its loop ends.\<close>

definition rt_range_proof :: "(bytes \<Rightarrow> hash) \<Rightarrow> hash list \<Rightarrow> nat \<Rightarrow> nat \<Rightarrow> (hash \<times> hash list) option" where
  "rt_range_proof blake3 leaves first count =
     (if first + count = 0 \<or> leaves = [] then None
      else map_option (Pair (root_loop blake3 leaves))
             (range_proof_loop (\<lambda>n. hash_pair blake3) (\<lambda>n a. hash_pair blake3 a a) leaves first (first + count - 1)))"

definition rt_verify_leaf :: "(bytes \<Rightarrow> hash) \<Rightarrow> hash \<Rightarrow> nat \<Rightarrow> nat \<Rightarrow> hash \<Rightarrow> hash list \<Rightarrow> bool" where
  "rt_verify_leaf blake3 root n_leaves index leaf path = rt_verify_range blake3 root n_leaves index [leaf] path"

subsection \<open>The tree over trace leaves\<close>

type_synonym merge = "hash \<Rightarrow> hash \<Rightarrow> bool \<Rightarrow> hash"

definition b3_level :: "merge \<Rightarrow> hash list \<Rightarrow> hash list" where
  "b3_level b3_merge level =
     (let n = length level
      in map (\<lambda>c. b3_merge (c ! 0) (c ! 1) (n = 2)) (chunks_exact 2 level) @ (if odd n then [level ! (n - 1)] else []))"

lemma chunks_exact_2:
  "map (\<lambda>c. h (c ! 0) (c ! 1)) (chunks_exact 2 level) @ (if odd (length level) then [level ! (length level - 1)] else []) =
     pair_up h (\<lambda>a. a) level"
proof (induction level rule: induct_list012)
  case (3 a b xs)
  have "chunks 2 (a # b # xs) = [a, b] # chunks 2 xs" by (subst chunks.simps) (simp add: numeral_2_eq_2)
  then have "chunks_exact 2 (a # b # xs) = [a, b] # chunks_exact 2 xs" by (simp add: chunks_exact_def)
  moreover have "odd (length xs) \<Longrightarrow> (a # b # xs) ! (length (a # b # xs) - 1) = xs ! (length xs - 1)"
    by (cases xs) auto
  ultimately show ?case using "3.IH"(1) by auto
qed (simp_all add: chunks_exact_def chunks.simps)

lemma b3_level_eq: "b3_level b3_merge level = pair_up (\<lambda>a b. b3_merge a b (length level = 2)) (\<lambda>a. a) level"
  using chunks_exact_2 [of "\<lambda>a b. b3_merge a b (length level = 2)" level] by (simp add: b3_level_def Let_def)

lemma length_b3_level [simp]: "length (b3_level b3_merge level) = (length level + 1) div 2"
  by (simp add: b3_level_eq)

function b3_root_loop :: "merge \<Rightarrow> hash list \<Rightarrow> hash" where
  "b3_root_loop b3_merge level = (if length level > 1 then b3_root_loop b3_merge (b3_level b3_merge level) else level ! 0)"
  by pat_completeness auto
termination
  by (relation "measure (\<lambda>(m, level). length level)") auto

declare b3_root_loop.simps [simp del]

definition b3_root :: "merge \<Rightarrow> hash list \<Rightarrow> hash option" where
  "b3_root b3_merge leaves = (if leaves = [] then None else Some (b3_root_loop b3_merge leaves))"

text \<open>\<open>i ^ 1\<close>\<close>

definition sibling :: "nat \<Rightarrow> nat" where
  "sibling i = (if even i then i + 1 else i - 1)"

function b3_path :: "merge \<Rightarrow> hash list \<Rightarrow> nat \<Rightarrow> hash list option" where
  "b3_path b3_merge level i =
     (if length level > 1
      then let n = length level; rest = b3_path b3_merge (b3_level b3_merge level) (i div 2)
           in if even n \<or> i \<noteq> n - 1
              then if sibling i < n then map_option ((#) (level ! sibling i)) rest else None
              else rest
      else Some [])"
  by pat_completeness auto
termination
  by (relation "measure (\<lambda>(m, level, i). length level)") auto

declare b3_path.simps [simp del]

function b3_fold_loop :: "merge \<Rightarrow> nat \<Rightarrow> nat \<Rightarrow> hash \<Rightarrow> hash list \<Rightarrow> hash option" where
  "b3_fold_loop b3_merge n i acc p =
     (if n > 1
      then if even n \<or> i \<noteq> n - 1
           then case p of
                  [] \<Rightarrow> None
                | s # p \<Rightarrow> b3_fold_loop b3_merge (div_ceil n 2) (i div 2)
                    (if even i then b3_merge acc s (n = 2) else b3_merge s acc (n = 2)) p
           else b3_fold_loop b3_merge (div_ceil n 2) (i div 2) acc p
      else if p = [] then Some acc else None)"
  by pat_completeness auto
termination
  by (relation "measure (\<lambda>(m, n, i, acc, p). n)") (auto simp: div_ceil_2 elim!: oddE)

declare b3_fold_loop.simps [simp del]

definition b3_fold :: "merge \<Rightarrow> nat \<Rightarrow> nat \<Rightarrow> hash \<Rightarrow> hash list \<Rightarrow> hash option" where
  "b3_fold b3_merge n_leaves index leaf path =
     (if index \<ge> n_leaves \<or> length path > 64 then None else b3_fold_loop b3_merge n_leaves index leaf path)"

definition b3_verify :: "merge \<Rightarrow> hash \<Rightarrow> nat \<Rightarrow> nat \<Rightarrow> hash \<Rightarrow> hash list \<Rightarrow> bool" where
  "b3_verify b3_merge root n_leaves index leaf path \<longleftrightarrow> b3_fold b3_merge n_leaves index leaf path = Some root"

definition b3_range_proof :: "merge \<Rightarrow> hash list \<Rightarrow> nat \<Rightarrow> nat \<Rightarrow> hash list option" where
  "b3_range_proof b3_merge leaves first count =
     (if first + count = 0 then None
      else range_proof_loop (\<lambda>n a b. b3_merge a b (n = 2)) (\<lambda>n a. a) leaves first (first + count - 1))"

definition b3_range_fold :: "merge \<Rightarrow> nat \<Rightarrow> nat \<Rightarrow> hash list \<Rightarrow> hash list \<Rightarrow> hash option" where
  "b3_range_fold b3_merge n_leaves first leaves proof =
     (if leaves = [] \<or> first + length leaves > n_leaves \<or> length proof > 128 then None
      else range_loop (\<lambda>n a b. b3_merge a b (n = 2)) (\<lambda>n a. a) n_leaves first leaves proof)"

subsection \<open>Chunks of an input\<close>

definition B3_CHUNK :: nat where "B3_CHUNK = 1024"

definition b3_leaf_from_chunk ::
  "(bytes \<Rightarrow> hash) \<Rightarrow> merge \<Rightarrow> (bytes \<Rightarrow> nat \<Rightarrow> hash) \<Rightarrow> nat \<Rightarrow> nat \<Rightarrow> bytes \<Rightarrow> hash list \<Rightarrow> hash option" where
  "b3_leaf_from_chunk blake3 b3_merge b3_chunk_cv total_len c chunk path =
     (let n_chunks = max (div_ceil total_len B3_CHUNK) 1
      in if c + 1 \<ge> n_chunks \<and> total_len < c * B3_CHUNK then None
         else let expected = (if c + 1 < n_chunks then B3_CHUNK else total_len - c * B3_CHUNK)
              in if c \<ge> n_chunks \<or> length chunk \<noteq> expected then None
                 else if n_chunks = 1 then (if path = [] then Some (blake3 chunk) else None)
                 else b3_fold b3_merge n_chunks c (b3_chunk_cv chunk c) path)"

definition chunk_cvs :: "(bytes \<Rightarrow> nat \<Rightarrow> hash) \<Rightarrow> nat \<Rightarrow> bytes \<Rightarrow> hash list" where
  "chunk_cvs b3_chunk_cv first bs = map (\<lambda>(i, c). b3_chunk_cv c (first + i)) (enumerate 0 (chunks B3_CHUNK bs))"

definition b3_leaf_from_chunks ::
  "(bytes \<Rightarrow> hash) \<Rightarrow> merge \<Rightarrow> (bytes \<Rightarrow> nat \<Rightarrow> hash) \<Rightarrow> nat \<Rightarrow> nat \<Rightarrow> bytes \<Rightarrow> hash list \<Rightarrow> hash option" where
  "b3_leaf_from_chunks blake3 b3_merge b3_chunk_cv total_len first bs proof =
     (let n = max (div_ceil total_len B3_CHUNK) 1; count = div_ceil (length bs) B3_CHUNK; end = first + count
      in if count = 0 \<or> end > n \<or> length bs \<noteq> min total_len (end * B3_CHUNK) - first * B3_CHUNK then None
         else if n = 1 then (if proof = [] then Some (blake3 bs) else None)
         else b3_range_fold b3_merge n first (chunk_cvs b3_chunk_cv first bs) proof)"

definition b3_chunks_proof :: "merge \<Rightarrow> (bytes \<Rightarrow> nat \<Rightarrow> hash) \<Rightarrow> bytes \<Rightarrow> nat \<Rightarrow> nat \<Rightarrow> hash list option" where
  "b3_chunks_proof b3_merge b3_chunk_cv data first count =
     (let cvs = chunk_cvs b3_chunk_cv 0 data
      in if length cvs \<le> 1 then Some [] else b3_range_proof b3_merge cvs first count)"

definition b3_verify_chunk ::
  "(bytes \<Rightarrow> hash) \<Rightarrow> merge \<Rightarrow> (bytes \<Rightarrow> nat \<Rightarrow> hash) \<Rightarrow> hash \<Rightarrow> nat \<Rightarrow> nat \<Rightarrow> bytes \<Rightarrow> hash list \<Rightarrow> bool" where
  "b3_verify_chunk blake3 b3_merge b3_chunk_cv leaf total_len c chunk path \<longleftrightarrow>
     b3_leaf_from_chunk blake3 b3_merge b3_chunk_cv total_len c chunk path = Some leaf"

section \<open>Levels\<close>

lemma nth_pair_up:
  "i < (length xs + 1) div 2 \<Longrightarrow>
   pair_up f g xs ! i = (if 2 * i + 1 < length xs then f (xs ! (2 * i)) (xs ! (2 * i + 1)) else g (xs ! (2 * i)))"
proof (induction f g xs arbitrary: i rule: pair_up.induct)
  case (3 f g a b xs)
  then show ?case by (cases i) auto
qed auto

lemma pair_up_slice:
  assumes "even a" and "even b \<or> b = length xs" and "a \<le> b" and "b \<le> length xs"
  shows "pair_up f g (slice a b xs) = slice (a div 2) ((b + 1) div 2) (pair_up f g xs)"
proof (rule nth_equalityI)
  obtain c where c: "a = 2 * c" using assms(1) by (auto elim: evenE)
  show "length (pair_up f g (slice a b xs)) = length (slice (a div 2) ((b + 1) div 2) (pair_up f g xs))"
    using assms(2-4) by (auto simp: c min_def)
  fix i assume i: "i < length (pair_up f g (slice a b xs))"
  then have len: "2 * i < b - a" "a + 2 * i < length xs" "i < (length (slice a b xs) + 1) div 2" using assms(3,4) by auto
  have "slice (a div 2) ((b + 1) div 2) (pair_up f g xs) ! i = pair_up f g xs ! (c + i)"
    using len assms(2-4) by (subst nth_slice) (auto simp: c)
  moreover have "2 * i + 1 < b - a \<longleftrightarrow> 2 * (c + i) + 1 < length xs"
    using assms(2-4) len by (auto simp: c elim!: evenE)
  ultimately show "pair_up f g (slice a b xs) ! i = slice (a div 2) ((b + 1) div 2) (pair_up f g xs) ! i"
    using len assms(3,4) by (simp add: nth_pair_up nth_slice c add.assoc)
qed

section \<open>A range proof leads to the root\<close>

lemma range_step:
  assumes "lo \<le> hi" and "hi < length L" and "1 < length L"
  defines "start \<equiv> lo - lo mod 2" and "end \<equiv> (if even hi \<and> hi + 1 < length L then hi + 2 else hi + 1)"
  shows "(if odd lo then [L ! (lo - 1)] else []) @ slice lo (hi + 1) L @ (if even hi \<and> hi + 1 < length L then [L ! (hi + 1)] else []) =
      slice start end L"
    and "start div 2 = lo div 2" and "(end + 1) div 2 = hi div 2 + 1"
    and "even start" and "even end \<or> end = length L" and "start \<le> end" and "end \<le> length L"
proof -
  have one: "slice i (i + 1) L = [L ! i]" if "i < length L" for i
    using that by (simp add: slice_def flip: Cons_nth_drop_Suc)
  have pre: "(if odd lo then [L ! (lo - 1)] else []) = slice start lo L"
    using one [of "lo - 1"] assms(1,2) by (auto simp: start_def slice_def elim!: oddE)
  have post: "(if even hi \<and> hi + 1 < length L then [L ! (hi + 1)] else []) = slice (hi + 1) end L"
    using one [of "hi + 1"] by (auto simp: end_def slice_def)
  have le: "start \<le> lo" "hi + 1 \<le> end" by (auto simp: start_def end_def)
  show "(if odd lo then [L ! (lo - 1)] else []) @ slice lo (hi + 1) L @ (if even hi \<and> hi + 1 < length L then [L ! (hi + 1)] else []) =
      slice start end L"
    unfolding pre post using le assms(1) by (simp add: slice_slice_append)
  show "start div 2 = lo div 2" "even start" unfolding start_def by presburger+
  show "(end + 1) div 2 = hi div 2 + 1" using assms(2) unfolding end_def by presburger
  show "even end \<or> end = length L" using assms(2) by (auto simp: end_def)
  show "start \<le> end" "end \<le> length L" using le assms(1,2) by (auto simp: end_def)
qed

text \<open>One iteration, on a proof that starts with the siblings of the level.\<close>

lemma range_loop_step:
  assumes n: "1 < n" and pre: "length pre = lo mod 2"
    and post: "length post = (if even (lo + length level - 1) \<and> lo + length level - 1 + 1 < n then 1 else 0)"
  shows "range_loop f g n lo level (pre @ post @ p) =
    range_loop f g (div_ceil n 2) (lo div 2) (pair_up (f n) (g n) (pre @ level @ post)) p"
proof -
  define hi where "hi = lo + length level - 1"
  have 1: "(if even lo then Some (lo, level, pre @ post @ p)
      else case pre @ post @ p of [] \<Rightarrow> None | s # p \<Rightarrow> Some (lo - 1, s # level, p)) = Some (lo - lo mod 2, pre @ level, post @ p)"
  proof (cases "even lo")
    case True
    then show ?thesis using pre by simp
  next
    case False
    then obtain s where "pre = [s]" using pre by (auto simp: odd_iff_mod_2_eq_one length_Suc_conv)
    with False show ?thesis by (simp add: odd_iff_mod_2_eq_one)
  qed
  have 2: "(if even hi \<and> hi + 1 < n then case post @ p of [] \<Rightarrow> None | s # p \<Rightarrow> Some ((pre @ level) @ [s], p) else Some (pre @ level, post @ p)) =
      Some (pre @ level @ post, p)"
  proof (cases "even hi \<and> hi + 1 < n")
    case True
    then obtain s where "post = [s]" using post by (auto simp: hi_def length_Suc_conv)
    with True show ?thesis by simp
  next
    case False
    then have "post = []" using post unfolding hi_def by (metis length_0_conv)
    with False show ?thesis by (simp only: if_False append_Nil append_Nil2)
  qed
  have 3: "(lo - lo mod 2) div 2 = lo div 2" by presburger
  show ?thesis
    by (subst range_loop.simps) (simp only: n if_True Let_def hi_def [symmetric] 1 2 3 option.case prod.case)
qed

lemma range_complete:
  "lo \<le> hi \<Longrightarrow> hi < length L \<Longrightarrow>
   \<exists>p. range_proof_loop f g L lo hi = Some p \<and> range_loop f g (length L) lo (slice lo (hi + 1) L) p = Some (tree_root f g L)"
proof (induction "length L" arbitrary: L lo hi rule: less_induct)
  case less
  show ?case
  proof (cases "1 < length L")
    case False
    then have "lo = 0" "hi = 0" "length L = 1" using less.prems by auto
    then show ?thesis
      by (simp add: range_loop.simps range_proof_loop.simps [of f g L] tree_root.simps [of f g L] slice_def)
  next
    case True
    let ?n = "length L" and ?L' = "pair_up (f (length L)) (g (length L)) L"
    note st = range_step [OF less.prems True]
    have "length ?L' < length L" "lo div 2 \<le> hi div 2" "hi div 2 < length ?L'"
      using True less.prems by (auto intro: div_le_mono)
    from less.hyps [OF this] obtain p where
      p: "range_proof_loop f g ?L' (lo div 2) (hi div 2) = Some p"
        "range_loop f g (length ?L') (lo div 2) (slice (lo div 2) (hi div 2 + 1) ?L') p = Some (tree_root f g ?L')" by blast
    define pre where "pre = (if odd lo then [L ! (lo - 1)] else [])"
    define post where "post = (if even hi \<and> hi + 1 < ?n then [L ! (hi + 1)] else [])"
    have up: "pair_up (f ?n) (g ?n) (pre @ slice lo (hi + 1) L @ post) = slice (lo div 2) (hi div 2 + 1) ?L'"
      unfolding pre_def post_def st(1) by (subst pair_up_slice [OF st(4-7)]) (simp only: st(2,3))
    have len: "length (slice lo (hi + 1) L) = hi + 1 - lo" using less.prems by simp
    have hi: "lo + length (slice lo (hi + 1) L) - 1 = hi" using less.prems by (simp add: len)
    have "range_loop f g ?n lo (slice lo (hi + 1) L) (pre @ post @ p) =
        range_loop f g (div_ceil ?n 2) (lo div 2) (pair_up (f ?n) (g ?n) (pre @ slice lo (hi + 1) L @ post)) p"
      by (rule range_loop_step [OF True], unfold hi pre_def post_def) (simp_all add: mod2_eq_if)
    also have "\<dots> = Some (tree_root f g L)"
      unfolding up using p(2) True by (simp add: div_ceil_2 tree_root.simps [of f g L])
    finally have "range_loop f g ?n lo (slice lo (hi + 1) L) (pre @ post @ p) = Some (tree_root f g L)" .
    moreover have "range_proof_loop f g L lo hi = Some (pre @ post @ p)"
      using True less.prems p(1) by (subst range_proof_loop.simps) (auto simp: Let_def pre_def post_def)
    ultimately show ?thesis by blast
  qed
qed

text \<open>A proof has at most two siblings per level.\<close>

lemma range_proof_length: "range_proof_loop f g L lo hi = Some p \<Longrightarrow> length L \<le> 2 ^ k \<Longrightarrow> length p \<le> 2 * k"
proof (induction k arbitrary: L lo hi p)
  case 0
  then show ?case by (subst (asm) range_proof_loop.simps) auto
next
  case (Suc k)
  show ?case
  proof (cases "1 < length L")
    case True
    let ?L' = "pair_up (f (length L)) (g (length L)) L"
    obtain q where q: "range_proof_loop f g ?L' (lo div 2) (hi div 2) = Some q" "length p \<le> length q + 2"
      using Suc.prems(1) True by (subst (asm) range_proof_loop.simps) (auto simp: Let_def split: if_splits)
    have "length ?L' \<le> 2 ^ k" using Suc.prems(2) by simp
    then show ?thesis using Suc.IH [OF q(1)] q(2) by simp
  next
    case False
    then show ?thesis using Suc.prems(1) by (subst (asm) range_proof_loop.simps) auto
  qed
qed

section \<open>An accepted range is the committed one\<close>

text \<open>The pairs merged on a level, by the verifier of a range and by the builder of a tree.\<close>

fun pairs_of :: "'h list \<Rightarrow> ('h \<times> 'h) set" where
  "pairs_of [] = {}"
| "pairs_of [a] = {(a, a)}"
| "pairs_of (a # b # xs) = insert (a, b) (pairs_of xs)"

function tree_pairs :: "(nat \<Rightarrow> 'h \<Rightarrow> 'h \<Rightarrow> 'h) \<Rightarrow> (nat \<Rightarrow> 'h \<Rightarrow> 'h) \<Rightarrow> 'h list \<Rightarrow> (nat \<times> 'h \<times> 'h) set" where
  "tree_pairs f g level =
     (if length level > 1
      then {length level} \<times> pairs_of level \<union> tree_pairs f g (pair_up (f (length level)) (g (length level)) level) else {})"
  by pat_completeness auto
termination
  by (relation "measure (\<lambda>(f, g, level). length level)") auto

declare tree_pairs.simps [simp del]

text \<open>The levels that the loop forms.\<close>

function range_pairs ::
  "(nat \<Rightarrow> 'h \<Rightarrow> 'h \<Rightarrow> 'h) \<Rightarrow> (nat \<Rightarrow> 'h \<Rightarrow> 'h) \<Rightarrow> nat \<Rightarrow> nat \<Rightarrow> 'h list \<Rightarrow> 'h list \<Rightarrow> (nat \<times> 'h \<times> 'h) set" where
  "range_pairs f g n lo level p =
     (if n > 1
      then let hi = lo + length level - 1; pre = (if odd lo then take 1 p else []); p = drop (length pre) p;
               post = (if even hi \<and> hi + 1 < n then take 1 p else []); p = drop (length post) p;
               cur = pre @ level @ post
           in {n} \<times> pairs_of cur \<union> range_pairs f g (div_ceil n 2) (lo div 2) (pair_up (f n) (g n) cur) p
      else {})"
  by pat_completeness auto
termination
  by (relation "measure (\<lambda>(f, g, n, lo, level, p). n)") (auto simp: div_ceil_2)

declare range_pairs.simps [simp del]

definition collision_free :: "(nat \<Rightarrow> 'h \<Rightarrow> 'h \<Rightarrow> 'h) \<Rightarrow> (nat \<times> 'h \<times> 'h) set \<Rightarrow> bool" where
  "collision_free f S \<longleftrightarrow> (\<forall>n a b c d. (n, a, b) \<in> S \<longrightarrow> (n, c, d) \<in> S \<longrightarrow> f n a b = f n c d \<longrightarrow> a = c \<and> b = d)"

lemma collision_free_mono: "collision_free f S \<Longrightarrow> T \<subseteq> S \<Longrightarrow> collision_free f T"
  unfolding collision_free_def by blast

lemma pair_up_inj:
  assumes g: "(\<forall>a. g a = a) \<or> (\<forall>a. g a = f a a)"
  shows "length xs = length ys \<Longrightarrow>
    \<forall>a b c d. (a, b) \<in> pairs_of xs \<union> pairs_of ys \<longrightarrow> (c, d) \<in> pairs_of xs \<union> pairs_of ys \<longrightarrow> f a b = f c d \<longrightarrow> a = c \<and> b = d \<Longrightarrow>
    pair_up f g xs = pair_up f g ys \<Longrightarrow> xs = ys"
proof (induction xs arbitrary: ys rule: pairs_of.induct)
  case (2 a)
  obtain b where ys: "ys = [b]" using "2.prems"(1) by (cases ys) auto
  have "a = b" if "f a a = f b b" using "2.prems"(2) that unfolding ys pairs_of.simps by blast
  moreover have "g a = g b" using "2.prems"(3) by (simp add: ys)
  then have "a = b \<or> f a a = f b b" using g by auto
  ultimately show ?case unfolding ys by blast
next
  case (3 a b xs)
  obtain c d zs where ys: "ys = c # d # zs" using "3.prems"(1) by (cases ys; cases "tl ys") auto
  have "xs = zs"
  proof (rule "3.IH")
    show "\<forall>a b c d. (a, b) \<in> pairs_of xs \<union> pairs_of zs \<longrightarrow> (c, d) \<in> pairs_of xs \<union> pairs_of zs \<longrightarrow> f a b = f c d \<longrightarrow> a = c \<and> b = d"
      using "3.prems"(2) unfolding ys pairs_of.simps by blast
  qed (use "3.prems"(1,3) in \<open>simp_all add: ys\<close>)
  moreover have "f a b = f c d" using "3.prems"(3) by (simp add: ys)
  then have "a = c \<and> b = d" using "3.prems"(2) unfolding ys pairs_of.simps by blast
  ultimately show ?case by (simp add: ys)
qed auto

lemma pairs_of_nth: "2 * i + 1 < length xs \<Longrightarrow> (xs ! (2 * i), xs ! (2 * i + 1)) \<in> pairs_of xs"
proof (induction xs arbitrary: i rule: pairs_of.induct)
  case (3 a b xs)
  then show ?case by (cases i) auto
qed auto

lemma pairs_of_last: "odd (length xs) \<Longrightarrow> (last xs, last xs) \<in> pairs_of xs"
  by (induction xs rule: pairs_of.induct) (auto simp: odd_pos)

lemma pairs_of_elem: "(a, b) \<in> pairs_of xs \<Longrightarrow>
  (\<exists>i. 2 * i + 1 < length xs \<and> a = xs ! (2 * i) \<and> b = xs ! (2 * i + 1)) \<or> (odd (length xs) \<and> a = last xs \<and> b = last xs)"
proof (induction xs rule: pairs_of.induct)
  case (3 x y xs)
  show ?case
  proof (cases "(a, b) = (x, y)")
    case True
    then show ?thesis by (intro disjI1 exI [of _ 0]) auto
  next
    case False
    then consider i where "2 * i + 1 < length xs" "a = xs ! (2 * i)" "b = xs ! (2 * i + 1)" | "odd (length xs)" "a = last xs" "b = last xs"
      using 3 by auto
    then show ?thesis
    proof cases
      case (1 i)
      then show ?thesis by (intro disjI1 exI [of _ "Suc i"]) auto
    next
      case 2
      then have "xs \<noteq> []" by auto
      with 2 show ?thesis by simp
    qed
  qed
qed auto

lemma pairs_of_slice:
  assumes "even a" and "even b \<or> b = length xs" and "a \<le> b" and "b \<le> length xs"
  shows "pairs_of (slice a b xs) \<subseteq> pairs_of xs"
proof
  fix z assume z: "z \<in> pairs_of (slice a b xs)"
  obtain u v where uv: "z = (u, v)" by (cases z)
  obtain c where c: "a = 2 * c" using assms(1) by (auto elim: evenE)
  have len: "length (slice a b xs) = b - a" using assms by simp
  from pairs_of_elem [OF z [unfolded uv]] show "z \<in> pairs_of xs"
  proof (elim disjE exE conjE)
    fix i assume i: "2 * i + 1 < length (slice a b xs)" "u = slice a b xs ! (2 * i)" "v = slice a b xs ! (2 * i + 1)"
    then have "u = xs ! (2 * (c + i))" "v = xs ! (2 * (c + i) + 1)" "2 * (c + i) + 1 < length xs"
      using assms(3,4) len by (auto simp: nth_slice c)
    then show "z \<in> pairs_of xs" unfolding uv using pairs_of_nth by blast
  next
    assume o: "odd (length (slice a b xs))" and l: "u = last (slice a b xs)" "v = last (slice a b xs)"
    have "b = length xs" "odd (length xs)" using o assms len by auto
    moreover have "slice a b xs = drop a xs" using \<open>b = length xs\<close> by (simp add: slice_def)
    moreover have "a < length xs" using o len \<open>b = length xs\<close> by (metis assms(3) diff_is_0_eq' dvd_0_right le_neq_implies_less le_refl)
    ultimately show "z \<in> pairs_of xs" unfolding uv using l pairs_of_last [of xs] by (simp add: last_drop)
  qed
qed

text \<open>Too few siblings for the level.\<close>

lemma short_cases:
  assumes "length p < lo mod 2 + (if even hi \<and> hi + 1 < n then 1 else 0)"
  shows "p = [] \<or> (odd lo \<and> (\<exists>s. p = [s]) \<and> even hi \<and> hi + 1 < n)" and "p = [] \<Longrightarrow> odd lo \<or> even hi \<and> hi + 1 < n"
  using assms by (cases p; cases "tl p"; auto simp: mod2_eq_if split: if_splits)+

lemma range_loop_short:
  assumes "1 < n" and "hi = lo + length level - 1" and "length p < lo mod 2 + (if even hi \<and> hi + 1 < n then 1 else 0)"
  shows "range_loop f g n lo level p = None"
  using short_cases [OF assms(3)]
  by (subst range_loop.simps, simp only: assms(1) if_True Let_def assms(2) [symmetric]) auto

lemma rt_loop_short:
  assumes "1 < n" and "hi = lo + length level - 1" and "length p < lo mod 2 + (if even hi \<and> hi + 1 < n then 1 else 0)"
  shows "\<not> rt_verify_loop blake3 root n lo level p"
  using short_cases [OF assms(3)]
  by (subst rt_verify_loop.simps, simp only: assms(1) if_True Let_def assms(2) [symmetric]) auto

lemma range_loop_sound:
  assumes g: "\<And>n. (\<forall>a. g n a = a) \<or> (\<forall>a. g n a = f n a a)"
  shows "range_loop f g (length L) lo level p = Some (tree_root f g L) \<Longrightarrow> level \<noteq> [] \<Longrightarrow> lo + length level \<le> length L \<Longrightarrow>
    collision_free f (range_pairs f g (length L) lo level p \<union> tree_pairs f g L) \<Longrightarrow> level = slice lo (lo + length level) L"
proof (induction "length L" arbitrary: L lo level p rule: less_induct)
  case less
  show ?case
  proof (cases "1 < length L")
    case False
    have "0 < length level" using less.prems(2) by simp
    then have "lo = 0" "length level = 1" "length L = 1" using less.prems(3) False by linarith+
    then obtain x y where xy: "level = [x]" "L = [y]" "lo = 0" by (metis One_nat_def length_0_conv length_Suc_conv)
    show ?thesis using less.prems(1) unfolding xy by (simp add: range_loop.simps [of f g "Suc 0"] tree_root.simps slice_def split: if_splits)
  next
    case True
    let ?n = "length L" and ?L' = "pair_up (f (length L)) (g (length L)) L"
    define hi where "hi = lo + length level - 1"
    have hi: "lo \<le> hi" "hi < ?n" "hi + 1 = lo + length level" using less.prems(2,3) by (cases level; simp add: hi_def)+
    define pre q where "pre = (if odd lo then take 1 p else [])" and "q = drop (length pre) p"
    define post r where "post = (if even hi \<and> hi + 1 < ?n then take 1 q else [])" and "r = drop (length post) q"
    have long: "\<not> length p < lo mod 2 + (if even hi \<and> hi + 1 < ?n then 1 else 0)"
      using range_loop_short [OF True hi_def, of p f g] less.prems(1) by auto
    have "pre @ q = p" "post @ r = q" by (cases p; simp add: pre_def q_def) (cases q; simp add: post_def r_def)
    then have p: "p = pre @ post @ r" by simp
    define c :: nat where "c = (if even hi \<and> hi + 1 < ?n then 1 else 0)"
    have "pre = take (lo mod 2) p" "post = take c q" by (simp_all add: pre_def post_def c_def mod2_eq_if)
    moreover have "lo mod 2 \<le> length p" "c \<le> length p - lo mod 2" using long unfolding c_def [symmetric] by linarith+
    ultimately have lens: "length pre = lo mod 2" "length post = (if even hi \<and> hi + 1 < ?n then 1 else 0)"
      by (simp_all only: q_def c_def length_take length_drop min.absorb2)
    let ?cur = "pre @ level @ post"
    have loop: "range_loop f g (div_ceil ?n 2) (lo div 2) (pair_up (f ?n) (g ?n) ?cur) r = Some (tree_root f g ?L')"
      using less.prems(1) True range_loop_step [OF True, of pre lo post level f g r] lens
      by (simp add: p hi_def tree_root.simps [of f g L])
    note st = range_step [OF hi(1,2) True]
    define start "end" where "start = lo - lo mod 2" and "end = (if even hi \<and> hi + 1 < ?n then hi + 2 else hi + 1)"
    note st = st [folded start_def end_def]
    have cur: "length ?cur = end - start" "start + length ?cur = end"
      using lens hi by (auto simp: start_def end_def)
    have up: "length (pair_up (f ?n) (g ?n) ?cur) = hi div 2 + 1 - lo div 2"
    proof -
      obtain c where c: "start = 2 * c" using st(4) by (auto elim: evenE)
      have "(end - 2 * c + 1) div 2 = (end + 1) div 2 - c" using st(6) unfolding c by presburger
      then show ?thesis using cur(1) st(2,3) by (simp add: c)
    qed
    have sub: "{?n} \<times> pairs_of ?cur \<union> range_pairs f g (div_ceil ?n 2) (lo div 2) (pair_up (f ?n) (g ?n) ?cur) r \<subseteq>
        range_pairs f g ?n lo level p"
      unfolding range_pairs.simps [of f g ?n] if_P [OF True] Let_def hi_def [symmetric] pre_def [symmetric] q_def [symmetric]
        post_def [symmetric] r_def [symmetric] by (rule order.refl)
    have tree: "tree_pairs f g L = {?n} \<times> pairs_of L \<union> tree_pairs f g ?L'" using True by (subst tree_pairs.simps) simp
    have "pair_up (f ?n) (g ?n) ?cur = slice (lo div 2) (lo div 2 + length (pair_up (f ?n) (g ?n) ?cur)) ?L'"
    proof (rule less.hyps)
      show "length ?L' < length L" using True by simp
      show "range_loop f g (length ?L') (lo div 2) (pair_up (f ?n) (g ?n) ?cur) r = Some (tree_root f g ?L')"
        using loop by (simp add: div_ceil_2)
      show "pair_up (f ?n) (g ?n) ?cur \<noteq> []" using less.prems(2) up hi(1) by (metis Suc_eq_plus1 diff_is_0_eq div_le_mono length_0_conv not_less_eq_eq)
      show "lo div 2 + length (pair_up (f ?n) (g ?n) ?cur) \<le> length ?L'"
        unfolding up using hi(1,2) div_le_mono [OF hi(1), of 2] by simp
      show "collision_free f (range_pairs f g (length ?L') (lo div 2) (pair_up (f ?n) (g ?n) ?cur) r \<union> tree_pairs f g ?L')"
        by (rule collision_free_mono [OF less.prems(4)]) (use sub tree in \<open>auto simp: div_ceil_2\<close>)
    qed
    also have "lo div 2 + length (pair_up (f ?n) (g ?n) ?cur) = hi div 2 + 1"
      unfolding up using div_le_mono [OF hi(1), of 2] by simp
    also have "slice (lo div 2) (hi div 2 + 1) ?L' = pair_up (f ?n) (g ?n) (slice start end L)"
      using pair_up_slice [OF st(4-7)] st(2,3) by simp
    finally have eq: "pair_up (f ?n) (g ?n) ?cur = pair_up (f ?n) (g ?n) (slice start end L)" .
    have "?cur = slice start end L"
    proof (rule pair_up_inj [OF g _ _ eq])
      show "length ?cur = length (slice start end L)" using cur(1) st(6,7) by simp
      have "{?n} \<times> (pairs_of ?cur \<union> pairs_of (slice start end L)) \<subseteq> range_pairs f g ?n lo level p \<union> tree_pairs f g L"
        using sub tree pairs_of_slice [OF st(4-7)] by blast
      then have "collision_free f ({?n} \<times> (pairs_of ?cur \<union> pairs_of (slice start end L)))"
        by (rule collision_free_mono [OF less.prems(4)])
      then show "\<forall>a b c d. (a, b) \<in> pairs_of ?cur \<union> pairs_of (slice start end L) \<longrightarrow> (c, d) \<in> pairs_of ?cur \<union> pairs_of (slice start end L) \<longrightarrow>
          f ?n a b = f ?n c d \<longrightarrow> a = c \<and> b = d"
        unfolding collision_free_def by blast
    qed
    then have "level = take (length level) (drop (length pre) (slice start end L))" by (metis append_eq_conv_conj)
    also have "\<dots> = slice lo (lo + length level) L"
    proof -
      have "start + length pre = lo" using lens(1) by (simp add: start_def)
      moreover have "length pre + length level \<le> end - start" using cur(1) by simp
      ultimately have "drop (length pre) (slice start end L) = take (end - start - length pre) (drop lo L)"
        unfolding slice_def by (simp only: drop_take drop_drop add.commute)
      moreover have "length level \<le> end - start - length pre" using cur(1) by simp
      ultimately show ?thesis unfolding slice_def by (simp only: take_take min.absorb1 add_diff_cancel_left')
    qed
    finally show ?thesis .
  qed
qed

section \<open>The two trees\<close>

abbreviation rt_f :: "(bytes \<Rightarrow> hash) \<Rightarrow> nat \<Rightarrow> hash \<Rightarrow> hash \<Rightarrow> hash" where "rt_f blake3 \<equiv> \<lambda>n. hash_pair blake3"
abbreviation rt_g :: "(bytes \<Rightarrow> hash) \<Rightarrow> nat \<Rightarrow> hash \<Rightarrow> hash" where "rt_g blake3 \<equiv> \<lambda>n a. hash_pair blake3 a a"
abbreviation b3_f :: "merge \<Rightarrow> nat \<Rightarrow> hash \<Rightarrow> hash \<Rightarrow> hash" where "b3_f m \<equiv> \<lambda>n a b. m a b (n = 2)"
abbreviation b3_g :: "nat \<Rightarrow> hash \<Rightarrow> hash" where "b3_g \<equiv> \<lambda>n a. a"

lemma next_level_pair_up: "next_level blake3 L = pair_up (hash_pair blake3) (\<lambda>a. hash_pair blake3 a a) L"
  by (induction blake3 L rule: next_level.induct) auto

lemma root_loop_tree: "root_loop blake3 L = tree_root (rt_f blake3) (rt_g blake3) L"
proof (induction "length L" arbitrary: L rule: less_induct)
  case less
  then show ?case
    by (subst root_loop.simps, subst tree_root.simps) (simp add: next_level_pair_up)
qed

lemma b3_root_tree: "b3_root_loop m L = tree_root (b3_f m) b3_g L"
proof (induction "length L" arbitrary: L rule: less_induct)
  case less
  then show ?case
    by (subst b3_root_loop.simps, subst tree_root.simps) (simp add: b3_level_eq)
qed

lemma pair_up_dup: "odd (length xs) \<Longrightarrow> pair_up f k (xs @ [last xs]) = pair_up f (\<lambda>a. f a a) xs"
  by (induction xs rule: induct_list012) (auto simp: odd_pos)

lemma pair_up_even: "even (length xs) \<Longrightarrow> pair_up f k xs = pair_up f g xs"
  by (induction xs rule: induct_list012) auto

lemma rt_loop_step:
  assumes n: "1 < n" and pre: "length pre = lo mod 2"
    and post: "length post = (if even hi \<and> hi + 1 < n then 1 else 0)" and hi: "hi = lo + length level - 1"
    and cur: "cur = pre @ level @ post"
  shows "rt_verify_loop blake3 root n lo level (pre @ post @ p) =
    rt_verify_loop blake3 root (div_ceil n 2) ((lo - length pre) div 2)
      (pair_up (hash_pair blake3) (\<lambda>a. a) (if even hi \<and> \<not> hi + 1 < n then cur @ [last cur] else cur)) p"
proof -
  have 1: "(if odd lo then case pre @ post @ p of [] \<Rightarrow> None | s # p \<Rightarrow> Some (lo - 1, [s], p) else Some (lo, [], pre @ post @ p)) =
      Some (lo - length pre, pre, post @ p)"
  proof (cases "even lo")
    case False
    then obtain s where "pre = [s]" using pre by (auto simp: odd_iff_mod_2_eq_one length_Suc_conv)
    with False show ?thesis by simp
  qed (use pre in simp)
  have 2: "(if even hi then if hi + 1 < n then case post @ p of [] \<Rightarrow> None | s # p \<Rightarrow> Some ((pre @ level) @ [s], p)
        else Some ((pre @ level) @ [last (pre @ level)], post @ p) else Some (pre @ level, post @ p)) =
      Some (if even hi \<and> \<not> hi + 1 < n then cur @ [last cur] else cur, p)"
  proof (cases "even hi \<and> hi + 1 < n")
    case True
    then obtain s where "post = [s]" using post by (auto simp: length_Suc_conv)
    with True show ?thesis by (simp add: cur)
  next
    case False
    then have "post = []" using post by (metis length_0_conv)
    with False show ?thesis by (auto simp: cur)
  qed
  show ?thesis
    by (subst rt_verify_loop.simps) (simp only: n if_True Let_def hi [symmetric] 1 2 option.case prod.case)
qed

lemma rt_verify_range_loop:
  "level \<noteq> [] \<Longrightarrow> lo + length level \<le> n \<Longrightarrow>
   rt_verify_loop blake3 root n lo level p \<longleftrightarrow> range_loop (rt_f blake3) (rt_g blake3) n lo level p = Some root"
proof (induction n arbitrary: lo level p rule: less_induct)
  case (less n)
  show ?case
  proof (cases "1 < n")
    case False
    then show ?thesis by (subst rt_verify_loop.simps, subst range_loop.simps) auto
  next
    case True
    define hi where "hi = lo + length level - 1"
    have hi: "lo \<le> hi" "hi < n" "length level = hi + 1 - lo" using less.prems by (cases level; simp add: hi_def)+
    have step: "rt_verify_loop blake3 root (div_ceil n 2) ((lo - length pre) div 2)
        (pair_up (hash_pair blake3) (\<lambda>a. a) (if even hi \<and> \<not> hi + 1 < n then cur @ [last cur] else cur)) q \<longleftrightarrow>
      range_loop (rt_f blake3) (rt_g blake3) (div_ceil n 2) ((lo - length pre) div 2) (pair_up (rt_f blake3 n) (rt_g blake3 n) cur) q = Some root"
      if len: "length pre = lo mod 2" "length post = (if even hi \<and> hi + 1 < n then 1 else 0)" and cur: "cur = pre @ level @ post"
      for pre post cur q :: "hash list"
    proof -
      have lc: "length cur = lo mod 2 + (hi + 1 - lo) + (if even hi \<and> hi + 1 < n then 1 else 0)" using len hi by (simp add: cur)
      have ev: "pair_up (hash_pair blake3) (\<lambda>a. a) (if even hi \<and> \<not> hi + 1 < n then cur @ [last cur] else cur) =
          pair_up (hash_pair blake3) (\<lambda>a. hash_pair blake3 a a) cur"
      proof (cases "even hi \<and> \<not> hi + 1 < n")
        case True
        then have "odd (length cur)" using lc hi(1) by (simp add: mod2_eq_if)
        then show ?thesis using True by (simp add: pair_up_dup)
      next
        case False
        then have "even (length cur)" using lc hi(1) by (auto simp: mod2_eq_if)
        from pair_up_even [OF this, of "hash_pair blake3" "\<lambda>a. a" "\<lambda>a. hash_pair blake3 a a"] False show ?thesis by (simp only: if_False)
      qed
      have "(length cur + 1) div 2 + (lo - length pre) div 2 \<le> div_ceil n 2"
      proof -
        have "lo mod 2 + 2 * (lo div 2) = lo" by simp
        then have "length cur + 2 * (lo div 2) \<le> n" using lc hi(1,2) by (simp split: if_splits)
        then have "(length cur + 1 + 2 * (lo div 2)) div 2 \<le> (n + 1) div 2" by (intro div_le_mono) simp
        moreover have "(lo - length pre) div 2 = lo div 2" unfolding len(1) by (simp add: minus_mod_eq_mult_div)
        ultimately show ?thesis by (simp add: div_ceil_2)
      qed
      moreover have "cur \<noteq> []" using less.prems(1) by (simp add: cur)
      then have "pair_up (hash_pair blake3) (\<lambda>a. hash_pair blake3 a a) cur \<noteq> []" by (cases cur rule: remdups_adj.cases) auto
      ultimately show ?thesis
        unfolding ev using True by (intro less.IH) (auto simp: div_ceil_2)
    qed
    show ?thesis
    proof (cases "length p < lo mod 2 + (if even hi \<and> hi + 1 < n then 1 else 0)")
      case True
      then show ?thesis using range_loop_short [OF \<open>1 < n\<close> hi_def, of p] rt_loop_short [OF \<open>1 < n\<close> hi_def, of p] by simp
    next
      case False
      define pre post r where "pre = take (lo mod 2) p" and "post = take (if even hi \<and> hi + 1 < n then 1 else 0) (drop (lo mod 2) p)"
        and "r = drop (if even hi \<and> hi + 1 < n then 1 else 0) (drop (lo mod 2) p)"
      have p: "p = pre @ post @ r" unfolding pre_def post_def r_def append_take_drop_id ..
      have len: "length pre = lo mod 2" "length post = (if even hi \<and> hi + 1 < n then 1 else 0)"
        using False by (simp_all add: pre_def post_def split: if_splits)
      have d: "(lo - length pre) div 2 = lo div 2" unfolding len(1) by presburger
      show ?thesis
        unfolding p rt_loop_step [OF \<open>1 < n\<close> len hi_def refl] step [OF len refl]
        unfolding d using range_loop_step [OF \<open>1 < n\<close> len(1) len(2) [unfolded hi_def]] by simp
    qed
  qed
qed

lemma even_or_last: "i < n \<Longrightarrow> even n \<or> i \<noteq> n - Suc 0 \<longleftrightarrow> odd i \<or> Suc i < n"
  by presburger

lemma b3_fold_range: "i < n \<Longrightarrow> b3_fold_loop m n i acc p = range_loop (b3_f m) b3_g n i [acc] p"
proof (induction n arbitrary: i acc p rule: less_induct)
  case (less n)
  show ?case
  proof (cases "1 < n")
    case False
    then show ?thesis by (subst b3_fold_loop.simps, subst range_loop.simps) simp
  next
    case True
    have ih: "b3_fold_loop m (div_ceil n 2) (i div 2) acc' p' = range_loop (b3_f m) b3_g (div_ceil n 2) (i div 2) [acc'] p'" for acc' p'
      using less.prems True by (intro less.IH) (auto simp: div_ceil_2)
    have odd: "odd i \<Longrightarrow> (i - Suc 0) div 2 = i div 2" by presburger
    have one: "1 = Suc 0" by simp
    show ?thesis
      unfolding b3_fold_loop.simps [of m n] range_loop.simps [of _ _ n] one even_or_last [OF less.prems]
      using True by (cases "odd i"; cases p; cases "Suc i < n") (simp_all add: ih odd)
  qed
qed

lemma append_sections: "(@) [x] = (#) x" "(@) [] = (\<lambda>xs. xs)"
  by auto

lemma b3_path_range: "i < length L \<Longrightarrow> b3_path m L i = range_proof_loop (b3_f m) b3_g L i i"
proof (induction "length L" arbitrary: L i rule: less_induct)
  case less
  show ?case
  proof (cases "1 < length L")
    case True
    have ih: "b3_path m (b3_level m L) (i div 2) =
        range_proof_loop (b3_f m) b3_g (pair_up (b3_f m (length L)) (b3_g (length L)) L) (i div 2) (i div 2)"
      unfolding b3_level_eq using less.prems True by (intro less.hyps) auto
    have one: "1 = Suc 0" by simp
    have sib: "\<not> length L \<le> i - Suc 0" using less.prems by simp
    show ?thesis
      unfolding b3_path.simps [of m L] range_proof_loop.simps [of _ _ L] one even_or_last [OF less.prems] Let_def ih
      using True sib
      by (cases "odd i"; cases "Suc i < length L") (simp_all add: sibling_def append_sections option.map_ident)
  qed (simp add: b3_path.simps [of m L] range_proof_loop.simps [of _ _ L])
qed

lemma b3_path_length: "b3_path m L i = Some p \<Longrightarrow> length L \<le> 2 ^ k \<Longrightarrow> length p \<le> k"
proof (induction k arbitrary: L i p)
  case 0
  then show ?case by (subst (asm) b3_path.simps) auto
next
  case (Suc k)
  show ?case
  proof (cases "1 < length L")
    case True
    obtain q where "b3_path m (b3_level m L) (i div 2) = Some q" "length p \<le> length q + 1"
      using Suc.prems(1) True by (subst (asm) b3_path.simps) (auto simp: Let_def split: if_splits)
    moreover have "length (b3_level m L) \<le> 2 ^ k" using Suc.prems(2) by simp
    ultimately show ?thesis using Suc.IH by fastforce
  qed (use Suc.prems(1) in \<open>subst (asm) b3_path.simps, auto\<close>)
qed

lemma slice_single: "i < length L \<Longrightarrow> slice i (i + 1) L = [L ! i]"
  by (simp add: slice_def flip: Cons_nth_drop_Suc)

section \<open>The openings of both trees\<close>

lemma rt_range_complete:
  assumes "0 < count" and "first + count \<le> length leaves" and "length leaves \<le> 2 ^ 64"
  shows "\<exists>root p. rt_range_proof blake3 leaves first count = Some (root, p) \<and> merkle_root blake3 leaves = Some root \<and>
      rt_verify_range blake3 root (length leaves) first (slice first (first + count) leaves) p"
proof -
  let ?s = "slice first (first + count) leaves"
  have hi: "first \<le> first + count - 1" "first + count - 1 < length leaves" "first + count - 1 + 1 = first + count" "first + count \<noteq> 0"
    using assms(1,2) by auto
  have len: "length ?s = count" using assms(1,2) by simp
  have "?s \<noteq> []" using len assms(1) by (metis length_0_conv less_irrefl)
  moreover have "leaves \<noteq> []" using hi(2) by auto
  ultimately have ne: "leaves \<noteq> []" "?s \<noteq> []" by simp_all
  obtain p where p: "range_proof_loop (rt_f blake3) (rt_g blake3) leaves first (first + count - 1) = Some p"
    "range_loop (rt_f blake3) (rt_g blake3) (length leaves) first ?s p = Some (root_loop blake3 leaves)"
    using range_complete [OF hi(1,2), unfolded hi(3), of "rt_f blake3" "rt_g blake3"] by (auto simp: root_loop_tree)
  have "rt_verify_loop blake3 (root_loop blake3 leaves) (length leaves) first ?s p"
    using rt_verify_range_loop [OF ne(2), of first "length leaves"] p(2) len assms(2) by simp
  then show ?thesis
    using p(1) range_proof_length [OF p(1) assms(3)] ne hi(4) assms(2) len
    by (simp add: rt_range_proof_def rt_verify_range_def merkle_root_def)
qed

lemma b3_range_complete:
  assumes "0 < count" and "first + count \<le> length leaves" and "length leaves \<le> 2 ^ 64"
  shows "\<exists>root p. b3_range_proof b3_merge leaves first count = Some p \<and> b3_root b3_merge leaves = Some root \<and>
      b3_range_fold b3_merge (length leaves) first (slice first (first + count) leaves) p = Some root"
proof -
  let ?s = "slice first (first + count) leaves"
  have hi: "first \<le> first + count - 1" "first + count - 1 < length leaves" "first + count - 1 + 1 = first + count" "first + count \<noteq> 0"
    using assms(1,2) by auto
  have len: "length ?s = count" using assms(1,2) by simp
  then have "?s \<noteq> []" using assms(1) by (metis length_0_conv less_irrefl)
  moreover have "leaves \<noteq> []" using hi(2) by auto
  moreover obtain q where q: "range_proof_loop (b3_f b3_merge) b3_g leaves first (first + count - 1) = Some q"
    "range_loop (b3_f b3_merge) b3_g (length leaves) first ?s q = Some (b3_root_loop b3_merge leaves)"
    using range_complete [OF hi(1,2), unfolded hi(3), of "b3_f b3_merge" b3_g] by (auto simp: b3_root_tree)
  ultimately show ?thesis
    using range_proof_length [OF q(1) assms(3)] hi(4) assms(2) len
    by (simp add: b3_range_proof_def b3_range_fold_def b3_root_def)
qed

lemma b3_leaf_complete:
  assumes "i < length leaves" and "length leaves \<le> 2 ^ 64"
  shows "\<exists>root p. b3_path b3_merge leaves i = Some p \<and> b3_root b3_merge leaves = Some root \<and>
      b3_fold b3_merge (length leaves) i (leaves ! i) p = Some root"
proof -
  have ne: "leaves \<noteq> []" using assms(1) by auto
  obtain r where r: "b3_path b3_merge leaves i = Some r"
    "range_loop (b3_f b3_merge) b3_g (length leaves) i [leaves ! i] r = Some (b3_root_loop b3_merge leaves)"
    using range_complete [OF order.refl assms(1), of "b3_f b3_merge" b3_g] assms(1)
    slice_single [OF assms(1)] by (auto simp: b3_path_range b3_root_tree)
  then show ?thesis
    using b3_path_length [OF r(1) assms(2)] assms(1) ne
    by (simp add: b3_fold_def b3_root_def b3_fold_range)
qed

lemma rt_range_sound:
  assumes "merkle_root blake3 L = Some root" and "rt_verify_range blake3 root (length L) first leaves p"
    and "collision_free (rt_f blake3) (range_pairs (rt_f blake3) (rt_g blake3) (length L) first leaves p \<union> tree_pairs (rt_f blake3) (rt_g blake3) L)"
  shows "leaves = slice first (first + length leaves) L"
proof -
  have ok: "leaves \<noteq> []" "first + length leaves \<le> length L" "rt_verify_loop blake3 root (length L) first leaves p"
    "root = tree_root (rt_f blake3) (rt_g blake3) L"
    using assms(1,2) by (auto simp: rt_verify_range_def merkle_root_def root_loop_tree split: if_splits)
  then have "range_loop (rt_f blake3) (rt_g blake3) (length L) first leaves p = Some (tree_root (rt_f blake3) (rt_g blake3) L)"
    using rt_verify_range_loop by blast
  then show ?thesis using assms(3) ok(1,2) by (intro range_loop_sound [of "rt_g blake3" "rt_f blake3"]) auto
qed

lemma b3_range_sound:
  assumes "b3_root b3_merge L = Some root" and "b3_range_fold b3_merge (length L) first leaves p = Some root"
    and "collision_free (b3_f b3_merge) (range_pairs (b3_f b3_merge) b3_g (length L) first leaves p \<union> tree_pairs (b3_f b3_merge) b3_g L)"
  shows "leaves = slice first (first + length leaves) L"
  using assms by (intro range_loop_sound [of b3_g "b3_f b3_merge"]) (auto simp: b3_range_fold_def b3_root_def b3_root_tree split: if_splits)

lemma b3_leaf_sound:
  assumes "b3_root b3_merge L = Some root" and "b3_fold b3_merge (length L) i leaf p = Some root"
    and "collision_free (b3_f b3_merge) (range_pairs (b3_f b3_merge) b3_g (length L) i [leaf] p \<union> tree_pairs (b3_f b3_merge) b3_g L)"
  shows "i < length L \<and> leaf = L ! i"
proof -
  have i: "i < length L" "b3_fold_loop b3_merge (length L) i leaf p = Some (b3_root_loop b3_merge L)"
    using assms(1,2) by (auto simp: b3_fold_def b3_root_def split: if_splits)
  then have "[leaf] = slice i (i + length [leaf]) L"
    using assms(3) by (intro range_loop_sound [of b3_g "b3_f b3_merge"]) (auto simp: b3_fold_range b3_root_tree)
  then show ?thesis using i(1) slice_single by force
qed

section \<open>Properties\<close>

text \<open>Completeness of the openings: in a tree of at most \<open>2^64\<close> leaves every non-empty range has a proof
  that leads to the root, in the tree over model chunks and in the trace tree, and so has every single
  leaf; the verifiers' bounds on the length of a proof never reject an honest one.\<close>

theorem range_proofs_accepted:
  assumes "0 < count" and "first + count \<le> length leaves" and "length leaves \<le> 2 ^ 64" and "i < length leaves"
  shows "(\<exists>root p. rt_range_proof blake3 leaves first count = Some (root, p) \<and> merkle_root blake3 leaves = Some root \<and>
      rt_verify_range blake3 root (length leaves) first (slice first (first + count) leaves) p) \<and>
    (\<exists>root p. b3_range_proof b3_merge leaves first count = Some p \<and> b3_root b3_merge leaves = Some root \<and>
      b3_range_fold b3_merge (length leaves) first (slice first (first + count) leaves) p = Some root) \<and>
    (\<exists>root p. b3_path b3_merge leaves i = Some p \<and> b3_root b3_merge leaves = Some root \<and>
      b3_verify b3_merge root (length leaves) i (leaves ! i) p)"
  using rt_range_complete [OF assms(1-3)] b3_range_complete [OF assms(1-3)] b3_leaf_complete [OF assms(4,3)]
  unfolding b3_verify_def by (intro conjI) assumption+

theorem range_proofs_accepted_witness:
  "\<exists>p. b3_path (\<lambda>a b f. a @ b) [[1], [2], [3]] 1 = Some p \<and> p \<noteq> []"
  using range_proofs_accepted [of 2 1 "[[1], [2], [3]]" 1 id "\<lambda>a b f. a @ b"]
  by (auto simp: b3_path.simps b3_level_eq sibling_def)

text \<open>C17: soundness of the openings: where no two merged pairs of a level collide, a range accepted against the
  root of a tree is the range of its leaves, in both trees; so is a single leaf. In the tree over model
  chunks the same holds against the root that the possession index commits.\<close>

theorem range_openings_sound:
  "(merkle_root blake3 L = Some root \<and> rt_verify_range blake3 root (length L) first leaves p \<and>
      collision_free (rt_f blake3) (range_pairs (rt_f blake3) (rt_g blake3) (length L) first leaves p \<union> tree_pairs (rt_f blake3) (rt_g blake3) L) \<longrightarrow>
      leaves = slice first (first + length leaves) L) \<and>
   (b3_root b3_merge L = Some root \<and> b3_range_fold b3_merge (length L) first leaves p = Some root \<and>
      collision_free (b3_f b3_merge) (range_pairs (b3_f b3_merge) b3_g (length L) first leaves p \<union> tree_pairs (b3_f b3_merge) b3_g L) \<longrightarrow>
      leaves = slice first (first + length leaves) L) \<and>
   (b3_root b3_merge L = Some root \<and> b3_verify b3_merge root (length L) i leaf p \<and>
      collision_free (b3_f b3_merge) (range_pairs (b3_f b3_merge) b3_g (length L) i [leaf] p \<union> tree_pairs (b3_f b3_merge) b3_g L) \<longrightarrow>
      leaf = L ! i)"
  unfolding b3_verify_def using rt_range_sound b3_range_sound b3_leaf_sound by blast

theorem range_openings_sound_witness:
  "rt_verify_range id [1, 2] 2 0 [[1]] [[2]] \<and> b3_range_fold (\<lambda>a b f. a @ b) 2 0 [[1]] [[2]] = Some [1, 2] \<and>
    [[1]] = slice 0 1 [[1], [2 :: u8]]"
proof -
  have hyps: "rt_verify_range id [1, 2] 2 0 [[1]] [[2]]" "merkle_root id [[1], [2]] = Some [1, 2]"
    "range_pairs (rt_f id) (rt_g id) 2 0 [[1]] [[2]] = {(2, [1], [2])}" "tree_pairs (rt_f id) (rt_g id) [[1], [2]] = {(2, [1], [2])}"
    by (simp_all add: rt_verify_range_def rt_verify_loop.simps merkle_root_def root_loop.simps hash_pair_def blake_def range_pairs.simps tree_pairs.simps div_ceil_2)
  have fold: "b3_range_fold (\<lambda>a b f. a @ b) 2 0 [[1]] [[2]] = Some [1, 2]"
    by (simp add: b3_range_fold_def range_loop.simps div_ceil_2)
  have "collision_free (rt_f id) {(2, [1], [2])}" by (auto simp: collision_free_def)
  moreover have "length [[1], [2 :: u8]] = 2" "0 + length [[1 :: u8]] = 1" by simp_all
  note range_openings_sound [of id "[[1], [2]]" "[1, 2]" 0 "[[1]]" "[[2]]", THEN conjunct1, unfolded this]
  ultimately have "[[1]] = slice 0 1 [[1], [2 :: u8]]" using hyps by (simp only: Un_absorb simp_thms)
  with hyps(1) fold show ?thesis by simp
qed

end
