(* ===== verification/Model_Manifest.thy ===== *)
theory Model_Manifest
  imports Trace_Tree Opening_Items
begin

text \<open>
  \<open>src/verifiable-inference/src/manifest.rs\<close>: the entries of a model manifest (one per tensor or layer), their
  binary format with the chain extension that says where a product takes its input from, the manifest
  file, and the chunks that hold a weight row; \<open>serialize\<close> of \<open>testkit.rs\<close> writes the base of an entry.
  A name is kept as its bytes, which \<open>String::from_utf8\<close> requires to be valid UTF-8. Offsets into a tensor
  are 64-bit words and wrap. A slice past the end of the file panics, which \<open>Panics\<close> records.

  The lemmas show that the chain extension and the entries are read back as written, that the file is
  split into entries without a gap, and which chunks a row covers.
\<close>

section \<open>Entries\<close>

definition ROLE_PRODUCT :: u8 where "ROLE_PRODUCT = 0"
definition ROLE_OUTPUT :: u8 where "ROLE_OUTPUT = 2"
definition NONE :: u32 where "NONE = 0xFFFFFFFF"

definition TAG_NONE :: u8 where "TAG_NONE = 0"
definition TAG_PRODUCT :: u8 where "TAG_PRODUCT = 1"
definition TAG_LAYER :: u8 where "TAG_LAYER = 2"
definition TAG_MOE_LAYER :: u8 where "TAG_MOE_LAYER = 3"
definition TAG_ATTN_LAYER :: u8 where "TAG_ATTN_LAYER = 4"
definition TAG_ATTN_MOE_LAYER :: u8 where "TAG_ATTN_MOE_LAYER = 5"
definition TAG_RECUR_LAYER :: u8 where "TAG_RECUR_LAYER = 6"
definition TAG_RECUR_MOE_LAYER :: u8 where "TAG_RECUR_MOE_LAYER = 7"

lemmas tag_defs = TAG_NONE_def TAG_PRODUCT_def TAG_LAYER_def TAG_MOE_LAYER_def TAG_ATTN_LAYER_def TAG_ATTN_MOE_LAYER_def
  TAG_RECUR_LAYER_def TAG_RECUR_MOE_LAYER_def

record ProductLink =
  pl_layer :: u32
  pl_link :: u8
  pl_norm :: u32
  pl_src :: u32

record MoeLinks =
  ml_down_exps :: u32
  ml_router :: u32
  ml_probs_bias :: u32
  ml_w_scale :: u32
  ml_ffn_norm :: u32
  ml_gate_exps :: u32

record AttnLinks =
  al_q :: u32
  al_k :: u32
  al_v :: u32
  al_q_norm :: u32
  al_k_norm :: u32
  al_n_head :: u32
  al_n_head_kv :: u32
  al_head_dim :: u32
  al_rope_kind :: u32
  al_n_rot :: u32
  al_rope_base :: u32
  al_kq_scale :: u32
  al_swa_window :: u32
  al_softcap :: u32
  al_rope_freqs :: u32
  al_v_norm :: u32
  al_gated :: u32
  al_slot :: u32
  al_mla_rank :: u32
  al_absorb :: u32
  al_out :: u32

definition ATTN_FIELDS :: nat where "ATTN_FIELDS = 21"

definition attn_fields :: "AttnLinks \<Rightarrow> u32 list" where
  "attn_fields a = [al_q a, al_k a, al_v a, al_q_norm a, al_k_norm a, al_n_head a, al_n_head_kv a, al_head_dim a, al_rope_kind a,
     al_n_rot a, al_rope_base a, al_kq_scale a, al_swa_window a, al_softcap a, al_rope_freqs a, al_v_norm a, al_gated a, al_slot a,
     al_mla_rank a, al_absorb a, al_out a]"

definition attn_from_fields :: "u32 list \<Rightarrow> AttnLinks" where
  "attn_from_fields f = \<lparr>al_q = f ! 0, al_k = f ! 1, al_v = f ! 2, al_q_norm = f ! 3, al_k_norm = f ! 4, al_n_head = f ! 5,
     al_n_head_kv = f ! 6, al_head_dim = f ! 7, al_rope_kind = f ! 8, al_n_rot = f ! 9, al_rope_base = f ! 10, al_kq_scale = f ! 11,
     al_swa_window = f ! 12, al_softcap = f ! 13, al_rope_freqs = f ! 14, al_v_norm = f ! 15, al_gated = f ! 16, al_slot = f ! 17,
     al_mla_rank = f ! 18, al_absorb = f ! 19, al_out = f ! 20\<rparr>"

record RecurLinks =
  rl_kind :: u32
  rl_slot :: u32
  rl_n_v_heads :: u32
  rl_n_k_heads :: u32
  rl_head_dim :: u32
  rl_q :: u32
  rl_k :: u32
  rl_v :: u32
  rl_conv_q :: u32
  rl_conv_k :: u32
  rl_conv_v :: u32
  rl_beta :: u32
  rl_decay :: u32
  rl_dt :: u32
  rl_a :: u32
  rl_norm :: u32
  rl_gate :: u32
  rl_interval :: u32
  rl_conv_len :: u32

definition RECUR_FIELDS :: nat where "RECUR_FIELDS = 19"

definition recur_fields :: "RecurLinks \<Rightarrow> u32 list" where
  "recur_fields r = [rl_kind r, rl_slot r, rl_n_v_heads r, rl_n_k_heads r, rl_head_dim r, rl_q r, rl_k r, rl_v r, rl_conv_q r,
     rl_conv_k r, rl_conv_v r, rl_beta r, rl_decay r, rl_dt r, rl_a r, rl_norm r, rl_gate r, rl_interval r, rl_conv_len r]"

definition recur_from_fields :: "u32 list \<Rightarrow> RecurLinks" where
  "recur_from_fields f = \<lparr>rl_kind = f ! 0, rl_slot = f ! 1, rl_n_v_heads = f ! 2, rl_n_k_heads = f ! 3, rl_head_dim = f ! 4,
     rl_q = f ! 5, rl_k = f ! 6, rl_v = f ! 7, rl_conv_q = f ! 8, rl_conv_k = f ! 9, rl_conv_v = f ! 10, rl_beta = f ! 11,
     rl_decay = f ! 12, rl_dt = f ! 13, rl_a = f ! 14, rl_norm = f ! 15, rl_gate = f ! 16, rl_interval = f ! 17, rl_conv_len = f ! 18\<rparr>"

record LayerLinks =
  ll_layer :: u32
  ll_proj :: u32
  ll_down :: u32
  ll_post_attn :: u32
  ll_post_ffn :: u32
  ll_scale :: u32
  ll_moe :: "MoeLinks option"
  ll_attn :: "AttnLinks option"
  ll_recur :: "RecurLinks option"

datatype Chain = NoChain | Product ProductLink | Layer LayerLinks

record Entry =
  en_name :: bytes
  en_wtype :: u32
  en_k :: u64
  en_m :: u64
  en_n_exp :: u32
  en_chunk_base :: u64
  en_n_bytes :: u64
  en_row_bytes :: u32
  en_role :: u8
  en_glu_op :: u8
  en_glu_form :: u8
  en_partner :: u32
  en_bias :: u32
  en_chain :: Chain

section \<open>Chain extension\<close>

definition u32_at :: "bytes \<Rightarrow> nat \<Rightarrow> u32 option" where
  "u32_at b i = (if i + 4 \<le> length b then Some (from_le (slice i (i + 4) b)) else None)"

text \<open>\<open>for (i, v) in f.iter_mut().enumerate() { *v = u32a(base + 4 * i)?; }\<close>\<close>

primrec u32s_at :: "bytes \<Rightarrow> nat \<Rightarrow> nat \<Rightarrow> u32 list option" where
  "u32s_at b base 0 = Some []"
| "u32s_at b base (Suc n) = do { v \<leftarrow> u32_at b base; vs \<leftarrow> u32s_at b (base + 4) n; Some (v # vs) }"

definition parse_layer :: "u8 \<Rightarrow> bytes \<Rightarrow> (Chain \<times> nat) option" where
  "parse_layer tag b = do {
     moe \<leftarrow> (if tag \<in> {TAG_MOE_LAYER, TAG_ATTN_MOE_LAYER, TAG_RECUR_MOE_LAYER}
            then do { down_exps \<leftarrow> u32_at b 25; router \<leftarrow> u32_at b 29; probs_bias \<leftarrow> u32_at b 33; w_scale \<leftarrow> u32_at b 37;
                      ffn_norm \<leftarrow> u32_at b 41; gate_exps \<leftarrow> u32_at b 45;
                      Some (Some \<lparr>ml_down_exps = down_exps, ml_router = router, ml_probs_bias = probs_bias, ml_w_scale = w_scale,
                                  ml_ffn_norm = ffn_norm, ml_gate_exps = gate_exps\<rparr>) }
            else Some None);
     let base = (if moe \<noteq> None then 49 else 25);
     attn \<leftarrow> (if tag \<in> {TAG_ATTN_LAYER, TAG_ATTN_MOE_LAYER}
             then do { f \<leftarrow> u32s_at b base ATTN_FIELDS; Some (Some (attn_from_fields f)) } else Some None);
     recur \<leftarrow> (if tag \<in> {TAG_RECUR_LAYER, TAG_RECUR_MOE_LAYER}
              then do { f \<leftarrow> u32s_at b base RECUR_FIELDS; Some (Some (recur_from_fields f)) } else Some None);
     layer \<leftarrow> u32_at b 1; proj \<leftarrow> u32_at b 5; down \<leftarrow> u32_at b 9; post_attn \<leftarrow> u32_at b 13; post_ffn \<leftarrow> u32_at b 17;
     scale \<leftarrow> u32_at b 21;
     Some (Layer \<lparr>ll_layer = layer, ll_proj = proj, ll_down = down, ll_post_attn = post_attn, ll_post_ffn = post_ffn,
                  ll_scale = scale, ll_moe = moe, ll_attn = attn, ll_recur = recur\<rparr>,
           base + (if attn \<noteq> None then 4 * ATTN_FIELDS else 0) + (if recur \<noteq> None then 4 * RECUR_FIELDS else 0)) }"

definition parse_chain :: "bytes \<Rightarrow> (Chain \<times> nat) option" where
  "parse_chain b =
     (case b of
        [] \<Rightarrow> None
      | tag # _ \<Rightarrow>
          if tag = TAG_NONE then Some (NoChain, 1)
          else if tag = TAG_PRODUCT
          then if 5 < length b
               then do { layer \<leftarrow> u32_at b 1; norm \<leftarrow> u32_at b 6; src \<leftarrow> u32_at b 10;
                         Some (Product \<lparr>pl_layer = layer, pl_link = b ! 5, pl_norm = norm, pl_src = src\<rparr>, 14) }
               else None
          else if tag \<in> {TAG_LAYER, TAG_MOE_LAYER, TAG_ATTN_LAYER, TAG_ATTN_MOE_LAYER, TAG_RECUR_LAYER, TAG_RECUR_MOE_LAYER}
          then parse_layer tag b
          else None)"

definition layer_tag :: "bool \<Rightarrow> bool \<Rightarrow> bool \<Rightarrow> u8" where
  "layer_tag moe attn recur =
     (if attn then if moe then TAG_ATTN_MOE_LAYER else TAG_ATTN_LAYER
      else if recur then if moe then TAG_RECUR_MOE_LAYER else TAG_RECUR_LAYER
      else if moe then TAG_MOE_LAYER else TAG_LAYER)"

abbreviation u32_bytes :: "u32 list \<Rightarrow> bytes" where "u32_bytes vs \<equiv> concat (map (le_bytes 4) vs)"

fun chain_bytes :: "Chain \<Rightarrow> bytes" where
  "chain_bytes NoChain = [TAG_NONE]"
| "chain_bytes (Product p) = TAG_PRODUCT # le_bytes 4 (pl_layer p) @ pl_link p # le_bytes 4 (pl_norm p) @ le_bytes 4 (pl_src p)"
| "chain_bytes (Layer l) =
     layer_tag (ll_moe l \<noteq> None) (ll_attn l \<noteq> None) (ll_recur l \<noteq> None) #
     u32_bytes [ll_layer l, ll_proj l, ll_down l, ll_post_attn l, ll_post_ffn l, ll_scale l] @
     (case ll_moe l of
        Some m \<Rightarrow> u32_bytes [ml_down_exps m, ml_router m, ml_probs_bias m, ml_w_scale m, ml_ffn_norm m, ml_gate_exps m]
      | None \<Rightarrow> []) @
     (case ll_attn l of
        Some a \<Rightarrow> u32_bytes (attn_fields a)
      | None \<Rightarrow> (case ll_recur l of Some r \<Rightarrow> u32_bytes (recur_fields r) | None \<Rightarrow> []))"

section \<open>Entries and files\<close>

text \<open>Well-formed UTF-8: the ranges of the second byte depend on the first.\<close>

definition cont :: "u8 \<Rightarrow> bool" where "cont b \<longleftrightarrow> 0x80 \<le> b \<and> b \<le> 0xBF"

definition utf8_second :: "u8 \<Rightarrow> u8 \<Rightarrow> bool" where
  "utf8_second a b \<longleftrightarrow>
     (if a = 0xE0 then 0xA0 \<le> b \<and> b \<le> 0xBF else if a = 0xED then 0x80 \<le> b \<and> b \<le> 0x9F
      else if a = 0xF0 then 0x90 \<le> b \<and> b \<le> 0xBF else if a = 0xF4 then 0x80 \<le> b \<and> b \<le> 0x8F else cont b)"

function is_utf8 :: "bytes \<Rightarrow> bool" where
  "is_utf8 bs =
     (case bs of
        [] \<Rightarrow> True
      | a # r \<Rightarrow>
          if a \<le> 0x7F then is_utf8 r
          else if 0xC2 \<le> a \<and> a \<le> 0xDF then 1 \<le> length r \<and> cont (r ! 0) \<and> is_utf8 (drop 1 r)
          else if 0xE0 \<le> a \<and> a \<le> 0xEF then 2 \<le> length r \<and> utf8_second a (r ! 0) \<and> cont (r ! 1) \<and> is_utf8 (drop 2 r)
          else if 0xF0 \<le> a \<and> a \<le> 0xF4
          then 3 \<le> length r \<and> utf8_second a (r ! 0) \<and> cont (r ! 1) \<and> cont (r ! 2) \<and> is_utf8 (drop 3 r)
          else False)"
  by pat_completeness auto
termination
  by (relation "measure length") auto

declare is_utf8.simps [simp del]

definition parse_base :: "bytes \<Rightarrow> (Entry \<times> nat) option" where
  "parse_base b =
     (if length b < 2 then None
      else let nl = unat (from_le (slice 0 2 b) :: u16)
           in if length b < 2 + nl \<or> \<not> is_utf8 (slice 2 (2 + nl) b) \<or> length b < 2 + nl + 55 then None
              else let r = slice (2 + nl) (2 + nl + 55) b
                   in Some (\<lparr>en_name = slice 2 (2 + nl) b, en_wtype = from_le (slice 0 4 r), en_k = from_le (slice 4 12 r),
                             en_m = from_le (slice 12 20 r), en_n_exp = from_le (slice 20 24 r), en_chunk_base = from_le (slice 24 32 r),
                             en_n_bytes = from_le (slice 32 40 r), en_row_bytes = from_le (slice 40 44 r), en_role = r ! 44,
                             en_glu_op = r ! 45, en_glu_form = r ! 46, en_partner = from_le (slice 47 51 r),
                             en_bias = from_le (slice 51 55 r), en_chain = NoChain\<rparr>, 2 + nl + 55))"

definition parse_entry :: "bytes \<Rightarrow> (Entry \<times> nat) option" where
  "parse_entry b = do {
     (e, len) \<leftarrow> parse_base b;
     if len = length b then Some (e, len)
     else do { (c, n) \<leftarrow> parse_chain (drop len b); Some (e\<lparr>en_chain := c\<rparr>, len + n) } }"

definition parse_in_file :: "bytes \<Rightarrow> bool \<Rightarrow> (Entry \<times> nat) option" where
  "parse_in_file b chain = do {
     (e, len) \<leftarrow> parse_base b;
     if \<not> chain then Some (e, len)
     else do { (c, n) \<leftarrow> parse_chain (drop len b); Some (e\<lparr>en_chain := c\<rparr>, len + n) } }"

definition serialize :: "Entry \<Rightarrow> bytes" where
  "serialize e = le_bytes 2 (of_nat (length (en_name e)) :: u16) @ en_name e @ le_bytes 4 (en_wtype e) @ le_bytes 8 (en_k e) @
     le_bytes 8 (en_m e) @ le_bytes 4 (en_n_exp e) @ le_bytes 8 (en_chunk_base e) @ le_bytes 8 (en_n_bytes e) @
     le_bytes 4 (en_row_bytes e) @ [en_role e, en_glu_op e, en_glu_form e] @ le_bytes 4 (en_partner e) @ le_bytes 4 (en_bias e)"

definition row_chunks :: "Entry \<Rightarrow> u64 \<Rightarrow> u64 \<Rightarrow> (u64 \<times> u64 \<times> nat) option" where
  "row_chunks e exp row =
     (if row \<ge> en_m e \<or> exp \<ge> ucast (en_n_exp e) then None
      else let start = (exp * en_m e + row) * ucast (en_row_bytes e); end = start + ucast (en_row_bytes e)
           in if end > en_n_bytes e div 32 * 32 then None
              else Some (en_chunk_base e + start div 32, en_chunk_base e + (end - 1) div 32, unat (start mod 32)))"

definition entry_leaf :: "(bytes \<Rightarrow> hash) \<Rightarrow> bytes \<Rightarrow> hash" where
  "entry_leaf blake3 bs = blake3 bs"

definition verify_entry :: "(bytes \<Rightarrow> hash) \<Rightarrow> hash \<Rightarrow> nat \<Rightarrow> nat \<Rightarrow> bytes \<Rightarrow> hash list \<Rightarrow> bool" where
  "verify_entry blake3 m_t n_entries index entry_bytes path = rt_verify_leaf blake3 m_t n_entries index (entry_leaf blake3 entry_bytes) path"

datatype 'a outcome = Panics | Returns 'a

type_synonym manifest = "(Entry \<times> bytes) list \<times> u32"

text \<open>The loop over the entries; the rest of the file is passed on. \<open>data[o..o + len]\<close> panics past the end.\<close>

primrec read_entries :: "bool \<Rightarrow> nat \<Rightarrow> bytes \<Rightarrow> (Entry \<times> bytes) list option outcome" where
  "read_entries chain 0 rest = Returns (Some [])"
| "read_entries chain (Suc n) rest =
     (case parse_in_file rest chain of
        None \<Rightarrow> Returns None
      | Some (e, len) \<Rightarrow>
          if length rest < len then Panics
          else case read_entries chain n (drop len rest) of
                 Panics \<Rightarrow> Panics
               | Returns None \<Rightarrow> Returns None
               | Returns (Some es) \<Rightarrow> Returns (Some ((e, take len rest) # es)))"


definition read_file :: "bytes \<Rightarrow> manifest option outcome" where
  "read_file data =
     (if length data < 8 then Returns None
      else let magic = slice 0 8 data
           in if magic \<noteq> ascii8 ''KXMANIF1'' \<and> magic \<noteq> ascii8 ''KXMANIF2'' then Returns None
              else if length data < 16 then Panics
              else let chain = (magic = ascii8 ''KXMANIF2''); n = unat (from_le (slice 8 12 data) :: u32);
                       n_products = from_le (slice 12 16 data) :: u32
                   in case read_entries chain n (drop 16 data) of
                        Panics \<Rightarrow> Panics
                      | Returns None \<Rightarrow> Returns None
                      | Returns (Some es) \<Rightarrow> Returns (Some (es, n_products)))"

section \<open>Chain extensions are read back\<close>

definition ok_chain :: "Chain \<Rightarrow> bool" where
  "ok_chain c \<longleftrightarrow> (case c of Layer l \<Rightarrow> ll_attn l = None \<or> ll_recur l = None | _ \<Rightarrow> True)"

definition layer_words :: "LayerLinks \<Rightarrow> u32 list" where
  "layer_words l = [ll_layer l, ll_proj l, ll_down l, ll_post_attn l, ll_post_ffn l, ll_scale l] @
     (case ll_moe l of
        Some m \<Rightarrow> [ml_down_exps m, ml_router m, ml_probs_bias m, ml_w_scale m, ml_ffn_norm m, ml_gate_exps m] | None \<Rightarrow> []) @
     (case ll_attn l of Some a \<Rightarrow> attn_fields a
      | None \<Rightarrow> (case ll_recur l of Some r \<Rightarrow> recur_fields r | None \<Rightarrow> []))"

lemma chain_bytes_layer:
  "chain_bytes (Layer l) = layer_tag (ll_moe l \<noteq> None) (ll_attn l \<noteq> None) (ll_recur l \<noteq> None) # u32_bytes (layer_words l)"
  by (auto simp: layer_words_def split: option.splits)

lemma length_u32_bytes [simp]: "length (u32_bytes vs) = 4 * length vs"
  by (induction vs) auto

lemma fields_lists:
  "length (attn_fields a) = ATTN_FIELDS" "length (recur_fields r) = RECUR_FIELDS"
  "attn_from_fields (attn_fields a) = a" "recur_from_fields (recur_fields r) = r"
  by (simp_all add: attn_fields_def recur_fields_def ATTN_FIELDS_def RECUR_FIELDS_def attn_from_fields_def recur_from_fields_def)

lemma fields_inverse:
  "length f = ATTN_FIELDS \<Longrightarrow> attn_fields (attn_from_fields f) = f" "length f = RECUR_FIELDS \<Longrightarrow> recur_fields (recur_from_fields f) = f"
proof -
  have "attn_fields (attn_from_fields f) = map ((!) f) [0..<ATTN_FIELDS]" "recur_fields (recur_from_fields f) = map ((!) f) [0..<RECUR_FIELDS]"
    by (simp_all add: attn_fields_def attn_from_fields_def recur_fields_def recur_from_fields_def ATTN_FIELDS_def RECUR_FIELDS_def upt_rec numeral_eq_Suc)
  then show "length f = ATTN_FIELDS \<Longrightarrow> attn_fields (attn_from_fields f) = f" "length f = RECUR_FIELDS \<Longrightarrow> recur_fields (recur_from_fields f) = f"
    by (metis map_nth)+
qed

lemma u32_at_words:
  assumes "i < length vs"
  shows "u32_at (tag # u32_bytes vs @ rest) (1 + 4 * i) = Some (vs ! i)"
proof -
  have v: "u32_bytes vs = u32_bytes (take i vs) @ le_bytes 4 (vs ! i) @ u32_bytes (drop (Suc i) vs)"
    using assms by (metis concat.simps(2) concat_append id_take_nth_drop list.simps(9) map_append)
  have "slice (1 + 4 * i) (1 + 4 * i + 4) (tag # u32_bytes vs @ rest) = le_bytes 4 (vs ! i)"
    using assms by (simp add: v slice_def)
  then show ?thesis using assms by (simp add: u32_at_def from_le_bytes del: le_bytes_from_le)
qed

lemma u32_at_lit: "i mod 4 = 1 \<Longrightarrow> i div 4 < length vs \<Longrightarrow> u32_at (tag # u32_bytes vs @ rest) i = Some (vs ! (i div 4))"
  using u32_at_words [of "i div 4" vs tag rest] by (metis add.commute mult.commute mult_div_mod_eq)

lemma u32s_at_words:
  "i + n \<le> length vs \<Longrightarrow> u32s_at (tag # u32_bytes vs @ rest) (1 + 4 * i) n = Some (take n (drop i vs))"
proof (induction n arbitrary: i)
  case (Suc n)
  have "1 + 4 * i + 4 = 1 + 4 * Suc i" by simp
  moreover have "take (Suc n) (drop i vs) = vs ! i # take n (drop (Suc i) vs)"
    using Suc.prems by (simp flip: Cons_nth_drop_Suc)
  ultimately show ?case using Suc.IH [of "Suc i"] Suc.prems u32_at_words [of i vs tag rest] by simp
qed simp

lemma parse_layer_words:
  assumes "ll_attn l = None \<or> ll_recur l = None" and "tag = layer_tag (ll_moe l \<noteq> None) (ll_attn l \<noteq> None) (ll_recur l \<noteq> None)"
  shows "parse_layer tag (tag # u32_bytes (layer_words l) @ rest) = Some (Layer l, 1 + 4 * length (layer_words l))"
proof -
  define ws where "ws = layer_words l"
  note lists = fields_lists ATTN_FIELDS_def RECUR_FIELDS_def
  have len: "length ws = 6 + (if ll_moe l = None then 0 else 6) +
      (if ll_attn l \<noteq> None then 21 else if ll_recur l \<noteq> None then 19 else 0)"
    by (auto simp: ws_def layer_words_def lists split: option.splits)
  have hd6: "ws ! 0 = ll_layer l" "ws ! Suc 0 = ll_proj l" "ws ! 2 = ll_down l" "ws ! 3 = ll_post_attn l" "ws ! 4 = ll_post_ffn l"
    "ws ! 5 = ll_scale l"
    by (simp_all add: ws_def layer_words_def)
  have moe: "ll_moe l = Some m \<Longrightarrow> \<lparr>ml_down_exps = ws ! 6, ml_router = ws ! 7, ml_probs_bias = ws ! 8, ml_w_scale = ws ! 9,
      ml_ffn_norm = ws ! 10, ml_gate_exps = ws ! 11\<rparr> = m" for m
    by (simp add: ws_def layer_words_def)
  have tl6: "drop 6 ws = (case ll_attn l of Some a \<Rightarrow> attn_fields a | None \<Rightarrow> (case ll_recur l of Some r \<Rightarrow> recur_fields r | None \<Rightarrow> []))"
    if "ll_moe l = None" using that by (simp add: ws_def layer_words_def)
  have tl12: "drop 12 ws = (case ll_attn l of Some a \<Rightarrow> attn_fields a | None \<Rightarrow> (case ll_recur l of Some r \<Rightarrow> recur_fields r | None \<Rightarrow> []))"
    if "ll_moe l = Some m" for m using that by (simp add: ws_def layer_words_def)
  have a6: "u32s_at (t # u32_bytes ws @ rest) 25 n = Some (take n (drop 6 ws))" if "6 + n \<le> length ws" for t n
    using u32s_at_words [of 6 n ws t rest] that by simp
  have a12: "u32s_at (t # u32_bytes ws @ rest) 49 n = Some (take n (drop 12 ws))" if "12 + n \<le> length ws" for t n
    using u32s_at_words [of 12 n ws t rest] that by simp
  have rec: "\<lparr>ll_layer = ll_layer l, ll_proj = ll_proj l, ll_down = ll_down l, ll_post_attn = ll_post_attn l,
      ll_post_ffn = ll_post_ffn l, ll_scale = ll_scale l, ll_moe = x, ll_attn = y, ll_recur = z\<rparr> = l \<longleftrightarrow>
      ll_moe l = x \<and> ll_attn l = y \<and> ll_recur l = z" for x y z by (cases l) auto
  show ?thesis
    unfolding ws_def [symmetric] using assms(1) len
    by (cases "ll_moe l"; cases "ll_attn l"; cases "ll_recur l")
       (simp_all add: assms(2) parse_layer_def layer_tag_def tag_defs u32_at_lit a6 a12 hd6 moe tl6 tl12 lists rec)
qed

lemma parse_chain_bytes:
  assumes "ok_chain c"
  shows "parse_chain (chain_bytes c @ rest) = Some (c, length (chain_bytes c))"
proof (cases c)
  case (Product p)
  then show ?thesis by (simp add: parse_chain_def tag_defs u32_at_def layout_simps from_le_bytes nth_append)
next
  case (Layer l)
  then have "ll_attn l = None \<or> ll_recur l = None" using assms by (simp add: ok_chain_def)
  from parse_layer_words [OF this refl, of rest] show ?thesis
    unfolding Layer chain_bytes_layer by (simp add: parse_chain_def layer_tag_def tag_defs split: if_splits)
qed (simp add: parse_chain_def)

lemma u32_at_Some: "u32_at b i = Some v \<longleftrightarrow> i + 4 \<le> length b \<and> slice i (i + 4) b = le_bytes 4 v"
  by (auto simp: u32_at_def le_slice from_le_bytes)

lemma u32s_at_Some: "u32s_at b i n = Some vs \<Longrightarrow> length vs = n \<and> (0 < n \<longrightarrow> i + 4 * n \<le> length b) \<and> slice i (i + 4 * n) b = u32_bytes vs"
proof (induction n arbitrary: i vs)
  case (Suc n)
  then obtain v vs' where vs: "vs = v # vs'" "u32_at b i = Some v" "u32s_at b (i + 4) n = Some vs'"
    by (auto simp: bind_eq_Some_conv)
  note ih = Suc.IH [OF vs(3)] and at = vs(2) [unfolded u32_at_Some]
  have "slice i (i + 4 * Suc n) b = slice i (i + 4) b @ slice (i + 4) (i + 4 + 4 * n) b"
    using slice_slice_append [of i "i + 4" "i + 4 * Suc n" b] by (simp add: add.assoc)
  then show ?case using ih at by (cases n) (auto simp: vs(1))
qed (simp add: slice_def)

lemma bind_SomeE: "Option.bind m f = Some y \<Longrightarrow> (\<And>x. m = Some x \<Longrightarrow> f x = Some y \<Longrightarrow> P) \<Longrightarrow> P"
  by (auto simp: bind_eq_Some_conv)

lemma take_slices: "0 < n \<Longrightarrow> n \<le> length b \<Longrightarrow> take n b = hd b # slice 1 n b"
  by (cases b) (auto simp: slice_def take_Cons')

lemma parse_layer_print:
  assumes "parse_layer tag b = Some (c, n)" and "b \<noteq> []" and "tag = hd b"
    and tag: "tag \<in> {TAG_LAYER, TAG_MOE_LAYER, TAG_ATTN_LAYER, TAG_ATTN_MOE_LAYER, TAG_RECUR_LAYER, TAG_RECUR_MOE_LAYER}"
  shows "n \<le> length b \<and> take n b = chain_bytes c \<and> ok_chain c"
proof -
  let ?moe = "tag \<in> {TAG_MOE_LAYER, TAG_ATTN_MOE_LAYER, TAG_RECUR_MOE_LAYER}" and ?attn = "tag \<in> {TAG_ATTN_LAYER, TAG_ATTN_MOE_LAYER}"
    and ?recur = "tag \<in> {TAG_RECUR_LAYER, TAG_RECUR_MOE_LAYER}"
  have six: "u32s_at b i 6 = do { a \<leftarrow> u32_at b i; b' \<leftarrow> u32_at b (i + 4); c \<leftarrow> u32_at b (i + 8); d \<leftarrow> u32_at b (i + 12); e \<leftarrow> u32_at b (i + 16);
      f \<leftarrow> u32_at b (i + 20); Some [a, b', c, d, e, f] }" for i by (simp add: numeral_eq_Suc)
  obtain l where c: "c = Layer l" and n0: "n = (if ll_moe l \<noteq> None then 49 else 25) + (if ll_attn l \<noteq> None then 4 * ATTN_FIELDS else 0) +
        (if ll_recur l \<noteq> None then 4 * RECUR_FIELDS else 0)"
    and moe0: "(if ?moe
            then do { down_exps \<leftarrow> u32_at b 25; router \<leftarrow> u32_at b 29; probs_bias \<leftarrow> u32_at b 33; w_scale \<leftarrow> u32_at b 37;
                      ffn_norm \<leftarrow> u32_at b 41; gate_exps \<leftarrow> u32_at b 45;
                      Some (Some \<lparr>ml_down_exps = down_exps, ml_router = router, ml_probs_bias = probs_bias, ml_w_scale = w_scale,
                                  ml_ffn_norm = ffn_norm, ml_gate_exps = gate_exps\<rparr>) }
            else Some None) = Some (ll_moe l)"
    and attn0: "(if ?attn then do { f \<leftarrow> u32s_at b (if ll_moe l \<noteq> None then 49 else 25) ATTN_FIELDS; Some (Some (attn_from_fields f)) }
        else Some None) = Some (ll_attn l)"
    and recur0: "(if ?recur then do { f \<leftarrow> u32s_at b (if ll_moe l \<noteq> None then 49 else 25) RECUR_FIELDS; Some (Some (recur_from_fields f)) }
        else Some None) = Some (ll_recur l)"
    and head: "u32_at b 1 = Some (ll_layer l)" "u32_at b 5 = Some (ll_proj l)" "u32_at b 9 = Some (ll_down l)"
      "u32_at b 13 = Some (ll_post_attn l)" "u32_at b 17 = Some (ll_post_ffn l)" "u32_at b 21 = Some (ll_scale l)"
  proof -
    from assms(1) [unfolded parse_layer_def Let_def] show thesis
      apply (elim bind_SomeE)
      apply (drule option.inject [THEN iffD1])
      apply (erule Pair_inject)
      apply (rule that)
      apply (erule sym)
      apply (erule subst, simp)
      apply (simp_all only: LayerLinks.select_convs)
      done
  qed
  have "u32s_at b 1 6 = Some [ll_layer l, ll_proj l, ll_down l, ll_post_attn l, ll_post_ffn l, ll_scale l]"
    using head by (simp add: six)
  from u32s_at_Some [OF this] have h: "25 \<le> length b"
    "slice 1 25 b = u32_bytes [ll_layer l, ll_proj l, ll_down l, ll_post_attn l, ll_post_ffn l, ll_scale l]" by simp_all
  define base where "base = (if ?moe then 49 else 25 :: nat)"
  have moe: "if ?moe then \<exists>m. ll_moe l = Some m \<and>
        u32s_at b 25 6 = Some [ml_down_exps m, ml_router m, ml_probs_bias m, ml_w_scale m, ml_ffn_norm m, ml_gate_exps m]
      else ll_moe l = None"
    using moe0 by (cases "ll_moe l") (auto simp: six bind_eq_Some_conv split: if_splits)
  then have base: "(if ll_moe l \<noteq> None then 49 else 25) = base" by (auto simp: base_def split: if_splits)
  have attn: "if ?attn then \<exists>f. ll_attn l = Some (attn_from_fields f) \<and> u32s_at b base ATTN_FIELDS = Some f else ll_attn l = None"
    using attn0 unfolding base by (auto simp: bind_eq_Some_conv)
  have recur: "if ?recur then \<exists>f. ll_recur l = Some (recur_from_fields f) \<and> u32s_at b base RECUR_FIELDS = Some f else ll_recur l = None"
    using recur0 unfolding base by (auto simp: bind_eq_Some_conv)
  have n: "n = base + (if ?attn then 4 * ATTN_FIELDS else 0) + (if ?recur then 4 * RECUR_FIELDS else 0)"
  proof -
    have "ll_attn l \<noteq> None \<longleftrightarrow> ?attn" using attn by (cases ?attn) (simp_all only: if_True if_False, auto)
    moreover have "ll_recur l \<noteq> None \<longleftrightarrow> ?recur" using recur by (cases ?recur) (simp_all only: if_True if_False, auto)
    ultimately show ?thesis using n0 unfolding base by (simp only: )
  qed
  have sm: "slice 25 base b = (case ll_moe l of Some m \<Rightarrow>
        u32_bytes [ml_down_exps m, ml_router m, ml_probs_bias m, ml_w_scale m, ml_ffn_norm m, ml_gate_exps m] | None \<Rightarrow> [])"
    "25 \<le> base" "base \<le> length b"
    using moe h(1) u32s_at_Some [of b 25 6] by (auto simp: base_def slice_def split: if_splits)
  have disj: "\<not> (?attn \<and> ?recur)" by (auto simp: tag_defs)
  have sf: "slice base n b = (case ll_attn l of Some a \<Rightarrow> u32_bytes (attn_fields a)
        | None \<Rightarrow> (case ll_recur l of Some r \<Rightarrow> u32_bytes (recur_fields r) | None \<Rightarrow> []))" "base \<le> n" "n \<le> length b"
  proof -
    have pos: "0 < ATTN_FIELDS" "0 < RECUR_FIELDS" by (simp_all add: ATTN_FIELDS_def RECUR_FIELDS_def)
    consider "?attn" "\<not> ?recur" | "\<not> ?attn" "?recur" | "\<not> ?attn" "\<not> ?recur" using disj by blast
    then have "slice base n b = (case ll_attn l of Some a \<Rightarrow> u32_bytes (attn_fields a)
        | None \<Rightarrow> (case ll_recur l of Some r \<Rightarrow> u32_bytes (recur_fields r) | None \<Rightarrow> [])) \<and> base \<le> n \<and> n \<le> length b"
    proof cases
      case 1
      then obtain f where f: "ll_attn l = Some (attn_from_fields f)" "u32s_at b base ATTN_FIELDS = Some f" using attn by (simp only: if_True) blast
      from 1 n have n: "n = base + 4 * ATTN_FIELDS" by (simp only: if_True if_False add_0_right)
      from u32s_at_Some [OF f(2)] pos show ?thesis by (simp add: f(1) n fields_inverse)
    next
      case 2
      then obtain f where f: "ll_recur l = Some (recur_from_fields f)" "u32s_at b base RECUR_FIELDS = Some f" using recur by (simp only: if_True) blast
      from 2 attn have "ll_attn l = None" by (simp only: if_False)
      from 2 n have n: "n = base + 4 * RECUR_FIELDS" by (simp only: if_True if_False add_0_right)
      from u32s_at_Some [OF f(2)] pos show ?thesis by (simp add: f(1) n fields_inverse \<open>ll_attn l = None\<close>)
    next
      case 3
      with attn recur n have "ll_attn l = None" "ll_recur l = None" "n = base" by (simp_all only: if_False add_0_right)
      then show ?thesis using sm(3) by (simp add: slice_def)
    qed
    then show "slice base n b = (case ll_attn l of Some a \<Rightarrow> u32_bytes (attn_fields a)
        | None \<Rightarrow> (case ll_recur l of Some r \<Rightarrow> u32_bytes (recur_fields r) | None \<Rightarrow> []))" "base \<le> n" "n \<le> length b" by blast+
  qed
  have t: "tag = layer_tag (ll_moe l \<noteq> None) (ll_attn l \<noteq> None) (ll_recur l \<noteq> None)"
    using tag moe attn recur by (auto simp: layer_tag_def tag_defs split: if_splits)
  have "take n b = tag # slice 1 25 b @ slice 25 base b @ slice base n b"
    using take_slices [of n b] sm(2) sf(2,3) assms(2,3) by (simp add: slice_slice_append)
  then have "take n b = chain_bytes c" unfolding h(2) sm(1) sf(1) c chain_bytes.simps t by simp
  moreover have "ok_chain c" using attn recur disj by (auto simp: c ok_chain_def split: if_splits)
  ultimately show ?thesis using sf(3) by blast
qed

lemma parse_chain_print:
  assumes "parse_chain b = Some (c, n)"
  shows "n \<le> length b \<and> take n b = chain_bytes c \<and> ok_chain c"
proof -
  obtain tag r where b: "b = tag # r" using assms by (cases b) (auto simp: parse_chain_def)
  show ?thesis
  proof (cases "tag = TAG_PRODUCT")
    case True
    then obtain x y z where p: "c = Product \<lparr>pl_layer = x, pl_link = b ! 5, pl_norm = y, pl_src = z\<rparr>" "n = 14"
        "u32_at b 1 = Some x" "u32_at b 6 = Some y" "u32_at b 10 = Some z"
      using assms b by (auto simp: parse_chain_def tag_defs split: if_splits elim!: bind_SomeE)
    then have "14 \<le> length b" and sl: "slice 1 5 b = le_bytes 4 x" "slice 6 10 b = le_bytes 4 y" "slice 10 14 b = le_bytes 4 z"
      by (simp_all add: u32_at_Some)
    moreover have "slice 5 6 b = [b ! 5]" using \<open>14 \<le> length b\<close> slice_single [of 5 b] by simp
    moreover have "slice 1 14 b = slice 1 5 b @ slice 5 6 b @ slice 6 10 b @ slice 10 14 b" by (simp add: slice_slice_append)
    ultimately have "take 14 b = tag # le_bytes 4 x @ [b ! 5] @ le_bytes 4 y @ le_bytes 4 z"
      using take_slices [of 14 b] by (simp add: b)
    then show ?thesis using p True \<open>14 \<le> length b\<close> by (simp add: ok_chain_def)
  next
    case False
    show ?thesis
    proof (cases "tag = TAG_NONE")
      case True
      then show ?thesis using assms by (simp add: b parse_chain_def) (auto simp: ok_chain_def)
    next
      case none: False
      then have "tag \<in> {TAG_LAYER, TAG_MOE_LAYER, TAG_ATTN_LAYER, TAG_ATTN_MOE_LAYER, TAG_RECUR_LAYER, TAG_RECUR_MOE_LAYER}"
        "parse_layer tag b = Some (c, n)"
        using assms False b by (simp_all add: parse_chain_def split: if_splits)
      moreover have "b \<noteq> []" "tag = hd b" by (simp_all add: b)
      ultimately show ?thesis by (intro parse_layer_print)
    qed
  qed
qed

section \<open>Entries are read back\<close>

definition ok_name :: "bytes \<Rightarrow> bool" where
  "ok_name n \<longleftrightarrow> length n < 2 ^ 16 \<and> is_utf8 n"

lemma length_serialize [simp]: "length (serialize e) = 2 + length (en_name e) + 55"
  by (simp add: serialize_def)

lemma parse_base_serialize:
  assumes "ok_name (en_name e)"
  shows "parse_base (serialize e @ rest) = Some (e\<lparr>en_chain := NoChain\<rparr>, length (serialize e))"
proof -
  let ?n = "length (en_name e)"
  have nl: "unat (from_le (slice 0 2 (serialize e @ rest)) :: u16) = ?n"
    using assms by (simp add: serialize_def layout_simps from_le_bytes unat_of_nat ok_name_def)
  have name: "slice 2 (2 + ?n) (serialize e @ rest) = en_name e"
    by (simp add: serialize_def slice_def)
  define r where "r = slice (2 + ?n) (2 + ?n + 55) (serialize e @ rest)"
  have r: "r = le_bytes 4 (en_wtype e) @ le_bytes 8 (en_k e) @ le_bytes 8 (en_m e) @ le_bytes 4 (en_n_exp e) @ le_bytes 8 (en_chunk_base e) @
      le_bytes 8 (en_n_bytes e) @ le_bytes 4 (en_row_bytes e) @ [en_role e, en_glu_op e, en_glu_form e] @ le_bytes 4 (en_partner e) @
      le_bytes 4 (en_bias e)"
    by (simp add: r_def serialize_def slice_def)
  have "\<not> length (serialize e @ rest) < 2 + ?n + 55" "\<not> length (serialize e @ rest) < 2" "\<not> length (serialize e @ rest) < 2 + ?n" by simp_all
  then have "parse_base (serialize e @ rest) =
      Some (\<lparr>en_name = en_name e, en_wtype = from_le (slice 0 4 r), en_k = from_le (slice 4 12 r),
             en_m = from_le (slice 12 20 r), en_n_exp = from_le (slice 20 24 r), en_chunk_base = from_le (slice 24 32 r),
             en_n_bytes = from_le (slice 32 40 r), en_row_bytes = from_le (slice 40 44 r), en_role = r ! 44,
             en_glu_op = r ! 45, en_glu_form = r ! 46, en_partner = from_le (slice 47 51 r),
             en_bias = from_le (slice 51 55 r), en_chain = NoChain\<rparr>, 2 + ?n + 55)"
    unfolding parse_base_def nl Let_def name r_def [symmetric] using assms by (simp add: ok_name_def)
  also have "\<dots> = Some (e\<lparr>en_chain := NoChain\<rparr>, length (serialize e))"
    by (simp add: r layout_simps from_le_bytes nth_append)
  finally show ?thesis .
qed

lemma parse_base_print:
  assumes "parse_base b = Some (e, n)"
  shows "n \<le> length b" and "take n b = serialize e" and "en_chain e = NoChain" and "ok_name (en_name e)"
proof -
  define nl where "nl = unat (from_le (slice 0 2 b) :: u16)"
  define r where "r = slice (2 + nl) (2 + nl + 55) b"
  have g: "2 + nl + 55 \<le> length b" "is_utf8 (slice 2 (2 + nl) b)" and n: "n = 2 + nl + 55"
    and e: "e = \<lparr>en_name = slice 2 (2 + nl) b, en_wtype = from_le (slice 0 4 r), en_k = from_le (slice 4 12 r),
             en_m = from_le (slice 12 20 r), en_n_exp = from_le (slice 20 24 r), en_chunk_base = from_le (slice 24 32 r),
             en_n_bytes = from_le (slice 32 40 r), en_row_bytes = from_le (slice 40 44 r), en_role = r ! 44,
             en_glu_op = r ! 45, en_glu_form = r ! 46, en_partner = from_le (slice 47 51 r),
             en_bias = from_le (slice 51 55 r), en_chain = NoChain\<rparr>"
    using assms unfolding parse_base_def Let_def nl_def [symmetric] r_def [symmetric] by (auto split: if_splits)
  have r55: "length r = 55" using g(1) by (simp add: r_def)
  have "nl < 2 ^ 16" using unsigned_less [of "from_le (slice 0 2 b) :: u16"] by (simp add: nl_def)
  then have nm: "length (en_name e) = nl" "ok_name (en_name e)" using g by (simp_all add: e ok_name_def)
  have "(of_nat nl :: u16) = from_le (slice 0 2 b)" by (simp add: nl_def)
  then have l2: "le_bytes 2 (of_nat nl :: u16) = slice 0 2 b" using g(1) by (simp add: le_slice)
  have ones: "[r ! 44, r ! 45, r ! 46] = slice 44 47 r"
    using r55 by (simp add: slice_def numeral_eq_Suc flip: Cons_nth_drop_Suc)
  have "serialize e = slice 0 2 b @ slice 2 (2 + nl) b @ slice 0 4 r @ slice 4 12 r @ slice 12 20 r @ slice 20 24 r @ slice 24 32 r @
      slice 32 40 r @ slice 40 44 r @ slice 44 47 r @ slice 47 51 r @ slice 51 55 r"
    unfolding serialize_def nm(1) l2 using r55 ones by (simp add: e le_slice)
  also have "\<dots> = slice 0 2 b @ slice 2 (2 + nl) b @ r" using r55 by (simp add: slice_joins slice_slice_append slice_full)
  also have "\<dots> = take n b" unfolding r_def n by (simp add: slice_joins slice_slice_append) (simp add: slice_def)
  finally show "take n b = serialize e" by simp
  show "n \<le> length b" "en_chain e = NoChain" "ok_name (en_name e)" using g n nm by (simp_all add: e)
qed

text \<open>The bytes of an entry, with the chain extension of a \<open>KXMANIF2\<close> file or without.\<close>

definition entry_bytes :: "bool \<Rightarrow> Entry \<Rightarrow> bytes" where
  "entry_bytes chain e = serialize e @ (if chain then chain_bytes (en_chain e) else [])"

definition typed_entry :: "bool \<Rightarrow> Entry \<Rightarrow> bool" where
  "typed_entry chain e \<longleftrightarrow> ok_name (en_name e) \<and> (if chain then ok_chain (en_chain e) else en_chain e = NoChain)"

lemma chain_upd: "en_chain e = c \<Longrightarrow> e\<lparr>en_chain := c\<rparr> = e"
  by (cases e) simp

lemma serialize_upd [simp]: "serialize (e\<lparr>en_chain := c\<rparr>) = serialize e"
  by (simp add: serialize_def)

lemma parse_in_file_bytes:
  assumes "typed_entry chain e"
  shows "parse_in_file (entry_bytes chain e @ rest) chain = Some (e, length (entry_bytes chain e))"
proof -
  have "ok_name (en_name e)" using assms by (simp add: typed_entry_def)
  note base = parse_base_serialize [OF this]
  show ?thesis
  proof (cases chain)
    case True
    have "parse_chain (chain_bytes (en_chain e) @ rest) = Some (en_chain e, length (chain_bytes (en_chain e)))"
      using assms True by (intro parse_chain_bytes) (simp add: typed_entry_def)
    then show ?thesis using True base [of "chain_bytes (en_chain e) @ rest"]
      by (simp add: parse_in_file_def entry_bytes_def del: length_serialize)
  next
    case False
    then show ?thesis using assms base [of rest] by (simp add: parse_in_file_def entry_bytes_def typed_entry_def chain_upd)
  qed
qed

lemma parse_in_file_print:
  assumes "parse_in_file b chain = Some (e, n)"
  shows "n \<le> length b \<and> take n b = entry_bytes chain e \<and> typed_entry chain e"
proof -
  obtain e0 len where base: "parse_base b = Some (e0, len)"
    and rest: "(if \<not> chain then Some (e0, len)
      else do { (c, k) \<leftarrow> parse_chain (drop len b); Some (e0\<lparr>en_chain := c\<rparr>, len + k) }) = Some (e, n)"
    using assms by (auto simp: parse_in_file_def elim!: bind_SomeE split: prod.splits)
  note b0 = parse_base_print [OF base]
  show ?thesis
  proof (cases chain)
    case True
    then obtain c k where ck: "parse_chain (drop len b) = Some (c, k)" and e: "e = e0\<lparr>en_chain := c\<rparr>" "n = len + k"
      using rest by (auto elim!: bind_SomeE)
    note cp = parse_chain_print [OF ck]
    then have "len + k \<le> length b" using b0(1) by auto
    then show ?thesis using True cp b0 by (simp add: e entry_bytes_def typed_entry_def take_add)
  next
    case False
    then show ?thesis using rest b0 by (simp add: entry_bytes_def typed_entry_def)
  qed
qed

lemma read_entries_bytes:
  "list_all (typed_entry chain) es \<Longrightarrow>
     read_entries chain (length es) (concat (map (entry_bytes chain) es) @ rest) =
     Returns (Some (map (\<lambda>e. (e, entry_bytes chain e)) es))"
  by (induction es) (simp_all add: parse_in_file_bytes)

definition parsed_from :: "bool \<Rightarrow> bytes \<Rightarrow> (Entry \<times> bytes) list \<Rightarrow> bool" where
  "parsed_from chain b es \<longleftrightarrow> (\<exists>rest. b = concat (map snd es) @ rest) \<and>
     list_all (\<lambda>(e, bs). bs = entry_bytes chain e \<and> typed_entry chain e) es"

lemma read_entries_total:
  "\<exists>r. read_entries chain n b = Returns r \<and> (\<forall>es. r = Some es \<longrightarrow> length es = n \<and> parsed_from chain b es)"
proof (induction n arbitrary: b)
  case (Suc n)
  show ?case
  proof (cases "parse_in_file b chain")
    case (Some en)
    obtain e k where en: "en = (e, k)" by (cases en)
    note pr = parse_in_file_print [OF Some [unfolded en]]
    obtain r where r: "read_entries chain n (drop k b) = Returns r" "\<forall>es. r = Some es \<longrightarrow> length es = n \<and> parsed_from chain (drop k b) es"
      using Suc.IH by blast
    show ?thesis
    proof (cases r)
      case None
      then show ?thesis using pr r(1) by (simp add: Some en)
    next
      case es: (Some es)
      then obtain rest where rest: "drop k b = concat (map snd es) @ rest" using r(2) by (auto simp: parsed_from_def)
      have "b = take k b @ concat (map snd es) @ rest" by (simp flip: rest)
      then have "parsed_from chain b ((e, take k b) # es)" using pr r(2) es by (auto simp: parsed_from_def)
      then show ?thesis using pr r es Some by (simp add: en)
    qed
  qed simp
qed (simp add: parsed_from_def)

section \<open>Rows\<close>

text \<open>The chunks of a row hold it: with the offset of the row in the tensor as a number, the first chunk starts at or before the
  row and the last one ends at or after it.\<close>

lemma unat_add_u64: "unat a + unat b < 2 ^ 64 \<Longrightarrow> unat (a + b :: u64) = unat a + unat b"
  and unat_mult_u64: "unat a * unat b < 2 ^ 64 \<Longrightarrow> unat (a * b :: u64) = unat a * unat b"
  by (simp_all add: unat_word_ariths)

lemma unat_whole_chunks: "unat (n div 32 * 32 :: u64) = unat n div 32 * 32"
proof -
  have "unat n div 32 * 32 \<le> unat n" by simp
  also have "\<dots> < 2 ^ 64" by (rule unat_u64_lt)
  finally show ?thesis by (subst unat_mult_u64) (simp_all add: unat_div)
qed

definition row_start :: "Entry \<Rightarrow> nat \<Rightarrow> nat \<Rightarrow> nat" where
  "row_start e exp row = (exp * unat (en_m e) + row) * unat (en_row_bytes e)"

definition rows_fit :: "Entry \<Rightarrow> bool" where
  "rows_fit e \<longleftrightarrow> 0 < unat (en_row_bytes e) \<and> unat (en_n_exp e) * unat (en_m e) * unat (en_row_bytes e) < 2 ^ 64"

lemma row_words:
  assumes "unat row < unat (en_m e)" and "unat exp < unat (en_n_exp e)" and "rows_fit e"
  shows "row_start e (unat exp) (unat row) + unat (en_row_bytes e) < 2 ^ 64"
    and "unat ((exp * en_m e + row) * ucast (en_row_bytes e)) = row_start e (unat exp) (unat row)"
proof -
  let ?m = "unat (en_m e)" and ?x = "unat (en_n_exp e)" and ?rb = "unat (en_row_bytes e)"
  define start where "start = row_start e (unat exp) (unat row)"
  have fit: "0 < ?rb" "?x * ?m * ?rb < 2 ^ 64" using assms(3) by (simp_all add: rows_fit_def)
  have "unat exp * ?m + unat row + 1 \<le> (unat exp + 1) * ?m" using assms(1) by simp
  also have "\<dots> \<le> ?x * ?m" using assms(2) by (intro mult_le_mono1) simp
  finally have "(unat exp * ?m + unat row + 1) * ?rb \<le> ?x * ?m * ?rb" by (rule mult_le_mono1)
  then have le: "start + ?rb \<le> ?x * ?m * ?rb" by (simp add: start_def row_start_def algebra_simps)
  then show small: "row_start e (unat exp) (unat row) + ?rb < 2 ^ 64" using fit(2) unfolding start_def by linarith
  have i: "unat exp * ?m + unat row \<le> start" using fit(1) by (simp add: start_def row_start_def)
  then have "unat (exp * en_m e) = unat exp * ?m" using small unfolding start_def by (intro unat_mult_u64) linarith
  then have "unat (exp * en_m e + row) = unat exp * ?m + unat row"
    using i small unfolding start_def by (subst unat_add_u64) linarith+
  then show "unat ((exp * en_m e + row) * ucast (en_row_bytes e)) = row_start e (unat exp) (unat row)"
    using small by (subst unat_mult_u64) (simp_all add: unat_ucast_32_64 row_start_def)
qed

lemma row_chunks_cover:
  assumes "row_chunks e exp row = Some (lo, hi, off)" and "rows_fit e"
    and "unat (en_chunk_base e) + unat (en_n_bytes e) div 32 < 2 ^ 64"
  defines "start \<equiv> row_start e (unat exp) (unat row)"
  shows "unat row < unat (en_m e) \<and> unat exp < unat (en_n_exp e) \<and> start + unat (en_row_bytes e) \<le> unat (en_n_bytes e) div 32 * 32 \<and>
    unat lo = unat (en_chunk_base e) + start div 32 \<and> unat hi = unat (en_chunk_base e) + (start + unat (en_row_bytes e) - 1) div 32 \<and>
    off = start mod 32"
proof -
  let ?rb = "unat (en_row_bytes e)" and ?cb = "unat (en_chunk_base e)"
  define rb :: u64 where "rb = ucast (en_row_bytes e)"
  have re: "unat rb = ?rb" by (simp add: rb_def unat_ucast_32_64)
  have rx: "unat row < unat (en_m e)" "unat exp < unat (en_n_exp e)"
    using assms(1) by (auto simp: row_chunks_def Let_def word_le_nat_alt unat_ucast_32_64 split: if_splits)
  note w = row_words [OF this assms(2), folded start_def]
  define s where "s = (exp * en_m e + row) * rb"
  have us: "unat s = start" using w(2) by (simp add: s_def rb_def)
  have ue: "unat (s + rb) = start + ?rb" using w(1) us re by (subst unat_add_u64) simp_all
  have res: "s + rb \<le> en_n_bytes e div 32 * 32" "lo = en_chunk_base e + s div 32" "hi = en_chunk_base e + (s + rb - 1) div 32" "off = unat (s mod 32)"
    using assms(1) unfolding row_chunks_def Let_def rb_def [symmetric] s_def [symmetric] by (auto simp: not_less split: if_splits)
  have in_tensor: "start + ?rb \<le> unat (en_n_bytes e) div 32 * 32" using res(1) unfolding word_le_nat_alt unat_whole_chunks ue .
  have "0 < ?rb" using assms(2) by (simp add: rows_fit_def)
  then have d: "start div 32 < unat (en_n_bytes e) div 32" "(start + ?rb - 1) div 32 < unat (en_n_bytes e) div 32"
    using in_tensor by (simp_all add: less_mult_imp_div_less)
  have "unat (s + rb - 1) = start + ?rb - 1" using ue \<open>0 < ?rb\<close> by (subst unat_minus_one) auto
  then have "unat lo = ?cb + start div 32" "unat hi = ?cb + (start + ?rb - 1) div 32" "off = start mod 32"
    using d assms(3) by (simp_all add: res us unat_add_u64 unat_div unat_mod)
  with rx in_tensor show ?thesis by blast
qed

section \<open>Properties\<close>

text \<open>The chain extension is canonical: \<open>parse_chain\<close> returns a chain and a length exactly if that many leading bytes are
  the bytes that \<open>chain_bytes\<close> writes for it; a layer with both an attention and a recurrent descriptor, which the format cannot express,
  is never returned.\<close>

theorem chain_extension_canonical:
  "parse_chain b = Some (c, n) \<longleftrightarrow> ok_chain c \<and> n = length (chain_bytes c) \<and> take n b = chain_bytes c"
proof
  assume a: "parse_chain b = Some (c, n)"
  note p = parse_chain_print [OF a]
  then show "ok_chain c \<and> n = length (chain_bytes c) \<and> take n b = chain_bytes c" by (metis length_take min.absorb2)
next
  assume a: "ok_chain c \<and> n = length (chain_bytes c) \<and> take n b = chain_bytes c"
  then show "parse_chain b = Some (c, n)" using parse_chain_bytes [of c "drop n b"] by (metis append_take_drop_id)
qed

text \<open>C24: a manifest file written from any list of entries, with or without chain extensions, is read back to these entries and
  their bytes, whatever follows them.\<close>

theorem manifest_round_trip:
  assumes "list_all (typed_entry chain) es" and "length es < 2 ^ 32"
  shows "read_file (ascii8 (if chain then ''KXMANIF2'' else ''KXMANIF1'') @ le_bytes 4 (of_nat (length es) :: u32) @ le_bytes 4 n_products @
      concat (map (entry_bytes chain) es) @ rest) = Returns (Some (map (\<lambda>e. (e, entry_bytes chain e)) es, n_products))"
proof -
  have mag: "length (ascii8 ''KXMANIF1'') = 8" "length (ascii8 ''KXMANIF2'') = 8" "ascii8 ''KXMANIF1'' \<noteq> ascii8 ''KXMANIF2''"
    by (simp_all add: ascii8_def)
  define m where "m = ascii8 (if chain then ''KXMANIF2'' else ''KXMANIF1'')"
  have m: "length m = 8" "m = ascii8 ''KXMANIF1'' \<or> chain" "m = ascii8 ''KXMANIF2'' \<longleftrightarrow> chain"
    using mag by (simp_all add: m_def)
  have n: "unat (of_nat (length es) :: u32) = length es" using assms(2) by (simp add: unat_of_nat)
  show ?thesis
    unfolding m_def [symmetric]
    by (simp add: read_file_def layout_simps m n from_le_bytes read_entries_bytes [OF assms(1)])
qed

definition sample_manifest :: "Entry list" where
  "sample_manifest = [\<lparr>en_name = [0x61], en_wtype = 8, en_k = 512, en_m = 4, en_n_exp = 1, en_chunk_base = 0, en_n_bytes = 2176,
     en_row_bytes = 544, en_role = 0, en_glu_op = 0, en_glu_form = 0, en_partner = NONE, en_bias = NONE,
     en_chain = Product \<lparr>pl_layer = 0, pl_link = 1, pl_norm = 2, pl_src = NONE\<rparr>\<rparr>]"

theorem manifest_round_trip_witness:
  "read_file (ascii8 ''KXMANIF2'' @ le_bytes 4 (1 :: u32) @ le_bytes 4 (1 :: u32) @ concat (map (entry_bytes True) sample_manifest)) =
     Returns (Some (map (\<lambda>e. (e, entry_bytes True e)) sample_manifest, 1))"
proof -
  have "is_utf8 [0x61]" by (simp add: is_utf8.simps word_le_nat_alt)
  then have "list_all (typed_entry True) sample_manifest"
    by (simp add: sample_manifest_def typed_entry_def ok_name_def ok_chain_def)
  from manifest_round_trip [OF this, of 1 "[]"] show ?thesis by (simp add: sample_manifest_def)
qed

text \<open>C25: reading a manifest file panics exactly on a known magic with fewer than 16 bytes, where the header slices are out of range;
  every accepted file consists, end to end from byte 16, of as many entries as its header says, each in
  the format of its magic.\<close>

theorem manifest_read_safe:
  "(read_file data = Panics \<longleftrightarrow> 8 \<le> length data \<and> length data < 16 \<and> slice 0 8 data \<in> {ascii8 ''KXMANIF1'', ascii8 ''KXMANIF2''}) \<and>
   (case read_file data of
      Returns (Some (es, n_products)) \<Rightarrow>
        length es = unat (from_le (slice 8 12 data) :: u32) \<and> n_products = from_le (slice 12 16 data) \<and>
        parsed_from (slice 0 8 data = ascii8 ''KXMANIF2'') (drop 16 data) es
    | _ \<Rightarrow> True)"
proof -
  obtain r where "read_entries (slice 0 8 data = ascii8 ''KXMANIF2'') (unat (from_le (slice 8 12 data) :: u32)) (drop 16 data) = Returns r"
    "\<forall>es. r = Some es \<longrightarrow> length es = unat (from_le (slice 8 12 data) :: u32) \<and> parsed_from (slice 0 8 data = ascii8 ''KXMANIF2'') (drop 16 data) es"
    using read_entries_total by blast
  then show ?thesis unfolding read_file_def Let_def by (cases r) auto
qed

end
