(* ===== verification/Trace_Open.thy ===== *)
theory Trace_Open
  imports Model_Manifest
begin

text \<open>
  The openings that the trace verifier trusts: from \<open>src/verifiable-inference/src/verify.rs\<close> a manifest entry, the
  bytes of a tensor and a weight row proven against the commitments of a tier, and the batch and input
  layouts of a position.
  Offsets into a tensor are 64-bit words and wrap, as in the source. The crate \<open>blake3\<close> is a parameter,
  as in \<open>Trace_Tree\<close>.

  The lemmas show that what is opened is what is committed, unless two hashed values collide, and that
  honest openings are accepted.
\<close>

section \<open>Definitions\<close>

record TierCtx =
  r_t :: hash
  n_chunks :: u64
  m_t :: hash
  n_entries :: u64
  n_products :: u64

datatype Fail = Shape | Manifest | Weights | Trace | Unsupported | Mismatch

definition open_entry :: "(bytes \<Rightarrow> hash) \<Rightarrow> TierCtx \<Rightarrow> EntryOpening \<Rightarrow> u64 \<Rightarrow> Fail + Entry" where
  "open_entry blake3 tier e expected_index =
     (if ucast (eo_index e) \<noteq> expected_index \<or>
         \<not> verify_entry blake3 (m_t tier) (unat (n_entries tier)) (unat expected_index) (eo_bytes e) (eo_path e)
      then Inl Manifest
      else case parse_entry (eo_bytes e) of
             None \<Rightarrow> Inl Manifest
           | Some (entry, len) \<Rightarrow> if len = length (eo_bytes e) then Inr entry else Inl Manifest)"

text \<open>The guards before the slice make it fit: \<open>r.chunks\<close> then holds the whole chunks around the range. The length of a vector is
  compared as a 64-bit word.\<close>

definition open_bytes :: "(bytes \<Rightarrow> hash) \<Rightarrow> TierCtx \<Rightarrow> Entry \<Rightarrow> ChunkRange \<Rightarrow> u64 \<Rightarrow> u64 \<Rightarrow> Fail + bytes" where
  "open_bytes blake3 tier entry r offset len =
     (let end = offset + len
      in if len = 0 \<or> end > en_n_bytes entry div 32 * 32 then Inl Shape
         else let first = en_chunk_base entry + offset div 32; last = en_chunk_base entry + (end - 1) div 32
              in if first_chunk r \<noteq> first \<or> of_nat (length (chunk_bytes r)) \<noteq> (last - first + 1) * 32 then Inl Shape
                 else let leaves = map blake3 (chunks_exact 32 (chunk_bytes r))
                      in if \<not> rt_verify_range blake3 (r_t tier) (unat (n_chunks tier)) (unat first) leaves (range_proof r) then Inl Weights
                         else let s = unat (offset mod 32) in Inr (slice s (s + unat len) (chunk_bytes r)))"

definition open_expert_row :: "(bytes \<Rightarrow> hash) \<Rightarrow> TierCtx \<Rightarrow> Entry \<Rightarrow> ChunkRange \<Rightarrow> u64 \<Rightarrow> u64 \<Rightarrow> Fail + bytes" where
  "open_expert_row blake3 tier entry r exp row =
     (if row \<ge> en_m entry \<or> exp \<ge> ucast (en_n_exp entry) then Inl Shape
      else let rb = ucast (en_row_bytes entry) in open_bytes blake3 tier entry r ((exp * en_m entry + row) * rb) rb)"

definition open_row :: "(bytes \<Rightarrow> hash) \<Rightarrow> TierCtx \<Rightarrow> Entry \<Rightarrow> ChunkRange \<Rightarrow> u64 \<Rightarrow> Fail + bytes" where
  "open_row blake3 tier entry r row =
     (if row \<ge> en_m entry \<or> en_n_exp entry \<noteq> 1 then Inl Shape
      else let rb = ucast (en_row_bytes entry) in open_bytes blake3 tier entry r (row * rb) rb)"

definition UBATCH :: u32 where "UBATCH = 512"
definition MMVQ_MAX_BATCH :: u32 where "MMVQ_MAX_BATCH = 8"
definition MATRIX_ROW_PADDING :: nat where "MATRIX_ROW_PADDING = 512"

definition expected_ubatch :: "u64 \<Rightarrow> u32 \<Rightarrow> u32" where
  "expected_ubatch t n_prompt =
     (if t \<ge> ucast n_prompt then 1
      else let start = t div ucast UBATCH * ucast UBATCH in min UBATCH (n_prompt - ucast start))"

definition MMVQ :: u8 where "MMVQ = 0"
definition MMQ_D4 :: u8 where "MMQ_D4 = 1"
definition MMQ_DS4 :: u8 where "MMQ_DS4 = 2"
definition Q4_K :: u32 where "Q4_K = 12"
definition Q5_K :: u32 where "Q5_K = 13"

definition layout_for :: "u32 \<Rightarrow> u32 \<Rightarrow> u8" where
  "layout_for n_ubatch wtype =
     (if n_ubatch \<le> MMVQ_MAX_BATCH then MMVQ else if wtype \<in> {2, 3, 7, Q4_K, Q5_K} then MMQ_DS4 else MMQ_D4)"

definition input_layout :: "u8 \<Rightarrow> u32 \<Rightarrow> u32 \<Rightarrow> u8" where
  "input_layout role n_ubatch wtype = (if role = ROLE_OUTPUT then MMVQ else layout_for n_ubatch wtype)"

definition x_len :: "nat \<Rightarrow> u8 \<Rightarrow> nat" where
  "x_len k layout =
     (let kp = div_ceil k MATRIX_ROW_PADDING * MATRIX_ROW_PADDING in if layout = MMVQ then kp div 32 * 36 else kp div 128 * 144)"

section \<open>Opened weights\<close>

text \<open>The tensor data of a tier: 32-byte chunks whose hashes have the root of the tier.\<close>

definition committed :: "(bytes \<Rightarrow> hash) \<Rightarrow> TierCtx \<Rightarrow> bytes list \<Rightarrow> bool" where
  "committed blake3 tier C \<longleftrightarrow> merkle_root blake3 (map blake3 C) = Some (r_t tier) \<and> unat (n_chunks tier) = length C \<and>
     (\<forall>c \<in> set C. length c = 32)"

text \<open>No hashed value of an accepted opening collides with a committed one: neither a chunk nor a pair of nodes.\<close>

definition no_collision :: "(bytes \<Rightarrow> hash) \<Rightarrow> bytes list \<Rightarrow> nat \<Rightarrow> ChunkRange \<Rightarrow> bool" where
  "no_collision blake3 C first r \<longleftrightarrow> inj_on blake3 (set C \<union> set (chunks_exact 32 (chunk_bytes r))) \<and>
     collision_free (rt_f blake3) (range_pairs (rt_f blake3) (rt_g blake3) (length C) first
       (map blake3 (chunks_exact 32 (chunk_bytes r))) (range_proof r) \<union> tree_pairs (rt_f blake3) (rt_g blake3) (map blake3 C))"

text \<open>A range inside a tensor inside the 64-bit address space.\<close>

definition in_tensor :: "Entry \<Rightarrow> nat \<Rightarrow> nat \<Rightarrow> bool" where
  "in_tensor e lo len \<longleftrightarrow> 0 < len \<and> lo + len \<le> unat (en_n_bytes e) div 32 * 32 \<and>
     unat (en_chunk_base e) + unat (en_n_bytes e) div 32 < 2 ^ 59"

lemma pow_59_64: "(n :: nat) < 2 ^ 59 \<Longrightarrow> n < 2 ^ 64"
  by simp

lemma last_div_less: "0 < l \<Longrightarrow> i + l \<le> k * 32 \<Longrightarrow> (i + l - 1) div 32 < (k :: nat)"
  by (simp add: less_mult_imp_div_less)

lemma range_words:
  assumes "unat offset + unat len < 2 ^ 64" and "unat (en_chunk_base e) + unat (en_n_bytes e) div 32 < 2 ^ 59"
  shows "len \<noteq> 0 \<and> \<not> offset + len > en_n_bytes e div 32 * 32 \<longleftrightarrow> in_tensor e (unat offset) (unat len)"
    and "in_tensor e (unat offset) (unat len) \<Longrightarrow>
      unat (en_chunk_base e + offset div 32) = unat (en_chunk_base e) + unat offset div 32 \<and>
      unat ((en_chunk_base e + (offset + len - 1) div 32 - (en_chunk_base e + offset div 32) + 1) * 32) =
        ((unat offset + unat len - 1) div 32 - unat offset div 32 + 1) * 32"
proof -
  let ?o = "unat offset" and ?l = "unat len" and ?nb = "unat (en_n_bytes e)" and ?cb = "unat (en_chunk_base e)"
  have e: "unat (offset + len) = ?o + ?l" using assms(1) by (rule unat_add_u64)
  note nb = unat_whole_chunks [of "en_n_bytes e"]
  have "len \<noteq> 0 \<longleftrightarrow> 0 < ?l" by (simp add: unat_gt_0)
  then show "len \<noteq> 0 \<and> \<not> offset + len > en_n_bytes e div 32 * 32 \<longleftrightarrow> in_tensor e ?o ?l"
    using assms(2) by (auto simp: in_tensor_def word_less_nat_alt e nb)
  assume t: "in_tensor e ?o ?l"
  have d: "?o div 32 < ?nb div 32" "(?o + ?l - 1) div 32 < ?nb div 32"
    using t last_div_less [of ?l ?o "?nb div 32"] by (simp_all add: in_tensor_def less_mult_imp_div_less)
  have b: "?cb + ?nb div 32 < 2 ^ 64" by (rule pow_59_64 [OF assms(2)])
  have f: "unat (en_chunk_base e + offset div 32) = ?cb + ?o div 32"
    using d(1) b by (subst unat_add_u64) (simp_all add: unat_div)
  have "unat (offset + len - 1) = ?o + ?l - 1" using e t by (subst unat_minus_one) (auto simp: in_tensor_def)
  then have l: "unat (en_chunk_base e + (offset + len - 1) div 32) = ?cb + (?o + ?l - 1) div 32"
    using d(2) b by (subst unat_add_u64) (simp_all add: unat_div)
  have mono: "?o div 32 \<le> (?o + ?l - 1) div 32" using t by (intro div_le_mono) (auto simp: in_tensor_def)
  define w where "w = en_chunk_base e + (offset + len - 1) div 32 - (en_chunk_base e + offset div 32)"
  have w: "unat w = (?o + ?l - 1) div 32 - ?o div 32"
    unfolding w_def using f l mono by (subst unat_sub) (simp_all add: word_le_nat_alt)
  have small: "unat w + 1 < 2 ^ 59" using w d(2) assms(2) by linarith
  have w1: "unat (w + 1) = unat w + 1" using small pow_59_64 [OF small] by (subst unat_add_u64) simp_all
  have "(unat w + 1) * 32 < 2 ^ 59 * 32" using small by (rule mult_less_mono1) simp
  then have "unat ((w + 1) * 32) = (unat w + 1) * 32" using w1 by (subst unat_mult_u64) simp_all
  with f w show "unat (en_chunk_base e + offset div 32) = ?cb + ?o div 32 \<and>
      unat ((w + 1) * 32) = ((?o + ?l - 1) div 32 - ?o div 32 + 1) * 32" by simp
qed

text \<open>The chunks around a range, and the range in them.\<close>

lemma range_fits:
  assumes "a * 32 + b = lo" and "lo + len \<le> (a + n) * 32"
  shows "(first + a) * 32 + (b + len) \<le> (first + a + n) * (32 :: nat)"
  using assms by (simp add: algebra_simps)

lemma chunks_of_range:
  assumes "\<forall>c \<in> set C. length c = 32" and "0 < len" and "first + (lo + len - 1) div 32 < length C"
  defines "n \<equiv> (lo + len - 1) div 32 - lo div 32 + 1"
  shows "slice (lo mod 32) (lo mod 32 + len) (concat (slice (first + lo div 32) (first + lo div 32 + n) C)) =
      slice (32 * first + lo) (32 * first + lo + len) (concat C)"
proof -
  define x where "x = lo + len - 1"
  have x: "lo \<le> x" "lo + len = x + 1" using assms(2) by (simp_all add: x_def)
  have n: "lo div 32 + n = x div 32 + 1" using div_le_mono [OF x(1), of 32] unfolding n_def x_def by simp
  have "x + 1 \<le> (x div 32 + 1) * 32" using div_mult_mod_eq [of x 32] mod_less_divisor [of 32 x] by simp
  then have "lo + len \<le> (lo div 32 + n) * 32" unfolding n x(2) .
  then have fit: "(first + lo div 32) * 32 + (lo mod 32 + len) \<le> (first + lo div 32 + n) * 32"
    by (rule range_fits [OF div_mult_mod_eq])
  have "(first + lo div 32) * 32 + lo mod 32 = 32 * first + lo" by simp
  then show ?thesis
    unfolding concat_slice_uniform [OF assms(1)] using slice_in_slice [OF fit, of "lo mod 32" "concat C"] by (simp add: add.assoc mult.commute)
qed

lemma slice_inj:
  assumes "inj_on f (set xs \<union> set ys)" and "map f xs = slice a b (map f ys)"
  shows "xs = slice a b ys"
proof -
  have "map f xs = map f (slice a b ys)" using assms(2) by (simp add: slice_def take_map drop_map)
  moreover have "set (slice a b ys) \<subseteq> set ys" unfolding slice_def by (meson order_trans set_drop_subset set_take_subset)
  ultimately show ?thesis using assms(1) by (meson Un_mono inj_on_map_eq_map inj_on_subset order_refl)
qed

lemma of_nat_u64: "unat w = n \<Longrightarrow> (of_nat n :: u64) = w"
  by (auto simp: word_unat_eq_iff unat_of_nat)

lemma open_bytes_sound:
  assumes "committed blake3 tier C" and "unat offset + unat len < 2 ^ 64"
    and "unat (en_chunk_base e) + unat (en_n_bytes e) div 32 < 2 ^ 59" and "length (chunk_bytes r) < 2 ^ 64"
    and "no_collision blake3 C (unat (first_chunk r)) r"
    and "open_bytes blake3 tier e r offset len = Inr v"
  shows "v = slice (32 * unat (en_chunk_base e) + unat offset) (32 * unat (en_chunk_base e) + unat offset + unat len) (concat C)"
    and "in_tensor e (unat offset) (unat len)"
proof -
  let ?o = "unat offset" and ?l = "unat len" and ?cb = "unat (en_chunk_base e)"
  define n where "n = (?o + ?l - 1) div 32 - ?o div 32 + 1"
  note rw = range_words [OF assms(2,3)]
  have g: "len \<noteq> 0 \<and> \<not> offset + len > en_n_bytes e div 32 * 32" "first_chunk r = en_chunk_base e + offset div 32"
    "of_nat (length (chunk_bytes r)) = (en_chunk_base e + (offset + len - 1) div 32 - (en_chunk_base e + offset div 32) + 1) * 32"
    "rt_verify_range blake3 (r_t tier) (unat (n_chunks tier)) (unat (first_chunk r)) (map blake3 (chunks_exact 32 (chunk_bytes r))) (range_proof r)"
    "v = slice (unat (offset mod 32)) (unat (offset mod 32) + ?l) (chunk_bytes r)"
    using assms(6) by (auto simp: open_bytes_def Let_def split: if_splits)
  show t: "in_tensor e ?o ?l" using g(1) rw(1) by blast
  note rw = rw(2) [OF t]
  have first: "unat (first_chunk r) = ?cb + ?o div 32" using rw g(2) by simp
  have len: "length (chunk_bytes r) = n * 32"
  proof -
    have "unat (of_nat (length (chunk_bytes r)) :: u64) = length (chunk_bytes r)" using assms(4) by (simp add: unat_of_nat)
    then show ?thesis using rw g(3) by (simp add: n_def)
  qed
  note ch = chunks_exact_all [OF _ len, simplified]
  let ?L = "map blake3 C" and ?leaves = "map blake3 (chunks_exact 32 (chunk_bytes r))"
  have nC: "unat (n_chunks tier) = length ?L" and root: "merkle_root blake3 ?L = Some (r_t tier)"
    using assms(1) by (simp_all add: committed_def)
  have "rt_verify_range blake3 (r_t tier) (length ?L) (unat (first_chunk r)) ?leaves (range_proof r)" using g(4) unfolding nC .
  moreover have "collision_free (rt_f blake3) (range_pairs (rt_f blake3) (rt_g blake3) (length ?L) (unat (first_chunk r)) ?leaves (range_proof r) \<union>
      tree_pairs (rt_f blake3) (rt_g blake3) ?L)"
    using conjunct2 [OF assms(5) [unfolded no_collision_def]] unfolding length_map .
  ultimately have "?leaves = slice (unat (first_chunk r)) (unat (first_chunk r) + length ?leaves) ?L" by (rule rt_range_sound [OF root])
  then have "?leaves = slice (?cb + ?o div 32) (?cb + ?o div 32 + n) ?L" unfolding first length_map conjunct1 [OF ch] .
  then have cs: "chunks_exact 32 (chunk_bytes r) = slice (?cb + ?o div 32) (?cb + ?o div 32 + n) C"
    by (rule slice_inj [OF conjunct1 [OF assms(5) [unfolded no_collision_def], unfolded Un_commute [of "set C"]]])
  have "unat (first_chunk r) + length ?leaves \<le> length ?L"
    using g(4) unfolding nC rt_verify_range_def by (meson not_le)
  then have "?cb + ?o div 32 + n \<le> length C" unfolding first length_map conjunct1 [OF ch] .
  moreover have "?o div 32 \<le> (?o + ?l - 1) div 32" using t by (intro div_le_mono) (auto simp: in_tensor_def)
  ultimately have "?cb + (?o + ?l - 1) div 32 < length C" by (simp add: n_def)
  moreover have "0 < ?l" "\<forall>c \<in> set C. length c = 32" using t assms(1) by (simp_all add: in_tensor_def committed_def)
  moreover have "concat (slice (?cb + ?o div 32) (?cb + ?o div 32 + n) C) = chunk_bytes r"
    unfolding cs [symmetric] using ch by blast
  ultimately show "v = slice (32 * ?cb + ?o) (32 * ?cb + ?o + ?l) (concat C)"
    using chunks_of_range [of C ?l ?cb ?o] unfolding g(5) n_def unat_mod by simp
qed

text \<open>Whatever wraps: the chunks an accepted range comes with are those that its length and its place in the first one need.\<close>

lemma whole_chunks_word: "(of_nat k :: u64) div 32 * 32 = of_nat (k div 32 * 32)"
proof -
  have "k mod 2 ^ 64 div 32 * 32 = (k div 32 * 32) mod 2 ^ 64"
  proof -
    define q r where "q = k div 2 ^ 64" and "r = k mod 2 ^ 64"
    have k: "k = q * 2 ^ 64 + r" unfolding q_def r_def by simp
    have "k = (q * 2 ^ 59) * 32 + r" unfolding k by simp
    then have "k div 32 = q * 2 ^ 59 + r div 32" using div_mult_self3 [of 32 "q * 2 ^ 59" r] by simp
    then have "k div 32 * 32 = q * 2 ^ 64 + r div 32 * 32" by (simp add: add_mult_distrib)
    moreover have "r div 32 * 32 < 2 ^ 64" unfolding r_def using mod_less_divisor [of "2 ^ 64" k]
      by (meson div_times_less_eq_dividend le_less_trans zero_less_power zero_less_numeral)
    ultimately show ?thesis unfolding r_def [symmetric] by simp
  qed
  moreover have "unat ((of_nat k :: u64) div 32 * 32) = k mod 2 ^ 64 div 32 * 32"
    using div_times_less_eq_dividend [of "k mod 2 ^ 64" 32] mod_less_divisor [of "2 ^ 64" k]
    by (subst unat_mult_u64) (simp_all add: unat_div unat_of_nat)
  ultimately show ?thesis unfolding word_unat_eq_iff unat_of_nat by simp
qed

lemma range_chunk_count:
  assumes "0 < unat len" and "unat len < 2 ^ 32"
  shows "unat ((a + (offset + len - 1) div 32 - (a + offset div 32) + 1) * 32 :: u64) =
    ((unat offset mod 32 + unat len - 1) div 32 + 1) * 32"
proof -
  let ?o = "unat offset" and ?l = "unat len"
  define n where "n = (?o mod 32 + ?l - 1) div 32 + 1"
  have e: "offset + len - 1 = of_nat (?o + ?l - 1)" using assms(1) by (simp add: of_nat_diff)
  have o: "offset div 32 * 32 = of_nat (?o div 32 * 32)" using whole_chunks_word [of ?o] by simp
  have split: "(?o + ?l - 1) div 32 * 32 + 32 = ?o div 32 * 32 + n * 32"
  proof -
    have "?o + ?l - 1 = (?o mod 32 + ?l - 1) + ?o div 32 * 32" using assms(1) div_mult_mod_eq [of ?o 32] by linarith
    then have "(?o + ?l - 1) div 32 = (?o mod 32 + ?l - 1) div 32 + ?o div 32" by simp
    then show ?thesis by (simp add: n_def algebra_simps)
  qed
  have "(a + (offset + len - 1) div 32 - (a + offset div 32) + 1) * 32 = (offset + len - 1) div 32 * 32 + 32 - offset div 32 * 32"
    by (simp add: algebra_simps)
  also have "\<dots> = of_nat ((?o + ?l - 1) div 32 * 32 + 32) - of_nat (?o div 32 * 32)"
    unfolding e whole_chunks_word o by simp
  also have "\<dots> = of_nat (n * 32)" unfolding split by simp
  finally have w: "(a + (offset + len - 1) div 32 - (a + offset div 32) + 1) * 32 = of_nat (n * 32)" .
  have "(?o mod 32 + ?l - 1) div 32 \<le> ?o mod 32 + ?l - 1" by simp
  then have "n * 32 < 2 ^ 64" using assms(2) mod_less_divisor [of 32 ?o] unfolding n_def by simp
  then show ?thesis unfolding w n_def [symmetric] by (simp only: unat_of_nat_u64)
qed

lemma open_bytes_committed:
  assumes "committed blake3 tier C" and "length (chunk_bytes r) < 2 ^ 64" and "unat len < 2 ^ 32"
    and "no_collision blake3 C (unat (first_chunk r)) r"
    and "open_bytes blake3 tier e r offset len = Inr v"
  defines "place \<equiv> 32 * unat (en_chunk_base e + offset div 32) + unat (offset mod 32)"
  shows "v = slice place (place + unat len) (concat C)" and "place + unat len \<le> length (concat C)"
proof -
  let ?l = "unat len" and ?f = "unat (first_chunk r)" and ?b = "unat offset mod 32"
  define n where "n = (?b + ?l - 1) div 32 + 1"
  have g: "len \<noteq> 0" "first_chunk r = en_chunk_base e + offset div 32"
    "of_nat (length (chunk_bytes r)) = (en_chunk_base e + (offset + len - 1) div 32 - (en_chunk_base e + offset div 32) + 1) * 32"
    "rt_verify_range blake3 (r_t tier) (unat (n_chunks tier)) ?f (map blake3 (chunks_exact 32 (chunk_bytes r))) (range_proof r)"
    "v = slice (unat (offset mod 32)) (unat (offset mod 32) + ?l) (chunk_bytes r)"
    using assms(5) by (auto simp: open_bytes_def Let_def split: if_splits)
  have l: "0 < ?l" using g(1) by (simp add: unat_gt_0)
  have len: "length (chunk_bytes r) = n * 32"
  proof -
    have "unat (of_nat (length (chunk_bytes r)) :: u64) = length (chunk_bytes r)" using assms(2) by (simp add: unat_of_nat)
    then show ?thesis unfolding g(3) range_chunk_count [OF l assms(3)] n_def by simp
  qed
  note ch = chunks_exact_all [OF _ len, simplified]
  let ?L = "map blake3 C" and ?leaves = "map blake3 (chunks_exact 32 (chunk_bytes r))"
  have nC: "unat (n_chunks tier) = length ?L" and root: "merkle_root blake3 ?L = Some (r_t tier)" and C: "\<forall>c \<in> set C. length c = 32"
    using assms(1) by (simp_all add: committed_def)
  have "rt_verify_range blake3 (r_t tier) (length ?L) ?f ?leaves (range_proof r)" using g(4) unfolding nC .
  moreover have "collision_free (rt_f blake3) (range_pairs (rt_f blake3) (rt_g blake3) (length ?L) ?f ?leaves (range_proof r) \<union>
      tree_pairs (rt_f blake3) (rt_g blake3) ?L)"
    using conjunct2 [OF assms(4) [unfolded no_collision_def]] unfolding length_map .
  ultimately have "?leaves = slice ?f (?f + length ?leaves) ?L" by (rule rt_range_sound [OF root])
  then have "?leaves = slice ?f (?f + n) ?L" unfolding length_map conjunct1 [OF ch] .
  then have cs: "chunks_exact 32 (chunk_bytes r) = slice ?f (?f + n) C"
    by (rule slice_inj [OF conjunct1 [OF assms(4) [unfolded no_collision_def], unfolded Un_commute [of "set C"]]])
  have "?f + length ?leaves \<le> length ?L" using g(4) unfolding nC rt_verify_range_def by (meson not_le)
  then have fC: "?f + n \<le> length C" unfolding length_map conjunct1 [OF ch] .
  have cb: "chunk_bytes r = slice (?f * 32) ((?f + n) * 32) (concat C)"
    using concat_slice_uniform [OF C, of ?f "?f + n"] ch unfolding cs by metis
  have bl: "?b + ?l \<le> n * 32"
proof -
    have "x \<le> ((x - 1) div 32 + 1) * 32" for x :: nat by presburger
    then show ?thesis unfolding n_def .
  qed
  have place: "place = ?f * 32 + ?b" unfolding place_def g(2) [symmetric] by (simp add: unat_mod)
  have fit: "?f * 32 + (?b + ?l) \<le> (?f + n) * 32" using bl by (simp add: algebra_simps)
  show "v = slice place (place + ?l) (concat C)"
    unfolding g(5) cb place using slice_in_slice [OF fit, of ?b "concat C"] by (simp add: unat_mod add.assoc)
  have "(?f + n) * 32 \<le> length (concat C)" using fC concat_length_uniform [OF C] by simp
  then show "place + ?l \<le> length (concat C)" using fit unfolding place by linarith
qed

lemma open_bytes_complete:
  assumes "committed blake3 tier C" and "in_tensor e (unat offset) (unat len)" and "unat offset + unat len < 2 ^ 64"
    and "unat (en_chunk_base e) + unat (en_n_bytes e) div 32 \<le> length C"
  defines "lo \<equiv> unat (en_chunk_base e) + unat offset div 32" and "n \<equiv> (unat offset + unat len - 1) div 32 - unat offset div 32 + 1"
  shows "\<exists>p. rt_range_proof blake3 (map blake3 C) lo n = Some (r_t tier, p) \<and>
     open_bytes blake3 tier e \<lparr>first_chunk = of_nat lo, chunk_bytes = concat (slice lo (lo + n) C), range_proof = p\<rparr> offset len =
       Inr (slice (32 * unat (en_chunk_base e) + unat offset) (32 * unat (en_chunk_base e) + unat offset + unat len) (concat C))"
proof -
  let ?o = "unat offset" and ?l = "unat len" and ?cb = "unat (en_chunk_base e)"
  have cb: "?cb + unat (en_n_bytes e) div 32 < 2 ^ 59" using assms(2) by (simp add: in_tensor_def)
  note rw = range_words [OF assms(3) cb] note rw2 = rw(2) [OF assms(2)]
  have d: "(?o + ?l - 1) div 32 < unat (en_n_bytes e) div 32" "?o div 32 \<le> (?o + ?l - 1) div 32"
    using assms(2) by (auto simp: in_tensor_def less_mult_imp_div_less intro: div_le_mono)
  then have fit: "lo + n \<le> length C" using assms(4) by (simp add: lo_def n_def)
  have C: "\<forall>c \<in> set C. length c = 32" and root: "merkle_root blake3 (map blake3 C) = Some (r_t tier)" and nC: "unat (n_chunks tier) = length C"
    using assms(1) by (simp_all add: committed_def)
  have "length C \<le> 2 ^ 64" using nC unat_u64_lt [of "n_chunks tier"] by simp
  then obtain p where p: "rt_range_proof blake3 (map blake3 C) lo n = Some (r_t tier, p)"
    "rt_verify_range blake3 (r_t tier) (length C) lo (slice lo (lo + n) (map blake3 C)) p"
    using rt_range_complete [of n lo "map blake3 C" blake3] root fit by (auto simp: n_def)
  let ?b = "concat (slice lo (lo + n) C)"
  have sub: "\<forall>c \<in> set (slice lo (lo + n) C). length c = 32" using C unfolding slice_def by (meson in_set_dropD in_set_takeD)
  have len: "length ?b = n * 32" using concat_length_uniform [OF sub] fit by simp
  have leaves: "map blake3 (chunks_exact 32 ?b) = slice lo (lo + n) (map blake3 C)"
    using sub by (subst chunks_exact_concat) (auto simp: slice_def take_map drop_map)
  have first: "(of_nat lo :: u64) = en_chunk_base e + offset div 32" "unat (of_nat lo :: u64) = lo"
    using of_nat_u64 [OF conjunct1 [OF rw2]] conjunct1 [OF rw2] unfolding lo_def by simp_all
  have "(of_nat (length ?b) :: u64) = (en_chunk_base e + (offset + len - 1) div 32 - (en_chunk_base e + offset div 32) + 1) * 32"
    using of_nat_u64 [OF conjunct2 [OF rw2]] len unfolding n_def by simp
  moreover have "slice (unat (offset mod 32)) (unat (offset mod 32) + ?l) ?b = slice (32 * ?cb + ?o) (32 * ?cb + ?o + ?l) (concat C)"
    using chunks_of_range [OF C, of ?l ?cb ?o] d assms(2,4) by (simp add: lo_def n_def unat_mod in_tensor_def)
  ultimately have "open_bytes blake3 tier e \<lparr>first_chunk = of_nat lo, chunk_bytes = ?b, range_proof = p\<rparr> offset len =
      Inr (slice (32 * ?cb + ?o) (32 * ?cb + ?o + ?l) (concat C))"
    using p(2) rw(1) assms(2) leaves first by (simp add: open_bytes_def Let_def nC)
  with p(1) show ?thesis by blast
qed

section \<open>Batches\<close>

text \<open>A position of the prompt lies in its batch: the batch that \<open>expected_ubatch\<close> sizes starts at a multiple of 512, holds the position
  and does not reach past the prompt.\<close>

lemma expected_ubatch_holds:
  assumes "unat t < unat n_prompt"
  defines "start \<equiv> unat t div 512 * 512"
  shows "start \<le> unat t \<and> unat t < start + unat (expected_ubatch t n_prompt) \<and> start + unat (expected_ubatch t n_prompt) \<le> unat n_prompt \<and>
    unat (expected_ubatch t n_prompt) \<le> 512"
proof -
  have n32: "unat n_prompt < 2 ^ 32" using unsigned_less [of n_prompt] by simp
  have st: "start \<le> unat t" "unat t < start + 512"
    using div_mult_mod_eq [of "unat t" 512] mod_less_divisor [of 512 "unat t"] unfolding start_def by linarith+
  have lt: "\<not> t \<ge> ucast n_prompt" using assms(1) by (simp add: word_le_nat_alt unat_ucast_32_64)
  define w :: u64 where "w = t div ucast UBATCH * ucast UBATCH"
  have "unat t div 512 < 36028797018963968" using unat_u64_lt [of t] by (simp add: less_mult_imp_div_less)
  then have w: "unat w = start" unfolding w_def UBATCH_def
    by (subst unat_mult_u64) (simp_all add: unat_div start_def unsigned_ucast_eq)
  have "unat (ucast w :: u32) = start" using w st(1) assms(1) n32 by (simp add: unsigned_ucast_eq take_bit_nat_eq_self)
  then have "unat (n_prompt - ucast w) = unat n_prompt - start" using st(1) assms(1) by (subst unat_sub) (simp_all add: word_le_nat_alt)
  moreover have "expected_ubatch t n_prompt = min UBATCH (n_prompt - ucast w)" using lt by (simp add: expected_ubatch_def w_def Let_def)
  ultimately have "unat (expected_ubatch t n_prompt) = min 512 (unat n_prompt - start)"
    by (simp add: min_def word_le_nat_alt UBATCH_def)
  then show ?thesis using st assms(1) by (auto simp: min_def)
qed

section \<open>Properties\<close>

definition row_at :: "Entry \<Rightarrow> nat \<Rightarrow> nat \<Rightarrow> nat" where
  "row_at e exp row = 32 * unat (en_chunk_base e) + row_start e exp row"

lemma open_expert_row_bytes:
  "open_expert_row blake3 tier e r exp row =
     (if unat row < unat (en_m e) \<and> unat exp < unat (en_n_exp e)
      then open_bytes blake3 tier e r ((exp * en_m e + row) * ucast (en_row_bytes e)) (ucast (en_row_bytes e))
      else Inl Shape)"
  by (auto simp: open_expert_row_def Let_def word_le_nat_alt unat_ucast_32_64)

text \<open>C19: an opened weight row is committed. Where neither the chunks nor the merged pairs of nodes collide, a row that
  \<open>open_expert_row\<close> returns, for any entry at all, is a run of bytes inside the model that the tier commits
  to, at the place the 64-bit offset names; and if the entry's tensor fits in 64-bit addresses, which no check of
  the verifier ensures, it is that row of that expert, inside the tensor.\<close>

theorem opened_row_committed:
  assumes "committed blake3 tier C" and "length (chunk_bytes r) < 2 ^ 64" and "no_collision blake3 C (unat (first_chunk r)) r"
    and "open_expert_row blake3 tier e r exp row = Inr v"
  shows "unat exp < unat (en_n_exp e) \<and> unat row < unat (en_m e) \<and>
    (let offset = (exp * en_m e + row) * ucast (en_row_bytes e); place = 32 * unat (en_chunk_base e + offset div 32) + unat (offset mod 32)
     in v = slice place (place + unat (en_row_bytes e)) (concat C) \<and> place + unat (en_row_bytes e) \<le> length (concat C) \<and>
       (rows_fit e \<and> unat (en_chunk_base e) + unat (en_n_bytes e) div 32 < 2 ^ 64 \<longrightarrow>
          place = row_at e (unat exp) (unat row) \<and> row_start e (unat exp) (unat row) + unat (en_row_bytes e) \<le> unat (en_n_bytes e)))"
proof -
  have rx: "unat row < unat (en_m e)" "unat exp < unat (en_n_exp e)" and
    o: "open_bytes blake3 tier e r ((exp * en_m e + row) * ucast (en_row_bytes e)) (ucast (en_row_bytes e)) = Inr v"
    using assms(4) by (simp_all add: open_expert_row_bytes split: if_splits)
  let ?off = "(exp * en_m e + row) * ucast (en_row_bytes e)" and ?rb = "ucast (en_row_bytes e) :: u64"
  have rb: "unat ?rb < 2 ^ 32" unfolding unat_ucast_32_64 using unsigned_less [of "en_row_bytes e"] by simp
  note b = open_bytes_committed [OF assms(1,2) rb assms(3) o, unfolded unat_ucast_32_64]
  have "32 * unat (en_chunk_base e + ?off div 32) + unat (?off mod 32) = row_at e (unat exp) (unat row) \<and>
      row_start e (unat exp) (unat row) + unat (en_row_bytes e) \<le> unat (en_n_bytes e)"
    if fit: "rows_fit e" "unat (en_chunk_base e) + unat (en_n_bytes e) div 32 < 2 ^ 64"
  proof -
    note w = row_words [OF rx fit(1)]
    have "unat (?off + ?rb) = row_start e (unat exp) (unat row) + unat (en_row_bytes e)"
      using w by (subst unat_add_u64) (simp_all add: unat_ucast_32_64)
    moreover have "?rb \<noteq> 0" "\<not> ?off + ?rb > en_n_bytes e div 32 * 32" using o by (auto simp: open_bytes_def Let_def split: if_splits)
    ultimately have fin: "row_start e (unat exp) (unat row) + unat (en_row_bytes e) \<le> unat (en_n_bytes e) div 32 * 32"
      by (simp add: word_less_nat_alt unat_whole_chunks)
    have "0 < unat (en_row_bytes e)" using fit(1) by (simp add: rows_fit_def)
    then have "row_start e (unat exp) (unat row) div 32 < unat (en_n_bytes e) div 32" using fin by (simp add: less_mult_imp_div_less)
    then have "unat (en_chunk_base e + ?off div 32) = unat (en_chunk_base e) + row_start e (unat exp) (unat row) div 32"
      using fit(2) w(2) by (subst unat_add_u64) (simp_all add: unat_div)
    moreover have "unat (?off mod 32) = row_start e (unat exp) (unat row) mod 32" using w(2) by (simp add: unat_mod)
    moreover have "unat (en_n_bytes e) div 32 * 32 \<le> unat (en_n_bytes e)" by simp
    ultimately show ?thesis using fin by (simp add: row_at_def)
  qed
  then show ?thesis using b rx unfolding Let_def by blast
qed

definition toy_tier :: TierCtx where
  "toy_tier = \<lparr>r_t = replicate 16 1 @ replicate 16 2, n_chunks = 1, m_t = [], n_entries = 0, n_products = 0\<rparr>"

definition toy_entry :: Entry where
  "toy_entry = \<lparr>en_name = [0x61], en_wtype = 8, en_k = 16, en_m = 2, en_n_exp = 1, en_chunk_base = 0, en_n_bytes = 32,
     en_row_bytes = 16, en_role = 0, en_glu_op = 0, en_glu_form = 0, en_partner = NONE, en_bias = NONE, en_chain = NoChain\<rparr>"

definition toy_range :: ChunkRange where
  "toy_range = \<lparr>first_chunk = 0, chunk_bytes = replicate 16 1 @ replicate 16 2, range_proof = []\<rparr>"

lemma toy_row:
  "committed id toy_tier [replicate 16 1 @ replicate 16 2]" "rows_fit toy_entry"
  "row_at toy_entry 0 (Suc 0) = 16" "unat (en_row_bytes toy_entry) = 16"
  by (simp_all add: committed_def toy_tier_def merkle_root_def root_loop.simps rows_fit_def toy_entry_def row_at_def row_start_def)

theorem opened_row_committed_witness:
  "open_expert_row id toy_tier toy_entry toy_range 0 1 = Inr (replicate 16 2) \<and>
    replicate 16 2 = slice 16 32 (replicate 16 1 @ replicate 16 (2 :: u8))"
proof -
  have ch: "chunks_exact 32 (chunk_bytes toy_range) = [chunk_bytes toy_range]"
    by (simp add: chunks_exact_def chunks.simps toy_range_def)
  have o: "open_expert_row id toy_tier toy_entry toy_range 0 1 = Inr (replicate 16 2)"
    unfolding open_expert_row_def open_bytes_def Let_def ch
    by (simp add: toy_tier_def toy_entry_def toy_range_def rt_verify_range_def rt_verify_loop.simps slice_def word_le_nat_alt)
  have nc: "no_collision id [replicate 16 1 @ replicate 16 2] (unat (first_chunk toy_range)) toy_range"
    unfolding no_collision_def ch by (simp add: toy_range_def range_pairs.simps tree_pairs.simps collision_free_def)
  have f: "unat (en_chunk_base toy_entry) + unat (en_n_bytes toy_entry) div 32 < 2 ^ 64" "length (chunk_bytes toy_range) < 2 ^ 64"
    by (simp_all add: toy_entry_def toy_range_def)
  note c = opened_row_committed [OF toy_row(1) f(2) nc o, unfolded Let_def, THEN conjunct2, THEN conjunct2]
  note d = conjunct1 [OF mp [OF conjunct2 [OF conjunct2 [OF c]] conjI [OF toy_row(2) f(1)]]]
  show ?thesis using o conjunct1 [OF c, unfolded d] by (simp add: toy_row)
qed

text \<open>Every row of every expert can be opened: with the chunks that \<open>row_chunks\<close> names and the range proof over the model, the
  verifier accepts and returns the row.\<close>

theorem committed_row_opens:
  assumes "committed blake3 tier C" and "rows_fit e" and "unat (en_chunk_base e) + unat (en_n_bytes e) div 32 < 2 ^ 59"
    and "unat (en_chunk_base e) + unat (en_n_bytes e) div 32 \<le> length C"
    and "unat exp < unat (en_n_exp e)" and "unat row < unat (en_m e)"
    and "row_start e (unat exp) (unat row) + unat (en_row_bytes e) \<le> unat (en_n_bytes e) div 32 * 32"
  shows "\<exists>lo hi off p. row_chunks e exp row = Some (lo, hi, off) \<and>
    rt_range_proof blake3 (map blake3 C) (unat lo) (unat hi - unat lo + 1) = Some (r_t tier, p) \<and>
    open_expert_row blake3 tier e
        \<lparr>first_chunk = lo, chunk_bytes = concat (slice (unat lo) (unat hi + 1) C), range_proof = p\<rparr> exp row =
      Inr (slice (row_at e (unat exp) (unat row)) (row_at e (unat exp) (unat row) + unat (en_row_bytes e)) (concat C))"
proof -
  define o1 l where "o1 = (exp * en_m e + row) * ucast (en_row_bytes e)" and "l = (ucast (en_row_bytes e) :: u64)"
  note w = row_words [OF assms(6,5,2), folded o1_def]
  have l: "unat l = unat (en_row_bytes e)" by (simp add: l_def unat_ucast_32_64)
  have ne: "unat o1 + unat l < 2 ^ 64" using w l by simp
  have t: "in_tensor e (unat o1) (unat l)" using assms(2,3,7) w l by (simp add: in_tensor_def rows_fit_def)
  note g = iffD2 [OF range_words(1) [OF ne assms(3)] t]
  have "row_chunks e exp row \<noteq> None"
    using g assms(5,6) unfolding row_chunks_def Let_def o1_def l_def by (simp add: word_le_nat_alt unat_ucast_32_64)
  then obtain lo hi off where rc: "row_chunks e exp row = Some (lo, hi, off)" by (metis not_Some_eq prod_cases3)
  note c = row_chunks_cover [OF rc assms(2) pow_59_64 [OF assms(3)]]
  let ?s = "row_start e (unat exp) (unat row)" and ?rb = "unat (en_row_bytes e)"
  have lo: "unat lo = unat (en_chunk_base e) + unat o1 div 32" using c w by simp
  have "?s div 32 \<le> (?s + ?rb - 1) div 32" using assms(2) unfolding rows_fit_def by (intro div_le_mono) linarith
  then have hi: "unat hi - unat lo + 1 = (unat o1 + unat l - 1) div 32 - unat o1 div 32 + 1"
    "unat hi + 1 = unat lo + ((unat o1 + unat l - 1) div 32 - unat o1 div 32 + 1)"
    using c w l by simp_all
  have eq: "open_expert_row blake3 tier e r exp row = open_bytes blake3 tier e r o1 l" for r
    using assms(5,6) by (simp add: open_expert_row_bytes o1_def l_def)
  have lo': "(of_nat (unat lo) :: u64) = lo" by (rule of_nat_u64) simp
  have at: "32 * unat (en_chunk_base e) + unat o1 = row_at e (unat exp) (unat row)" by (simp add: row_at_def w)
  show ?thesis
    using rc open_bytes_complete [OF assms(1) t ne assms(4), folded lo, folded hi, unfolded lo' at l, folded eq] by blast
qed

theorem committed_row_opens_witness:
  "\<exists>r. open_expert_row id toy_tier toy_entry r 0 1 = Inr (slice 16 32 (replicate 16 1 @ replicate 16 2))"
proof -
  have "unat (en_chunk_base toy_entry) + unat (en_n_bytes toy_entry) div 32 < 2 ^ 59"
    "unat (en_chunk_base toy_entry) + unat (en_n_bytes toy_entry) div 32 \<le> length [replicate 16 1 @ replicate 16 (2 :: u8)]"
    "unat (0 :: u64) < unat (en_n_exp toy_entry)" "unat (1 :: u64) < unat (en_m toy_entry)"
    "row_start toy_entry (unat (0 :: u64)) (unat (1 :: u64)) + unat (en_row_bytes toy_entry) \<le> unat (en_n_bytes toy_entry) div 32 * 32"
    by (simp_all add: toy_entry_def row_start_def)
  from committed_row_opens [OF toy_row(1,2) this] show ?thesis
    by (auto simp: toy_row)
qed

text \<open>C20: a manifest entry that \<open>open_entry\<close> returns is the entry with that number of the manifest that the tier commits to, parsed to its
  last byte, where neither the entries nor the merged pairs of nodes collide.\<close>

theorem opened_entry_committed:
  assumes "merkle_root blake3 (map (entry_leaf blake3) B) = Some (m_t tier)" and "unat (n_entries tier) = length B"
    and "inj_on blake3 (insert (eo_bytes e) (set B))"
    and "collision_free (rt_f blake3)
      (range_pairs (rt_f blake3) (rt_g blake3) (length B) (unat idx) [entry_leaf blake3 (eo_bytes e)] (eo_path e) \<union>
       tree_pairs (rt_f blake3) (rt_g blake3) (map (entry_leaf blake3) B))"
    and "open_entry blake3 tier e idx = Inr entry"
  shows "unat idx < length B \<and> eo_bytes e = B ! unat idx \<and> parse_entry (B ! unat idx) = Some (entry, length (B ! unat idx)) \<and>
    unat (eo_index e) = unat idx"
proof -
  have g: "ucast (eo_index e) = idx" "rt_verify_range blake3 (m_t tier) (length B) (unat idx) [entry_leaf blake3 (eo_bytes e)] (eo_path e)"
    "parse_entry (eo_bytes e) = Some (entry, length (eo_bytes e))"
    using assms(2,5) by (auto simp: open_entry_def verify_entry_def rt_verify_leaf_def split: if_splits option.splits)
  let ?L = "map (entry_leaf blake3) B"
  have i: "unat idx < length B" using g(2) by (auto simp: rt_verify_range_def split: if_splits)
  have "[entry_leaf blake3 (eo_bytes e)] = slice (unat idx) (unat idx + length [entry_leaf blake3 (eo_bytes e)]) ?L"
    by (rule rt_range_sound [OF assms(1), unfolded length_map, OF g(2) assms(4)])
  then have "blake3 (eo_bytes e) = blake3 (B ! unat idx)" using i slice_single [of "unat idx" ?L] by (simp add: entry_leaf_def)
  then have "eo_bytes e = B ! unat idx" using assms(3) i by (auto dest: inj_onD)
  moreover have "unat (eo_index e) = unat idx" using g(1) by (auto simp: unat_ucast_32_64)
  ultimately show ?thesis using i g(3) by simp
qed

theorem opened_entry_committed_witness:
  "\<exists>tier e. open_entry id tier e 0 = Inr toy_entry \<and> eo_bytes e = serialize toy_entry"
proof -
  define tier where "tier = toy_tier\<lparr>m_t := serialize toy_entry, n_entries := 1\<rparr>"
  define e where "e = \<lparr>eo_index = 0, eo_bytes = serialize toy_entry, eo_path = []\<rparr>"
  have "is_utf8 [0x61]" by (simp add: is_utf8.simps word_le_nat_alt)
  then have "parse_entry (serialize toy_entry) = Some (toy_entry, length (serialize toy_entry))"
    using parse_base_serialize [of toy_entry "[]"] by (simp add: parse_entry_def ok_name_def toy_entry_def)
  then have o: "open_entry id tier e 0 = Inr toy_entry"
    by (simp add: open_entry_def verify_entry_def rt_verify_leaf_def entry_leaf_def rt_verify_range_def rt_verify_loop.simps tier_def e_def)
  have "merkle_root id (map (entry_leaf id) [serialize toy_entry]) = Some (m_t tier)" "unat (n_entries tier) = length [serialize toy_entry]"
    "collision_free (rt_f id) (range_pairs (rt_f id) (rt_g id) (length [serialize toy_entry]) (unat (0 :: u64)) [entry_leaf id (eo_bytes e)] (eo_path e) \<union>
       tree_pairs (rt_f id) (rt_g id) (map (entry_leaf id) [serialize toy_entry]))"
    by (simp_all add: tier_def e_def merkle_root_def root_loop.simps entry_leaf_def range_pairs.simps tree_pairs.simps collision_free_def)
  from opened_entry_committed [OF this(1,2) _ this(3) o] have "eo_bytes e = serialize toy_entry" by simp
  then show ?thesis using o by blast
qed

end
