(* ===== verification/Seq_Tree.thy ===== *)
theory Seq_Tree
  imports Trace_Tree Opening_Items
begin

text \<open>
  \<open>src/verifiable-inference/src/seq.rs\<close>: the leaves of the sequence tree of a trace, one per layer and head, and the opening
  of a byte span of one leaf. Leaves are hashed with BLAKE3; the crate is a parameter, and what is used
  of it (the hash of an input of several chunks is the root of the tree over the chaining values of its
  chunks) is the hypothesis \<open>blake3_tree\<close>. Leaf numbers and lengths, \<open>u64\<close> in the source, are numbers: they count
  leaves and bytes of a trace. The records of a leaf, which hold floating-point numbers, are not modelled.
\<close>

section \<open>Definitions\<close>

definition trace_root :: "merge \<Rightarrow> hash \<Rightarrow> hash \<Rightarrow> hash option" where
  "trace_root b3_merge pos_root seq_root = b3_root b3_merge [pos_root, seq_root]"

record SeqLayout =
  n_attn :: nat
  n_recur :: nat
  heads :: nat

definition n_leaves :: "SeqLayout \<Rightarrow> nat" where
  "n_leaves l = 2 * heads l * (n_attn l + n_recur l) + heads l * n_attn l"

definition kcache :: "SeqLayout \<Rightarrow> nat \<Rightarrow> nat \<Rightarrow> nat option" where
  "kcache l slot h = (if slot < n_attn l \<and> h < heads l then Some (2 * (slot * heads l + h)) else None)"

definition vcache :: "SeqLayout \<Rightarrow> nat \<Rightarrow> nat \<Rightarrow> nat option" where
  "vcache l slot h = map_option (\<lambda>i. i + 1) (kcache l slot h)"

definition record_leaf :: "SeqLayout \<Rightarrow> nat \<Rightarrow> nat \<Rightarrow> nat option" where
  "record_leaf l slot h =
     (if slot < n_recur l \<and> h < heads l then Some (2 * heads l * n_attn l + 2 * (slot * heads l + h)) else None)"

definition checkpoint :: "SeqLayout \<Rightarrow> nat \<Rightarrow> nat \<Rightarrow> nat option" where
  "checkpoint l slot h = map_option (\<lambda>i. i + 1) (record_leaf l slot h)"

definition lse :: "SeqLayout \<Rightarrow> nat \<Rightarrow> nat \<Rightarrow> nat option" where
  "lse l slot h =
     (if slot < n_attn l \<and> h < heads l then Some (2 * heads l * (n_attn l + n_recur l) + slot * heads l + h) else None)"

definition open_span ::
  "(bytes \<Rightarrow> hash) \<Rightarrow> merge \<Rightarrow> (bytes \<Rightarrow> nat \<Rightarrow> hash) \<Rightarrow> hash \<Rightarrow> SeqLayout \<Rightarrow> nat \<Rightarrow> nat \<Rightarrow> nat \<Rightarrow> nat \<Rightarrow> SeqSpan \<Rightarrow> bytes option" where
  "open_span blake3 b3_merge b3_chunk_cv seq_root layout leaf total_len lo hi span =
     (let c = B3_CHUNK
      in if lo \<ge> hi \<or> hi > total_len \<or> unat (sp_first_chunk span) \<noteq> lo div c \<or>
            length (sp_bytes span) \<noteq> min total_len (div_ceil hi c * c) - lo div c * c
         then None
         else do {
           h \<leftarrow> b3_leaf_from_chunks blake3 b3_merge b3_chunk_cv total_len (lo div c) (sp_bytes span) (sp_chunk_proof span);
           root \<leftarrow> b3_fold b3_merge (n_leaves layout) leaf h (sp_leaf_path span);
           if root \<noteq> seq_root then None
           else let base = lo div c * c
                in if hi - base \<le> length (sp_bytes span) then Some (slice (lo - base) (hi - base) (sp_bytes span)) else None })"

definition checkpoint_len :: "nat \<Rightarrow> nat \<Rightarrow> nat \<Rightarrow> nat" where
  "checkpoint_len d n_pos interval = n_pos div interval * d * d * 4"

definition checkpoint_rows :: "nat \<Rightarrow> nat \<Rightarrow> nat \<Rightarrow> nat \<Rightarrow> nat \<times> nat" where
  "checkpoint_rows d m r0 n = (let base = (m - 1) * d * d * 4 in (base + r0 * d * 4, base + (r0 + n) * d * 4))"

section \<open>Chunks of a slice\<close>

lemma chunks_drop: "0 < n \<Longrightarrow> chunks n (drop (a * n) xs) = drop a (chunks n xs)"
proof (induction a arbitrary: xs)
  case (Suc a)
  have "drop (Suc a * n) xs = drop (a * n) (drop n xs)" by (simp add: add.commute)
  then show ?case using Suc by (cases "xs = []") (simp_all add: chunks.simps [of n xs] del: drop_drop)
qed simp

lemma chunks_take: "0 < n \<Longrightarrow> chunks n (take (b * n) xs) = take b (chunks n xs)"
proof (induction b arbitrary: xs)
  case (Suc b)
  show ?case
  proof (cases "xs = []")
    case False
    have "chunks n (take (n + b * n) xs) = take n xs # chunks n (take (b * n) (drop n xs))"
      using False Suc.prems by (subst chunks.simps) (simp add: drop_take)
    then show ?thesis using False Suc by (simp add: chunks.simps [of n xs])
  qed simp
qed simp

lemma chunks_slice: "0 < n \<Longrightarrow> chunks n (slice (a * n) (b * n) xs) = slice a b (chunks n xs)"
  by (cases "a \<le> b") (simp_all add: slice_def chunks_drop chunks_take flip: diff_mult_distrib)

lemma B3_CHUNK_pos [simp]: "0 < B3_CHUNK"
  by (simp add: B3_CHUNK_def)

lemma nth_slice_less: "i < length (slice a b xs) \<Longrightarrow> slice a b xs ! i = xs ! (a + i) \<and> a + i < length xs"
  by (auto simp: nth_slice)

lemma chunk_cvs_slice:
  "chunk_cvs cv a (slice (a * B3_CHUNK) (b * B3_CHUNK) data) = slice a b (chunk_cvs cv 0 data)"
  by (rule nth_equalityI) (auto simp: chunk_cvs_def chunks_slice nth_enumerate_eq nth_slice_less)

lemma length_chunk_cvs: "length (chunk_cvs cv a data) = div_ceil (length data) B3_CHUNK"
  by (simp add: chunk_cvs_def length_chunks)

text \<open>Equal chaining values at equal places: the chunks are equal.\<close>

lemma chunk_cvs_slice_inj:
  assumes "chunk_cvs cv a bs = slice a b (chunk_cvs cv 0 data)"
    and "inj_on (\<lambda>(i, c). cv c i) (set (enumerate a (chunks B3_CHUNK bs)) \<union> set (enumerate 0 (chunks B3_CHUNK data)))"
  shows "bs = slice (a * B3_CHUNK) (b * B3_CHUNK) data"
proof -
  have l: "chunk_cvs cv a bs = map (\<lambda>(i, c). cv c i) (enumerate a (chunks B3_CHUNK bs))"
    by (rule nth_equalityI) (simp_all add: chunk_cvs_def nth_enumerate_eq)
  have r: "slice a b (chunk_cvs cv 0 data) = map (\<lambda>(i, c). cv c i) (enumerate a (slice a b (chunks B3_CHUNK data)))"
    by (rule nth_equalityI) (auto simp: chunk_cvs_def nth_enumerate_eq nth_slice_less)
  have sub: "set (enumerate a (slice a b (chunks B3_CHUNK data))) \<subseteq> set (enumerate 0 (chunks B3_CHUNK data))"
    by (auto simp: in_set_enumerate_eq nth_slice)
  have "inj_on (\<lambda>(i, c). cv c i) (set (enumerate a (chunks B3_CHUNK bs)) \<union> set (enumerate a (slice a b (chunks B3_CHUNK data))))"
    by (rule inj_on_subset [OF assms(2)]) (use sub in blast)
  then have "enumerate a (chunks B3_CHUNK bs) = enumerate a (slice a b (chunks B3_CHUNK data))"
    using iffD1 [OF inj_on_map_eq_map assms(1) [unfolded l r]] by blast
  then have "map snd (enumerate a (chunks B3_CHUNK bs)) = map snd (enumerate a (slice a b (chunks B3_CHUNK data)))" by simp
  then have "chunks B3_CHUNK bs = slice a b (chunks B3_CHUNK data)" by (simp only: map_snd_enumerate)
  then have "concat (chunks B3_CHUNK bs) = concat (chunks B3_CHUNK (slice (a * B3_CHUNK) (b * B3_CHUNK) data))"
    by (simp add: chunks_slice)
  then show ?thesis by (simp add: concat_chunks)
qed

section \<open>Spans of a leaf\<close>

text \<open>BLAKE3 hashes an input of several chunks as the root of the tree over their chaining values.\<close>

definition blake3_tree :: "(bytes \<Rightarrow> hash) \<Rightarrow> merge \<Rightarrow> (bytes \<Rightarrow> nat \<Rightarrow> hash) \<Rightarrow> bool" where
  "blake3_tree blake3 b3_merge b3_chunk_cv \<longleftrightarrow>
     (\<forall>data. B3_CHUNK < length data \<longrightarrow> b3_root b3_merge (chunk_cvs b3_chunk_cv 0 data) = Some (blake3 data))"

text \<open>No two values hashed on the way from the chunks of a span to the hash of its leaf collide.\<close>

definition chunks_distinct ::
  "(bytes \<Rightarrow> hash) \<Rightarrow> merge \<Rightarrow> (bytes \<Rightarrow> nat \<Rightarrow> hash) \<Rightarrow> bytes \<Rightarrow> nat \<Rightarrow> bytes \<Rightarrow> hash list \<Rightarrow> bool" where
  "chunks_distinct blake3 b3_merge cv data first bs proof \<longleftrightarrow> inj_on blake3 {data, bs} \<and>
     inj_on (\<lambda>(i, c). cv c i) (set (enumerate first (chunks B3_CHUNK bs)) \<union> set (enumerate 0 (chunks B3_CHUNK data))) \<and>
     collision_free (b3_f b3_merge)
       (range_pairs (b3_f b3_merge) b3_g (div_ceil (length data) B3_CHUNK) first (chunk_cvs cv first bs) proof \<union>
        tree_pairs (b3_f b3_merge) b3_g (chunk_cvs cv 0 data))"

lemma leaf_from_chunks_sound:
  assumes tree: "blake3_tree blake3 b3_merge cv" and dist: "chunks_distinct blake3 b3_merge cv data first bs proof"
    and some: "b3_leaf_from_chunks blake3 b3_merge cv (length data) first bs proof = Some (blake3 data)"
  shows "bs = slice (first * B3_CHUNK) ((first + div_ceil (length bs) B3_CHUNK) * B3_CHUNK) data"
proof -
  let ?n = "div_ceil (length data) B3_CHUNK" and ?count = "div_ceil (length bs) B3_CHUNK"
  have c: "?count \<noteq> 0" "first + ?count \<le> max ?n 1"
    using some by (auto simp: b3_leaf_from_chunks_def Let_def split: if_splits)
  show ?thesis
  proof (cases "max ?n 1 = 1")
    case True
    then have "blake3 bs = blake3 data" using some c by (auto simp: b3_leaf_from_chunks_def Let_def split: if_splits)
    then have "bs = data" using dist by (auto simp: chunks_distinct_def dest: inj_onD)
    moreover have "first = 0" "length data \<le> ?count * B3_CHUNK"
      using True c div_ceil_le_iff [of B3_CHUNK "length bs" ?count] \<open>bs = data\<close> by auto
    ultimately show ?thesis by (simp add: slice_all)
  next
    case False
    then have n: "max ?n 1 = length (chunk_cvs cv 0 data)" "\<not> ?n \<le> 1" by (auto simp: length_chunk_cvs)
    then have "B3_CHUNK < length data" using div_ceil_le_iff [of B3_CHUNK "length data" 1] by simp
    then have "b3_root b3_merge (chunk_cvs cv 0 data) = Some (blake3 data)" using tree by (simp add: blake3_tree_def)
    moreover have "b3_range_fold b3_merge (length (chunk_cvs cv 0 data)) first (chunk_cvs cv first bs) proof = Some (blake3 data)"
      using some c False unfolding b3_leaf_from_chunks_def Let_def n(1) by (simp split: if_splits)
    moreover have "collision_free (b3_f b3_merge)
        (range_pairs (b3_f b3_merge) b3_g (length (chunk_cvs cv 0 data)) first (chunk_cvs cv first bs) proof \<union>
         tree_pairs (b3_f b3_merge) b3_g (chunk_cvs cv 0 data))"
      using dist by (simp add: chunks_distinct_def length_chunk_cvs)
    ultimately have "chunk_cvs cv first bs = slice first (first + length (chunk_cvs cv first bs)) (chunk_cvs cv 0 data)"
      by (rule b3_range_sound)
    then show ?thesis using dist unfolding length_chunk_cvs chunks_distinct_def by (blast intro: chunk_cvs_slice_inj)
  qed
qed

lemma leaf_from_chunks_complete:
  assumes tree: "blake3_tree blake3 b3_merge cv" and "first < stop" and "stop \<le> div_ceil (length data) B3_CHUNK"
    and "length data \<le> 2 ^ 64"
  defines "bs \<equiv> slice (first * B3_CHUNK) (stop * B3_CHUNK) data"
  shows "\<exists>p. b3_chunks_proof b3_merge cv data first (stop - first) = Some p \<and>
    b3_leaf_from_chunks blake3 b3_merge cv (length data) first bs p = Some (blake3 data)"
proof -
  let ?n = "div_ceil (length data) B3_CHUNK" and ?cvs = "chunk_cvs cv 0 data"
  have "length (slice first stop (chunks B3_CHUNK data)) = stop - first" using assms(3) by (simp add: length_chunks)
  then have count: "div_ceil (length bs) B3_CHUNK = stop - first"
    using length_chunks [of B3_CHUNK bs] unfolding bs_def by (simp add: chunks_slice)
  have len: "length bs = min (length data) (stop * B3_CHUNK) - first * B3_CHUNK" unfolding bs_def by auto
  have n: "max ?n 1 = ?n" using assms(2,3) by simp
  show ?thesis
  proof (cases "?n = 1")
    case True
    then have f: "first = 0" "stop = 1" using assms(2,3) by simp_all
    have "length data \<le> B3_CHUNK" using True div_ceil_le_iff [of B3_CHUNK "length data" 1] by simp
    then have "bs = data" by (simp add: bs_def f slice_all)
    then show ?thesis using True count len f by (simp add: b3_chunks_proof_def b3_leaf_from_chunks_def Let_def length_chunk_cvs)
  next
    case False
    then have "B3_CHUNK < length data" using assms(2,3) div_ceil_le_iff [of B3_CHUNK "length data" 1] by simp
    then have root: "b3_root b3_merge ?cvs = Some (blake3 data)" using tree by (simp add: blake3_tree_def)
    have "?n \<le> length data" by (simp add: div_ceil_le_iff B3_CHUNK_def)
    then have "first + (stop - first) \<le> length ?cvs" "length ?cvs \<le> 2 ^ 64" using assms(2,3,4) by (simp_all add: length_chunk_cvs)
    then obtain p where p: "b3_range_proof b3_merge ?cvs first (stop - first) = Some p"
      "b3_range_fold b3_merge (length ?cvs) first (slice first (first + (stop - first)) ?cvs) p = Some (blake3 data)"
      using b3_range_complete [of "stop - first" first ?cvs b3_merge] assms(2) root by auto
    have "chunk_cvs cv first bs = slice first stop ?cvs" unfolding bs_def by (rule chunk_cvs_slice)
    then show ?thesis using p False count len assms(2,3) n
      by (simp add: b3_chunks_proof_def b3_leaf_from_chunks_def Let_def length_chunk_cvs)
  qed
qed

lemma slice_longer:
  assumes "b \<le> c" and "length (slice a b xs) = length (slice a c xs)"
  shows "slice a b xs = slice a c xs"
proof -
  have "slice a b xs = take (b - a) (slice a c xs)" using assms(1) by (simp add: slice_def min_absorb1)
  then show ?thesis using assms(2) by (metis length_take min.cobounded2 take_all_iff min_def)
qed

text \<open>The chunks around \<open>[lo, hi)\<close>, and the span in them.\<close>

lemma span_in_chunks:
  assumes "lo < hi" and "hi \<le> length data"
  defines "first \<equiv> lo div B3_CHUNK" and "stop \<equiv> div_ceil hi B3_CHUNK"
  shows "first < stop" and "stop \<le> div_ceil (length data) B3_CHUNK"
    and "slice (lo - first * B3_CHUNK) (hi - first * B3_CHUNK) (slice (first * B3_CHUNK) (stop * B3_CHUNK) data) = slice lo hi data"
    and "hi - first * B3_CHUNK \<le> length (slice (first * B3_CHUNK) (stop * B3_CHUNK) data)"
proof -
  have f: "first * B3_CHUNK \<le> lo" by (simp add: first_def)
  have s: "hi \<le> stop * B3_CHUNK" using div_ceil_le_iff [of B3_CHUNK hi stop] by (simp add: stop_def)
  show "first < stop" using f assms(1) unfolding stop_def by (subst less_div_ceil_iff) simp_all
  have "length data \<le> div_ceil (length data) B3_CHUNK * B3_CHUNK" using div_ceil_le_iff [of B3_CHUNK "length data" "div_ceil (length data) B3_CHUNK"] by simp
  then show "stop \<le> div_ceil (length data) B3_CHUNK" using assms(2) unfolding stop_def by (subst div_ceil_le_iff) simp_all
  show "slice (lo - first * B3_CHUNK) (hi - first * B3_CHUNK) (slice (first * B3_CHUNK) (stop * B3_CHUNK) data) = slice lo hi data"
    using slice_in_slice [of "first * B3_CHUNK" "hi - first * B3_CHUNK" "stop * B3_CHUNK" "lo - first * B3_CHUNK" data] f s assms(1) by simp
  show "hi - first * B3_CHUNK \<le> length (slice (first * B3_CHUNK) (stop * B3_CHUNK) data)"
    using s assms(1,2) by (simp add: diff_le_mono)
qed

definition span_distinct ::
  "(bytes \<Rightarrow> hash) \<Rightarrow> merge \<Rightarrow> (bytes \<Rightarrow> nat \<Rightarrow> hash) \<Rightarrow> bytes list \<Rightarrow> nat \<Rightarrow> nat \<Rightarrow> SeqSpan \<Rightarrow> bool" where
  "span_distinct blake3 b3_merge cv D leaf lo span \<longleftrightarrow>
     chunks_distinct blake3 b3_merge cv (D ! leaf) (lo div B3_CHUNK) (sp_bytes span) (sp_chunk_proof span) \<and>
     (case b3_leaf_from_chunks blake3 b3_merge cv (length (D ! leaf)) (lo div B3_CHUNK) (sp_bytes span) (sp_chunk_proof span) of
        None \<Rightarrow> True
      | Some h \<Rightarrow> collision_free (b3_f b3_merge)
          (range_pairs (b3_f b3_merge) b3_g (length D) leaf [h] (sp_leaf_path span) \<union> tree_pairs (b3_f b3_merge) b3_g (map blake3 D)))"

section \<open>Properties\<close>

text \<open>C21: a span that opens against the sequence root is a span of the committed leaf, where no hashed values collide and the leaf has
  the length that the verifier expects.\<close>

theorem opened_span_committed:
  assumes "blake3_tree blake3 b3_merge cv" and "b3_root b3_merge (map blake3 D) = Some seq_root" and "length D = n_leaves l"
    and "span_distinct blake3 b3_merge cv D leaf lo span"
    and "open_span blake3 b3_merge cv seq_root l leaf (length (D ! leaf)) lo hi span = Some v"
  shows "leaf < n_leaves l \<and> v = slice lo hi (D ! leaf) \<and> length v = hi - lo"
proof -
  let ?data = "D ! leaf" and ?first = "lo div B3_CHUNK" and ?bs = "sp_bytes span"
  obtain h where g: "lo < hi" "hi \<le> length ?data" "length ?bs = min (length ?data) (div_ceil hi B3_CHUNK * B3_CHUNK) - ?first * B3_CHUNK"
    and h: "b3_leaf_from_chunks blake3 b3_merge cv (length ?data) ?first ?bs (sp_chunk_proof span) = Some h"
    and fold: "b3_fold b3_merge (n_leaves l) leaf h (sp_leaf_path span) = Some seq_root"
    and v: "v = slice (lo - ?first * B3_CHUNK) (hi - ?first * B3_CHUNK) ?bs"
    using assms(5) by (auto simp: open_span_def Let_def bind_eq_Some_conv split: if_splits)
  have "leaf < length (map blake3 D) \<and> h = map blake3 D ! leaf"
    using b3_leaf_sound [OF assms(2), of leaf h "sp_leaf_path span"] fold assms(3,4) by (simp add: span_distinct_def h)
  then have hd: "leaf < length D" "h = blake3 ?data" by auto
  have sound: "?bs = slice (?first * B3_CHUNK) ((?first + div_ceil (length ?bs) B3_CHUNK) * B3_CHUNK) ?data"
    using leaf_from_chunks_sound [OF assms(1), of ?data ?first ?bs "sp_chunk_proof span"] assms(4) h hd by (simp add: span_distinct_def)
  note sp = span_in_chunks [OF g(1,2)]
  have "length ?bs \<le> (div_ceil hi B3_CHUNK - ?first) * B3_CHUNK" using g(3) by (simp add: diff_mult_distrib)
  then have "?first + div_ceil (length ?bs) B3_CHUNK \<le> div_ceil hi B3_CHUNK"
    using sp(1) div_ceil_le_iff [of B3_CHUNK "length ?bs" "div_ceil hi B3_CHUNK - ?first"] by simp
  moreover have len: "length ?bs = length (slice (?first * B3_CHUNK) (div_ceil hi B3_CHUNK * B3_CHUNK) ?data)" using g(3) by auto
  ultimately have "?bs = slice (?first * B3_CHUNK) (div_ceil hi B3_CHUNK * B3_CHUNK) ?data"
    by (metis sound slice_longer [OF mult_le_mono1] len)
  then have "v = slice lo hi ?data" using v sp(3) by simp
  then show ?thesis using hd(1) assms(3) g(2) by simp
qed

text \<open>A model of the crate over short inputs: the hash of a chunk is the chunk, a merge concatenates.\<close>

definition toy_merge :: merge where "toy_merge a b f = a @ b"
definition toy_cv :: "bytes \<Rightarrow> nat \<Rightarrow> hash" where "toy_cv c i = c"
definition toy_blake3 :: "bytes \<Rightarrow> hash" where
  "toy_blake3 bs = (if length bs \<le> B3_CHUNK then bs else the (b3_root toy_merge (chunk_cvs toy_cv 0 bs)))"

lemma toy_blake3_tree: "blake3_tree toy_blake3 toy_merge toy_cv"
  by (auto simp: blake3_tree_def toy_blake3_def b3_root_def chunk_cvs_def chunks.simps B3_CHUNK_def)

definition toy_layout :: SeqLayout where "toy_layout = \<lparr>n_attn = 0, n_recur = 1, heads = 1\<rparr>"
definition toy_leaves :: "bytes list" where "toy_leaves = [[1, 2, 3, 4], [5, 6]]"
definition toy_span :: SeqSpan where
  "toy_span = \<lparr>sp_first_chunk = 0, sp_bytes = [1, 2, 3, 4], sp_chunk_proof = [], sp_leaf_path = [[5, 6]]\<rparr>"

lemma toy_span_open:
  "b3_root toy_merge (map toy_blake3 toy_leaves) = Some [1, 2, 3, 4, 5, 6]"
  "open_span toy_blake3 toy_merge toy_cv [1, 2, 3, 4, 5, 6] toy_layout 0 4 1 3 toy_span = Some [2, 3]"
  by (simp_all add: toy_leaves_def toy_span_def toy_layout_def toy_blake3_def toy_merge_def open_span_def B3_CHUNK_def Let_def
      b3_leaf_from_chunks_def b3_root_def b3_root_loop.simps b3_level_eq pair_up.simps b3_fold_def b3_fold_loop.simps n_leaves_def div_ceil_def slice_def)

lemma toy_leaf: "length (toy_leaves ! 0) = 4" "length (toy_leaves ! 1) = 2" "toy_leaves ! 1 = [5, 6]"
  by (simp_all add: toy_leaves_def)

theorem opened_span_committed_witness: "[2, 3] = slice 1 3 (toy_leaves ! 0)"
proof -
  have "span_distinct toy_blake3 toy_merge toy_cv toy_leaves 0 1 toy_span"
    by (simp add: span_distinct_def toy_leaves_def toy_span_def toy_blake3_def chunks_distinct_def B3_CHUNK_def b3_leaf_from_chunks_def Let_def
        div_ceil_def chunks.simps chunk_cvs_def toy_cv_def toy_merge_def range_pairs.simps tree_pairs.simps collision_free_def)
  then show ?thesis
    using opened_span_committed [OF toy_blake3_tree toy_span_open(1) _ _ toy_span_open(2) [folded toy_leaf(1)]]
    by (simp add: toy_layout_def n_leaves_def toy_leaves_def)
qed

text \<open>Every span of every leaf can be opened: with the chunks around it, their range proof and the path of the leaf, the verifier
  returns the bytes of the span.\<close>

theorem committed_span_opens:
  assumes "blake3_tree blake3 b3_merge cv" and "b3_root b3_merge (map blake3 D) = Some seq_root" and "length D = n_leaves l"
    and "length D \<le> 2 ^ 64" and "leaf < n_leaves l" and "lo < hi" and "hi \<le> length (D ! leaf)"
    and "length (D ! leaf) \<le> 2 ^ 32"
  shows "\<exists>bs p q. b3_chunks_proof b3_merge cv (D ! leaf) (lo div B3_CHUNK) (div_ceil hi B3_CHUNK - lo div B3_CHUNK) = Some p \<and>
    b3_path b3_merge (map blake3 D) leaf = Some q \<and>
    open_span blake3 b3_merge cv seq_root l leaf (length (D ! leaf)) lo hi
      \<lparr>sp_first_chunk = of_nat (lo div B3_CHUNK), sp_bytes = bs, sp_chunk_proof = p, sp_leaf_path = q\<rparr> = Some (slice lo hi (D ! leaf))"
proof -
  let ?data = "D ! leaf" and ?first = "lo div B3_CHUNK" and ?stop = "div_ceil hi B3_CHUNK"
  note sp = span_in_chunks [OF assms(6,7)]
  define bs where "bs = slice (?first * B3_CHUNK) (?stop * B3_CHUNK) ?data"
  have "length ?data \<le> 2 ^ 64" using assms(8) by simp
  then obtain p where p: "b3_chunks_proof b3_merge cv ?data ?first (?stop - ?first) = Some p"
    "b3_leaf_from_chunks blake3 b3_merge cv (length ?data) ?first bs p = Some (blake3 ?data)"
    using leaf_from_chunks_complete [OF assms(1) sp(1,2)] unfolding bs_def by blast
  obtain q where q: "b3_path b3_merge (map blake3 D) leaf = Some q" "b3_fold b3_merge (n_leaves l) leaf (blake3 ?data) q = Some seq_root"
    using b3_leaf_complete [of leaf "map blake3 D" b3_merge] assms(2-5) by auto
  have "?first < 2 ^ 32"
    using assms(6-8) div_le_dividend [of lo B3_CHUNK] by linarith
  then have f: "unat (of_nat ?first :: u32) = ?first" by (simp add: unat_of_nat)
  have len: "length bs = min (length ?data) (?stop * B3_CHUNK) - ?first * B3_CHUNK" unfolding bs_def by auto
  have "open_span blake3 b3_merge cv seq_root l leaf (length ?data) lo hi
      \<lparr>sp_first_chunk = of_nat ?first, sp_bytes = bs, sp_chunk_proof = p, sp_leaf_path = q\<rparr> = Some (slice lo hi ?data)"
    using assms(6,7) p(2) q(2) f len sp(3,4) unfolding open_span_def Let_def by (simp add: bs_def [symmetric])
  then show ?thesis using p(1) q(1) by blast
qed

theorem committed_span_opens_witness:
  "\<exists>span. open_span toy_blake3 toy_merge toy_cv [1, 2, 3, 4, 5, 6] toy_layout 1 2 0 2 span = Some [5, 6]"
proof -
  have f: "length toy_leaves = n_leaves toy_layout" "length toy_leaves \<le> 2 ^ 64" "1 < n_leaves toy_layout"
    "length (toy_leaves ! 1) \<le> 2 ^ 32" "2 \<le> length (toy_leaves ! 1)" "slice 0 2 [5, 6 :: u8] = [5, 6]"
    by (simp_all add: toy_layout_def n_leaves_def toy_leaves_def slice_def)
  show ?thesis
    using committed_span_opens [OF toy_blake3_tree toy_span_open(1) f(1-3) _ f(5,4), of 0] unfolding toy_leaf(2)
    unfolding toy_leaf(3) f(6) by auto
qed

section \<open>The leaves of a trace\<close>

text \<open>All leaves, layer by layer and head by head: the caches of the attention layers, the records and checkpoints of the
  recurrent layers, the softmax masses.\<close>

definition all_leaves :: "SeqLayout \<Rightarrow> nat option list" where
  "all_leaves l =
     concat (map (\<lambda>slot. concat (map (\<lambda>h. [kcache l slot h, vcache l slot h]) [0..<heads l])) [0..<n_attn l]) @
     concat (map (\<lambda>slot. concat (map (\<lambda>h. [record_leaf l slot h, checkpoint l slot h]) [0..<heads l])) [0..<n_recur l]) @
     concat (map (\<lambda>slot. map (\<lambda>h. lse l slot h) [0..<heads l]) [0..<n_attn l])"

lemma pairs_upt: "concat (map (\<lambda>h. [f (b + 2 * h), f (b + 2 * h + 1)]) [0..<n]) = map f [b..<b + 2 * n]"
proof (induction n)
  case (Suc n)
  have "[b..<b + 2 * Suc n] = [b..<b + 2 * n] @ [b + 2 * n, b + 2 * n + 1]" by simp
  then show ?case using Suc by simp
qed simp

lemma blocks_upt:
  "(\<And>s. s < m \<Longrightarrow> g s = map f [b + s * n..<b + s * n + n]) \<Longrightarrow> concat (map g [0..<m]) = map f [b..<b + m * n]"
proof (induction m)
  case (Suc m)
  have "[b..<b + Suc m * n] = [b..<b + m * n] @ [b + m * n..<b + m * n + n]"
    using upt_add_eq_append [of b "b + m * n" n] by (simp only: mult_Suc add.commute add.left_commute le_add2 simp_thms)
  then show ?case using Suc by simp
qed simp

text \<open>The leaves of the sequence tree do not overlap and cover it: listed layer by layer, key and value caches, records and
  checkpoints, and softmax masses are the numbers from 0 to \<open>n_leaves - 1\<close> in order, each once.\<close>

theorem sequence_leaves_in_order: "all_leaves l = map Some [0..<n_leaves l]"
proof -
  let ?H = "heads l" and ?A = "n_attn l" and ?R = "n_recur l"
  have "concat (map (\<lambda>h. [kcache l s h, vcache l s h]) [0..<?H]) = map Some [0 + s * (2 * ?H)..<0 + s * (2 * ?H) + 2 * ?H]" if "s < ?A" for s
  proof -
    have "map (\<lambda>h. [kcache l s h, vcache l s h]) [0..<?H] = map (\<lambda>h. [Some (s * (2 * ?H) + 2 * h), Some (s * (2 * ?H) + 2 * h + 1)]) [0..<?H]"
      using that by (simp add: kcache_def vcache_def algebra_simps)
    then show ?thesis by (simp only: pairs_upt add_0)
  qed
  then have k: "concat (map (\<lambda>s. concat (map (\<lambda>h. [kcache l s h, vcache l s h]) [0..<?H])) [0..<?A]) = map Some [0..<0 + ?A * (2 * ?H)]"
    by (rule blocks_upt)
  let ?b = "2 * ?H * ?A"
  have "concat (map (\<lambda>h. [record_leaf l s h, checkpoint l s h]) [0..<?H]) = map Some [?b + s * (2 * ?H)..<?b + s * (2 * ?H) + 2 * ?H]" if "s < ?R" for s
  proof -
    have "map (\<lambda>h. [record_leaf l s h, checkpoint l s h]) [0..<?H] =
        map (\<lambda>h. [Some (?b + s * (2 * ?H) + 2 * h), Some (?b + s * (2 * ?H) + 2 * h + 1)]) [0..<?H]"
      using that by (simp add: record_leaf_def checkpoint_def algebra_simps)
    then show ?thesis by (simp only: pairs_upt)
  qed
  then have r: "concat (map (\<lambda>s. concat (map (\<lambda>h. [record_leaf l s h, checkpoint l s h]) [0..<?H])) [0..<?R]) = map Some [?b..<?b + ?R * (2 * ?H)]"
    by (rule blocks_upt)
  let ?c = "2 * ?H * (?A + ?R)"
  have "map (lse l s) [0..<?H] = map Some [?c + s * ?H..<?c + s * ?H + ?H]" if "s < ?A" for s
    using that by (intro nth_equalityI) (simp_all add: lse_def)
  then have m: "concat (map (\<lambda>s. map (\<lambda>h. lse l s h) [0..<?H]) [0..<?A]) = map Some [?c..<?c + ?A * ?H]"
    by (rule blocks_upt)
  have e: "0 + ?A * (2 * ?H) = ?b" "?b + ?R * (2 * ?H) = ?c" "?c + ?A * ?H = n_leaves l"
    by (simp_all add: n_leaves_def algebra_simps)
  have le: "0 \<le> ?b" "?b \<le> ?c" "?c \<le> n_leaves l" by (simp_all add: n_leaves_def algebra_simps)
  have split: "[i..<k] = [i..<j] @ [j..<k]" if "i \<le> j" "j \<le> k" for i j k :: nat
    using that upt_add_eq_append [of i j "k - j"] by simp
  have "[0..<n_leaves l] = [0..<?b] @ [?b..<?c] @ [?c..<n_leaves l]" using split le by (metis le_trans)
  then show ?thesis unfolding all_leaves_def k r m e by simp
qed

end
