(* ===== verification/Block_Tree.thy ===== *)
theory Block_Tree
  imports Prelude
begin

text \<open>
  The tree over cache positions that an attention opening descends, one level per phase:
  \<open>block_params\<close> and \<open>BlockTree\<close> of \<open>src/verifiable-inference/src/attn_blocks.rs\<close>. The softmax partials that the nodes
  carry are floating-point values and are not modelled.

  Positions and leaf numbers, \<open>u64\<close> in the source, are numbers: all are at most \<open>hi + c\<close>. The saturating
  operations are written out. Two loops may run forever for parameters that the code does not rule out
  where it enters them: they are partial functions, and \<open>None\<close> is a call that never returns. The option
  that the source returns is inside: \<open>Some None\<close> is its \<open>None\<close>.

  The lemmas show when the loops end and with which value, that the children of a node are its positions
  cut into consecutive runs, and that every position lies in exactly one leaf.
\<close>

section \<open>Definitions\<close>

definition BLOCK_BUDGET :: nat where "BLOCK_BUDGET = 96 * 1024"

text \<open>\<open>while 2 * n * unit <= budget { n *= 2; }\<close>, on 64-bit words.\<close>

partial_function (option) fit_loop :: "u64 \<Rightarrow> u64 \<Rightarrow> u64 \<Rightarrow> u64 option" where
  "fit_loop budget unit n = (if 2 * n * unit \<le> budget then fit_loop budget unit (n * 2) else Some n)"

declare fit_loop.simps [code]

definition fit :: "u64 \<Rightarrow> u64 option option" where
  "fit unit = do {
     let budget = of_nat BLOCK_BUDGET;
     n \<leftarrow> fit_loop budget unit 1;
     Some (if unit > 0 \<and> n * unit \<le> budget then Some n else None) }"

definition block_params :: "u64 \<Rightarrow> u64 \<Rightarrow> (u64 \<times> u64) option option" where
  "block_params row_bytes partial_bytes = do {
     c \<leftarrow> fit row_bytes;
     case c of
       None \<Rightarrow> Some None
     | Some c \<Rightarrow> do {
         b \<leftarrow> fit partial_bytes;
         Some (case b of None \<Rightarrow> None | Some b \<Rightarrow> if b \<ge> 2 then Some (c, b) else None) } }"

record BlockTree =
  bt_lo :: nat
  bt_hi :: nat
  bt_c :: nat
  bt_b :: nat

definition block_tree_new :: "nat \<Rightarrow> nat \<Rightarrow> nat \<Rightarrow> nat \<Rightarrow> BlockTree option" where
  "block_tree_new lo hi c b = (if lo < hi \<and> c \<ge> 1 \<and> b \<ge> 2 then Some \<lparr>bt_lo = lo, bt_hi = hi, bt_c = c, bt_b = b\<rparr> else None)"

definition tree_leaves :: "BlockTree \<Rightarrow> nat" where
  "tree_leaves t = (bt_hi t - 1) div bt_c t - bt_lo t div bt_c t + 1"

definition U64_MAX :: nat where "U64_MAX = 2 ^ 64 - 1"

definition saturating_mul :: "nat \<Rightarrow> nat \<Rightarrow> nat" where "saturating_mul a b = min U64_MAX (a * b)"
definition saturating_pow :: "nat \<Rightarrow> nat \<Rightarrow> nat" where "saturating_pow a k = min U64_MAX (a ^ k)"

partial_function (option) depth_loop :: "nat \<Rightarrow> nat \<Rightarrow> nat \<Rightarrow> nat \<Rightarrow> nat option" where
  "depth_loop b n d span = (if span < n then depth_loop b n (d + 1) (saturating_mul span b) else Some d)"

declare depth_loop.simps [code]

definition depth :: "BlockTree \<Rightarrow> nat option" where
  "depth t = depth_loop (bt_b t) (tree_leaves t) 0 1"

definition leaves_per_node :: "BlockTree \<Rightarrow> nat \<Rightarrow> nat \<Rightarrow> nat" where
  "leaves_per_node t d level = saturating_pow (bt_b t) (d - level)"

definition positions :: "BlockTree \<Rightarrow> nat \<Rightarrow> nat \<Rightarrow> nat \<times> nat" where
  "positions t a z =
     (let first = bt_lo t div bt_c t in (max (bt_lo t) ((first + a) * bt_c t), min (bt_hi t) ((first + z) * bt_c t)))"

fun leaf_loop :: "BlockTree \<Rightarrow> nat \<Rightarrow> nat \<Rightarrow> nat list \<Rightarrow> nat \<Rightarrow> nat \<Rightarrow> (nat \<times> nat) option" where
  "leaf_loop t d level [] a z = Some (a, z)"
| "leaf_loop t d level (i # path) a z =
     (let s = leaves_per_node t d (level + 1)
      in if i \<ge> div_ceil (z - a) s then None
         else let a = a + i * s in leaf_loop t d (level + 1) path a (min z (a + s)))"

definition leaf_range :: "BlockTree \<Rightarrow> nat list \<Rightarrow> (nat \<times> nat) option option" where
  "leaf_range t path = do {
     d \<leftarrow> depth t;
     Some (if length path > d then None else leaf_loop t d 0 path 0 (tree_leaves t)) }"

definition node :: "BlockTree \<Rightarrow> nat list \<Rightarrow> (nat \<times> nat) option option" where
  "node t path = map_option (map_option (\<lambda>(a, z). positions t a z)) (leaf_range t path)"

text \<open>\<open>(a..z).step_by(s)\<close>\<close>

definition step_by :: "nat \<Rightarrow> nat \<Rightarrow> nat \<Rightarrow> nat list" where
  "step_by a z s = map (\<lambda>k. a + k * s) [0..<div_ceil (z - a) s]"

definition children :: "BlockTree \<Rightarrow> nat list \<Rightarrow> (nat \<times> nat) list option option" where
  "children t path = do {
     d \<leftarrow> depth t;
     if length path \<ge> d then Some None
     else do {
       r \<leftarrow> leaf_range t path;
       Some (map_option
         (\<lambda>(a, z). let s = leaves_per_node t d (length path + 1) in map (\<lambda>x. positions t x (min z (x + s))) (step_by a z s)) r) } }"

section \<open>The loops\<close>

text \<open>Once doubled to zero, as a unit of 0 or of \<open>2 ^ 63\<close> bytes is, the product of the loop of \<open>fit\<close> never exceeds the
  budget; any other product grows until it does.\<close>

lemma fit_loop_stuck: "2 * n * unit = 0 \<Longrightarrow> fit_loop budget unit n = None"
proof -
  have "2 * n * unit \<noteq> 0" if "fit_loop budget unit n = Some m" for budget unit n m
  proof (rule fit_loop.raw_induct [of "\<lambda>b u n m. 2 * n * u \<noteq> 0", OF _ that])
    fix loop and b u n m :: u64
    assume ih: "\<And>b u n m. loop b u n = Some m \<Longrightarrow> 2 * n * u \<noteq> 0"
      and body: "(if 2 * n * u \<le> b then loop b u (n * 2) else Some n) = Some m"
    show "2 * n * u \<noteq> 0"
    proof
      assume z: "2 * n * u = 0"
      then have "2 * (n * 2) * u \<noteq> 0" using ih [of b u "n * 2" m] body by simp
      moreover have "2 * (n * 2) * u = 2 * (2 * n * u)" by (simp add: ac_simps)
      ultimately show False using z by simp
    qed
  qed
  then show "2 * n * unit = 0 \<Longrightarrow> fit_loop budget unit n = None" by (metis option.exhaust)
qed

lemma fit_loop_grows:
  assumes "2 * n * unit \<noteq> 0" and "unat budget < 2 ^ 62"
  shows "fit_loop budget unit n \<noteq> None"
  using assms(1)
proof (induction "Suc (unat budget) - unat (2 * n * unit)" arbitrary: n rule: less_induct)
  case less
  show ?case
  proof (cases "2 * n * unit \<le> budget")
    case True
    define x where "x = 2 * n * unit"
    have x: "0 < unat x" "unat x \<le> unat budget" using less.prems True by (simp_all add: x_def word_le_nat_alt unat_gt_0)
    have "unat (2 * x) = 2 * unat x" using x(2) assms(2) by (simp add: unat_word_ariths)
    moreover have n: "2 * (n * 2) * unit = 2 * x" by (simp add: x_def ac_simps)
    ultimately have u: "unat (2 * (n * 2) * unit) = 2 * unat x" by simp
    then have "2 * (n * 2) * unit \<noteq> 0" using x(1) by (metis mult_eq_0_iff not_less_zero unat_0 zero_neq_numeral)
    moreover have "Suc (unat budget) - unat (2 * (n * 2) * unit) < Suc (unat budget) - unat (2 * n * unit)"
      unfolding u x_def [symmetric] using x assms(2) by linarith
    ultimately have "fit_loop budget unit (n * 2) \<noteq> None" using less.hyps by blast
    then show ?thesis using True by (subst fit_loop.simps) simp
  next
    case False
    then show ?thesis by (subst fit_loop.simps) simp
  qed
qed

lemma fit_ends: "fit unit = None \<longleftrightarrow> unat unit = 0 \<or> unat unit = 2 ^ 63"
proof -
  have "(2 * unit = 0) = (unat (2 * unit) = 0)" by (simp add: unat_eq_zero)
  also have "\<dots> \<longleftrightarrow> 2 * unat unit mod 2 ^ 64 = 0" by (simp add: unat_word_ariths)
  also have "\<dots> \<longleftrightarrow> unat unit = 0 \<or> unat unit = 2 ^ 63"
  proof -
    have "x < 2 ^ 64 \<Longrightarrow> 2 * x mod 2 ^ 64 = 0 \<longleftrightarrow> x = 0 \<or> x = 2 ^ 63" for x :: nat by (auto simp: mod_eq_0_iff_dvd elim!: dvdE)
    then show ?thesis using unsigned_less [of unit] by simp
  qed
  finally have z: "2 * 1 * unit = 0 \<longleftrightarrow> unat unit = 0 \<or> unat unit = 2 ^ 63" by simp
  have "fit unit = None \<longleftrightarrow> fit_loop (of_nat BLOCK_BUDGET) unit 1 = None"
    by (simp add: fit_def Let_def bind_eq_None_conv)
  also have "\<dots> \<longleftrightarrow> 2 * 1 * unit = 0"
    using fit_loop_stuck [of 1 unit "of_nat BLOCK_BUDGET"] fit_loop_grows [of 1 unit "of_nat BLOCK_BUDGET"]
    by (cases "2 * unit = 0") (simp_all add: BLOCK_BUDGET_def)
  finally show ?thesis unfolding z .
qed

lemma fit_loop_ends:
  assumes "0 < unit" and "unit < 2 ^ 63" and "budget < 2 ^ 62" and "m = 2 ^ k" and "m * unit \<le> budget \<or> m = 1"
  shows "\<exists>j. fit_loop (of_nat budget) (of_nat unit) (of_nat m) = Some (of_nat (2 ^ j)) \<and> (2 ^ j * unit \<le> budget \<or> j = 0) \<and>
    budget < 2 * 2 ^ j * unit"
  using assms(4,5)
proof (induction "budget - m" arbitrary: m k rule: less_induct)
  case less
  have "m * unit < 2 ^ 63" using less.prems(2) assms(2,3) by auto
  then have "2 * m * unit < 2 ^ 64" by simp
  then have "unat (of_nat (2 * m * unit) :: u64) = 2 * m * unit" by (rule unat_of_nat_u64)
  then have le: "(2 :: u64) * of_nat m * of_nat unit \<le> of_nat budget \<longleftrightarrow> 2 * m * unit \<le> budget"
    using assms(3) by (simp add: word_le_nat_alt unat_of_nat_u64)
  show ?case
  proof (cases "2 * m * unit \<le> budget")
    case True
    have "0 < m" using less.prems(1) by simp
    moreover have "2 * m * 1 \<le> 2 * m * unit" using assms(1) by (intro mult_le_mono2) simp
    ultimately have "budget - 2 * m < budget - m" using True by linarith
    from less.hyps [OF this, of "k + 1"] have "\<exists>j. fit_loop (of_nat budget) (of_nat unit) (of_nat (2 * m)) = Some (of_nat (2 ^ j)) \<and>
        (2 ^ j * unit \<le> budget \<or> j = 0) \<and> budget < 2 * 2 ^ j * unit"
      using True less.prems(1) by simp
    moreover have "fit_loop (of_nat budget) (of_nat unit) (of_nat m) = fit_loop (of_nat budget) (of_nat unit) (of_nat (2 * m))"
      using True le by (subst fit_loop.simps) (simp add: mult.commute)
    ultimately show ?thesis by simp
  next
    case False
    have "fit_loop (of_nat budget) (of_nat unit) (of_nat m) = Some (of_nat (2 ^ k))"
      using False le less.prems(1) by (subst fit_loop.simps) simp
    moreover have "m = 1 \<Longrightarrow> k = 0" using less.prems(1) by (cases k) auto
    ultimately show ?thesis using False less.prems by (intro exI [of _ k]) auto
  qed
qed

text \<open>A unit that fits: the largest power of two whose units the budget holds.\<close>

lemma fit_value:
  assumes "0 < unat unit" and "unat unit < 2 ^ 63"
  shows "if unat unit \<le> BLOCK_BUDGET
    then \<exists>j. fit unit = Some (Some (of_nat (2 ^ j))) \<and> 2 ^ j * unat unit \<le> BLOCK_BUDGET \<and> BLOCK_BUDGET < 2 * 2 ^ j * unat unit
    else fit unit = Some None"
proof -
  have "BLOCK_BUDGET < 2 ^ 62" by (simp add: BLOCK_BUDGET_def)
  from fit_loop_ends [OF assms this, of 1 0] obtain j where
    j: "fit_loop (of_nat BLOCK_BUDGET) unit 1 = Some (of_nat (2 ^ j))" "2 ^ j * unat unit \<le> BLOCK_BUDGET \<or> j = 0"
      "BLOCK_BUDGET < 2 * 2 ^ j * unat unit" by auto
  have u: "unit > 0" using assms(1) by (simp add: word_greater_zero_iff unat_gt_0)
  have "2 ^ j * unat unit < 2 ^ 64" using j(2) assms(2) by (auto simp: BLOCK_BUDGET_def)
  then have "unat (of_nat (2 ^ j * unat unit) :: u64) = 2 ^ j * unat unit" by (rule unat_of_nat_u64)
  then have "of_nat (2 ^ j) * unit \<le> of_nat BLOCK_BUDGET \<longleftrightarrow> 2 ^ j * unat unit \<le> BLOCK_BUDGET"
    by (simp add: word_le_nat_alt BLOCK_BUDGET_def)
  then have f: "fit unit = Some (if 2 ^ j * unat unit \<le> BLOCK_BUDGET then Some (of_nat (2 ^ j)) else None)"
    using j(1) u by (simp add: fit_def Let_def)
  show ?thesis
  proof (cases "unat unit \<le> BLOCK_BUDGET")
    case True
    then have "2 ^ j * unat unit \<le> BLOCK_BUDGET" using j(2) by auto
    then show ?thesis using True f j(3) by auto
  next
    case False
    have "1 * unat unit \<le> 2 ^ j * unat unit" by (rule mult_le_mono1) simp
    with False have "\<not> 2 ^ j * unat unit \<le> BLOCK_BUDGET" by linarith
    then show ?thesis using f False by simp
  qed
qed

text \<open>The depth is the least power of the branching that holds the leaves; with fewer than two children per node the loop
  never ends, unless one leaf is all there is.\<close>

lemma depth_loop_ends:
  assumes "2 \<le> b" and "n \<le> U64_MAX" and "span = b ^ d" and "d = 0 \<or> b ^ (d - 1) < n"
  shows "\<exists>e. depth_loop b n d (min U64_MAX span) = Some e \<and> n \<le> b ^ e \<and> (e = 0 \<or> b ^ (e - 1) < n)"
  using assms(3,4)
proof (induction "n - span" arbitrary: d span rule: less_induct)
  case less
  show ?case
  proof (cases "span < n")
    case True
    have "0 < span" using less.prems(1) assms(1) by simp
    then have "span < span * b" using assms(1) by simp
    then have "n - span * b < n - span" using True by linarith
    moreover have "span * b = b ^ (d + 1)" using less.prems(1) by simp
    moreover have "d + 1 = 0 \<or> b ^ (d + 1 - 1) < n" using True less.prems(1) by simp
    ultimately have "\<exists>e. depth_loop b n (d + 1) (min U64_MAX (span * b)) = Some e \<and> n \<le> b ^ e \<and> (e = 0 \<or> b ^ (e - 1) < n)"
      by (rule less.hyps)
    moreover have "depth_loop b n d (min U64_MAX span) = depth_loop b n (d + 1) (min U64_MAX (span * b))"
      using True assms(2) by (subst depth_loop.simps) (simp add: saturating_mul_def min_def)
    ultimately show ?thesis by simp
  next
    case False
    then have "\<not> min U64_MAX span < n" using assms(2) by auto
    then have "depth_loop b n d (min U64_MAX span) = Some d" by (subst depth_loop.simps) (simp only: if_False)
    then show ?thesis using False less.prems by auto
  qed
qed

lemma depth_loop_stuck: "b < 2 \<Longrightarrow> span \<le> 1 \<Longrightarrow> 1 < n \<Longrightarrow> depth_loop b n d span = None"
proof -
  have "\<not> (b < 2 \<and> span \<le> 1 \<and> 1 < n)" if "depth_loop b n d span = Some e" for b n d span e
  proof (rule depth_loop.raw_induct [of "\<lambda>b n d span e. \<not> (b < 2 \<and> span \<le> 1 \<and> 1 < n)", OF _ that])
    fix loop :: "nat \<Rightarrow> nat \<Rightarrow> nat \<Rightarrow> nat \<Rightarrow> nat option" and b n d span e
    assume ih: "\<And>b n d span e. loop b n d span = Some e \<Longrightarrow> \<not> (b < 2 \<and> span \<le> 1 \<and> 1 < n)"
      and body: "(if span < n then loop b n (d + 1) (saturating_mul span b) else Some d) = Some e"
    show "\<not> (b < 2 \<and> span \<le> 1 \<and> 1 < n)"
    proof
      assume a: "b < 2 \<and> span \<le> 1 \<and> 1 < n"
      then have "span * b \<le> 1 * 1" by (intro mult_le_mono) auto
      then have "saturating_mul span b \<le> 1" by (simp add: saturating_mul_def min.coboundedI2)
      then show False using ih [of b n "d + 1" "saturating_mul span b" e] body a by (auto split: if_splits)
    qed
  qed
  then show "b < 2 \<Longrightarrow> span \<le> 1 \<Longrightarrow> 1 < n \<Longrightarrow> depth_loop b n d span = None" by (metis option.exhaust)
qed

text \<open>A tree that \<open>BlockTree::new\<close> makes, over 64-bit positions.\<close>

definition tree_ok :: "BlockTree \<Rightarrow> bool" where
  "tree_ok t \<longleftrightarrow> bt_lo t < bt_hi t \<and> 1 \<le> bt_c t \<and> 2 \<le> bt_b t \<and> bt_hi t \<le> U64_MAX"

lemma tree_leaves_bounds:
  assumes "tree_ok t"
  shows "1 \<le> tree_leaves t" and "tree_leaves t \<le> U64_MAX"
proof -
  have "(bt_hi t - 1) div bt_c t \<le> bt_hi t - 1" by (rule div_le_dividend)
  moreover have "1 \<le> bt_hi t" "bt_hi t \<le> U64_MAX" using assms by (simp_all add: tree_ok_def)
  ultimately show "1 \<le> tree_leaves t" "tree_leaves t \<le> U64_MAX" unfolding tree_leaves_def by linarith+
qed

lemma depth_value:
  assumes "tree_ok t"
  shows "\<exists>d. depth t = Some d \<and> tree_leaves t \<le> bt_b t ^ d \<and> (d = 0 \<or> bt_b t ^ (d - 1) < tree_leaves t)"
  using depth_loop_ends [of "bt_b t" "tree_leaves t" 1 0] assms tree_leaves_bounds(2) [OF assms]
  by (simp add: depth_def tree_ok_def U64_MAX_def)

section \<open>Nodes\<close>

text \<open>Below the root the power that sizes a node never saturates.\<close>

lemma leaves_per_node_exact:
  assumes "tree_ok t" and "depth t = Some d" and "1 \<le> level" and "level \<le> d"
  shows "leaves_per_node t d level = bt_b t ^ (d - level)"
proof -
  obtain e where "depth t = Some e" "e = 0 \<or> bt_b t ^ (e - 1) < tree_leaves t" using depth_value [OF assms(1)] by blast
  then have "bt_b t ^ (d - 1) < tree_leaves t" using assms(2-4) by auto
  moreover have "bt_b t ^ (d - level) \<le> bt_b t ^ (d - 1)" using assms(1,3) by (intro power_increasing) (auto simp: tree_ok_def)
  ultimately show ?thesis using tree_leaves_bounds(2) [OF assms(1)] by (simp add: leaves_per_node_def saturating_pow_def min_def)
qed

text \<open>The position where leaf \<open>x\<close> starts, and the leaf of a position.\<close>

definition cut :: "BlockTree \<Rightarrow> nat \<Rightarrow> nat" where
  "cut t x = (if x = 0 then bt_lo t else if x < tree_leaves t then (bt_lo t div bt_c t + x) * bt_c t else bt_hi t)"

definition leaf_of :: "BlockTree \<Rightarrow> nat \<Rightarrow> nat" where
  "leaf_of t p = p div bt_c t - bt_lo t div bt_c t"

lemma leaf_of_range:
  assumes "tree_ok t" and "bt_lo t \<le> p" and "p < bt_hi t"
  shows "leaf_of t p < tree_leaves t" and "bt_lo t div bt_c t + leaf_of t p = p div bt_c t"
proof -
  have "bt_lo t div bt_c t \<le> p div bt_c t" using assms(2) by (rule div_le_mono)
  moreover have "p div bt_c t \<le> (bt_hi t - 1) div bt_c t" using assms(3) by (intro div_le_mono) simp
  ultimately show "leaf_of t p < tree_leaves t" "bt_lo t div bt_c t + leaf_of t p = p div bt_c t"
    by (simp_all add: leaf_of_def tree_leaves_def)
qed

lemma cut_le_iff:
  assumes "tree_ok t" and "bt_lo t \<le> p" and "p < bt_hi t"
  shows "cut t x \<le> p \<longleftrightarrow> x \<le> leaf_of t p"
proof -
  note l = leaf_of_range [OF assms]
  have c: "0 < bt_c t" using assms(1) by (simp add: tree_ok_def)
  have "(bt_lo t div bt_c t + x) * bt_c t \<le> p \<longleftrightarrow> bt_lo t div bt_c t + x \<le> p div bt_c t"
    using less_eq_div_iff_mult_less_eq [OF c] by simp
  also have "\<dots> \<longleftrightarrow> x \<le> leaf_of t p" using l(2) by linarith
  finally show ?thesis using assms(2,3) l(1) by (auto simp: cut_def)
qed

lemma cut_range:
  assumes "tree_ok t" and "x < tree_leaves t"
  shows "bt_lo t \<le> cut t x" and "cut t x < bt_hi t" and "leaf_of t (cut t x) = x" and "0 < x \<Longrightarrow> bt_lo t < cut t x"
proof -
  have c: "0 < bt_c t" and lo: "bt_lo t < bt_hi t" using assms(1) by (simp_all add: tree_ok_def)
  let ?f = "bt_lo t div bt_c t" and ?l = "(bt_hi t - 1) div bt_c t"
  have "?f \<le> ?l" using lo by (intro div_le_mono) simp
  then have "?f + x \<le> ?l" using assms(2) unfolding tree_leaves_def by linarith
  then have "(?f + x) * bt_c t \<le> bt_hi t - 1" using less_eq_div_iff_mult_less_eq [OF c] by simp
  then have below: "(?f + x) * bt_c t < bt_hi t" using lo by linarith
  have above: "bt_lo t < (?f + x) * bt_c t" if "0 < x"
    using div_less_iff_less_mult [OF c, of "bt_lo t" "?f + x"] that by simp
  show "bt_lo t \<le> cut t x" "cut t x < bt_hi t" "leaf_of t (cut t x) = x" "0 < x \<Longrightarrow> bt_lo t < cut t x"
    using assms(2) lo below above c by (cases "x = 0"; simp add: cut_def leaf_of_def less_imp_le)+
qed

lemma cut_end: "tree_ok t \<Longrightarrow> cut t (tree_leaves t) = bt_hi t"
  using tree_leaves_bounds(1) [of t] by (simp add: cut_def)

lemma cut_strict_mono:
  assumes "tree_ok t" and "x < y" and "y \<le> tree_leaves t"
  shows "cut t x < cut t y"
proof (cases "y = tree_leaves t")
  case True
  then show ?thesis using cut_range(2) [OF assms(1)] cut_end [OF assms(1)] assms(2) by simp
next
  case False
  have x: "x < tree_leaves t" using assms(2,3) by simp
  note r = cut_range(1-3) [OF assms(1) x]
  have "\<not> cut t y \<le> cut t x" using cut_le_iff [OF assms(1) r(1,2)] r(3) assms(2) by simp
  then show ?thesis by simp
qed

lemma positions_cut:
  assumes "tree_ok t" and "a < z" and "z \<le> tree_leaves t"
  shows "positions t a z = (cut t a, cut t z)"
proof -
  have c: "0 < bt_c t" and lo: "bt_lo t < bt_hi t" using assms(1) by (simp_all add: tree_ok_def)
  let ?f = "bt_lo t div bt_c t" and ?l = "(bt_hi t - 1) div bt_c t"
  have fl: "?f * bt_c t \<le> bt_lo t" by simp
  have top: "bt_hi t \<le> (?f + tree_leaves t) * bt_c t"
  proof -
    have "?f \<le> ?l" using lo by (intro div_le_mono) simp
    then have "?l < ?f + tree_leaves t" by (simp add: tree_leaves_def)
    then have "bt_hi t - 1 < (?f + tree_leaves t) * bt_c t" using div_less_iff_less_mult [OF c] by blast
    then show ?thesis by simp
  qed
  have a: "a < tree_leaves t" using assms(2,3) by simp
  have "max (bt_lo t) ((?f + a) * bt_c t) = cut t a"
    using a max.absorb1 [OF fl] cut_range(1) [OF assms(1) a] by (cases "a = 0") (simp_all add: cut_def)
  moreover have "min (bt_hi t) ((?f + z) * bt_c t) = cut t z"
  proof (cases "z = tree_leaves t")
    case True
    then show ?thesis using top cut_end [OF assms(1)] by (simp add: min.absorb1)
  next
    case False
    then have "z < tree_leaves t" "z \<noteq> 0" using assms(2,3) by simp_all
    then show ?thesis using cut_range(2) [OF assms(1), of z] by (simp add: cut_def min.absorb2 less_imp_le)
  qed
  ultimately show ?thesis by (simp add: positions_def Let_def)
qed

text \<open>The loop of \<open>leaf_range\<close>: a node at a level spans at most as many leaves as its level can hold, and its children are
  runs of a full child each, the last one cut off.\<close>

lemma leaf_loop_Cons:
  assumes "tree_ok t" and "depth t = Some d" and "level < d"
  defines "s \<equiv> bt_b t ^ (d - (level + 1))"
  shows "leaf_loop t d level (i # path) a z =
    (if i \<ge> div_ceil (z - a) s then None else leaf_loop t d (level + 1) path (a + i * s) (min z (a + i * s + s)))"
  using leaves_per_node_exact [OF assms(1,2), of "level + 1"] assms(3) by (simp add: s_def Let_def)

declare leaf_loop.simps(2) [simp del]

lemma child_of_leaf:
  assumes "0 < s" and "a \<le> x" and "x < z"
  shows "i < div_ceil (z - a) s \<and> a + i * s \<le> x \<and> x < min z (a + i * s + s) \<longleftrightarrow> i = (x - a) div s"
proof -
  have eq: "i = (x - a) div s \<longleftrightarrow> i * s \<le> x - a \<and> x - a < i * s + s"
  proof
    assume "i = (x - a) div s"
    then have "i * s + (x - a) mod s = x - a" by simp
    then show "i * s \<le> x - a \<and> x - a < i * s + s"
      using mod_less_divisor [OF assms(1), of "x - a"] by (intro conjI) linarith+
  next
    assume "i * s \<le> x - a \<and> x - a < i * s + s"
    then show "i = (x - a) div s" using assms(1) by (intro div_nat_eqI [symmetric]) (simp_all add: algebra_simps)
  qed
  have "i * s \<le> x - a \<and> x - a < i * s + s \<longleftrightarrow> i * s < z - a \<and> a + i * s \<le> x \<and> x < min z (a + i * s + s)"
    using assms(2,3) by (auto simp: min_def)
  then show ?thesis unfolding eq less_div_ceil_iff [OF assms(1)] by blast
qed

text \<open>A node lies in the node it was reached from, and it holds as many leaves as its level allows.\<close>

lemma leaf_loop_inside:
  assumes ok: "tree_ok t" and d: "depth t = Some d"
  shows "leaf_loop t d level path a z = Some (a', z') \<Longrightarrow> level + length path \<le> d \<Longrightarrow> a < z \<Longrightarrow> z - a \<le> bt_b t ^ (d - level) \<Longrightarrow>
    a \<le> a' \<and> a' < z' \<and> z' \<le> z \<and> z' - a' \<le> bt_b t ^ (d - (level + length path))"
proof (induction path arbitrary: level a z)
  case (Cons i path)
  define s where "s = bt_b t ^ (d - (level + 1))"
  have s: "0 < s" using ok by (simp add: s_def tree_ok_def)
  have lev: "level < d" using Cons.prems(2) by simp
  have i: "i < div_ceil (z - a) s" "leaf_loop t d (level + 1) path (a + i * s) (min z (a + i * s + s)) = Some (a', z')"
    using Cons.prems(1) by (auto simp: leaf_loop_Cons [OF ok d lev] s_def split: if_splits)
  have "i * s < z - a" using i(1) less_div_ceil_iff [OF s] by blast
  then have "a + i * s < min z (a + i * s + s)" using s by simp
  moreover have "min z (a + i * s + s) - (a + i * s) \<le> bt_b t ^ (d - (level + 1))" by (simp add: s_def)
  moreover have "level + 1 + length path \<le> d" using Cons.prems(2) by simp
  ultimately have "a + i * s \<le> a' \<and> a' < z' \<and> z' \<le> min z (a + i * s + s) \<and> z' - a' \<le> bt_b t ^ (d - (level + 1 + length path))"
    using Cons.IH i(2) by blast
  then show ?case by simp
qed auto

text \<open>Every leaf below a node is reached by exactly one path of a given length.\<close>

lemma leaf_loop_unique:
  assumes ok: "tree_ok t" and d: "depth t = Some d"
  shows "level + k \<le> d \<Longrightarrow> a \<le> x \<Longrightarrow> x < z \<Longrightarrow> z - a \<le> bt_b t ^ (d - level) \<Longrightarrow>
    \<exists>!path. length path = k \<and> (\<exists>a' z'. leaf_loop t d level path a z = Some (a', z') \<and> a' \<le> x \<and> x < z')"
proof (induction k arbitrary: level a z)
  case 0
  then show ?case by auto
next
  case (Suc k)
  define s where "s = bt_b t ^ (d - (level + 1))"
  have s: "0 < s" using ok by (simp add: s_def tree_ok_def)
  have lev: "level < d" using Suc.prems(1) by simp
  note c = leaf_loop_Cons [OF ok d lev, folded s_def]
  let ?i = "(x - a) div s"
  have i: "?i < div_ceil (z - a) s" "a + ?i * s \<le> x" "x < min z (a + ?i * s + s)"
    using child_of_leaf [OF s Suc.prems(2,3), of ?i] by auto
  have "level + 1 + k \<le> d" using Suc.prems(1) by simp
  moreover have small: "min z (a + j * s + s) - (a + j * s) \<le> bt_b t ^ (d - (level + 1))" for j by (simp add: s_def)
  ultimately obtain rest where
    rest: "length rest = k" "\<exists>a' z'. leaf_loop t d (level + 1) rest (a + ?i * s) (min z (a + ?i * s + s)) = Some (a', z') \<and> a' \<le> x \<and> x < z'"
    and uniq: "\<And>p. length p = k \<Longrightarrow> \<exists>a' z'. leaf_loop t d (level + 1) p (a + ?i * s) (min z (a + ?i * s + s)) = Some (a', z') \<and> a' \<le> x \<and> x < z' \<Longrightarrow> p = rest"
    using Suc.IH [OF _ i(2,3), of "level + 1"] by metis
  show ?case
  proof (intro ex1I [of _ "?i # rest"] conjI)
    show "length (?i # rest) = Suc k" using rest(1) by simp
    show "\<exists>a' z'. leaf_loop t d level (?i # rest) a z = Some (a', z') \<and> a' \<le> x \<and> x < z'" using rest(2) i(1) by (simp add: c)
  next
    fix path
    assume p: "length path = Suc k \<and> (\<exists>a' z'. leaf_loop t d level path a z = Some (a', z') \<and> a' \<le> x \<and> x < z')"
    then obtain j p' a' z' where path: "path = j # p'" "length p' = k" and
      l: "leaf_loop t d level (j # p') a z = Some (a', z')" "a' \<le> x" "x < z'" by (auto simp: length_Suc_conv)
    have j: "j < div_ceil (z - a) s" and l': "leaf_loop t d (level + 1) p' (a + j * s) (min z (a + j * s + s)) = Some (a', z')"
      using l(1) by (auto simp: c split: if_splits)
    have "j * s < z - a" using j less_div_ceil_iff [OF s] by blast
    then have "a + j * s < min z (a + j * s + s)" using s by simp
    then have "a + j * s \<le> a' \<and> z' \<le> min z (a + j * s + s)"
      using leaf_loop_inside [OF ok d l' _ _ small] path(2) Suc.prems(1) by simp
    then have "j = ?i" using child_of_leaf [OF s Suc.prems(2,3), of j] j l(2,3) by simp
    then show "path = ?i # rest" using path l' l(2,3) uniq by blast
  qed
qed

lemma leaf_loop_append:
  "leaf_loop t d level (path @ rest) a z = Option.bind (leaf_loop t d level path a z) (\<lambda>(a, z). leaf_loop t d (level + length path) rest a z)"
  by (induction path arbitrary: level a z) (simp_all add: leaf_loop.simps(2) Let_def)

lemma node_leaves:
  assumes ok: "tree_ok t" and d: "depth t = Some d"
  shows "node t path = Some (Some (p0, p1)) \<longleftrightarrow>
    length path \<le> d \<and> (\<exists>a z. leaf_loop t d 0 path 0 (tree_leaves t) = Some (a, z) \<and> p0 = cut t a \<and> p1 = cut t z)"
proof -
  have n: "0 < tree_leaves t" "tree_leaves t - 0 \<le> bt_b t ^ (d - 0)"
    using tree_leaves_bounds(1) [OF ok] depth_value [OF ok] d by auto
  have "positions t a z = (cut t a, cut t z)" if "leaf_loop t d 0 path 0 (tree_leaves t) = Some (a, z)" "length path \<le> d" for a z
    using leaf_loop_inside [OF ok d that(1) _ n] that(2) by (intro positions_cut [OF ok]) simp_all
  then show ?thesis
    by (auto simp: node_def leaf_range_def d split: option.splits)
qed

text \<open>Cutting at increasing places.\<close>

lemma runs_concat:
  assumes "\<And>k. k < m \<Longrightarrow> f k \<le> (f (k + 1) :: nat)"
  shows "concat (map (\<lambda>k. [f k..<f (k + 1)]) [0..<m]) = [f 0..<f m] \<and> f 0 \<le> f m"
  using assms
proof (induction m)
  case (Suc m)
  have "f 0 \<le> f m" "f m \<le> f (m + 1)" using Suc by auto
  then have "[f 0..<f (m + 1)] = [f 0..<f m] @ [f m..<f (m + 1)]" using upt_add_eq_append [of "f 0" "f m" "f (m + 1) - f m"] by simp
  moreover have "f 0 \<le> f (Suc m)" using \<open>f 0 \<le> f m\<close> \<open>f m \<le> f (m + 1)\<close> by simp
  ultimately show ?case using Suc by simp
qed simp

section \<open>Properties\<close>

text \<open>A block is a power of two that the budget holds but not twice.\<close>

definition largest_fit :: "nat \<Rightarrow> nat \<Rightarrow> bool" where
  "largest_fit n unit \<longleftrightarrow> (\<exists>k. n = 2 ^ k) \<and> n * unit \<le> BLOCK_BUDGET \<and> BLOCK_BUDGET < 2 * n * unit"

lemma largest_fit_unique:
  assumes "largest_fit n unit" and "largest_fit m unit"
  shows "n = m"
proof -
  have le: "a \<le> b" if ab: "largest_fit a unit" "largest_fit b unit" for a b
  proof (rule ccontr)
    assume "\<not> a \<le> b"
    obtain k l where kl: "a = 2 ^ k" "b = 2 ^ l" using ab by (auto simp: largest_fit_def)
    then have "l + 1 \<le> k" using \<open>\<not> a \<le> b\<close> by simp
    then have "2 * b \<le> a" unfolding kl using power_increasing [of "l + 1" k "2 :: nat"] by simp
    then have "2 * b * unit \<le> a * unit" by (rule mult_le_mono1)
    moreover have "a * unit \<le> BLOCK_BUDGET" "BLOCK_BUDGET < 2 * b * unit" using ab by (simp_all add: largest_fit_def)
    ultimately show False by linarith
  qed
  show ?thesis using le [OF assms] le [OF assms(2,1)] by simp
qed

lemma fit_largest:
  assumes "0 < unat unit" and "unat unit < 2 ^ 63"
  shows "if unat unit \<le> BLOCK_BUDGET then \<exists>n. fit unit = Some (Some n) \<and> largest_fit (unat n) (unat unit) else fit unit = Some None"
proof (cases "unat unit \<le> BLOCK_BUDGET")
  case True
  then obtain j where j: "fit unit = Some (Some (of_nat (2 ^ j)))" "2 ^ j * unat unit \<le> BLOCK_BUDGET" "BLOCK_BUDGET < 2 * 2 ^ j * unat unit"
    using fit_value [OF assms] by auto
  have "2 ^ j * 1 \<le> 2 ^ j * unat unit" using assms(1) by (intro mult_le_mono2) simp
  then have "2 ^ j \<le> BLOCK_BUDGET" using j(2) by linarith
  moreover have "BLOCK_BUDGET < 2 ^ 64" by (simp add: BLOCK_BUDGET_def)
  ultimately have "2 ^ j < (2 :: nat) ^ 64" by (rule le_less_trans)
  then have "unat (of_nat (2 ^ j) :: u64) = 2 ^ j" by (rule unat_of_nat_u64)
  then have "largest_fit (unat (of_nat (2 ^ j) :: u64)) (unat unit)" using j(2,3) unfolding largest_fit_def by auto
  then show ?thesis using True j(1) by auto
qed (use fit_value [OF assms] in simp)

text \<open>C39: exactly when the loops of \<open>attn_blocks.rs\<close> end and with which value. A tree made by \<open>BlockTree::new\<close> over 64-bit
  positions has a depth, the least number of levels whose power of the branching holds the leaves.
  \<open>block_params\<close> never returns exactly if the bytes of a row are 0 or \<open>2 ^ 63\<close>, or the bytes of a partial are and the rows are
  not refused, although for 0 the code means to answer None. For sizes below \<open>2 ^ 63\<close>, other than these,
  it answers the two largest powers of two whose rows and whose partials the budget holds, or None if one row or two
  partials exceed it.\<close>

theorem block_loops_end:
  "(block_tree_new lo hi c b = Some t \<and> hi \<le> U64_MAX \<longrightarrow>
      (\<exists>d. depth t = Some d \<and> tree_leaves t \<le> b ^ d \<and> (d = 0 \<or> b ^ (d - 1) < tree_leaves t))) \<and>
   (block_params row part = None \<longleftrightarrow>
      unat row \<in> {0, 2 ^ 63} \<or> (unat part \<in> {0, 2 ^ 63} \<and> fit row \<noteq> Some None)) \<and>
   (unat row \<in> {1..<2 ^ 63} \<and> unat part \<in> {1..<2 ^ 63} \<longrightarrow>
      (block_params row part = Some (Some (n, m)) \<longleftrightarrow>
        largest_fit (unat n) (unat row) \<and> largest_fit (unat m) (unat part) \<and> 2 * unat part \<le> BLOCK_BUDGET) \<and>
      (block_params row part = Some None \<longleftrightarrow> BLOCK_BUDGET < unat row \<or> BLOCK_BUDGET < 2 * unat part))"
proof (intro conjI impI)
  assume a: "block_tree_new lo hi c b = Some t \<and> hi \<le> U64_MAX"
  then have "tree_ok t" "bt_b t = b" by (auto simp: block_tree_new_def tree_ok_def split: if_splits)
  then show "\<exists>d. depth t = Some d \<and> tree_leaves t \<le> b ^ d \<and> (d = 0 \<or> b ^ (d - 1) < tree_leaves t)" using depth_value by blast
next
  show "block_params row part = None \<longleftrightarrow> unat row \<in> {0, 2 ^ 63} \<or> (unat part \<in> {0, 2 ^ 63} \<and> fit row \<noteq> Some None)"
    unfolding insert_iff empty_iff simp_thms fit_ends [symmetric] by (cases "fit row") (auto simp: block_params_def bind_eq_None_conv split: option.splits)
next
  assume a: "unat row \<in> {1..<2 ^ 63} \<and> unat part \<in> {1..<2 ^ 63}"
  then have r: "0 < unat row" "unat row < 2 ^ 63" and p: "0 < unat part" "unat part < 2 ^ 63" by auto
  have two: "m \<ge> 2 \<longleftrightarrow> 2 * unat part \<le> BLOCK_BUDGET" if lf: "largest_fit (unat m) (unat part)" for m :: u64
  proof -
    obtain k where k: "unat m = 2 ^ k" "unat m * unat part \<le> BLOCK_BUDGET" "BLOCK_BUDGET < 2 * unat m * unat part"
      using lf by (auto simp: largest_fit_def)
    show ?thesis
    proof (cases k)
      case 0
      then show ?thesis using k by (simp add: word_le_nat_alt)
    next
      case (Suc l)
      then have "2 \<le> unat m" using k(1) by simp
      then have "m \<ge> 2" "2 * unat part \<le> unat m * unat part" unfolding word_le_nat_alt by simp_all
      then show ?thesis using k(2) by linarith
    qed
  qed
  have small: "unat u \<le> BLOCK_BUDGET" if "largest_fit (unat v) (unat u)" for u v :: u64
  proof -
    have "1 \<le> unat v" using that by (auto simp: largest_fit_def)
    then have "1 * unat u \<le> unat v * unat u" by (rule mult_le_mono1)
    moreover have "unat v * unat u \<le> BLOCK_BUDGET" using that by (simp add: largest_fit_def)
    ultimately show ?thesis by linarith
  qed
  show "block_params row part = Some (Some (n, m)) \<longleftrightarrow>
      largest_fit (unat n) (unat row) \<and> largest_fit (unat m) (unat part) \<and> 2 * unat part \<le> BLOCK_BUDGET"
  proof (cases "unat row \<le> BLOCK_BUDGET \<and> unat part \<le> BLOCK_BUDGET")
    case True
    then obtain n' m' where f: "fit row = Some (Some n')" "largest_fit (unat n') (unat row)" "fit part = Some (Some m')" "largest_fit (unat m') (unat part)"
      using fit_largest [OF r] fit_largest [OF p] by auto
    have "largest_fit (unat n) (unat row) \<longleftrightarrow> n' = n" "largest_fit (unat m) (unat part) \<longleftrightarrow> m' = m"
      using f(2,4) largest_fit_unique by (metis word_unat_eq_iff)+
    then show ?thesis using f(1,3) two [OF f(4)] by (auto simp: block_params_def)
  next
    case False
    then have "\<not> (largest_fit (unat n) (unat row) \<and> largest_fit (unat m) (unat part))" using small by blast
    moreover have "fit row = Some None \<or> fit part = Some None" using False fit_largest [OF r] fit_largest [OF p] by auto
    ultimately show ?thesis by (cases "fit row") (auto simp: block_params_def split: option.splits)
  qed
  show "block_params row part = Some None \<longleftrightarrow> BLOCK_BUDGET < unat row \<or> BLOCK_BUDGET < 2 * unat part"
  proof (cases "unat row \<le> BLOCK_BUDGET \<and> unat part \<le> BLOCK_BUDGET")
    case True
    then obtain n' m' where f: "fit row = Some (Some n')" "fit part = Some (Some m')" "largest_fit (unat m') (unat part)"
      using fit_largest [OF r] fit_largest [OF p] by auto
    then show ?thesis using True two [OF f(3)] by (auto simp: block_params_def)
  next
    case False
    then have "BLOCK_BUDGET < unat row \<or> BLOCK_BUDGET < 2 * unat part" by auto
    moreover have "block_params row part = Some None"
      using False fit_largest [OF r] fit_largest [OF p] by (auto simp: block_params_def split: if_splits)
    ultimately show ?thesis by simp
  qed
qed

definition sample_tree :: BlockTree where
  "sample_tree = \<lparr>bt_lo = 5, bt_hi = 30, bt_c = 4, bt_b = 3\<rparr>"

lemma sample_tree_fields [simp]: "bt_lo sample_tree = 5" "bt_hi sample_tree = 30" "bt_c sample_tree = 4" "bt_b sample_tree = 3"
  by (simp_all add: sample_tree_def)

lemma sample_tree_ok: "tree_ok sample_tree" "block_tree_new 5 30 4 3 = Some sample_tree" "tree_leaves sample_tree = 7" "depth sample_tree = Some 2"
  by (simp_all add: tree_ok_def sample_tree_def block_tree_new_def tree_leaves_def depth_def depth_loop.simps saturating_mul_def U64_MAX_def)

theorem block_loops_end_witness:
  "depth sample_tree \<noteq> None \<and> block_params 1024 576 = Some (Some (64, 128))"
proof -
  have h: "block_tree_new 5 30 4 3 = Some sample_tree \<and> 30 \<le> U64_MAX"
    "unat (1024 :: u64) \<in> {1..<2 ^ 63} \<and> unat (576 :: u64) \<in> {1..<2 ^ 63}"
    by (simp_all add: sample_tree_ok U64_MAX_def)
  have l: "largest_fit (unat (64 :: u64)) (unat (1024 :: u64)) \<and> largest_fit (unat (128 :: u64)) (unat (576 :: u64)) \<and> 2 * unat (576 :: u64) \<le> BLOCK_BUDGET"
    unfolding largest_fit_def by (auto simp: BLOCK_BUDGET_def intro: exI [of _ 6] exI [of _ 7])
  note t = block_loops_end [of 5 30 4 3 sample_tree 1024 576 64 128]
  have "block_params 1024 576 = Some (Some (64, 128))"
    by (rule iffD2 [OF conjunct1 [OF mp [OF conjunct2 [OF conjunct2 [OF t]] h(2)]] l])
  moreover have "depth sample_tree \<noteq> None" using mp [OF conjunct1 [OF t] h(1)] by auto
  ultimately show ?thesis by simp
qed

text \<open>The children of a node are its positions, cut into non-empty consecutive runs, at most as many as the branching; child
  \<open>i\<close> is the node that the path extended by \<open>i\<close> reaches.\<close>

theorem children_partition:
  assumes "tree_ok t" and "children t path = Some (Some cs)"
  shows "\<exists>p0 p1. node t path = Some (Some (p0, p1)) \<and> concat (map (\<lambda>(x, y). [x..<y]) cs) = [p0..<p1] \<and>
    list_all (\<lambda>(x, y). x < y) cs \<and> 0 < length cs \<and> length cs \<le> bt_b t \<and>
    map (\<lambda>c. Some (Some c)) cs = map (\<lambda>i. node t (path @ [i])) [0..<length cs]"
proof -
  obtain d where d: "depth t = Some d" using depth_value [OF assms(1)] by blast
  obtain a z where lp: "length path < d" and l: "leaf_loop t d 0 path 0 (tree_leaves t) = Some (a, z)"
    and cs: "cs = (let s = leaves_per_node t d (length path + 1) in map (\<lambda>x. positions t x (min z (x + s))) (step_by a z s))"
    using assms(2) by (auto simp: children_def leaf_range_def d split: if_splits option.splits)
  define s where "s = bt_b t ^ (d - (length path + 1))"
  have s: "0 < s" using assms(1) by (simp add: s_def tree_ok_def)
  have lpn: "leaves_per_node t d (length path + 1) = s"
    using leaves_per_node_exact [OF assms(1) d, of "length path + 1"] lp by (simp add: s_def)
  define m where "m = div_ceil (z - a) s"
  define e where "e k = min z (a + k * s)" for k
  have n: "0 < tree_leaves t" "tree_leaves t - 0 \<le> bt_b t ^ (d - 0)"
    using tree_leaves_bounds(1) [OF assms(1)] depth_value [OF assms(1)] d by auto
  have az: "a < z" "z \<le> tree_leaves t" "z - a \<le> bt_b t ^ (d - length path)"
    using leaf_loop_inside [OF assms(1) d l _ n] lp by simp_all
  have "bt_b t ^ (d - length path) = bt_b t * s" using lp by (simp add: s_def power_Suc [symmetric] Suc_diff_Suc)
  then have mb: "m \<le> bt_b t" using az(3) div_ceil_le_iff [OF s] by (simp add: m_def)
  have m0: "0 < m" using az(1) less_div_ceil_iff [OF s] by (simp add: m_def)
  have k: "a + k * s < z" if "k < m" for k using that less_div_ceil_iff [OF s, of k "z - a"] by (simp add: m_def)
  have em: "e 0 = a" "e m = z" using az(1) div_ceil_le_iff [OF s, of "z - a" m] by (auto simp: e_def m_def)
  have es: "e k < e (k + 1)" "e (k + 1) \<le> tree_leaves t" if "k < m" for k using k [OF that] s az(2) by (auto simp: e_def)
  have "positions t (a + k * s) (min z (a + k * s + s)) = (cut t (e k), cut t (e (k + 1)))" if "k < m" for k
    using positions_cut [OF assms(1) es [OF that]] k [OF that] by (simp add: e_def ac_simps)
  then have cs': "cs = map (\<lambda>k. (cut t (e k), cut t (e (k + 1)))) [0..<m]"
    unfolding cs step_by_def lpn Let_def m_def [symmetric] by (simp add: comp_def)
  have mono: "cut t (e k) < cut t (e (k + 1))" if "k < m" for k using cut_strict_mono [OF assms(1) es [OF that]] .
  have "node t (path @ [k]) = Some (Some (cut t (e k), cut t (e (k + 1))))" if "k < m" for k
  proof -
    have "leaf_loop t d 0 (path @ [k]) 0 (tree_leaves t) = Some (e k, e (k + 1))"
      using that k [OF that] leaf_loop_Cons [OF assms(1) d lp, of k "[]" a z, folded s_def, folded m_def]
      by (simp add: leaf_loop_append l e_def ac_simps)
    then show ?thesis using lp unfolding node_leaves [OF assms(1) d] by auto
  qed
  then have "map (\<lambda>c. Some (Some c)) cs = map (\<lambda>i. node t (path @ [i])) [0..<length cs]" by (simp add: cs')
  moreover have "concat (map (\<lambda>(x, y). [x..<y]) cs) = [cut t a..<cut t z]"
    using runs_concat [of m "\<lambda>k. cut t (e k)"] mono em by (simp add: cs' comp_def less_imp_le)
  moreover have "node t path = Some (Some (cut t a, cut t z))" using l lp unfolding node_leaves [OF assms(1) d] by auto
  moreover have "list_all (\<lambda>(x, y). x < y) cs" using mono by (simp add: cs' list_all_iff)
  ultimately show ?thesis using m0 mb by (auto simp: cs')
qed

theorem children_partition_witness:
  "\<exists>cs. children sample_tree [1] = Some (Some cs) \<and> concat (map (\<lambda>(x, y). [x..<y]) cs) = [16..<28]"
proof -
  have c: "children sample_tree [1] = Some (Some [(16, 20), (20, 24), (24, 28)])"
    by (simp add: children_def leaf_range_def sample_tree_ok leaf_loop.simps leaves_per_node_def saturating_pow_def U64_MAX_def div_ceil_def
        step_by_def positions_def upt_rec)
  from children_partition [OF sample_tree_ok(1) c] show ?thesis
    using c by (auto simp: upt_rec)
qed

text \<open>Every position of the tree lies in the positions of exactly one leaf, the node at full depth on exactly one path, and the
  positions of a leaf are in one aligned block of \<open>c\<close> positions.\<close>

theorem position_in_one_leaf:
  assumes "tree_ok t" and "depth t = Some d" and "bt_lo t \<le> p" and "p < bt_hi t"
  shows "(\<exists>!path. length path = d \<and> (\<exists>x y. node t path = Some (Some (x, y)) \<and> x \<le> p \<and> p < y)) \<and>
    (length path = d \<and> node t path = Some (Some (x, y)) \<longrightarrow> x < y \<and> x div bt_c t = (y - 1) div bt_c t)"
proof -
  have n: "0 < tree_leaves t" "tree_leaves t - 0 \<le> bt_b t ^ (d - 0)"
    using tree_leaves_bounds(1) [OF assms(1)] depth_value [OF assms(1)] assms(2) by auto
  have "(\<exists>x y. node t path = Some (Some (x, y)) \<and> x \<le> p \<and> p < y) \<longleftrightarrow>
      (\<exists>a z. leaf_loop t d 0 path 0 (tree_leaves t) = Some (a, z) \<and> a \<le> leaf_of t p \<and> leaf_of t p < z)" if "length path = d" for path
    using that cut_le_iff [OF assms(1,3,4)] unfolding node_leaves [OF assms(1,2)] by (auto simp: not_le [symmetric])
  moreover have "\<exists>!path. length path = d \<and> (\<exists>a z. leaf_loop t d 0 path 0 (tree_leaves t) = Some (a, z) \<and> a \<le> leaf_of t p \<and> leaf_of t p < z)"
    using leaf_loop_unique [OF assms(1,2), of 0 d 0 "leaf_of t p" "tree_leaves t"] leaf_of_range(1) [OF assms(1,3,4)] n(2) by simp
  moreover have "x < y \<and> x div bt_c t = (y - 1) div bt_c t" if full: "length path = d" "node t path = Some (Some (x, y))"
  proof -
    obtain a z where l: "leaf_loop t d 0 path 0 (tree_leaves t) = Some (a, z)" and xy: "x = cut t a" "y = cut t z"
      using full unfolding node_leaves [OF assms(1,2)] by blast
    have "a < z \<and> z \<le> tree_leaves t \<and> z - a \<le> 1" using leaf_loop_inside [OF assms(1,2) l _ n] full(1) by simp
    then have z: "z = a + 1" "a < tree_leaves t" by auto
    have lt: "x < y" unfolding xy using cut_strict_mono [OF assms(1), of a z] z by simp
    have hi: "y \<le> bt_hi t"
      using z cut_end [OF assms(1)] cut_range(2) [OF assms(1), of z] unfolding xy by (cases "z = tree_leaves t") auto
    note x = cut_range [OF assms(1) z(2), folded xy]
    have "bt_lo t \<le> y - 1" "y - 1 < bt_hi t" using lt x(1) hi by simp_all
    note y = leaf_of_range(2) [OF assms(1) this] cut_le_iff [OF assms(1) this]
    have "cut t a \<le> y - 1" "\<not> cut t z \<le> y - 1" using lt unfolding xy by linarith+
    then have "a \<le> leaf_of t (y - 1)" "\<not> z \<le> leaf_of t (y - 1)" unfolding y(2) .
    then have "leaf_of t (y - 1) = leaf_of t x" using x(3) z by simp
    then have "x div bt_c t = (y - 1) div bt_c t" using y(1) leaf_of_range(2) [OF assms(1) x(1,2)] by simp
    then show ?thesis using lt by simp
  qed
  ultimately show ?thesis by (metis (no_types, lifting))
qed

theorem position_in_one_leaf_witness:
  "\<exists>!path. length path = 2 \<and> (\<exists>x y. node sample_tree path = Some (Some (x, y)) \<and> x \<le> 17 \<and> 17 < y)"
  using position_in_one_leaf [OF sample_tree_ok(1,4), of 17] by (simp add: sample_tree_def)

end
