(* ===== verification/Heavy_Hash.thy ===== *)
theory Heavy_Hash
  imports Pom_Core
begin

text \<open>
  \<open>src/src/pow/\<close>: the legacy proof-of-work hash kHeavyHash (\<open>hasher.rs\<close>, \<open>xoshiro.rs\<close>,
  \<open>heavy_hash.rs\<close>). The Keccak permutation is the parameter \<open>f1600\<close>, the keyed BLAKE2b of the header
  hash the parameter \<open>blake2b\<close>. The rank check of the matrix computes with 64-bit floats: its
  arithmetic is the parameter \<open>fl\<close>, a record of the operations the code uses.
\<close>

section \<open>The sponges\<close>

definition PowHasher_INITIAL_STATE :: "u64 list" where
  "PowHasher_INITIAL_STATE = [
    1242148031264380989, 3008272977830772284, 2188519011337848018, 1992179434288343456, 8876506674959887717,
    5399642050693751366, 1745875063082670864, 8605242046444978844, 17936695144567157056, 3343109343542796272,
    1123092876221303306, 4963925045340115282, 17037383077651887893, 16629644495023626889, 12833675776649114147,
    3784524041015224902, 1082795874807940378, 13952716920571277634, 13411128033953605860, 15060696040649351053,
    9928834659948351306, 5237849264682708699, 12825353012139217522, 6706187291358897596, 196324915476054915]"

definition HeavyHasher_INITIAL_STATE :: "u64 list" where
  "HeavyHasher_INITIAL_STATE = [
    4239941492252378377, 8746723911537738262, 8796936657246353646, 1272090201925444760, 16654558671554924250,
    8270816933120786537, 13907396207649043898, 6782861118970774626, 9239690602118867528, 11582319943599406348,
    17596056728278508070, 15212962468105129023, 7812475424661425213, 3370482334374859748, 5690099369266491460,
    8596393687355028144, 570094237299545110, 9119540418498120711, 16901969272480492857, 13372017233735502424,
    14372891883993151831, 5171152063242093102, 10573107899694386186, 6096431547456407061, 1592359455985097269]"

text \<open>\<open>words.zip(state).for_each(|(w, s)| *s ^= w)\<close>\<close>

definition absorb :: "u64 list \<Rightarrow> u64 list \<Rightarrow> u64 list" where
  "absorb ws st = map2 (XOR) (take (length ws) st) ws @ drop (length ws) st"

text \<open>A \<open>PowHasher\<close> is its state of 25 words.\<close>

type_synonym PowHasher = "u64 list"

definition PowHasher_new :: "Uint256 \<Rightarrow> u64 \<Rightarrow> PowHasher" where
  "PowHasher_new pre_pow_hash timestamp =
     (let start = absorb (limbs pre_pow_hash) PowHasher_INITIAL_STATE
      in start[4 := start ! 4 XOR timestamp])"

definition finalize_with_nonce :: "(u64 list \<Rightarrow> u64 list) \<Rightarrow> PowHasher \<Rightarrow> u64 \<Rightarrow> Uint256" where
  "finalize_with_nonce f1600 st nonce = of_limbs (take 4 (f1600 (st[9 := st ! 9 XOR nonce])))"

definition HeavyHasher_hash :: "(u64 list \<Rightarrow> u64 list) \<Rightarrow> Uint256 \<Rightarrow> Uint256" where
  "HeavyHasher_hash f1600 in_hash = of_limbs (take 4 (f1600 (absorb (limbs in_hash) HeavyHasher_INITIAL_STATE)))"

text \<open>The \<open>HeaderHasher\<close> collects what is written to it: BLAKE2b with this key over all of it.\<close>

definition BLOCK_HASH_DOMAIN :: bytes where "BLOCK_HASH_DOMAIN = ascii8 ''BlockHash''"

definition header_finalize :: "(bytes \<Rightarrow> bytes \<Rightarrow> hash) \<Rightarrow> bytes \<Rightarrow> Uint256" where
  "header_finalize blake2b written = Target.from_le_bytes (blake2b BLOCK_HASH_DOMAIN written)"

section \<open>The generator\<close>

record XoShiRo256PlusPlus =
  s0 :: u64
  s1 :: u64
  s2 :: u64
  s3 :: u64

definition XoShiRo_new :: "Uint256 \<Rightarrow> XoShiRo256PlusPlus" where
  "XoShiRo_new h = \<lparr>s0 = limbs h ! 0, s1 = limbs h ! 1, s2 = limbs h ! 2, s3 = limbs h ! 3\<rparr>"

definition next_u64 :: "XoShiRo256PlusPlus \<Rightarrow> u64 \<times> XoShiRo256PlusPlus" where
  "next_u64 g =
     (let res = s0 g + word_rotl 23 (s0 g + s3 g);
          t = push_bit 17 (s1 g);
          g = g\<lparr>s2 := s2 g XOR s0 g\<rparr>;
          g = g\<lparr>s3 := s3 g XOR s1 g\<rparr>;
          g = g\<lparr>s1 := s1 g XOR s2 g\<rparr>;
          g = g\<lparr>s0 := s0 g XOR s3 g\<rparr>;
          g = g\<lparr>s2 := s2 g XOR t\<rparr>;
          g = g\<lparr>s3 := word_rotl 45 (s3 g)\<rparr>
      in (res, g))"

section \<open>The matrix\<close>

definition KERYX_MATRIX_SALT_V1 :: bytes where
  "KERYX_MATRIX_SALT_V1 = ascii8 ''KERYX:KeryxHash-v1:2026-04-12:xx''"
definition KERYX_MATRIX_SALT_V2 :: bytes where
  "KERYX_MATRIX_SALT_V2 = ascii8 ''KERYX:KeryxHash-v2:2026-05-29:xx''"
definition KERYX_MATRIX_SALT_V4 :: bytes where
  "KERYX_MATRIX_SALT_V4 = ascii8 ''KERYX:KeryxHash-v4:2026-06-07:xx''"

definition pow_salt_v2_activation_daa :: "bool \<Rightarrow> u64" where
  "pow_salt_v2_activation_daa testnet = (if testnet then 0 else 17275000)"
definition pow_salt_v4_activation_daa :: "bool \<Rightarrow> u64" where
  "pow_salt_v4_activation_daa testnet = (if testnet then 0 else 21932751)"

definition active_salt_version :: "bool \<Rightarrow> u64 \<Rightarrow> u8" where
  "active_salt_version testnet daa_score =
     (if daa_score \<ge> pow_salt_v4_activation_daa testnet then 4
      else if daa_score \<ge> pow_salt_v2_activation_daa testnet then 2
      else 1)"

type_synonym Matrix = "u16 list list"

text \<open>A row of \<open>rand_matrix_no_rank_check\<close>: 64 nibbles, 16 of every number drawn. The state is the part
  of the row written, \<open>val\<close> and the generator.\<close>

definition rand_entry :: "nat \<Rightarrow> u16 list \<times> u64 \<times> XoShiRo256PlusPlus \<Rightarrow> u16 list \<times> u64 \<times> XoShiRo256PlusPlus" where
  "rand_entry j = (\<lambda>(row, val, g).
     let shift = j mod 16;
         (val, g) = (if shift = 0 then next_u64 g else (val, g))
     in (row @ [ucast (drop_bit (4 * shift) val AND 0x0F)], val, g))"

definition rand_row :: "XoShiRo256PlusPlus \<Rightarrow> u16 list \<times> XoShiRo256PlusPlus" where
  "rand_row g = (let (row, val, g) = fold rand_entry [0..<64] ([], 0, g) in (row, g))"

primrec rand_rows :: "nat \<Rightarrow> XoShiRo256PlusPlus \<Rightarrow> Matrix \<times> XoShiRo256PlusPlus" where
  "rand_rows 0 g = ([], g)"
| "rand_rows (Suc k) g =
     (let (row, g) = rand_row g; (rows, g) = rand_rows k g in (row # rows, g))"

definition rand_matrix_no_rank_check :: "XoShiRo256PlusPlus \<Rightarrow> Matrix \<times> XoShiRo256PlusPlus" where
  "rand_matrix_no_rank_check g = rand_rows 64 g"

subsection \<open>The rank\<close>

text \<open>The operations on 64-bit floats, with the constant \<open>EPS\<close> of the code.\<close>

record 'f F64 =
  from_u16 :: "u16 \<Rightarrow> 'f"
  f_abs :: "'f \<Rightarrow> 'f"
  f_gt :: "'f \<Rightarrow> 'f \<Rightarrow> bool"
  f_div :: "'f \<Rightarrow> 'f \<Rightarrow> 'f"
  f_mul :: "'f \<Rightarrow> 'f \<Rightarrow> 'f"
  f_sub :: "'f \<Rightarrow> 'f \<Rightarrow> 'f"
  EPS :: 'f

definition convert_to_float :: "'f F64 \<Rightarrow> Matrix \<Rightarrow> 'f list list" where
  "convert_to_float fl m = map (map (from_u16 fl)) m"

definition at :: "'f list list \<Rightarrow> nat \<Rightarrow> nat \<Rightarrow> 'f" where
  "at m j p = m ! j ! p"

definition set_at :: "nat \<Rightarrow> nat \<Rightarrow> 'f \<Rightarrow> 'f list list \<Rightarrow> 'f list list" where
  "set_at j p v m = m[j := (m ! j)[p := v]]"

text \<open>The first row that is not selected and has a non-zero entry in column \<open>i\<close>, or 64.\<close>

definition pivot_row :: "'f F64 \<Rightarrow> 'f list list \<Rightarrow> bool list \<Rightarrow> nat \<Rightarrow> nat" where
  "pivot_row fl mat row_selected i =
     (case find (\<lambda>j. \<not> row_selected ! j \<and> f_gt fl (f_abs fl (at mat j i)) (EPS fl)) [0..<64] of
        Some j \<Rightarrow> j
      | None \<Rightarrow> 64)"

text \<open>One column: the pivot row is divided by the pivot, and the other rows are reduced by it.\<close>

definition rank_column ::
  "'f F64 \<Rightarrow> nat \<Rightarrow> 'f list list \<times> bool list \<times> nat \<Rightarrow> 'f list list \<times> bool list \<times> nat" where
  "rank_column fl i = (\<lambda>(mat, row_selected, rank).
     let j = pivot_row fl mat row_selected i
     in if j = 64 then (mat, row_selected, rank)
        else let mat = fold (\<lambda>p m. set_at j p (f_div fl (at m j p) (at m j i)) m) [i + 1..<64] mat;
                 mat = fold (\<lambda>k m.
                     if k \<noteq> j \<and> f_gt fl (f_abs fl (at m k i)) (EPS fl)
                     then fold (\<lambda>p m. set_at k p (f_sub fl (at m k p) (f_mul fl (at m j p) (at m k i))) m) [i + 1..<64] m
                     else m) [0..<64] mat
             in (mat, row_selected[j := True], rank + 1))"

definition compute_rank :: "'f F64 \<Rightarrow> Matrix \<Rightarrow> nat" where
  "compute_rank fl m =
     snd (snd (fold (rank_column fl) [0..<64] (convert_to_float fl m, replicate 64 False, 0)))"

text \<open>The loop of \<open>generate\<close>: it may run for ever, which is \<open>None\<close>.\<close>

partial_function (option) generate_loop :: "(Matrix \<Rightarrow> nat) \<Rightarrow> XoShiRo256PlusPlus \<Rightarrow> Matrix option" where
  "generate_loop rank g =
     (let (mat, g') = rand_matrix_no_rank_check g
      in if rank mat = 64 then Some mat else generate_loop rank g')"

definition generate :: "'f F64 \<Rightarrow> Uint256 \<Rightarrow> u8 \<Rightarrow> Matrix option" where
  "generate fl hash salt_version =
     (let salt = (if salt_version = 1 then KERYX_MATRIX_SALT_V1
                  else if salt_version = 2 then KERYX_MATRIX_SALT_V2
                  else KERYX_MATRIX_SALT_V4);
          salted = Target.from_le_bytes (map2 (XOR) (Target.to_le_bytes hash) salt)
      in generate_loop (compute_rank fl) (XoShiRo_new salted))"

section \<open>The hash\<close>

definition WAVE_MIX_KEYS :: "u64 list" where
  "WAVE_MIX_KEYS = [0x9e3779b97f4a7c15, 0x6c62272e07bb0142, 0xb5ad4eceda1ce2a9, 0x243f6a8885a308d3]"

definition WAVE_MIX_ROTATIONS :: "nat list" where
  "WAVE_MIX_ROTATIONS = [17, 31, 47, 13]"

text \<open>A round \<open>r\<close> of \<open>wave_mix\<close> on its four words.\<close>

definition wave_round :: "nat \<Rightarrow> u64 \<times> u64 \<times> u64 \<times> u64 \<Rightarrow> u64 \<times> u64 \<times> u64 \<times> u64" where
  "wave_round r = (\<lambda>(w0, w1, w2, w3).
     let w0 = word_rotl (WAVE_MIX_ROTATIONS ! 0) (w0 + w1) XOR WAVE_MIX_KEYS ! (r mod 4);
         w2 = word_rotl (WAVE_MIX_ROTATIONS ! 2) (w2 + w3) XOR WAVE_MIX_KEYS ! ((r + 2) mod 4);
         w1 = word_rotl (WAVE_MIX_ROTATIONS ! 1) (w1 + w2) XOR WAVE_MIX_KEYS ! ((r + 1) mod 4);
         w3 = word_rotl (WAVE_MIX_ROTATIONS ! 3) (w3 + w0) XOR WAVE_MIX_KEYS ! ((r + 3) mod 4)
     in (w0, w1, w2, w3))"

definition wave_mix :: "bytes \<Rightarrow> bytes" where
  "wave_mix b =
     (let (w0, w1, w2, w3) = fold wave_round [0..<4]
            (from_le (slice 0 8 b), from_le (slice 8 16 b), from_le (slice 16 24 b), from_le (slice 24 32 b))
      in le_bytes 8 w0 @ le_bytes 8 w1 @ le_bytes 8 w2 @ le_bytes 8 w3)"

text \<open>The 64 nibbles of a hash.\<close>

definition nibbles :: "bytes \<Rightarrow> u8 list" where
  "nibbles h = concat (map (\<lambda>i. [drop_bit 4 (h ! i), h ! i AND 0x0F]) [0..<32])"

text \<open>The sum of a row, over 16-bit words that wrap (the sums never do, see below).\<close>

definition row_sum :: "u16 list \<Rightarrow> u8 list \<Rightarrow> u16" where
  "row_sum row vec = fold (\<lambda>j s. s + row ! j * ucast (vec ! j)) [0..<64] 0"

definition product_byte :: "Matrix \<Rightarrow> u8 list \<Rightarrow> nat \<Rightarrow> u8" where
  "product_byte m vec i =
     (let sum1 = row_sum (m ! (2 * i)) vec; sum2 = row_sum (m ! (2 * i + 1)) vec
      in ucast (push_bit 4 (drop_bit 10 sum1)) OR ucast (drop_bit 10 sum2))"

definition heavy_hash :: "(u64 list \<Rightarrow> u64 list) \<Rightarrow> Matrix \<Rightarrow> Uint256 \<Rightarrow> Uint256" where
  "heavy_hash f1600 m h =
     (let hb = Target.to_le_bytes h;
          product = map (product_byte m (nibbles hb)) [0..<32];
          product = map2 (XOR) product hb
      in HeavyHasher_hash f1600 (Target.from_le_bytes (wave_mix product)))"

section \<open>The mixing loses nothing\<close>

definition unwave_round :: "nat \<Rightarrow> u64 \<times> u64 \<times> u64 \<times> u64 \<Rightarrow> u64 \<times> u64 \<times> u64 \<times> u64" where
  "unwave_round r = (\<lambda>(w0, w1, w2, w3).
     let w3 = word_rotr (WAVE_MIX_ROTATIONS ! 3) (w3 XOR WAVE_MIX_KEYS ! ((r + 3) mod 4)) - w0;
         w1 = word_rotr (WAVE_MIX_ROTATIONS ! 1) (w1 XOR WAVE_MIX_KEYS ! ((r + 1) mod 4)) - w2;
         w2 = word_rotr (WAVE_MIX_ROTATIONS ! 2) (w2 XOR WAVE_MIX_KEYS ! ((r + 2) mod 4)) - w3;
         w0 = word_rotr (WAVE_MIX_ROTATIONS ! 0) (w0 XOR WAVE_MIX_KEYS ! (r mod 4)) - w1
     in (w0, w1, w2, w3))"

lemma xor_cancel: "((x :: u64) XOR y) XOR y = x"
  by (simp add: xor.assoc)

lemma unwave_wave: "unwave_round r (wave_round r x) = x"
proof -
  obtain a b c d where x: "x = (a, b, c, d)" by (cases x)
  show ?thesis
    unfolding x wave_round_def unwave_round_def Let_def prod.case xor_cancel word_rot_lr add_diff_cancel_right' ..
qed

lemma wave_unwave: "wave_round r (unwave_round r x) = x"
proof -
  obtain a b c d where x: "x = (a, b, c, d)" by (cases x)
  show ?thesis
    unfolding x wave_round_def unwave_round_def Let_def prod.case diff_add_cancel word_rot_rl xor_cancel ..
qed

lemma bij_wave_round: "bij (wave_round r)"
  by (rule o_bij [of "unwave_round r"]) (simp_all add: fun_eq_iff unwave_wave wave_unwave)

text \<open>The four words of 32 bytes, and back.\<close>

definition words4 :: "bytes \<Rightarrow> u64 \<times> u64 \<times> u64 \<times> u64" where
  "words4 b = (from_le (slice 0 8 b), from_le (slice 8 16 b), from_le (slice 16 24 b), from_le (slice 24 32 b))"

definition bytes32 :: "u64 \<times> u64 \<times> u64 \<times> u64 \<Rightarrow> bytes" where
  "bytes32 = (\<lambda>(w0, w1, w2, w3). le_bytes 8 w0 @ le_bytes 8 w1 @ le_bytes 8 w2 @ le_bytes 8 w3)"

lemma words4_bytes32: "words4 (bytes32 w) = w"
  by (cases w) (simp add: words4_def bytes32_def layout_simps from_le_bytes)

lemma bytes32_words4:
  assumes "length b = 32"
  shows "bytes32 (words4 b) = b"
proof -
  have le: "le_bytes 8 (from_le (slice lo (lo + 8) b) :: u64) = slice lo (lo + 8) b" if "lo \<le> 24" for lo
    using that assms by (intro le_slice) simp_all
  have "bytes32 (words4 b) = slice 0 8 b @ slice 8 16 b @ slice 16 24 b @ slice 24 32 b"
    using le [of 0] le [of 8] le [of 16] le [of 24] by (simp only: words4_def bytes32_def prod.case add_numeral_left) simp
  also have "\<dots> = slice 0 32 b" by (simp add: slice_slice_append slice_joins(1))
  finally show ?thesis using assms by (simp add: slice_full)
qed

lemma length_bytes32 [simp]: "length (bytes32 w) = 32"
  by (cases w) (simp add: bytes32_def)

lemma wave_mix_words: "wave_mix b = bytes32 (fold wave_round [0..<4] (words4 b))"
  by (simp add: wave_mix_def words4_def bytes32_def split: prod.splits)

lemma bij_fold: "\<forall>r \<in> set rs. bij (f r) \<Longrightarrow> bij (fold f rs)"
  by (induction rs) (auto intro: bij_comp simp: bij_id)


lemma wave_mix_bij: "bij_betw wave_mix {b. length b = 32} {b. length b = 32}"
proof -
  have "bij (fold wave_round [0..<4])" by (intro bij_fold ballI bij_wave_round)
  then have inj: "inj (fold wave_round [0..<4])" and surj: "surj (fold wave_round [0..<4])"
    by (simp_all add: bij_def)
  show ?thesis
  proof (rule bij_betw_imageI)
    show "inj_on wave_mix {b. length b = 32}"
      by (rule inj_onI) (metis (mono_tags) wave_mix_words words4_bytes32 bytes32_words4 injD [OF inj] mem_Collect_eq)
    show "wave_mix ` {b. length b = 32} = {b. length b = 32}"
    proof (intro equalityI subsetI)
      fix c assume "c \<in> {b :: bytes. length b = 32}"
      then have c: "length c = 32" by simp
      obtain w where w: "words4 c = fold wave_round [0..<4] w" using surj by (metis surjD)
      have "wave_mix (bytes32 w) = c" using c by (simp add: wave_mix_words words4_bytes32 flip: w add: bytes32_words4)
      then show "c \<in> wave_mix ` {b. length b = 32}" by (metis (mono_tags) imageI length_bytes32 mem_Collect_eq)
    qed (auto simp: wave_mix_words)
  qed
qed

section \<open>The product\<close>

text \<open>The number that a row and a vector of nibbles multiply to.\<close>

definition dot :: "u16 list \<Rightarrow> u8 list \<Rightarrow> nat \<Rightarrow> nat" where
  "dot row vec n = (\<Sum>j<n. unat (row ! j) * unat (vec ! j))"

lemma nibble_le: "\<forall>j<n. xs ! j < 16 \<Longrightarrow> j < n \<Longrightarrow> unat (xs ! j :: u16) \<le> 15"
  using word_less_nat_alt [of "xs ! j" 16] by simp

lemma nibble8_le: "\<forall>j<n. xs ! j < 16 \<Longrightarrow> j < n \<Longrightarrow> unat (xs ! j :: u8) \<le> 15"
  using word_less_nat_alt [of "xs ! j" 16] by simp

lemma dot_le:
  assumes "\<forall>j<n. row ! j < 16" and "\<forall>j<n. vec ! j < 16"
  shows "dot row vec n \<le> n * 225"
proof -
  have "unat (row ! j) * unat (vec ! j) \<le> 225" if "j < n" for j
  proof -
    have "unat (row ! j) \<le> 15" "unat (vec ! j) \<le> 15"
      using nibble_le [OF assms(1)] nibble8_le [OF assms(2)] that by simp_all
    then show ?thesis using mult_le_mono [of _ 15 _ 15] by fastforce
  qed
  then have "(\<Sum>j<n. unat (row ! j) * unat (vec ! j)) \<le> (\<Sum>j<n. 225)" by (intro sum_mono) simp
  then show ?thesis by (simp add: dot_def)
qed

lemma row_sum_upto:
  assumes "\<forall>j<64. row ! j < 16" and "\<forall>j<64. vec ! j < 16" and "n \<le> 64"
  shows "unat (fold (\<lambda>j s. s + row ! j * ucast (vec ! j)) [0..<n] (0 :: u16)) = dot row vec n"
  using assms(3)
proof (induction n)
  case (Suc n)
  let ?s = "fold (\<lambda>j s. s + row ! j * ucast (vec ! j)) [0..<n] (0 :: u16)"
  have s: "unat ?s = dot row vec n" using Suc by simp
  have le: "dot row vec (Suc n) \<le> Suc n * 225" using assms(1,2) Suc.prems by (intro dot_le) auto
  have m: "unat (row ! n * ucast (vec ! n)) = unat (row ! n) * unat (vec ! n)"
  proof -
    have "unat (row ! n) \<le> 15" "unat (vec ! n) \<le> 15"
      using nibble_le [OF assms(1), of n] nibble8_le [OF assms(2), of n] Suc.prems by simp_all
    then have "unat (row ! n) * unat (vec ! n) \<le> 15 * 15" by (rule mult_le_mono)
    moreover have "unat (ucast (vec ! n) :: u16) = unat (vec ! n)"
      using unat_u8_lt [of "vec ! n"] by (simp add: unsigned_ucast_eq take_bit_eq_mod)
    ultimately show ?thesis by (simp add: unat_word_ariths)
  qed
  have "dot row vec (Suc n) = dot row vec n + unat (row ! n) * unat (vec ! n)" by (simp add: dot_def)
  with le Suc.prems s m show ?case by (simp add: unat_word_ariths)
qed (simp add: dot_def)

lemma row_sum_dot:
  assumes "\<forall>j<64. row ! j < 16" and "\<forall>j<64. vec ! j < 16"
  shows "unat (row_sum row vec) = dot row vec 64" and "dot row vec 64 \<le> 14400"
  using row_sum_upto [OF assms, of 64] dot_le [OF assms] by (simp_all add: row_sum_def)


lemma unat_or_nibbles:
  assumes "unat (a :: u16) \<le> 15" and "unat (b :: u16) \<le> 15"
  shows "unat (ucast (push_bit 4 a) OR ucast b :: u8) = 16 * unat a + unat b"
proof -
  have a: "unat (push_bit 4 a) = 16 * unat a" using assms(1)
    by (simp only: unsigned_push_bit_eq) (simp add: push_bit_eq_mult take_bit_eq_mod)
  have ua: "unat (ucast (push_bit 4 a) :: u8) = 16 * unat a" and ub: "unat (ucast b :: u8) = unat b"
    using assms a by (simp_all add: unsigned_ucast_eq take_bit_eq_mod)
  have b: "take_bit 4 b = b" using assms(2)
    by (simp only: word_unat_eq_iff unsigned_take_bit_eq) (simp add: take_bit_eq_mod)
  have "\<not> bit b i" if "4 \<le> i" for i using b that by (metis bit_take_bit_iff not_le)
  then have "(ucast (push_bit 4 a) :: u8) AND ucast b = 0"
    by (intro bit_word_eqI) (simp add: bit_simps)
  then have "(ucast (push_bit 4 a) OR ucast b :: u8) = ucast (push_bit 4 a) + ucast b"
    by (simp add: disjunctive_add_eq_or)
  then show ?thesis using assms ua ub by (simp add: unat_word_ariths)
qed

lemma product_byte_value:
  assumes m: "\<forall>i<64. \<forall>j<64. m ! i ! j < 16" and v: "\<forall>j<64. vec ! j < 16" and i: "i < 32"
  shows "unat (product_byte m vec i) =
    16 * (dot (m ! (2 * i)) vec 64 div 1024) + dot (m ! (2 * i + 1)) vec 64 div 1024"
proof -
  have r: "\<forall>j<64. m ! (2 * i) ! j < 16" "\<forall>j<64. m ! (2 * i + 1) ! j < 16" using m i by simp_all
  have d: "unat (drop_bit 10 (w :: u16)) = unat w div 1024" for w
    by (simp only: unat_drop_bit_eq) (simp add: drop_bit_eq_div)
  have "unat (drop_bit 10 (row_sum (m ! (2 * i)) vec)) \<le> 15" "unat (drop_bit 10 (row_sum (m ! (2 * i + 1)) vec)) \<le> 15"
    using row_sum_dot [OF r(1) v] row_sum_dot [OF r(2) v] by (simp_all add: d)
  from unat_or_nibbles [OF this] show ?thesis
    by (simp only: product_byte_def Let_def d row_sum_dot(1) [OF r(1) v] row_sum_dot(1) [OF r(2) v])
qed

lemma nibble_bounds: "drop_bit 4 (b :: u8) < 16" "(b :: u8) AND 0x0F < 16"
proof -
  have "unat (drop_bit 4 b) = unat b div 16" by (simp only: unat_drop_bit_eq) (simp add: drop_bit_eq_div)
  then show "drop_bit 4 b < 16" using unat_u8_lt [of b] by (simp add: word_less_nat_alt)
  have "b AND 0x0F = take_bit 4 b" by (simp add: take_bit_eq_mask mask_eq_exp_minus_1)
  then have "unat (b AND 0x0F) = unat b mod 16" by (simp only: unsigned_take_bit_eq) (simp add: take_bit_eq_mod)
  then show "b AND 0x0F < 16" by (simp add: word_less_nat_alt)
qed

lemma nibbles_less: "length h = 32 \<Longrightarrow> j < 64 \<Longrightarrow> nibbles h ! j < 16"
proof -
  assume j: "j < 64"
  have two: "\<forall>x \<in> set (map (\<lambda>i. [drop_bit 4 (h ! i), h ! i AND 0x0F]) [0..<32]). length x = 2" by auto
  have len: "length (nibbles h) = 64"
    unfolding nibbles_def by (simp add: concat_length_uniform [OF two])
  have "nibbles h ! j \<in> set (nibbles h)" using len j by (intro nth_mem) simp
  then show ?thesis by (auto simp: nibbles_def nibble_bounds)
qed


section \<open>The stream of matrices\<close>

lemma rand_entry_fold:
  "\<exists>row' val' g'. fold rand_entry js (row, val, g) = (row @ row', val', g') \<and> length row' = length js \<and> (\<forall>x \<in> set row'. x < 16)"
proof (induction js arbitrary: row val g)
  case (Cons j js)
  obtain v g1 where v: "(if j mod 16 = 0 then next_u64 g else (val, g)) = (v, g1)" by (cases "if j mod 16 = 0 then next_u64 g else (val, g)")
  define x where "x = (ucast (drop_bit (4 * (j mod 16)) v AND 0x0F) :: u16)"
  have "unat (w AND 0x0F) < 16" for w :: u64
  proof -
    have "w AND 0x0F = take_bit 4 w" by (simp add: take_bit_eq_mask mask_eq_exp_minus_1)
    then have "unat (w AND 0x0F) = unat w mod 16" by (simp only: unsigned_take_bit_eq) (simp add: take_bit_eq_mod)
    then show ?thesis by simp
  qed
  then have "unat (ucast (drop_bit (4 * (j mod 16)) v AND 0x0F) :: u16) < 16"
    unfolding unsigned_ucast_eq take_bit_eq_mod by (intro le_less_trans [OF mod_less_eq_dividend])
  then have x: "x < 16" by (simp add: x_def word_less_nat_alt)
  have e: "rand_entry j (row, val, g) = (row @ [x], v, g1)"
    by (simp add: rand_entry_def Let_def v x_def)
  obtain row' val' g' where "fold rand_entry js (row @ [x], v, g1) = ((row @ [x]) @ row', val', g')"
    "length row' = length js" "\<forall>x \<in> set row'. x < 16" using Cons by blast
  then show ?case using x e by (intro exI [of _ "x # row'"]) simp
qed simp

definition nibble_matrix :: "Matrix \<Rightarrow> bool" where
  "nibble_matrix m \<longleftrightarrow> length m = 64 \<and> (\<forall>row \<in> set m. length row = 64 \<and> (\<forall>x \<in> set row. x < 16))"

lemma rand_row_shape: "length (fst (rand_row g)) = 64 \<and> (\<forall>x \<in> set (fst (rand_row g)). x < 16)"
  using rand_entry_fold [of "[0..<64]" "[]" 0 g] by (auto simp: rand_row_def)

lemma rand_rows_shape:
  "length (fst (rand_rows k g)) = k \<and> (\<forall>row \<in> set (fst (rand_rows k g)). length row = 64 \<and> (\<forall>x \<in> set row. x < 16))"
proof (induction k arbitrary: g)
  case (Suc k)
  obtain row g1 where r: "rand_row g = (row, g1)" by (cases "rand_row g")
  obtain rows g2 where rs: "rand_rows k g1 = (rows, g2)" by (cases "rand_rows k g1")
  show ?case using rand_row_shape [of g] Suc [of g1] by (simp add: r rs)
qed simp

lemma rand_matrix_shape: "nibble_matrix (fst (rand_matrix_no_rank_check g))"
  using rand_rows_shape [of 64 g] by (simp add: nibble_matrix_def rand_matrix_no_rank_check_def)

lemma nibble_matrix_nth: "nibble_matrix m \<Longrightarrow> \<forall>i<64. \<forall>j<64. m ! i ! j < 16"
  by (metis nibble_matrix_def nth_mem)

text \<open>The \<open>k\<close>-th matrix that the loop of \<open>generate\<close> draws.\<close>

definition candidate :: "XoShiRo256PlusPlus \<Rightarrow> nat \<Rightarrow> Matrix" where
  "candidate g k = fst (rand_matrix_no_rank_check (((\<lambda>g. snd (rand_matrix_no_rank_check g)) ^^ k) g))"

lemma candidate_Suc: "candidate g (Suc k) = candidate (snd (rand_matrix_no_rank_check g)) k"
  by (simp add: candidate_def funpow_Suc_right del: funpow.simps)

lemma generate_loop_step:
  "generate_loop rank g =
     (if rank (candidate g 0) = 64 then Some (candidate g 0)
      else generate_loop rank (snd (rand_matrix_no_rank_check g)))"
  by (subst generate_loop.simps) (simp add: candidate_def split: prod.splits)

lemma generate_loop_finds:
  assumes "rank (candidate g k) = 64"
  shows "generate_loop rank g = Some (candidate g (LEAST k. rank (candidate g k) = 64))"
  using assms
proof (induction k arbitrary: g)
  case 0
  then have "(LEAST k. rank (candidate g k) = 64) = 0" by (intro Least_equality) simp_all
  with 0 show ?case by (simp add: generate_loop_step)
next
  case (Suc k)
  let ?g = "snd (rand_matrix_no_rank_check g)"
  show ?case
  proof (cases "rank (candidate g 0) = 64")
    case True
    then have "(LEAST k. rank (candidate g k) = 64) = 0" by (intro Least_equality) simp_all
    with True show ?thesis by (simp add: generate_loop_step)
  next
    case False
    have "(LEAST k. rank (candidate g k) = 64) = Suc (LEAST k. rank (candidate g (Suc k)) = 64)"
      using Suc.prems False by (intro Least_Suc) auto
    moreover have "generate_loop rank ?g = Some (candidate ?g (LEAST k. rank (candidate ?g k) = 64))"
      using Suc.prems by (intro Suc.IH) (simp add: candidate_Suc)
    ultimately show ?thesis using False by (simp add: generate_loop_step [of rank g] candidate_Suc)
  qed
qed

lemma generate_loop_result:
  assumes "generate_loop rank g = Some m"
  shows "\<exists>k. m = candidate g k \<and> rank m = 64"
proof (rule generate_loop.raw_induct [of "\<lambda>rank g m. \<exists>k. m = candidate g k \<and> rank m = 64", OF _ assms], goal_cases)
  case (1 loop rank g m)
  obtain mat g' where r: "rand_matrix_no_rank_check g = (mat, g')" by (cases "rand_matrix_no_rank_check g")
  show ?case
  proof (cases "rank mat = 64")
    case True
    then have "m = candidate g 0" using 1(2) by (simp add: r candidate_def)
    with True show ?thesis by (intro exI [of _ 0]) (simp add: candidate_def r)
  next
    case False
    then have "loop rank g' = Some m" using 1(2) by (simp add: r)
    from 1(1) [OF this] obtain k where "m = candidate g' k" "rank m = 64" by blast
    then show ?thesis by (intro exI [of _ "Suc k"]) (simp add: candidate_Suc r)
  qed
qed


section \<open>The rank counts rows\<close>

lemma pivot_row_cases:
  "pivot_row fl mat sel i = 64 \<or> (pivot_row fl mat sel i < 64 \<and> \<not> sel ! pivot_row fl mat sel i)"
proof (cases "find (\<lambda>j. \<not> sel ! j \<and> f_gt fl (f_abs fl (at mat j i)) (EPS fl)) [0..<64]")
  case (Some j)
  then have "j < 64 \<and> \<not> sel ! j" by (auto simp: find_Some_iff)
  with Some show ?thesis by (simp add: pivot_row_def)
qed (simp add: pivot_row_def)

lemma rank_column_counts:
  assumes "length sel = 64" and "rank = length (filter (\<lambda>b. b) sel)"
  shows "\<exists>mat' sel' rank'. rank_column fl i (mat, sel, rank) = (mat', sel', rank') \<and> length sel' = 64 \<and>
    rank' = length (filter (\<lambda>b. b) sel')"
proof -
  let ?j = "pivot_row fl mat sel i"
  have "length (filter (\<lambda>b. b) (sel[?j := True])) = Suc (length (filter (\<lambda>b. b) sel))" if "?j \<noteq> 64"
  proof -
    have j: "?j < length sel" "\<not> sel ! ?j" using pivot_row_cases [of fl mat sel i] that assms(1) by auto
    then have "length (filter (\<lambda>b. b) (sel[?j := True])) = length (filter (\<lambda>b. b) (take ?j sel)) + Suc (length (filter (\<lambda>b. b) (drop (Suc ?j) sel)))"
      by (simp add: upd_conv_take_nth_drop)
    moreover have "length (filter (\<lambda>b. b) sel) = length (filter (\<lambda>b. b) (take ?j sel)) + length (filter (\<lambda>b. b) (drop (Suc ?j) sel))"
      by (subst id_take_nth_drop [OF j(1)]) (simp add: j(2))
    ultimately show ?thesis by simp
  qed
  then show ?thesis using assms by (simp add: rank_column_def Let_def)
qed

lemma compute_rank_le: "compute_rank fl m \<le> 64"
proof -
  have "\<exists>mat' sel' rank'. fold (rank_column fl) is (mat, sel, rank) = (mat', sel', rank') \<and> length sel' = 64 \<and>
      rank' = length (filter (\<lambda>b. b) sel')" if "length sel = 64" "rank = length (filter (\<lambda>b. b) sel)" for "is" mat sel rank
    using that
  proof (induction "is" arbitrary: mat sel rank)
    case (Cons i "is")
    obtain mat' sel' rank' where "rank_column fl i (mat, sel, rank) = (mat', sel', rank')" "length sel' = 64"
      "rank' = length (filter (\<lambda>b. b) sel')" using rank_column_counts [OF Cons.prems] by blast
    then show ?case using Cons.IH by simp
  qed simp
  from this [of "replicate 64 False" 0 "[0..<64]" "convert_to_float fl m"]
  obtain mat' sel' rank' where "fold (rank_column fl) [0..<64] (convert_to_float fl m, replicate 64 False, 0) = (mat', sel', rank')"
    "length sel' = 64" "rank' = length (filter (\<lambda>b. b) sel')" by auto
  then show ?thesis using length_filter_le [of "\<lambda>b. b" sel'] by (simp add: compute_rank_def)
qed

lemma pph_words_limbs: "pph_words (Target.to_le_bytes u) = limbs u"
  by (cases u) (simp add: pph_words_def Target.to_le_bytes_def eval_nat_numeral upt_rec layout_simps from_le_bytes)

section \<open>Properties\<close>

text \<open>The wave mix is a permutation of the 32-byte strings: no two products are mixed to the same
  input of the last hash.\<close>

theorem wave_mix_permutes: "bij_betw wave_mix {b. length b = 32} {b. length b = 32}"
  by (rule wave_mix_bij)

text \<open>C35: with a matrix of nibbles the 16-bit sums of \<open>heavy_hash\<close> never wrap, and a byte of the product
  is made of two four-bit halves that do not overlap: the sums of two rows over 1024.\<close>

theorem heavy_hash_exact:
  assumes "nibble_matrix m" and "i < 32"
  shows "unat (product_byte m (nibbles (Target.to_le_bytes h)) i) =
      16 * (dot (m ! (2 * i)) (nibbles (Target.to_le_bytes h)) 64 div 1024) +
      dot (m ! (2 * i + 1)) (nibbles (Target.to_le_bytes h)) 64 div 1024 \<and>
    unat (row_sum (m ! (2 * i)) (nibbles (Target.to_le_bytes h))) = dot (m ! (2 * i)) (nibbles (Target.to_le_bytes h)) 64 \<and>
    dot (m ! (2 * i)) (nibbles (Target.to_le_bytes h)) 64 \<le> 14400"
proof -
  have v: "\<forall>j<64. nibbles (Target.to_le_bytes h) ! j < 16" by (simp add: nibbles_less length_to_le_bytes)
  have "\<forall>j<64. m ! (2 * i) ! j < 16" using nibble_matrix_nth [OF assms(1)] assms(2) by simp
  with v show ?thesis using product_byte_value [OF nibble_matrix_nth [OF assms(1)] v assms(2)] row_sum_dot by blast
qed

theorem heavy_hash_exact_witness:
  "unat (product_byte (replicate 64 (replicate 64 15)) (nibbles (Target.to_le_bytes (Uint256 1 2 3 4))) 3) =
    16 * (dot (replicate 64 15) (nibbles (Target.to_le_bytes (Uint256 1 2 3 4))) 64 div 1024) +
    dot (replicate 64 15) (nibbles (Target.to_le_bytes (Uint256 1 2 3 4))) 64 div 1024"
  using heavy_hash_exact [of "replicate 64 (replicate 64 15)" 3 "Uint256 1 2 3 4"]
  by (simp add: nibble_matrix_def)

text \<open>The stream of candidates under a salt.\<close>

definition matrix_stream :: "Uint256 \<Rightarrow> u8 \<Rightarrow> nat \<Rightarrow> Matrix" where
  "matrix_stream hash salt_version = candidate (XoShiRo_new (Target.from_le_bytes (map2 (XOR) (Target.to_le_bytes hash)
     (if salt_version = 1 then KERYX_MATRIX_SALT_V1
      else if salt_version = 2 then KERYX_MATRIX_SALT_V2 else KERYX_MATRIX_SALT_V4))))"

text \<open>C36: \<open>generate\<close> returns the first matrix of full rank in the stream that the salted hash seeds, and
  does not return exactly if there is none; every matrix of the stream is one of 64 rows of 64 nibbles.\<close>

theorem generate_first_full_rank:
  "generate fl hash salt_version =
     (if \<exists>k. compute_rank fl (matrix_stream hash salt_version k) = 64
      then Some (matrix_stream hash salt_version (LEAST k. compute_rank fl (matrix_stream hash salt_version k) = 64))
      else None) \<and>
   nibble_matrix (matrix_stream hash salt_version k)"
proof
  let ?g = "XoShiRo_new (Target.from_le_bytes (map2 (XOR) (Target.to_le_bytes hash)
     (if salt_version = 1 then KERYX_MATRIX_SALT_V1
      else if salt_version = 2 then KERYX_MATRIX_SALT_V2 else KERYX_MATRIX_SALT_V4)))"
  have g: "generate fl hash salt_version = generate_loop (compute_rank fl) ?g"
    by (simp add: generate_def Let_def)
  show "generate fl hash salt_version =
     (if \<exists>k. compute_rank fl (matrix_stream hash salt_version k) = 64
      then Some (matrix_stream hash salt_version (LEAST k. compute_rank fl (matrix_stream hash salt_version k) = 64))
      else None)"
    unfolding g matrix_stream_def
    using generate_loop_finds [of "compute_rank fl" ?g] generate_loop_result [of "compute_rank fl" ?g]
    by (cases "generate_loop (compute_rank fl) ?g") auto
  show "nibble_matrix (matrix_stream hash salt_version k)"
    by (simp add: matrix_stream_def candidate_def rand_matrix_shape)
qed

text \<open>The walk seed from H10 on is the first word of the legacy proof-of-work hash of the same header,
  time and nonce: the library's sponge and the one of the binary agree.\<close>

theorem h10_seed_is_pow_hash:
  "pom_block_seed_h10 f1600 (Target.to_le_bytes pre_pow_hash) timestamp nonce =
     limbs (finalize_with_nonce f1600 (PowHasher_new pre_pow_hash timestamp) nonce) ! 0"
proof -
  obtain a b c d where u: "pre_pow_hash = Uint256 a b c d" by (cases pre_pow_hash)
  note w = pph_words_limbs [of pre_pow_hash]
  have "pom_seed_h10_state (Target.to_le_bytes pre_pow_hash) timestamp = PowHasher_new pre_pow_hash timestamp"
    unfolding pom_seed_h10_state_def PowHasher_new_def w absorb_def PowHasher_INITIAL_STATE_def POW_HASH_INITIAL_STATE_def
    by (simp add: u)
  then show ?thesis by (simp add: pom_block_seed_h10_def finalize_with_nonce_def of_limbs_def Let_def)
qed

end
