(* ===== verification/Models.thy ===== *)
theory Models
  imports Pom_Core "HOL-Library.Sublist"
begin

text \<open>
  \<open>src/src/models.rs\<close>: the lineup of models, the tier each has in a block's era, their pinned anchors,
  and the models that a tier has to hold. The H15 tier, a static set once at start-up, is the
  parameter \<open>h15\<close>; \<open>mining_model\<close> of \<open>pom_gpu.rs\<close> is here too, with its static tier as \<open>mining_tier\<close>.
  Gates are compared as 64-bit words.
\<close>

section \<open>Definitions\<close>

datatype ModelFormat = Gguf | GgufGlm4 | GgufQwen35 | GgufKimiLinear | GgufGemma4

record ModelSpec =
  ms_name :: string
  ms_model_id :: hash
  ms_format :: ModelFormat
  ms_tokenizer_cid :: string
  ms_weight_cids :: "string list"
  ms_dir_name :: string
  ms_min_vram_mb :: u64
  ms_ctx_floor :: u32
  ms_ctx_cap :: u32

definition QWEN3_5_9B_ABLITERATED :: ModelSpec where
  "QWEN3_5_9B_ABLITERATED = \<lparr>
     ms_name = ''qwen3.5-9b-abliterated'',
     ms_model_id =
      [0xbd, 0x34, 0x56, 0x8c, 0xd8, 0x9f, 0x5f, 0x19, 0xc6, 0xc3, 0xa6, 0xe1, 0xa6, 0x1b, 0x92, 0x9b,
       0xc8, 0x68, 0x70, 0x94, 0x09, 0xea, 0xad, 0x8e, 0x67, 0x2d, 0x85, 0xf3, 0xc1, 0xeb, 0x57, 0x10],
     ms_format = GgufQwen35, ms_tokenizer_cid = '''', ms_weight_cids = [''Qmb5E3zospd78SfiRHB9iZWNz29xuwRJufieZbWzEFBuGB''],
     ms_dir_name = ''Qwen3.5-9B-abliterated'', ms_min_vram_mb = 8000, ms_ctx_floor = 8192, ms_ctx_cap = 32768\<rparr>"

definition GLM_4_9B_0414 :: ModelSpec where
  "GLM_4_9B_0414 = \<lparr>
     ms_name = ''glm-4-9b-0414'',
     ms_model_id =
      [0xfa, 0x2f, 0x13, 0xbe, 0x08, 0x50, 0xe2, 0x6c, 0x5c, 0xe8, 0x6c, 0x7a, 0xc7, 0x9d, 0xa8, 0x5e,
       0x30, 0x0c, 0x1d, 0xa8, 0xb3, 0x29, 0x0f, 0x9a, 0x18, 0xd4, 0x71, 0x05, 0xf1, 0xf2, 0x14, 0x0a],
     ms_format = GgufGlm4, ms_tokenizer_cid = '''', ms_weight_cids = [''QmfBGGZumBR4XGFLLPjYozvhRSt3kXjrgsV3jXciCdAeM7''],
     ms_dir_name = ''GLM-4-9B-0414'', ms_min_vram_mb = 12000, ms_ctx_floor = 32768, ms_ctx_cap = 32768\<rparr>"

definition GEMMA_4_12B_ABLITERATED :: ModelSpec where
  "GEMMA_4_12B_ABLITERATED = \<lparr>
     ms_name = ''gemma-4-12b-abliterated'',
     ms_model_id =
      [0x39, 0x99, 0x84, 0x04, 0x56, 0x00, 0xf7, 0xd5, 0x8d, 0x1b, 0x2c, 0xf0, 0x1e, 0x6a, 0x4b, 0xf4,
       0x66, 0xfa, 0x15, 0xc7, 0xac, 0x31, 0xbd, 0x0d, 0xd1, 0xa7, 0x1e, 0x00, 0x3b, 0x61, 0x7c, 0xc6],
     ms_format = GgufGemma4, ms_tokenizer_cid = '''', ms_weight_cids = [''QmSDVicqRDwitecBaPitHsAePLUEamgL4KfrBWYHVWQyx9''],
     ms_dir_name = ''Gemma-4-12B-abliterated'', ms_min_vram_mb = 16000, ms_ctx_floor = 32768, ms_ctx_cap = 131072\<rparr>"

definition QWEN3_6_27B :: ModelSpec where
  "QWEN3_6_27B = \<lparr>
     ms_name = ''qwen3.6-27b'',
     ms_model_id =
      [0xb8, 0xbd, 0xc0, 0x1f, 0xa4, 0x07, 0xea, 0xb9, 0x43, 0xe4, 0xfe, 0xfc, 0x80, 0x74, 0x83, 0xb3,
       0x9f, 0x81, 0x42, 0x78, 0x52, 0x56, 0x04, 0x9e, 0x1f, 0x55, 0x96, 0x98, 0xa5, 0x28, 0x47, 0x46],
     ms_format = GgufQwen35, ms_tokenizer_cid = '''', ms_weight_cids = [''QmamoYQGGAkBaqiWuNmwxeC9AQnt9F7sLyX57VoqbJWeUV''],
     ms_dir_name = ''Qwen3.6-27B'', ms_min_vram_mb = 24000, ms_ctx_floor = 32768, ms_ctx_cap = 65536\<rparr>"

definition QWEN3_8_27B :: ModelSpec where
  "QWEN3_8_27B = \<lparr>
     ms_name = ''qwen3.8-27b'',
     ms_model_id =
      [0x73, 0x74, 0x0b, 0x44, 0x3b, 0xdc, 0x00, 0xaf, 0xda, 0x5f, 0xa3, 0x4e, 0xb9, 0x99, 0x9d, 0x3f,
       0xea, 0x77, 0xdc, 0xc3, 0xf6, 0xde, 0x23, 0x8f, 0xab, 0x70, 0x13, 0x94, 0xcd, 0xc9, 0x6f, 0xb3],
     ms_format = GgufQwen35, ms_tokenizer_cid = '''', ms_weight_cids = [''QmW7LDz7ZTfw9vpAR9jMhFHWriLhxh728Kihp7oTSLgvyg''],
     ms_dir_name = ''Qwen3.8-27B'', ms_min_vram_mb = 24000, ms_ctx_floor = 32768, ms_ctx_cap = 65536\<rparr>"

definition KIMI_LINEAR_48B :: ModelSpec where
  "KIMI_LINEAR_48B = \<lparr>
     ms_name = ''kimi-linear-48b'',
     ms_model_id =
      [0x3d, 0xc0, 0x93, 0x58, 0xad, 0x75, 0xc6, 0xef, 0x0c, 0x9c, 0x86, 0xee, 0x4f, 0x47, 0xc4, 0xd6,
       0xac, 0xda, 0x96, 0x1f, 0xec, 0xbd, 0x0e, 0x4f, 0x9c, 0xf5, 0x5e, 0x8f, 0x0f, 0xdf, 0xfd, 0xdb],
     ms_format = GgufKimiLinear, ms_tokenizer_cid = '''', ms_weight_cids = [''QmSVhtoNrL8bWJXZuEXMMWqty8qHScQMRuacuoa9ujsYqp''],
     ms_dir_name = ''Kimi-Linear-48B'', ms_min_vram_mb = 30000, ms_ctx_floor = 32768, ms_ctx_cap = 131072\<rparr>"

definition pom_assignment_floor_mb :: "ModelSpec \<Rightarrow> u64" where
  "pom_assignment_floor_mb spec = ms_min_vram_mb spec"

definition is_pom_model :: "hash \<Rightarrow> bool" where
  "is_pom_model mid \<longleftrightarrow>
     mid = ms_model_id QWEN3_5_9B_ABLITERATED \<or> mid = ms_model_id GLM_4_9B_0414 \<or>
     mid = ms_model_id GEMMA_4_12B_ABLITERATED \<or> mid = ms_model_id QWEN3_6_27B \<or>
     mid = ms_model_id QWEN3_8_27B \<or> mid = ms_model_id KIMI_LINEAR_48B"

definition pom_tier_index :: "bool \<Rightarrow> hash \<Rightarrow> u64 \<Rightarrow> u8 option" where
  "pom_tier_index testnet mid daa =
     (if daa < pom_v3_activation_daa testnet then None
      else if mid = ms_model_id QWEN3_5_9B_ABLITERATED then Some 0
      else if mid = ms_model_id GLM_4_9B_0414 then Some 1
      else if mid = ms_model_id GEMMA_4_12B_ABLITERATED then Some 2
      else if mid = ms_model_id QWEN3_6_27B then (if daa < private_inference_activation_daa testnet then Some 3 else None)
      else if mid = ms_model_id QWEN3_8_27B then (if daa \<ge> private_inference_activation_daa testnet then Some 3 else None)
      else if mid = ms_model_id KIMI_LINEAR_48B then Some 4
      else None)"

record PomAnchor =
  a_model_id :: hash
  a_root :: hash
  a_chunks :: u64

definition POM_ANCHORS :: "PomAnchor list" where
  "POM_ANCHORS = [
    \<lparr>a_model_id = ms_model_id QWEN3_5_9B_ABLITERATED, a_root =
      [0x2c, 0x49, 0x71, 0x64, 0xea, 0xf2, 0x00, 0x78, 0xad, 0xd2, 0x0e, 0x82, 0xae, 0x4e, 0x1b, 0x0f,
       0xdb, 0x27, 0xd3, 0xfd, 0xd5, 0xea, 0xef, 0xc1, 0xc4, 0x8f, 0x20, 0x41, 0x11, 0xe1, 0x4e, 0x88],
      a_chunks = 203469888\<rparr>,
    \<lparr>a_model_id = ms_model_id GLM_4_9B_0414, a_root =
      [0x1b, 0xa8, 0xb8, 0xb1, 0x34, 0x41, 0x03, 0xfa, 0xa0, 0xa7, 0x47, 0x89, 0xd9, 0x39, 0xc3, 0x3c,
       0x23, 0xba, 0x5c, 0x3c, 0x41, 0xbb, 0x1a, 0x89, 0x5a, 0xb6, 0xe8, 0xbf, 0xec, 0xb0, 0x78, 0x7d],
      a_chunks = 258040832\<rparr>,
    \<lparr>a_model_id = ms_model_id GEMMA_4_12B_ABLITERATED, a_root =
      [0x8e, 0x4d, 0x5b, 0xe3, 0xaa, 0x7c, 0x3a, 0xb9, 0x35, 0x83, 0x5f, 0xf5, 0xe1, 0x9d, 0x7a, 0x3d,
       0xfa, 0x11, 0x8a, 0xf3, 0x24, 0xd5, 0xba, 0x65, 0x16, 0x29, 0xd6, 0xed, 0x16, 0x1a, 0x1e, 0x37],
      a_chunks = 305318656\<rparr>,
    \<lparr>a_model_id = ms_model_id QWEN3_6_27B, a_root =
      [0x85, 0x23, 0xf4, 0x14, 0x8d, 0x22, 0xc7, 0x71, 0x3b, 0xfc, 0x11, 0x32, 0xb4, 0xaf, 0x3d, 0x4b,
       0x97, 0x61, 0xa2, 0x03, 0xfb, 0x33, 0xf1, 0x8e, 0xe7, 0x55, 0x67, 0xbd, 0xee, 0x51, 0x2b, 0x0a],
      a_chunks = 516762688\<rparr>,
    \<lparr>a_model_id = ms_model_id QWEN3_8_27B, a_root =
      [0x40, 0x6c, 0x19, 0x56, 0xf9, 0xf5, 0xdd, 0x13, 0x4d, 0x34, 0x61, 0xc6, 0x19, 0x11, 0x32, 0xa3,
       0xb1, 0x57, 0x2c, 0xc1, 0x6f, 0x39, 0x5a, 0x2b, 0xc2, 0xf1, 0xc6, 0x69, 0xfa, 0xe3, 0x74, 0xa1],
      a_chunks = 524991232\<rparr>,
    \<lparr>a_model_id = ms_model_id KIMI_LINEAR_48B, a_root =
      [0x95, 0x74, 0x71, 0x0f, 0xfa, 0xb6, 0x78, 0xf0, 0x68, 0xb4, 0xe6, 0x5a, 0xbe, 0x72, 0x40, 0x86,
       0x2d, 0xa1, 0x5b, 0xb1, 0x6e, 0xa8, 0x2f, 0xd1, 0x62, 0xa9, 0x35, 0x1a, 0x10, 0x51, 0x99, 0x59],
      a_chunks = 927994064\<rparr>]"

definition pinned_pom_anchor :: "hash \<Rightarrow> PomAnchor option" where
  "pinned_pom_anchor mid = List.find (\<lambda>a. a_model_id a = mid) POM_ANCHORS"

datatype Tier = VeryLight | Light | Default | High | VeryHigh

definition h6_staged :: "bool \<Rightarrow> bool" where
  "h6_staged testnet \<longleftrightarrow> pom_v3_activation_daa testnet \<noteq> 0xFFFFFFFFFFFFFFFF"

definition staging_daa :: "bool \<Rightarrow> u64" where
  "staging_daa testnet =
     (if private_inference_activation_daa testnet = 0xFFFFFFFFFFFFFFFF then pom_v3_activation_daa testnet
      else max (private_inference_activation_daa testnet) (pom_v3_activation_daa testnet))"

definition pom_model_for_tier :: "bool \<Rightarrow> u64 \<Rightarrow> Tier \<Rightarrow> ModelSpec option" where
  "pom_model_for_tier testnet daa tier =
     (if daa < pom_v3_activation_daa testnet then None
      else Some (case tier of
          VeryLight \<Rightarrow> QWEN3_5_9B_ABLITERATED
        | Light \<Rightarrow> GLM_4_9B_0414
        | Default \<Rightarrow> GEMMA_4_12B_ABLITERATED
        | High \<Rightarrow> if daa \<ge> private_inference_activation_daa testnet then QWEN3_8_27B else QWEN3_6_27B
        | VeryHigh \<Rightarrow> KIMI_LINEAR_48B))"

text \<open>\<open>OnceLock::set\<close>: the first value stays.\<close>

definition once_set :: "'a \<Rightarrow> 'a option \<Rightarrow> 'a option" where
  "once_set v cell = (case cell of None \<Rightarrow> Some v | Some w \<Rightarrow> Some w)"

definition set_h15_tier :: "Tier \<Rightarrow> Tier option \<Rightarrow> Tier option" where
  "set_h15_tier tier h15 = once_set tier h15"

definition tier_at :: "bool \<Rightarrow> u64 \<Rightarrow> Tier \<Rightarrow> Tier option \<Rightarrow> Tier" where
  "tier_at testnet daa tier h15 =
     (case h15 of Some t \<Rightarrow> if daa \<ge> pom_v5_activation_daa testnet then t else tier | None \<Rightarrow> tier)"

definition mined_tier :: "bool \<Rightarrow> Tier option \<Rightarrow> u64 \<Rightarrow> Tier \<Rightarrow> Tier" where
  "mined_tier testnet h15 daa tier = tier_at testnet daa tier h15"

definition mining_model :: "bool \<Rightarrow> Tier option \<Rightarrow> Tier option \<Rightarrow> u64 \<Rightarrow> ModelSpec option" where
  "mining_model testnet mining_tier h15 daa = do {
     tier \<leftarrow> mining_tier;
     pom_model_for_tier testnet daa (mined_tier testnet h15 daa tier) }"

text \<open>\<open>sort_unstable\<close> and \<open>dedup\<close> on the gates; the indices of \<open>filter\<close> are those of the sorted list.\<close>

definition reachable_gates :: "u64 list \<Rightarrow> u64 option \<Rightarrow> u64 list" where
  "reachable_gates gates chain_daa =
     (let gates = remdups_adj (sort gates)
      in case chain_daa of
           None \<Rightarrow> gates
         | Some daa \<Rightarrow>
             let end = length gates - 1
             in map (\<lambda>i. gates ! i) (filter (\<lambda>i. i = end \<or> gates ! (i + 1) > daa) [0..<length gates]))"

definition push_model :: "ModelSpec option \<Rightarrow> ModelSpec list \<Rightarrow> ModelSpec list" where
  "push_model s out =
     (case s of None \<Rightarrow> out
      | Some s \<Rightarrow> if list_ex (\<lambda>x. ms_model_id x = ms_model_id s) out then out else out @ [s])"

definition models_all_eras :: "bool \<Rightarrow> Tier \<Rightarrow> Tier option \<Rightarrow> u64 option \<Rightarrow> ModelSpec list" where
  "models_all_eras testnet tier h15 chain_daa =
     (let gates = [pom_v3_activation_daa testnet, staging_daa testnet];
          gates = (if private_inference_activation_daa testnet \<noteq> 0xFFFFFFFFFFFFFFFF
                   then gates @ [private_inference_activation_daa testnet] else gates);
          gates = (if h15 \<noteq> None \<and> pom_v5_activation_daa testnet \<noteq> 0xFFFFFFFFFFFFFFFF
                   then gates @ [pom_v5_activation_daa testnet] else gates)
      in fold (\<lambda>gate. push_model (pom_model_for_tier testnet gate (tier_at testnet gate tier h15)))
           (reachable_gates gates chain_daa) [])"

definition pom_models_all_eras :: "bool \<Rightarrow> Tier option \<Rightarrow> Tier \<Rightarrow> u64 option \<Rightarrow> ModelSpec list" where
  "pom_models_all_eras testnet h15 tier chain_daa = models_all_eras testnet tier h15 chain_daa"

text \<open>\<open>None\<close> is the panic of \<open>expect\<close>.\<close>

definition spec_for_tier :: "bool \<Rightarrow> Tier \<Rightarrow> ModelSpec option" where
  "spec_for_tier testnet tier = pom_model_for_tier testnet (staging_daa testnet) tier"

definition REGISTRY :: "ModelSpec list" where
  "REGISTRY = [QWEN3_5_9B_ABLITERATED, GLM_4_9B_0414, GEMMA_4_12B_ABLITERATED, QWEN3_6_27B, QWEN3_8_27B, KIMI_LINEAR_48B]"

definition find_model :: "string \<Rightarrow> ModelSpec option" where
  "find_model nm = List.find (\<lambda>m. ms_name m = nm) REGISTRY"

text \<open>\<open>str::replace\<close> of a character and \<open>str::contains\<close>\<close>

definition contains :: "'a list \<Rightarrow> 'a list \<Rightarrow> bool" where
  "contains hay needle = list_ex (\<lambda>s. prefix needle s) (suffixes hay)"

definition spec_for_gguf :: "string \<Rightarrow> ModelSpec option" where
  "spec_for_gguf path =
     (let normalized = map (\<lambda>c. if c = CHR 0x5C then CHR ''/'' else c) path
      in List.find (\<lambda>m. contains normalized (''/'' @ ms_dir_name m @ ''/'')) REGISTRY)"

definition available_names :: "string list" where
  "available_names = map ms_name REGISTRY"


section \<open>The lineup\<close>

lemmas specs = QWEN3_5_9B_ABLITERATED_def GLM_4_9B_0414_def GEMMA_4_12B_ABLITERATED_def QWEN3_6_27B_def
  QWEN3_8_27B_def KIMI_LINEAR_48B_def

lemma ids_distinct: "distinct (map ms_model_id REGISTRY)"
  by (simp add: REGISTRY_def specs)

lemma ids_inj: "s \<in> set REGISTRY \<Longrightarrow> t \<in> set REGISTRY \<Longrightarrow> ms_model_id s = ms_model_id t \<longleftrightarrow> s = t"
  using ids_distinct by (auto simp: distinct_map inj_on_def)

lemma id_neqs:
  "ms_model_id QWEN3_5_9B_ABLITERATED \<noteq> ms_model_id GLM_4_9B_0414" "ms_model_id QWEN3_5_9B_ABLITERATED \<noteq> ms_model_id GEMMA_4_12B_ABLITERATED"
  "ms_model_id QWEN3_5_9B_ABLITERATED \<noteq> ms_model_id QWEN3_6_27B" "ms_model_id QWEN3_5_9B_ABLITERATED \<noteq> ms_model_id QWEN3_8_27B"
  "ms_model_id QWEN3_5_9B_ABLITERATED \<noteq> ms_model_id KIMI_LINEAR_48B" "ms_model_id GLM_4_9B_0414 \<noteq> ms_model_id QWEN3_5_9B_ABLITERATED"
  "ms_model_id GLM_4_9B_0414 \<noteq> ms_model_id GEMMA_4_12B_ABLITERATED" "ms_model_id GLM_4_9B_0414 \<noteq> ms_model_id QWEN3_6_27B"
  "ms_model_id GLM_4_9B_0414 \<noteq> ms_model_id QWEN3_8_27B" "ms_model_id GLM_4_9B_0414 \<noteq> ms_model_id KIMI_LINEAR_48B"
  "ms_model_id GEMMA_4_12B_ABLITERATED \<noteq> ms_model_id QWEN3_5_9B_ABLITERATED" "ms_model_id GEMMA_4_12B_ABLITERATED \<noteq> ms_model_id GLM_4_9B_0414"
  "ms_model_id GEMMA_4_12B_ABLITERATED \<noteq> ms_model_id QWEN3_6_27B" "ms_model_id GEMMA_4_12B_ABLITERATED \<noteq> ms_model_id QWEN3_8_27B"
  "ms_model_id GEMMA_4_12B_ABLITERATED \<noteq> ms_model_id KIMI_LINEAR_48B" "ms_model_id QWEN3_6_27B \<noteq> ms_model_id QWEN3_5_9B_ABLITERATED"
  "ms_model_id QWEN3_6_27B \<noteq> ms_model_id GLM_4_9B_0414" "ms_model_id QWEN3_6_27B \<noteq> ms_model_id GEMMA_4_12B_ABLITERATED"
  "ms_model_id QWEN3_6_27B \<noteq> ms_model_id QWEN3_8_27B" "ms_model_id QWEN3_6_27B \<noteq> ms_model_id KIMI_LINEAR_48B"
  "ms_model_id QWEN3_8_27B \<noteq> ms_model_id QWEN3_5_9B_ABLITERATED" "ms_model_id QWEN3_8_27B \<noteq> ms_model_id GLM_4_9B_0414"
  "ms_model_id QWEN3_8_27B \<noteq> ms_model_id GEMMA_4_12B_ABLITERATED" "ms_model_id QWEN3_8_27B \<noteq> ms_model_id QWEN3_6_27B"
  "ms_model_id QWEN3_8_27B \<noteq> ms_model_id KIMI_LINEAR_48B" "ms_model_id KIMI_LINEAR_48B \<noteq> ms_model_id QWEN3_5_9B_ABLITERATED"
  "ms_model_id KIMI_LINEAR_48B \<noteq> ms_model_id GLM_4_9B_0414" "ms_model_id KIMI_LINEAR_48B \<noteq> ms_model_id GEMMA_4_12B_ABLITERATED"
  "ms_model_id KIMI_LINEAR_48B \<noteq> ms_model_id QWEN3_6_27B" "ms_model_id KIMI_LINEAR_48B \<noteq> ms_model_id QWEN3_8_27B"
  by (simp_all add: specs)

lemmas gates_simps = gate_def pom_v3_activation_daa_def private_inference_activation_daa_def pom_v5_activation_daa_def
  H15_ACTIVATION_DAA_def TESTNET_H15_ACTIVATION_DAA_def

lemma gates_scheduled:
  "pom_v3_activation_daa testnet \<noteq> 0xFFFFFFFFFFFFFFFF" "private_inference_activation_daa testnet \<noteq> 0xFFFFFFFFFFFFFFFF"
  "pom_v5_activation_daa testnet \<noteq> 0xFFFFFFFFFFFFFFFF" "pom_v3_activation_daa testnet \<le> private_inference_activation_daa testnet"
  by (cases testnet; simp add: gates_simps)+

definition tier_number :: "Tier \<Rightarrow> u8" where
  "tier_number t = (case t of VeryLight \<Rightarrow> 0 | Light \<Rightarrow> 1 | Default \<Rightarrow> 2 | High \<Rightarrow> 3 | VeryHigh \<Rightarrow> 4)"

text \<open>The model a miner launched on \<open>tier\<close> needs for a block at \<open>d\<close>.\<close>

definition needs :: "bool \<Rightarrow> Tier \<Rightarrow> Tier option \<Rightarrow> u64 \<Rightarrow> ModelSpec option" where
  "needs testnet tier h15 d = pom_model_for_tier testnet d (tier_at testnet d tier h15)"

lemma needs_registry: "needs testnet tier h15 d = Some s \<Longrightarrow> s \<in> set REGISTRY"
  by (auto simp: needs_def pom_model_for_tier_def REGISTRY_def split: if_splits Tier.splits)

lemma needs_era:
  assumes "pom_v3_activation_daa testnet \<le> d \<longleftrightarrow> pom_v3_activation_daa testnet \<le> g"
    and "private_inference_activation_daa testnet \<le> d \<longleftrightarrow> private_inference_activation_daa testnet \<le> g"
    and "h15 \<noteq> None \<Longrightarrow> pom_v5_activation_daa testnet \<le> d \<longleftrightarrow> pom_v5_activation_daa testnet \<le> g"
  shows "needs testnet tier h15 d = needs testnet tier h15 g"
proof -
  have "tier_at testnet d tier h15 = tier_at testnet g tier h15"
    using assms(3) by (cases h15) (simp_all add: tier_at_def)
  then show ?thesis using assms(1,2) by (simp add: needs_def pom_model_for_tier_def not_le [symmetric])
qed

section \<open>The gates that are left\<close>

lemma sorted_distinct_adj: "sorted xs \<Longrightarrow> distinct_adj xs \<Longrightarrow> sorted_wrt (<) (xs :: 'a::linorder list)"
proof (induction xs rule: induct_list012)
  case (3 x y xs)
  then have "sorted_wrt (<) (y # xs)" by (simp add: distinct_adj_Cons_Cons)
  moreover have "x < y" using 3 by (simp add: distinct_adj_Cons_Cons less_le)
  ultimately show ?case by (auto intro: less_trans)
qed simp_all

lemma reachable_gates_Some:
  "set (reachable_gates gs (Some c)) = {g \<in> set gs. \<not> (\<exists>g' \<in> set gs. g < g' \<and> g' \<le> c)}"
proof -
  let ?S = "remdups_adj (sort gs)"
  have set: "set ?S = set gs" by simp
  have sorted: "sorted_wrt (<) ?S"
    by (intro sorted_distinct_adj) simp_all
  have kept: "(i = length ?S - 1 \<or> ?S ! (i + 1) > c) \<longleftrightarrow> \<not> (\<exists>g' \<in> set gs. ?S ! i < g' \<and> g' \<le> c)" if i: "i < length ?S" for i
  proof
    assume l: "i = length ?S - 1 \<or> ?S ! (i + 1) > c"
    show "\<not> (\<exists>g' \<in> set gs. ?S ! i < g' \<and> g' \<le> c)"
    proof
      assume "\<exists>g' \<in> set gs. ?S ! i < g' \<and> g' \<le> c"
      then obtain j where j: "j < length ?S" "?S ! i < ?S ! j" "?S ! j \<le> c" by (metis in_set_conv_nth set)
      have "i < j" using j(1,2) i sorted_wrt_nth_less [OF sorted, of j i] by (metis linorder_neqE_nat not_less_iff_gr_or_eq)
      with l j(1) have "?S ! (i + 1) > c" by auto
      moreover have "?S ! (i + 1) \<le> ?S ! j"
        using \<open>i < j\<close> j(1) sorted_wrt_nth_less [OF sorted, of "i + 1" j] by (cases "i + 1 = j") auto
      ultimately show False using j(3) by simp
    qed
  next
    assume r: "\<not> (\<exists>g' \<in> set gs. ?S ! i < g' \<and> g' \<le> c)"
    show "i = length ?S - 1 \<or> ?S ! (i + 1) > c"
    proof (rule disjCI)
      assume "\<not> ?S ! (i + 1) > c"
      then show "i = length ?S - 1"
        using r i sorted_wrt_nth_less [OF sorted, of i "i + 1"] nth_mem [of "i + 1" ?S] by (fastforce simp: set)
    qed
  qed
  have "set (reachable_gates gs (Some c)) = {?S ! i | i. i < length ?S \<and> (i = length ?S - 1 \<or> ?S ! (i + 1) > c)}"
    by (auto simp: reachable_gates_def Let_def)
  also have "\<dots> = {?S ! i | i. i < length ?S \<and> \<not> (\<exists>g' \<in> set gs. ?S ! i < g' \<and> g' \<le> c)}"
    using kept by blast
  also have "\<dots> = {g \<in> set ?S. \<not> (\<exists>g' \<in> set gs. g < g' \<and> g' \<le> c)}"
    by (auto simp: in_set_conv_nth simp del: remdups_adj_set set_sort) 
  finally show ?thesis by simp
qed

lemma reachable_gates_None: "set (reachable_gates gs None) = set gs"
  by (simp add: reachable_gates_def)

section \<open>The list of models\<close>

lemma push_fold:
  assumes "\<forall>g \<in> set gs. \<forall>s. f g = Some s \<longrightarrow> s \<in> set REGISTRY" and "set out \<subseteq> set REGISTRY" and "distinct out"
  shows "set (fold (\<lambda>g. push_model (f g)) gs out) = set out \<union> {s. \<exists>g \<in> set gs. f g = Some s} \<and>
    distinct (fold (\<lambda>g. push_model (f g)) gs out)"
  using assms
proof (induction gs arbitrary: out)
  case (Cons g gs)
  let ?out = "push_model (f g) out"
  have out: "set ?out = set out \<union> {s. f g = Some s} \<and> distinct ?out \<and> set ?out \<subseteq> set REGISTRY"
  proof (cases "f g")
    case (Some s)
    have r: "s \<in> set REGISTRY" using Cons.prems(1) Some by simp
    have "list_ex (\<lambda>x. ms_model_id x = ms_model_id s) out \<longleftrightarrow> s \<in> set out"
      using Cons.prems(2) ids_inj [OF _ r] by (auto simp: list_ex_iff)
    then show ?thesis using Cons.prems r Some by (auto simp: push_model_def)
  qed (use Cons.prems in \<open>simp add: push_model_def\<close>)
  then have "set (fold (\<lambda>g. push_model (f g)) gs ?out) = set ?out \<union> {s. \<exists>g \<in> set gs. f g = Some s} \<and>
    distinct (fold (\<lambda>g. push_model (f g)) gs ?out)"
    using Cons.prems by (intro Cons.IH) auto
  with out show ?case by auto
qed simp

definition era_gates :: "bool \<Rightarrow> Tier option \<Rightarrow> u64 list" where
  "era_gates testnet h15 = [pom_v3_activation_daa testnet, staging_daa testnet, private_inference_activation_daa testnet] @
     (if h15 \<noteq> None then [pom_v5_activation_daa testnet] else [])"

lemma models_all_eras_eq:
  "set (models_all_eras testnet tier h15 chain_daa) =
     {s. \<exists>g \<in> set (reachable_gates (era_gates testnet h15) chain_daa). needs testnet tier h15 g = Some s} \<and>
   distinct (models_all_eras testnet tier h15 chain_daa)"
proof -
  have e: "models_all_eras testnet tier h15 chain_daa =
      fold (\<lambda>g. push_model (needs testnet tier h15 g)) (reachable_gates (era_gates testnet h15) chain_daa) []"
    by (simp add: models_all_eras_def era_gates_def needs_def gates_scheduled)
  show ?thesis unfolding e
    using push_fold [of "reachable_gates (era_gates testnet h15) chain_daa" "needs testnet tier h15" "[]"]
    by (simp add: needs_registry)
qed

lemma needs_same_era:
  assumes "\<forall>x \<in> set (era_gates testnet h15). x \<le> d \<longleftrightarrow> x \<le> g"
  shows "needs testnet tier h15 d = needs testnet tier h15 g"
  using assms by (intro needs_era) (auto simp: era_gates_def)

lemma needed_gate:
  assumes "needs testnet tier h15 d = Some s"
  obtains g where "g \<in> set (era_gates testnet h15)" "g \<le> d" "\<forall>x \<in> set (era_gates testnet h15). x \<le> d \<longrightarrow> x \<le> g"
    "needs testnet tier h15 g = Some s"
proof -
  let ?G = "{x \<in> set (era_gates testnet h15). x \<le> d}"
  have "pom_v3_activation_daa testnet \<le> d"
    using assms by (auto simp: needs_def pom_model_for_tier_def split: if_splits)
  then have ne: "?G \<noteq> {}" by (auto simp: era_gates_def)
  have fin: "finite ?G" by simp
  define g where "g = Max ?G"
  have g: "g \<in> ?G" and m: "\<forall>x \<in> ?G. x \<le> g" using Max_in [OF fin ne] Max_ge [OF fin] by (auto simp: g_def)
  then have "needs testnet tier h15 d = needs testnet tier h15 g" by (intro needs_same_era) auto
  with g m assms show thesis by (intro that [of g]) auto
qed

lemma find_distinct: "distinct (map f xs) \<Longrightarrow> x \<in> set xs \<Longrightarrow> List.find (\<lambda>m. f m = f x) xs = Some x"
  by (induction xs) (auto simp: rev_image_eqI)

lemma find_model_iff: "find_model nm = Some s \<longleftrightarrow> s \<in> set REGISTRY \<and> ms_name s = nm"
proof
  assume "find_model nm = Some s"
  then show "s \<in> set REGISTRY \<and> ms_name s = nm" unfolding find_model_def find_Some_iff by auto
next
  assume "s \<in> set REGISTRY \<and> ms_name s = nm"
  moreover have "distinct (map ms_name REGISTRY)" by (simp add: REGISTRY_def specs)
  ultimately show "find_model nm = Some s" using find_distinct [of ms_name REGISTRY s] by (simp add: find_model_def)
qed

section \<open>Properties\<close>

text \<open>The two tables of the lineup agree: the model of a tier has that tier's number in the same era,
  is a PoM model with a pinned anchor that is found in the registry by its name, and every model that has a number
  is the model of that tier. A name finds exactly the registered model of that name. The model of the staging era exists for every tier, so \<open>spec_for_tier\<close> never panics.\<close>

theorem tier_tables_agree:
  "(case pom_model_for_tier testnet daa tier of
      None \<Rightarrow> daa < pom_v3_activation_daa testnet
    | Some s \<Rightarrow> pom_tier_index testnet (ms_model_id s) daa = Some (tier_number tier) \<and> is_pom_model (ms_model_id s) \<and>
        find_model (ms_name s) = Some s \<and> (\<exists>a. pinned_pom_anchor (ms_model_id s) = Some a)) \<and>
   (case pom_tier_index testnet mid daa of
      None \<Rightarrow> True
    | Some n \<Rightarrow> \<exists>t s. tier_number t = n \<and> pom_model_for_tier testnet daa t = Some s \<and> ms_model_id s = mid) \<and>
   (find_model nm = Some s \<longleftrightarrow> s \<in> set REGISTRY \<and> ms_name s = nm) \<and>
   (\<exists>s. spec_for_tier testnet tier = Some s)"
proof (intro conjI)
  have anchors: "\<exists>a. pinned_pom_anchor (ms_model_id s) = Some a" if "s \<in> set REGISTRY" for s
  proof -
    have "ms_model_id s \<in> set (map a_model_id POM_ANCHORS)" using that by (auto simp: REGISTRY_def POM_ANCHORS_def)
    then show ?thesis unfolding pinned_pom_anchor_def
      by (cases "List.find (\<lambda>a. a_model_id a = ms_model_id s) POM_ANCHORS") (auto simp: find_None_iff)
  qed
  show "case pom_model_for_tier testnet daa tier of
      None \<Rightarrow> daa < pom_v3_activation_daa testnet
    | Some s \<Rightarrow> pom_tier_index testnet (ms_model_id s) daa = Some (tier_number tier) \<and> is_pom_model (ms_model_id s) \<and>
        find_model (ms_name s) = Some s \<and> (\<exists>a. pinned_pom_anchor (ms_model_id s) = Some a)"
  proof (cases "daa < pom_v3_activation_daa testnet")
    case False
    then obtain s where s: "pom_model_for_tier testnet daa tier = Some s" by (simp add: pom_model_for_tier_def)
    then have r: "s \<in> set REGISTRY" using needs_registry [of testnet tier None daa s] by (simp add: needs_def tier_at_def)
    have "is_pom_model (ms_model_id s)" using r by (auto simp: REGISTRY_def is_pom_model_def)
    moreover have "pom_tier_index testnet (ms_model_id s) daa = Some (tier_number tier)"
      using s False by (cases tier) (auto simp: pom_model_for_tier_def pom_tier_index_def tier_number_def id_neqs split: if_splits)
    moreover have "find_model (ms_name s) = Some s" using r find_model_iff by simp
    ultimately show ?thesis using s r anchors by simp
  qed (simp add: pom_model_for_tier_def)
  show "case pom_tier_index testnet mid daa of
      None \<Rightarrow> True
    | Some n \<Rightarrow> \<exists>t s. tier_number t = n \<and> pom_model_for_tier testnet daa t = Some s \<and> ms_model_id s = mid"
    by (auto simp: pom_tier_index_def pom_model_for_tier_def tier_number_def intro: exI [of _ VeryLight] exI [of _ Light]
      exI [of _ Default] exI [of _ High] exI [of _ VeryHigh] split: option.splits if_splits)
  show "find_model nm = Some s \<longleftrightarrow> s \<in> set REGISTRY \<and> ms_name s = nm" by (rule find_model_iff)
  show "\<exists>s. spec_for_tier testnet tier = Some s"
    by (simp add: spec_for_tier_def pom_model_for_tier_def staging_daa_def not_less)
qed

text \<open>C37: the models that a miner holds are exactly the ones it may still need: with the chain at \<open>c\<close> those
  of some block from \<open>c\<close> on, with an unknown chain those of any block; none is listed twice. So no era
  crossing waits for a download, and no model of an era that is over is kept.\<close>

theorem models_prefetched:
  "set (pom_models_all_eras testnet h15 tier (Some c)) =
     {s. \<exists>d \<ge> c. pom_model_for_tier testnet d (mined_tier testnet h15 d tier) = Some s} \<and>
   set (pom_models_all_eras testnet h15 tier None) =
     {s. \<exists>d. pom_model_for_tier testnet d (mined_tier testnet h15 d tier) = Some s} \<and>
   distinct (pom_models_all_eras testnet h15 tier chain_daa)"
proof (intro conjI)
  let ?G = "era_gates testnet h15" and ?n = "needs testnet tier h15"
  have n: "pom_model_for_tier testnet d (mined_tier testnet h15 d tier) = ?n d" for d by (simp add: needs_def mined_tier_def)
  show "distinct (pom_models_all_eras testnet h15 tier chain_daa)"
    using models_all_eras_eq by (simp add: pom_models_all_eras_def)
  show "set (pom_models_all_eras testnet h15 tier None) = {s. \<exists>d. pom_model_for_tier testnet d (mined_tier testnet h15 d tier) = Some s}"
    unfolding n pom_models_all_eras_def models_all_eras_eq [THEN conjunct1] reachable_gates_None
    by (auto elim: needed_gate)
  have "(\<exists>g \<in> set (reachable_gates ?G (Some c)). ?n g = Some s) \<longleftrightarrow> (\<exists>d \<ge> c. ?n d = Some s)" for s
  proof
    assume "\<exists>g \<in> set (reachable_gates ?G (Some c)). ?n g = Some s"
    then obtain g where g: "\<not> (\<exists>g' \<in> set ?G. g < g' \<and> g' \<le> c)" "?n g = Some s" by (auto simp: reachable_gates_Some)
    have "?n (max g c) = ?n g" using g(1) by (intro needs_same_era) (auto simp: le_max_iff_disj not_less)
    with g(2) show "\<exists>d \<ge> c. ?n d = Some s" by (intro exI [of _ "max g c"]) simp
  next
    assume "\<exists>d \<ge> c. ?n d = Some s"
    then obtain d where d: "c \<le> d" "?n d = Some s" by blast
    from d(2) obtain g where g: "g \<in> set ?G" "g \<le> d" "\<forall>x \<in> set ?G. x \<le> d \<longrightarrow> x \<le> g" "?n g = Some s" by (rule needed_gate)
    then have "\<not> (\<exists>g' \<in> set ?G. g < g' \<and> g' \<le> c)" using d(1) by (meson le_less_trans not_le order_trans)
    then show "\<exists>g \<in> set (reachable_gates ?G (Some c)). ?n g = Some s" using g by (auto simp: reachable_gates_Some)
  qed
  then show "set (pom_models_all_eras testnet h15 tier (Some c)) =
      {s. \<exists>d \<ge> c. pom_model_for_tier testnet d (mined_tier testnet h15 d tier) = Some s}"
    unfolding n pom_models_all_eras_def models_all_eras_eq [THEN conjunct1] by simp
qed

end
