(* ===== verification/Audit_Rules.thy ===== *)
theory Audit_Rules
  imports Trace_Open Seq_Tree
begin

text \<open>
  What an audit draws and expects, from \<open>src/verifiable-inference/src\<close>: the draws of a seed (\<open>draw.rs\<close>), the plaintext of
  a sealed answer (\<open>answer.rs\<close>), the shape rule (\<open>shape.rs\<close>), the prefix that ties a trace to its request (\<open>prefix.rs\<close>),
  the leaves of a stage-2 position and the draws over layers (\<open>chain.rs\<close>) and the draws of a child of an attention
  node (\<open>attn_blocks.rs\<close>). The crate \<open>blake3\<close> is a parameter, a function into 32 bytes. The checks of these files on
  floating-point activations are not modelled.

  The lemmas show that the answer format is canonical, that the rules say in numbers what their 32-bit
  arithmetic computes, that every drawn position, block, site or child exists, and that a weighted draw
  takes each place as often as its weight.
\<close>

section \<open>Draws\<close>

definition AUDIT_THRESHOLD :: u16 where "AUDIT_THRESHOLD = 16384"
definition POINTS :: u32 where "POINTS = 2"

definition audited :: "hash \<Rightarrow> bool" where
  "audited seed \<longleftrightarrow> (from_le [seed ! 0, seed ! 1] :: u16) < AUDIT_THRESHOLD"

definition point :: "(bytes \<Rightarrow> hash) \<Rightarrow> hash \<Rightarrow> u32 \<Rightarrow> u64 list" where
  "point blake3 seed i =
     (let b = blake3 (take 32 seed @ le_bytes 4 i) in map (\<lambda>j. from_le (slice (8 * j) (8 * j + 8) b)) [0..<4])"

text \<open>The loops over weights subtract each weight in turn until the number is below one.\<close>

fun weighted_loop :: "(nat \<times> nat) list \<Rightarrow> nat \<Rightarrow> nat option" where
  "weighted_loop [] x = None"
| "weighted_loop ((j, w) # rest) x = (if x < w then Some j else weighted_loop rest (x - w))"

text \<open>\<open>attn_blocks.rs\<close>\<close>

definition draw_child :: "(bytes \<Rightarrow> hash) \<Rightarrow> hash \<Rightarrow> nat \<Rightarrow> nat" where
  "draw_child blake3 rand n = unat (from_le (take 8 (blake3 (rand @ ascii8 ''attn-child''))) :: u64) mod max n 1"

definition UNIFORM_EIGHTHS :: u8 where "UNIFORM_EIGHTHS = 4"

text \<open>\<open>n - 1\<close> is not reached with positive weights; with none at all the uniform draw is 0 and \<open>n\<close> is 1.\<close>

definition draw_weighted_child :: "(bytes \<Rightarrow> hash) \<Rightarrow> hash \<Rightarrow> u16 list \<Rightarrow> nat" where
  "draw_weighted_child blake3 rand weights =
     (let b = blake3 (rand @ ascii8 ''attn-child-w''); n = max (length weights) 1; r = unat (from_le (slice 8 16 b) :: u64)
      in if b ! 0 AND 7 < UNIFORM_EIGHTHS then r mod n
         else let total = sum_list (map unat weights)
              in case weighted_loop (enumerate 0 (map unat weights)) (r mod max total 1) of Some i \<Rightarrow> i | None \<Rightarrow> n - 1)"

text \<open>\<open>chain.rs\<close>: \<open>resid_site\<close> counts the sites in 64 bits.\<close>

definition resid_site :: "u64 \<Rightarrow> u64 \<Rightarrow> nat" where
  "resid_site d1 n_sites =
     (let x = unat (d1 mod max (n_sites * (n_sites + 1) div 2) 1); n = unat n_sites
      in case weighted_loop (map (\<lambda>j. (j, n - j)) [0..<n]) x of Some j \<Rightarrow> j | None \<Rightarrow> 0)"

section \<open>Sealed answers\<close>

definition TOKENS_MAGIC :: bytes where "TOKENS_MAGIC = ascii8 ''KXTK''"
definition TRAILER_LEN :: nat where "TRAILER_LEN = 8"

definition answer_encode :: "bytes \<Rightarrow> u32 list \<Rightarrow> bytes" where
  "answer_encode text1 ids = text1 @ concat (map (le_bytes 4) ids) @ le_bytes 4 (of_nat (length ids) :: u32) @ TOKENS_MAGIC"

definition answer_decode :: "bytes \<Rightarrow> (bytes \<times> u32 list) option" where
  "answer_decode plain =
     (if length plain < TRAILER_LEN then None
      else let body = length plain - TRAILER_LEN
           in if drop (body + 4) plain \<noteq> TOKENS_MAGIC then None
              else let n = unat (from_le (slice body (body + 4) plain) :: u32)
                   in if body < n * 4 then None
                      else let text_len = body - n * 4
                           in Some (take text_len plain, map from_le (chunks_exact 4 (slice text_len body plain))))"

definition text_len :: "u32 \<Rightarrow> u32 \<Rightarrow> u32 option" where
  "text_len answer_len n_ids = do {
     a \<leftarrow> (if unat n_ids * 4 < 2 ^ 32 then Some (n_ids * 4) else None);
     t \<leftarrow> (if unat a + TRAILER_LEN < 2 ^ 32 then Some (a + of_nat TRAILER_LEN) else None);
     if t \<le> answer_len then Some (answer_len - t) else None }"

section \<open>The shape rule\<close>

definition PROMPT_BYTES_PER_POSITION :: u32 where "PROMPT_BYTES_PER_POSITION = 16"
definition ANSWER_BYTES_PER_POSITION :: u32 where "ANSWER_BYTES_PER_POSITION = 10"
definition MAX_ANSWER_BYTES_PER_TOKEN :: u32 where "MAX_ANSWER_BYTES_PER_TOKEN = 32"
definition MAX_TRACE_POSITIONS :: u32 where "MAX_TRACE_POSITIONS = 131072"

definition min_prompt_positions :: "u32 \<Rightarrow> u32" where
  "min_prompt_positions prompt_len = prompt_len div PROMPT_BYTES_PER_POSITION"

definition min_generated_positions :: "u32 \<Rightarrow> u32 \<Rightarrow> u32" where
  "min_generated_positions answer_len max_tokens = min (answer_len div ANSWER_BYTES_PER_POSITION) max_tokens"

definition max_answer_len :: "u32 \<Rightarrow> u64" where
  "max_answer_len max_tokens = ucast max_tokens * ucast MAX_ANSWER_BYTES_PER_TOKEN"

definition shape_ok :: "u32 \<Rightarrow> u32 \<Rightarrow> u32 \<Rightarrow> u32 \<Rightarrow> u32 \<Rightarrow> bool" where
  "shape_ok prompt_len answer_len max_tokens n_prompt n_pos \<longleftrightarrow>
     n_prompt > 0 \<and> n_pos \<ge> n_prompt \<and> n_pos \<le> MAX_TRACE_POSITIONS \<and> n_pos - n_prompt \<le> max_tokens \<and>
     n_prompt \<ge> min_prompt_positions prompt_len \<and> n_pos - n_prompt \<ge> min_generated_positions answer_len max_tokens \<and>
     ucast answer_len \<le> max_answer_len max_tokens"

section \<open>The prefix of a request\<close>

definition PREFIX_LEN :: u32 where "PREFIX_LEN = 32"
definition PREFIX_POINT :: u32 where "PREFIX_POINT = POINTS"

text \<open>The part of \<open>PrefixCtx\<close> that the functions below use; its floats scale the embedding.\<close>

record PrefixCtx =
  px_table :: "u32 list"
  px_offset :: u32
  px_embd_entry :: u32
  px_norm_entry :: u32

definition saturating_add32 :: "u32 \<Rightarrow> u32 \<Rightarrow> u32" where
  "saturating_add32 a b = (if unat a + unat b < 2 ^ 32 then a + b else - 1)"

definition fits :: "u32 \<Rightarrow> u32 \<Rightarrow> bool" where
  "fits n_prompt offset \<longleftrightarrow> n_prompt \<ge> saturating_add32 offset PREFIX_LEN"

definition prefix_position :: "(bytes \<Rightarrow> hash) \<Rightarrow> hash \<Rightarrow> u32 \<Rightarrow> u64" where
  "prefix_position blake3 seed offset = ucast offset + point blake3 seed PREFIX_POINT ! 0 mod ucast PREFIX_LEN"

definition expected_token :: "PrefixCtx \<Rightarrow> hash \<Rightarrow> u64 \<Rightarrow> u32 option" where
  "expected_token ctx request_txid t =
     (if t < ucast (px_offset ctx) then None
      else let i = t - ucast (px_offset ctx)
           in if i < ucast PREFIX_LEN then Some (px_table ctx ! unat (request_txid ! unat i)) else None)"

section \<open>Stage-2 positions\<close>

text \<open>Leaf indices are counts of leaves of a position, numbers here.\<close>

datatype Resid = Attn | Out

definition n_pos_leaves :: "nat \<Rightarrow> nat \<Rightarrow> nat \<Rightarrow> nat" where
  "n_pos_leaves n_prod n_layers n_router = 2 * n_prod + 2 * n_layers + n_router + 1"

definition router_leaf :: "nat \<Rightarrow> nat \<Rightarrow> nat \<Rightarrow> nat" where
  "router_leaf n_prod n_layers layer = 2 * n_prod + 2 * n_layers + layer"

definition resid_leaf :: "nat \<Rightarrow> nat \<Rightarrow> Resid \<Rightarrow> nat" where
  "resid_leaf n_prod layer kind = 2 * n_prod + 2 * layer + (if kind = Attn then 0 else 1)"

definition meta_leaf :: "nat \<Rightarrow> nat \<Rightarrow> nat \<Rightarrow> nat" where
  "meta_leaf n_prod n_layers n_router = 2 * n_prod + 2 * n_layers + n_router"

definition meta :: "u32 \<Rightarrow> u32 \<Rightarrow> u32 \<Rightarrow> bytes" where
  "meta t n_ubatch tok = le_bytes 4 t @ le_bytes 4 n_ubatch @ le_bytes 4 tok"

definition NORM_FRAGMENT_BLOCKS :: nat where "NORM_FRAGMENT_BLOCKS = 8"

text \<open>\<open>blocks - n\<close> does not underflow: \<open>n\<close> is at most \<open>blocks\<close>.\<close>

definition norm_fragment :: "nat \<Rightarrow> nat \<Rightarrow> nat \<times> nat" where
  "norm_fragment block k = (let blocks = div_ceil k 32; n = min NORM_FRAGMENT_BLOCKS blocks in (min block (blocks - n), n))"

text \<open>The outer \<open>None\<close> is the panic of \<open>d0 % n_pos\<close> with no positions, which the caller rules out.\<close>

definition resid_position :: "bool \<Rightarrow> u32 \<Rightarrow> u32 \<Rightarrow> u32 \<Rightarrow> u64 \<Rightarrow> u64 \<Rightarrow> (Fail + u64) option" where
  "resid_position trim_last n_layers n_prompt resp_n_pos layer d0 =
     (let n_pos = ucast resp_n_pos :: u64
      in if trim_last \<and> layer + 1 = ucast n_layers
         then let first = ucast n_prompt - 1
              in if n_prompt = 0 \<or> \<not> first < n_pos then Some (Inl Shape) else Some (Inr (first + d0 mod (n_pos - first)))
         else if n_pos = 0 then None else Some (Inr (d0 mod n_pos)))"

definition layer_role :: "u8 \<Rightarrow> bool \<Rightarrow> bool" where
  "layer_role role trimmed \<longleftrightarrow> role = ROLE_PRODUCT \<or> (trimmed \<and> role = ROLE_OUTPUT)"

definition n_chunks_of :: "nat \<Rightarrow> nat" where
  "n_chunks_of total_len = max (div_ceil total_len B3_CHUNK) 1"

section \<open>Weighted draws\<close>

text \<open>A number below the sum of the weights falls into the place whose interval holds it.\<close>

lemma weighted_loop_iff:
  "weighted_loop (enumerate k ws) x = Some j \<longleftrightarrow>
     (\<exists>i < length ws. j = k + i \<and> sum_list (take i ws) \<le> x \<and> x < sum_list (take (i + 1) ws))"
proof (induction ws arbitrary: k x)
  case (Cons w ws)
  show ?case
  proof (cases "x < w")
    case True
    then show ?thesis
      by (auto simp: less_Suc_eq_0_disj)
  next
    case False
    then have "weighted_loop (enumerate k (w # ws)) x = weighted_loop (enumerate (Suc k) ws) (x - w)" by simp
    also have "\<dots> = Some j \<longleftrightarrow> (\<exists>i < length ws. j = Suc k + i \<and> sum_list (take i ws) \<le> x - w \<and> x - w < sum_list (take (i + 1) ws))"
      by (rule Cons.IH)
    also have "\<dots> \<longleftrightarrow> (\<exists>i < length (w # ws). j = k + i \<and> sum_list (take i (w # ws)) \<le> x \<and> x < sum_list (take (i + 1) (w # ws)))"
      using False by (auto simp: less_Suc_eq_0_disj)
    finally show ?thesis .
  qed
qed simp

lemma weighted_loop_in_range:
  assumes "x < sum_list ws"
  shows "\<exists>i < length ws. weighted_loop (enumerate k ws) x = Some (k + i)"
  using assms
proof (induction ws arbitrary: k x)
  case (Cons w ws)
  show ?case
  proof (cases "x < w")
    case False
    then obtain i where "i < length ws" "weighted_loop (enumerate (Suc k) ws) (x - w) = Some (Suc k + i)"
      using Cons.IH [of "x - w" "Suc k"] Cons.prems less_diff_conv2 [of w x "sum_list ws"] by (auto simp: not_less add.commute)
    then show ?thesis using False by (intro exI [of _ "Suc i"]) simp
  qed auto
qed simp

lemma weighted_loop_card:
  assumes "i < length ws"
  shows "card {x. x < sum_list ws \<and> weighted_loop (enumerate 0 ws) x = Some i} = ws ! i"
proof -
  have "sum_list (take (i + 1) ws) = sum_list (take i ws) + ws ! i" using assms by (simp add: take_Suc_conv_app_nth)
  moreover have "sum_list (take (i + 1) ws) \<le> sum_list ws" by (metis append_take_drop_id le_add1 sum_list_append)
  ultimately have "{x. x < sum_list ws \<and> weighted_loop (enumerate 0 ws) x = Some i} = {sum_list (take i ws)..<sum_list (take i ws) + ws ! i}"
    using assms by (auto simp: weighted_loop_iff)
  then show ?thesis by simp
qed

definition site_weights :: "nat \<Rightarrow> nat list" where
  "site_weights n = map (\<lambda>j. n - j) [0..<n]"

lemma sum_site_weights: "sum_list (site_weights n) = n * (n + 1) div 2"
proof -
  have "2 * sum_list (map (\<lambda>j. n - j) [0..<m]) = m * (2 * n - m + 1)" if "m \<le> n" for m
    using that
  proof (induction m)
    case (Suc m)
    obtain e where e: "n = Suc m + e" using Suc.prems le_Suc_ex by blast
    have "2 * sum_list (map (\<lambda>j. n - j) [0..<Suc m]) = m * (2 * n - m + 1) + 2 * (n - m)" using Suc by simp
    also have "\<dots> = Suc m * (2 * n - Suc m + 1)" unfolding e by (simp add: algebra_simps)
    finally show ?case .
  qed simp
  from this [of n] have "2 * sum_list (site_weights n) = n * (n + 1)" by (simp add: site_weights_def)
  then show ?thesis by linarith
qed

lemma resid_site_loop:
  assumes "n * (n + 1) < 2 ^ 64" and "0 < n"
  shows "\<exists>j < n. resid_site d1 (of_nat n) = j \<and> weighted_loop (enumerate 0 (site_weights n)) (unat d1 mod (n * (n + 1) div 2)) = Some j"
proof -
  have "n \<le> n * (n + 1)" by simp
  then have un: "unat (of_nat n :: u64) = n" using assms(1) by (intro unat_of_nat_u64) linarith
  have "unat (of_nat (n * (n + 1)) :: u64) = n * (n + 1)" using assms(1) by (rule unat_of_nat_u64)
  then have m: "unat (of_nat n * (of_nat n + 1) :: u64) = n * (n + 1)" by (simp only: of_nat_mult of_nat_add of_nat_1)
  define total :: u64 where "total = of_nat n * (of_nat n + 1) div 2"
  have total: "unat total = n * (n + 1) div 2" unfolding total_def unat_div m by simp
  have pos: "0 < n * (n + 1) div 2" using assms(2) by (cases n) auto
  then have "1 \<le> total" using total by (simp add: word_le_nat_alt)
  then have "max total 1 = total" by (rule max.absorb1)
  moreover have "unat (d1 mod total) = unat d1 mod (n * (n + 1) div 2)" by (simp only: unat_mod total)
  ultimately have r: "resid_site d1 (of_nat n) =
      (case weighted_loop (map (\<lambda>j. (j, n - j)) [0..<n]) (unat d1 mod (n * (n + 1) div 2)) of Some j \<Rightarrow> j | None \<Rightarrow> 0)"
    unfolding resid_site_def Let_def un total_def [symmetric] by simp
  have e: "map (\<lambda>j. (j, n - j)) [0..<n] = enumerate 0 (site_weights n)"
    by (rule nth_equalityI) (simp_all add: site_weights_def nth_enumerate_eq)
  have "unat d1 mod (n * (n + 1) div 2) < sum_list (site_weights n)" unfolding sum_site_weights using pos by (rule mod_less_divisor)
  from weighted_loop_in_range [OF this, of 0] obtain i where
    "i < n" "weighted_loop (enumerate 0 (site_weights n)) (unat d1 mod (n * (n + 1) div 2)) = Some i"
    by (auto simp: site_weights_def)
  then show ?thesis unfolding r e by auto
qed

section \<open>Leaves of a position\<close>

text \<open>The leaves of a stage-2 position in order.\<close>

definition position_leaves :: "nat \<Rightarrow> nat \<Rightarrow> nat \<Rightarrow> nat list" where
  "position_leaves n_prod n_layers n_router =
     concat (map (\<lambda>rank. [2 * rank, 2 * rank + 1]) [0..<n_prod]) @
     concat (map (\<lambda>layer. [resid_leaf n_prod layer Attn, resid_leaf n_prod layer Out]) [0..<n_layers]) @
     map (router_leaf n_prod n_layers) [0..<n_router] @ [meta_leaf n_prod n_layers n_router]"

lemma position_leaves_in_order: "position_leaves n_prod n_layers n_router = [0..<n_pos_leaves n_prod n_layers n_router]"
proof -
  let ?b = "2 * n_prod + 2 * n_layers"
  have "concat (map (\<lambda>rank. [2 * rank, 2 * rank + 1]) [0..<n_prod]) = [0..<2 * n_prod]"
    using pairs_upt [of "\<lambda>x. x" 0 n_prod] by simp
  moreover have "concat (map (\<lambda>layer. [resid_leaf n_prod layer Attn, resid_leaf n_prod layer Out]) [0..<n_layers]) = [2 * n_prod..<?b]"
    using pairs_upt [of "\<lambda>x. x" "2 * n_prod" n_layers] by (simp add: resid_leaf_def)
  moreover have "map (router_leaf n_prod n_layers) [0..<n_router] = [?b..<?b + n_router]"
    by (rule nth_equalityI) (simp_all add: router_leaf_def)
  moreover have "[0..<?b + n_router + 1] = [0..<2 * n_prod] @ [2 * n_prod..<?b] @ [?b..<?b + n_router] @ [?b + n_router]"
    using upt_add_eq_append [of 0 "2 * n_prod" "2 * n_layers"] upt_add_eq_append [of 0 ?b n_router] by simp
  ultimately show ?thesis by (simp add: position_leaves_def meta_leaf_def n_pos_leaves_def)
qed

section \<open>Properties\<close>

text \<open>The plaintext of a sealed answer is canonical: \<open>answer_decode\<close> returns a text and token ids exactly for the plaintext that
  \<open>answer_encode\<close> writes for them, whatever bytes the text has; \<open>text_len\<close> says its length from the length of the
  whole, and says None exactly if the ids do not fit.\<close>

theorem answer_canonical:
  "(answer_decode plain = Some (txt, ids) \<longleftrightarrow> plain = answer_encode txt ids \<and> length ids < 2 ^ 32) \<and>
   (text_len answer_len n_ids = Some t \<longleftrightarrow> unat t + 4 * unat n_ids + TRAILER_LEN = unat answer_len)"
proof (intro conjI)
  have magic: "length TOKENS_MAGIC = 4" by (simp add: TOKENS_MAGIC_def ascii8_def)
  show "answer_decode plain = Some (txt, ids) \<longleftrightarrow> plain = answer_encode txt ids \<and> length ids < 2 ^ 32"
  proof
    assume "plain = answer_encode txt ids \<and> length ids < 2 ^ 32"
    then have "plain = txt @ concat (map (le_bytes 4) ids) @ le_bytes 4 (of_nat (length ids) :: u32) @ TOKENS_MAGIC"
      and n: "unat (of_nat (length ids) :: u32) = length ids"
      by (simp_all add: answer_encode_def unat_of_nat)
    moreover have "length (concat (map (le_bytes 4) ids)) = length ids * 4" by (induction ids) auto
    moreover have "chunks_exact 4 (concat (map (le_bytes 4) ids)) = map (le_bytes 4) ids" by (rule chunks_exact_concat) auto
    ultimately show "answer_decode plain = Some (txt, ids)"
      by (simp add: answer_decode_def Let_def TRAILER_LEN_def magic layout_simps from_le_bytes comp_def)
  next
    assume a: "answer_decode plain = Some (txt, ids)"
    define body where "body = length plain - TRAILER_LEN"
    define w :: u32 where "w = from_le (slice body (body + 4) plain)"
    have g: "TRAILER_LEN \<le> length plain" "drop (body + 4) plain = TOKENS_MAGIC" "unat w * 4 \<le> body" "txt = take (body - unat w * 4) plain"
      "ids = map from_le (chunks_exact 4 (slice (body - unat w * 4) body plain))"
      using a by (auto simp: answer_decode_def Let_def body_def w_def split: if_splits)
    define S where "S = slice (body - unat w * 4) body plain"
    have len: "length S = unat w * 4" using g(1,3) by (simp add: S_def body_def TRAILER_LEN_def)
    note ch = chunks_exact_all [OF _ len, simplified]
    have ids: "ids = map from_le (chunks_exact 4 S)" using g(5) by (simp add: S_def)
    have "map (le_bytes 4) ids = chunks_exact 4 S" using ch unfolding ids by (simp add: comp_def map_idI le_bytes_from_le)
    then have "concat (map (le_bytes 4) ids) = S" using ch by metis
    moreover have n: "length ids = unat w" using conjunct1 [OF ch] by (simp only: ids length_map)
    moreover have "le_bytes 4 w = slice body (body + 4) plain" using g(1) unfolding w_def by (intro le_slice) (simp_all add: body_def TRAILER_LEN_def)
    ultimately have "answer_encode txt ids = take (body - unat w * 4) plain @ S @ slice body (body + 4) plain @ drop (body + 4) plain"
      by (simp add: answer_encode_def g(2) g(4) [symmetric])
    also have "\<dots> = plain" unfolding S_def by (simp add: slice_joins)
    finally show "plain = answer_encode txt ids \<and> length ids < 2 ^ 32" using n unsigned_less [of w] by simp
  qed
next
  have n: "unat n_ids < 2 ^ 32" "unat answer_len < 2 ^ 32" using unsigned_less [of n_ids] unsigned_less [of answer_len] by simp_all
  show "text_len answer_len n_ids = Some t \<longleftrightarrow> unat t + 4 * unat n_ids + TRAILER_LEN = unat answer_len"
  proof (cases "unat n_ids * 4 + 8 < 2 ^ 32")
    case True
    then have "unat (n_ids * 4) = unat n_ids * 4" "unat (n_ids * 4 + 8) = unat n_ids * 4 + 8"
      by (simp_all add: unat_word_ariths)
    then show ?thesis using True n
      by (auto simp: text_len_def TRAILER_LEN_def word_le_nat_alt unat_sub word_unat_eq_iff)
  next
    case False
    then show ?thesis using n by (auto simp: text_len_def TRAILER_LEN_def unat_word_ariths split: if_splits)
  qed
qed

text \<open>The shape rule says what its 32-bit arithmetic means: at most 131072 positions, no more generated positions than the budget,
  at most 16 bytes of prompt and 10 of answer per position, and at most 32 bytes of answer per token of the budget;
  no subtraction wraps.\<close>

theorem shape_ok_iff:
  "shape_ok prompt_len answer_len max_tokens n_prompt n_pos \<longleftrightarrow>
    0 < unat n_prompt \<and> unat n_prompt \<le> unat n_pos \<and> unat n_pos \<le> 131072 \<and> unat n_pos \<le> unat n_prompt + unat max_tokens \<and>
    unat prompt_len < 16 * (unat n_prompt + 1) \<and>
    min (unat answer_len div 10) (unat max_tokens) + unat n_prompt \<le> unat n_pos \<and> unat answer_len \<le> 32 * unat max_tokens"
proof -
  have m: "unat max_tokens < 2 ^ 32" using unsigned_less [of max_tokens] by simp
  have "unat (max_answer_len max_tokens) = unat max_tokens * 32"
    unfolding max_answer_len_def MAX_ANSWER_BYTES_PER_TOKEN_def using m
    by (subst unat_mult_u64) (simp_all add: unat_ucast_32_64)
  then have l: "(ucast answer_len :: u64) \<le> max_answer_len max_tokens \<longleftrightarrow> unat answer_len \<le> 32 * unat max_tokens"
    by (simp add: word_le_nat_alt unat_ucast_32_64 mult.commute)
  have quot: "a div 16 \<le> b \<longleftrightarrow> a < 16 * (b + 1)" for a b :: nat
    using div_less_iff_less_mult [of 16 a "b + 1"] by (simp add: less_Suc_eq_le mult.commute)
  have p: "min_prompt_positions prompt_len \<le> n_prompt \<longleftrightarrow> unat prompt_len < 16 * (unat n_prompt + 1)"
    using quot [of "unat prompt_len" "unat n_prompt"]
    by (simp add: min_prompt_positions_def PROMPT_BYTES_PER_POSITION_def word_le_nat_alt unat_div)
  have sub: "unat (n_pos - n_prompt) = unat n_pos - unat n_prompt" if "n_prompt \<le> n_pos" using that by (simp add: unat_sub)
  have g: "min_generated_positions answer_len max_tokens \<le> w \<longleftrightarrow> min (unat answer_len div 10) (unat max_tokens) \<le> unat w" for w
    by (auto simp: min_generated_positions_def ANSWER_BYTES_PER_POSITION_def word_le_nat_alt unat_div min_def)
  have z: "n_prompt > 0 \<longleftrightarrow> 0 < unat n_prompt" by (simp add: word_less_nat_alt)
  show ?thesis
    unfolding shape_ok_def l p g z
    by (cases "n_prompt \<le> n_pos") (auto simp: sub word_le_nat_alt MAX_TRACE_POSITIONS_def)
qed

text \<open>A seed draws a position of the prefix, and at every position of the prefix, and only there, the context expects a token: the
  one that its table gives for the byte of the request id at that place. A prompt that fits holds the prefix,
  unless its end would pass the largest 32-bit number.\<close>

theorem prefix_draw:
  "(case expected_token ctx txid (prefix_position blake3 seed (px_offset ctx)) of
      None \<Rightarrow> False
    | Some tok \<Rightarrow> \<exists>i < 32. unat (prefix_position blake3 seed (px_offset ctx)) = unat (px_offset ctx) + i \<and> tok = px_table ctx ! unat (txid ! i)) \<and>
   (expected_token ctx txid t \<noteq> None \<longleftrightarrow> unat (px_offset ctx) \<le> unat t \<and> unat t < unat (px_offset ctx) + 32) \<and>
   (fits n_prompt (px_offset ctx) \<longleftrightarrow> min (unat (px_offset ctx) + 32) (2 ^ 32 - 1) \<le> unat n_prompt)"
proof (intro conjI)
  let ?off = "px_offset ctx"
  define r where "r = point blake3 seed PREFIX_POINT ! 0 mod ucast PREFIX_LEN"
  have len: "unat (ucast PREFIX_LEN :: u64) = 32" by (simp add: PREFIX_LEN_def unat_ucast_32_64)
  have off: "unat (ucast ?off :: u64) = unat ?off" "unat ?off < 2 ^ 32" using unsigned_less [of ?off] by (simp_all add: unat_ucast_32_64)
  have r: "unat r < 32" unfolding r_def unat_mod len by simp
  have pos: "unat (ucast ?off + r) = unat ?off + unat r" using off r by (subst unat_add_u64) simp_all
  then have "ucast ?off + r - ucast ?off = r" "\<not> ucast ?off + r < ucast ?off" by (simp_all add: word_less_nat_alt off)
  then have "expected_token ctx txid (ucast ?off + r) = Some (px_table ctx ! unat (txid ! unat r))"
    using r by (simp add: expected_token_def Let_def word_less_nat_alt len)
  then show "case expected_token ctx txid (prefix_position blake3 seed ?off) of None \<Rightarrow> False
    | Some tok \<Rightarrow> \<exists>i < 32. unat (prefix_position blake3 seed ?off) = unat ?off + i \<and> tok = px_table ctx ! unat (txid ! i)"
    unfolding prefix_position_def r_def [symmetric] using r pos by auto
  show "expected_token ctx txid t \<noteq> None \<longleftrightarrow> unat ?off \<le> unat t \<and> unat t < unat ?off + 32"
  proof (cases "t < ucast ?off")
    case True
    then show ?thesis by (simp add: expected_token_def word_less_nat_alt off)
  next
    case False
    then have "unat (t - ucast ?off) = unat t - unat ?off" by (simp add: unat_sub off)
    then show ?thesis using False by (auto simp: expected_token_def Let_def word_less_nat_alt off len)
  qed
  have "unat (- 1 :: u32) = 2 ^ 32 - 1" by (simp add: unsigned_minus_1_eq_mask mask_eq_exp_minus_1)
  moreover have "unat (?off + PREFIX_LEN) = unat ?off + 32" if "unat ?off + 32 < 2 ^ 32"
    using that by (simp add: PREFIX_LEN_def unat_word_ariths)
  ultimately show "fits n_prompt ?off \<longleftrightarrow> min (unat ?off + 32) (2 ^ 32 - 1) \<le> unat n_prompt"
    by (auto simp: fits_def saturating_add32_def word_le_nat_alt PREFIX_LEN_def min_def)
qed

text \<open>The draws over residual sites follow the weights exactly: of the \<open>n (n + 1) / 2\<close> numbers that the draw is reduced
  to, site \<open>j\<close> takes \<open>n - j\<close>, so earlier layers are drawn more often, and a draw is always a site.\<close>

theorem resid_site_weights:
  assumes "n * (n + 1) < 2 ^ 64" and "j < n"
  shows "card {x. x < n * (n + 1) div 2 \<and> resid_site (of_nat x) (of_nat n) = j} = n - j \<and>
    resid_site d1 (of_nat n) < n"
proof -
  have n: "0 < n" using assms(2) by simp
  have "resid_site (of_nat x) (of_nat n) = j \<longleftrightarrow> weighted_loop (enumerate 0 (site_weights n)) x = Some j" if "x < n * (n + 1) div 2" for x
  proof -
    have "x < 2 ^ 64" using that assms(1) by linarith
    then have "unat (of_nat x :: u64) mod (n * (n + 1) div 2) = x" using that by (simp only: unat_of_nat_u64 mod_less)
    then show ?thesis using resid_site_loop [OF assms(1) n, of "of_nat x"] by auto
  qed
  then have "{x. x < n * (n + 1) div 2 \<and> resid_site (of_nat x) (of_nat n) = j} =
      {x. x < sum_list (site_weights n) \<and> weighted_loop (enumerate 0 (site_weights n)) x = Some j}"
    unfolding sum_site_weights by blast
  moreover have "card \<dots> = n - j" using weighted_loop_card [of j "site_weights n"] assms(2) by (simp add: site_weights_def)
  moreover have "resid_site d1 (of_nat n) < n" using resid_site_loop [OF assms(1) n, of d1] by auto
  ultimately show ?thesis by simp
qed

theorem resid_site_weights_witness: "card {x. x < 6 \<and> resid_site (of_nat x) 3 = 1} = 2"
  using resid_site_weights [of 3 1] by simp

text \<open>A child drawn by weight is a child: below the number of weights, uniform on half of the digests, and on the others the child
  whose interval of the running sums holds the draw, so a child of weight 0 is never drawn there.\<close>

theorem weighted_child_exact:
  assumes "0 < sum_list (map unat weights)"
  shows "draw_weighted_child blake3 rand weights < length weights \<and>
    (let b = blake3 (rand @ ascii8 ''attn-child-w''); r = unat (from_le (slice 8 16 b) :: u64); i = draw_weighted_child blake3 rand weights
     in if b ! 0 AND 7 < UNIFORM_EIGHTHS then i = r mod length weights
        else sum_list (take i (map unat weights)) \<le> r mod sum_list (map unat weights) \<and>
          r mod sum_list (map unat weights) < sum_list (take i (map unat weights)) + unat (weights ! i))"
proof -
  define b where "b = blake3 (rand @ ascii8 ''attn-child-w'')"
  define r where "r = unat (from_le (slice 8 16 b) :: u64)"
  let ?ws = "map unat weights"
  have ne: "max (length weights) 1 = length weights" "0 < length weights" using assms by (cases weights; simp)+
  have tot: "max (sum_list ?ws) 1 = sum_list ?ws" using assms by simp
  have d: "draw_weighted_child blake3 rand weights =
      (if b ! 0 AND 7 < UNIFORM_EIGHTHS then r mod length weights
       else case weighted_loop (enumerate 0 ?ws) (r mod sum_list ?ws) of Some i \<Rightarrow> i | None \<Rightarrow> length weights - 1)"
    unfolding draw_weighted_child_def Let_def b_def [symmetric] r_def [symmetric] ne tot ..
  show ?thesis
  proof (cases "b ! 0 AND 7 < UNIFORM_EIGHTHS")
    case True
    then show ?thesis using ne(2) unfolding d Let_def b_def [symmetric] r_def [symmetric] by simp
  next
    case False
    have "r mod sum_list ?ws < sum_list ?ws" using assms by simp
    then obtain i where i: "i < length weights" "weighted_loop (enumerate 0 ?ws) (r mod sum_list ?ws) = Some i"
      using weighted_loop_in_range [of _ ?ws 0] by auto
    then have "sum_list (take i ?ws) \<le> r mod sum_list ?ws \<and> r mod sum_list ?ws < sum_list (take (i + 1) ?ws)"
      unfolding weighted_loop_iff by auto
    moreover have "sum_list (take (i + 1) ?ws) = sum_list (take i ?ws) + unat (weights ! i)" using i(1) by (simp add: take_Suc_conv_app_nth)
    ultimately show ?thesis using False i unfolding d Let_def b_def [symmetric] r_def [symmetric] by simp
  qed
qed

theorem weighted_child_exact_witness:
  "draw_weighted_child (\<lambda>bs. [4, 0, 0, 0, 0, 0, 0, 0, 7, 0, 0, 0, 0, 0, 0, 0]) [] [3, 0, 5] < 3"
  using weighted_child_exact [of "[3, 0, 5]" "\<lambda>bs. [4, 0, 0, 0, 0, 0, 0, 0, 7, 0, 0, 0, 0, 0, 0, 0]" "[]"] by simp

text \<open>The leaves of a stage-2 position neither overlap nor leave gaps: inputs and outputs of the products, the residuals of the
  layers, the router scores and the meta leaf are the numbers 0 to \<open>n_pos_leaves - 1\<close> in order; a residual point is
  drawn at a position of the trace, on the last trimmed layer at one that produces an output.\<close>

theorem positions_and_leaves:
  "position_leaves n_prod n_layers n_router = [0..<n_pos_leaves n_prod n_layers n_router] \<and>
   (case resid_position trim nl np n layer d0 of
      Some (Inr t) \<Rightarrow> unat t < unat n \<and> (if trim \<and> layer + 1 = ucast nl then 0 < unat np \<and> unat np \<le> unat t + 1 else True)
    | Some (Inl _) \<Rightarrow> trim \<and> layer + 1 = ucast nl \<and> (np = 0 \<or> unat n < unat np)
    | None \<Rightarrow> n = 0)"
proof (intro conjI)
  define n' :: u64 where "n' = ucast n"
  define first :: u64 where "first = ucast np - 1"
  have n: "unat n' = unat n" by (simp add: n'_def unat_ucast_32_64)
  have f: "unat first = unat np - 1" if "np \<noteq> 0"
  proof -
    have "1 \<le> unat np" using that by (simp add: unat_gt_0 Suc_leI)
    then have "(1 :: u64) \<le> ucast np" by (simp add: word_le_nat_alt unat_ucast_32_64)
    then show ?thesis unfolding first_def by (simp add: unat_sub unat_ucast_32_64)
  qed
  have r: "resid_position trim nl np n layer d0 =
      (if trim \<and> layer + 1 = ucast nl
       then if np = 0 \<or> \<not> first < n' then Some (Inl Shape) else Some (Inr (first + d0 mod (n' - first)))
       else if n' = 0 then None else Some (Inr (d0 mod n')))"
    unfolding resid_position_def Let_def n'_def [symmetric] first_def [symmetric] ..
  show "case resid_position trim nl np n layer d0 of
      Some (Inr t) \<Rightarrow> unat t < unat n \<and> (if trim \<and> layer + 1 = ucast nl then 0 < unat np \<and> unat np \<le> unat t + 1 else True)
    | Some (Inl _) \<Rightarrow> trim \<and> layer + 1 = ucast nl \<and> (np = 0 \<or> unat n < unat np)
    | None \<Rightarrow> n = 0"
  proof (cases "trim \<and> layer + 1 = ucast nl")
    case last: True
    show ?thesis
    proof (cases "np = 0 \<or> \<not> first < n'")
      case True
      moreover have "np \<noteq> 0 \<Longrightarrow> 0 < unat np" by (simp add: unat_gt_0)
      ultimately show ?thesis using last f n unfolding r by (cases "np = 0") (auto simp: word_less_nat_alt)
    next
      case False
      then have lt: "unat first < unat n" and np: "0 < unat np" using n by (auto simp: word_less_nat_alt unat_gt_0)
      have "unat (n' - first) = unat n - unat first" using False n unat_sub [of first n'] by (simp add: less_imp_le)
      then have d: "unat (d0 mod (n' - first)) < unat n - unat first" using lt by (simp add: unat_mod)
      moreover have "unat n < 2 ^ 64" using n unat_u64_lt [of n'] by simp
      ultimately have "unat (first + d0 mod (n' - first)) = unat first + unat (d0 mod (n' - first))"
        by (intro unat_add_u64) linarith
      then show ?thesis using False last d lt np f unfolding r by auto
    qed
  next
    case False
    have "n' = 0 \<longleftrightarrow> n = 0" using n by (metis unsigned_0 unsigned_eq_0_iff)
    moreover have "n \<noteq> 0 \<Longrightarrow> 0 < unat n" by (simp add: unat_gt_0)
    ultimately show ?thesis using n unfolding r if_not_P [OF False] by (cases "n = 0") (auto simp: unat_mod)
  qed
qed (rule position_leaves_in_order)

end
