(* ===== verification/Block_Task.thy ===== *)
theory Block_Task
  imports Audit_Rules "HOL-Library.List_Lexorder" "HOL-Library.Multiset"
begin

text \<open>
  The block task: the windows and seeds of \<open>src/verifiable-inference/src/block_task.rs\<close> and the tasks that the mining
  devices keep, \<open>src/src/block_task.rs\<close>. The verification of a task's opening is in terms of floating-point checks
  and is not modelled.

  The three tables behind mutexes are one state; a call of \<open>task_for\<close> is one step of a device, for
  the entries that it reads and writes between its locks are those of its own device and the seeds that
  it has read. What the engine would answer in that step to a model, a tier and a seed (\<open>slm::run_block_task\<close>)
  is an argument of the step, a function that may differ from call to call: the engine may fail now and answer later. DAA scores and windows, \<open>u64\<close> in the source, are numbers.
\<close>

section \<open>Windows and seeds\<close>

definition WINDOW_DAA :: nat where "WINDOW_DAA = 64"
definition LAG_DAA :: nat where "LAG_DAA = 16"

definition window :: "nat \<Rightarrow> nat option" where
  "window daa = (if LAG_DAA \<le> daa then Some ((daa - LAG_DAA) div WINDOW_DAA) else None)"

definition window_start :: "nat \<Rightarrow> nat" where "window_start w = w * WINDOW_DAA"

definition window_seed :: "nat \<Rightarrow> (hash \<times> nat) list \<Rightarrow> hash option" where
  "window_seed start chain = map_option fst (List.find (\<lambda>(_, daa). daa \<le> start) chain)"

definition task_bytes :: "(bytes \<Rightarrow> hash) \<Rightarrow> hash \<Rightarrow> hash" where
  "task_bytes blake3 seed = blake3 (ascii8 ''KeryxBlockTaskV1'' @ seed)"

definition task_tokens :: "(bytes \<Rightarrow> hash) \<Rightarrow> u32 list \<Rightarrow> hash \<Rightarrow> u32 list" where
  "task_tokens blake3 table seed = map (\<lambda>b. table ! unat b) (task_bytes blake3 seed)"

definition draw_seed :: "(bytes \<Rightarrow> hash) \<Rightarrow> hash \<Rightarrow> hash" where
  "draw_seed blake3 block_hash = blake3 (ascii8 ''KeryxBlockTaskDrawV1'' @ block_hash)"

definition task_prefix :: "PrefixCtx \<Rightarrow> PrefixCtx" where
  "task_prefix prefix = prefix\<lparr>px_offset := 0\<rparr>"

section \<open>Keys of parents\<close>

text \<open>Strings are their bytes, which Rust compares lexicographically.\<close>

definition to_ascii_lowercase :: "bytes \<Rightarrow> bytes" where
  "to_ascii_lowercase s = map (\<lambda>c. if 0x41 \<le> c \<and> c \<le> 0x5a then c + 32 else c) s"

fun join :: "bytes \<Rightarrow> bytes list \<Rightarrow> bytes" where
  "join sep [] = []"
| "join sep [x] = x"
| "join sep (x # xs) = x @ sep @ join sep xs"

definition parents_key :: "bytes list \<Rightarrow> bytes" where
  "parents_key parents = join [0x2c] (sort (map to_ascii_lowercase parents))"

section \<open>The tasks of the devices\<close>

record 'trace DeviceTask =
  dt_window :: nat
  dt_seed :: hash
  dt_model_id :: hash
  dt_tier :: u8
  dt_trace :: 'trace

record 'trace task_state =
  SEEDS :: "nat \<times> bytes \<Rightarrow> hash option"
  TASKS :: "nat \<times> hash \<Rightarrow> 'trace DeviceTask option"
  FAILED :: "nat \<Rightarrow> hash option"

definition SEED_WINDOWS :: nat where "SEED_WINDOWS = 4"

text \<open>\<open>BTreeMap::retain\<close>\<close>

definition retain :: "('k \<Rightarrow> 'v \<Rightarrow> bool) \<Rightarrow> ('k \<Rightarrow> 'v option) \<Rightarrow> 'k \<Rightarrow> 'v option" where
  "retain p m = (\<lambda>k. case m k of Some v \<Rightarrow> if p k v then Some v else None | None \<Rightarrow> None)"

definition set_seed :: "nat \<Rightarrow> bytes \<Rightarrow> hash \<Rightarrow> 'trace task_state \<Rightarrow> 'trace task_state" where
  "set_seed w parents sd s = s\<lparr>SEEDS := retain (\<lambda>(sw, _) _. sw + SEED_WINDOWS > w) ((SEEDS s)((w, parents) \<mapsto> sd))\<rparr>"

definition seed :: "nat \<Rightarrow> bytes \<Rightarrow> 'trace task_state \<Rightarrow> hash option" where
  "seed w parents s = SEEDS s (w, parents)"

text \<open>The part of \<open>task_for\<close> after no task of this model was found: trace it, unless this seed failed before.\<close>

definition task_trace ::
  "(hash \<Rightarrow> u8 \<Rightarrow> hash \<Rightarrow> 'trace option) \<Rightarrow> nat \<Rightarrow> hash \<Rightarrow> u8 \<Rightarrow> nat \<Rightarrow> hash \<Rightarrow> 'trace task_state \<Rightarrow> 'trace DeviceTask option \<times> 'trace task_state" where
  "task_trace run_block_task device model_id tier w sd s =
     (if FAILED s device = Some sd then (None, s)
      else case run_block_task model_id tier sd of
             None \<Rightarrow> (None, s\<lparr>FAILED := (FAILED s)(device \<mapsto> sd)\<rparr>)
           | Some trace \<Rightarrow>
               let task = \<lparr>dt_window = w, dt_seed = sd, dt_model_id = model_id, dt_tier = tier, dt_trace = trace\<rparr>
               in (Some task, s\<lparr>TASKS := (retain (\<lambda>(d, _) t. d \<noteq> device \<or> dt_window t + 1 \<ge> w) (TASKS s))((device, sd) \<mapsto> task)\<rparr>))"

definition task_for ::
  "(hash \<Rightarrow> u8 \<Rightarrow> hash \<Rightarrow> 'trace option) \<Rightarrow> nat \<Rightarrow> hash \<Rightarrow> u8 \<Rightarrow> nat \<Rightarrow> bytes \<Rightarrow> 'trace task_state \<Rightarrow> 'trace DeviceTask option \<times> 'trace task_state" where
  "task_for run_block_task device model_id tier daa parents s =
     (case window daa of
        None \<Rightarrow> (None, s)
      | Some w \<Rightarrow>
          case seed w parents s of
            None \<Rightarrow> (None, s)
          | Some sd \<Rightarrow>
              case TASKS s (device, sd) of
                Some t \<Rightarrow>
                  if dt_model_id t = model_id \<and> dt_tier t = tier then (Some t, s)
                  else task_trace run_block_task device model_id tier w sd s
              | None \<Rightarrow> task_trace run_block_task device model_id tier w sd s)"

text \<open>Any interleaving of templates that bring seeds and devices that ask for their task. The relation \<open>runs\<close> says
  which traces a run of a model at a tier on a seed can leave; every answer of the engine is one of them.\<close>

inductive task_step ::
  "(hash \<Rightarrow> u8 \<Rightarrow> hash \<Rightarrow> 'trace \<Rightarrow> bool) \<Rightarrow> 'trace task_state \<Rightarrow> 'trace task_state \<Rightarrow> bool" for runs where
  set_seed: "task_step runs s (set_seed w parents sd s)"
| task_for: "(\<And>m t sd trace. run_block_task m t sd = Some trace \<Longrightarrow> runs m t sd trace) \<Longrightarrow>
    task_step runs s (snd (task_for run_block_task device model_id tier daa parents s))"

definition task_init :: "'trace task_state" where
  "task_init = \<lparr>SEEDS = (\<lambda>_. None), TASKS = (\<lambda>_. None), FAILED = (\<lambda>_. None)\<rparr>"

section \<open>Keys\<close>

lemma join_Cons: "join sep (x # xs) = x @ (if xs = [] then [] else sep @ join sep xs)"
  by (cases xs) auto

text \<open>Without commas in the parts, and with no empty part, the parts can be read off.\<close>

lemma join_inj:
  assumes "join [c] xs = join [c] ys" and "list_all (\<lambda>x. x \<noteq> [] \<and> c \<notin> set x) xs" and "list_all (\<lambda>x. x \<noteq> [] \<and> c \<notin> set x) ys"
  shows "xs = ys"
  using assms
proof (induction xs arbitrary: ys)
  case Nil
  then show ?case by (cases ys) (auto simp: join_Cons)
next
  case (Cons x xs)
  then obtain y ys' where ys: "ys = y # ys'" by (cases ys) (auto simp: join_Cons)
  have part: "takeWhile (\<lambda>b. b \<noteq> c) (join [c] (z # zs)) = z" if "c \<notin> set z" for z zs
    using that by (auto simp: join_Cons takeWhile_append takeWhile_eq_all_conv)
  have "x = y" using Cons.prems part [of x xs] part [of y ys'] by (simp add: ys)
  moreover have "join [c] xs = join [c] ys'" "xs = [] \<longleftrightarrow> ys' = []"
    using Cons.prems(1) \<open>x = y\<close> by (auto simp: ys join_Cons split: if_splits)
  ultimately show ?case using Cons.IH [of ys'] Cons.prems(2,3) by (simp add: ys)
qed

lemma sort_eq_mset: "sort xs = sort ys \<longleftrightarrow> mset xs = mset (ys :: bytes list)"
  by (metis mset_sort properties_for_sort sorted_sort)

section \<open>Tables\<close>

lemma retain_Some [simp]: "retain p m k = Some v \<longleftrightarrow> m k = Some v \<and> p k v"
  by (auto simp: retain_def split: option.splits if_splits)

text \<open>Every stored task is a run of the model, tier and seed that it names, under its own seed.\<close>

definition tasks_ok :: "(hash \<Rightarrow> u8 \<Rightarrow> hash \<Rightarrow> 'trace \<Rightarrow> bool) \<Rightarrow> 'trace task_state \<Rightarrow> bool" where
  "tasks_ok runs s \<longleftrightarrow>
    (\<forall>d sd t. TASKS s (d, sd) = Some t \<longrightarrow> dt_seed t = sd \<and> runs (dt_model_id t) (dt_tier t) (dt_seed t) (dt_trace t))"

lemma task_trace_cases:
  assumes "task_trace run device model_id tier w sd s = (r, s')"
  obtains "r = None" "s' = s" "FAILED s device = Some sd"
  | "r = None" "FAILED s device \<noteq> Some sd" "run model_id tier sd = None" "s' = s\<lparr>FAILED := (FAILED s)(device \<mapsto> sd)\<rparr>"
  | trace where "run model_id tier sd = Some trace" "FAILED s device \<noteq> Some sd"
      "r = Some \<lparr>dt_window = w, dt_seed = sd, dt_model_id = model_id, dt_tier = tier, dt_trace = trace\<rparr>"
      "s' = s\<lparr>TASKS := (retain (\<lambda>(d, _) t. d \<noteq> device \<or> dt_window t + 1 \<ge> w) (TASKS s))((device, sd) \<mapsto>
        \<lparr>dt_window = w, dt_seed = sd, dt_model_id = model_id, dt_tier = tier, dt_trace = trace\<rparr>)\<rparr>"
  using assms by (auto simp: task_trace_def Let_def split: if_splits option.splits)

lemma task_for_cases:
  assumes "task_for run device model_id tier daa parents s = (r, s')"
  obtains "r = None" "s' = s" "case window daa of None \<Rightarrow> True | Some w \<Rightarrow> SEEDS s (w, parents) = None"
  | w sd t where "window daa = Some w" "SEEDS s (w, parents) = Some sd" "TASKS s (device, sd) = Some t"
      "dt_model_id t = model_id" "dt_tier t = tier" "r = Some t" "s' = s"
  | w sd where "window daa = Some w" "SEEDS s (w, parents) = Some sd" "\<nexists>t. TASKS s (device, sd) = Some t \<and> dt_model_id t = model_id \<and> dt_tier t = tier"
      "task_trace run device model_id tier w sd s = (r, s')"
proof (cases "window daa")
  case None
  then show thesis using assms that(1) by (simp add: task_for_def)
next
  case w: (Some w)
  show thesis
  proof (cases "SEEDS s (w, parents)")
    case None
    then show thesis using assms w that(1) by (simp add: task_for_def seed_def)
  next
    case sd: (Some sd)
    show thesis
    proof (cases "\<exists>t. TASKS s (device, sd) = Some t \<and> dt_model_id t = model_id \<and> dt_tier t = tier")
      case True
      then obtain t where t: "TASKS s (device, sd) = Some t" "dt_model_id t = model_id" "dt_tier t = tier" by blast
      then have "(r, s') = (Some t, s)" using assms w sd by (simp add: task_for_def seed_def)
      then show thesis using w sd t that(2) by blast
    next
      case False
      then have "task_trace run device model_id tier w sd s = (r, s')"
        using assms w sd by (cases "TASKS s (device, sd)") (auto simp: task_for_def seed_def split: if_splits)
      then show thesis using w sd False that(3) by blast
    qed
  qed
qed

lemma tasks_ok_trace:
  assumes "tasks_ok runs s" and "\<And>m t sd trace. run m t sd = Some trace \<Longrightarrow> runs m t sd trace"
    and "task_trace run device model_id tier w sd s = (r, s')"
  shows "tasks_ok runs s'"
  using assms(3) by (cases rule: task_trace_cases) (use assms(1,2) in \<open>auto simp: tasks_ok_def\<close>)

lemma tasks_ok_for:
  assumes "tasks_ok runs s" and "\<And>m t sd trace. run m t sd = Some trace \<Longrightarrow> runs m t sd trace"
    and "task_for run device model_id tier daa parents s = (r, s')"
  shows "tasks_ok runs s'"
  using assms(3) by (cases rule: task_for_cases) (use assms(1) tasks_ok_trace [OF assms(1,2)] in blast)+

lemma tasks_ok_step: "task_step runs s t \<Longrightarrow> tasks_ok runs s \<Longrightarrow> tasks_ok runs t"
proof (induction rule: task_step.induct)
  case (task_for run s device model_id tier daa parents)
  then show ?case using tasks_ok_for [of runs s run, OF _ _ prod.collapse [symmetric]] by blast
qed (unfold tasks_ok_def set_seed_def, simp, metis)

lemma tasks_ok_reachable: "(task_step runs)\<^sup>*\<^sup>* task_init s \<Longrightarrow> tasks_ok runs s"
  by (induction rule: rtranclp_induct) (auto simp: tasks_ok_def task_init_def dest: tasks_ok_step [unfolded tasks_ok_def])

section \<open>Properties\<close>

text \<open>A block's task window is the one that opened at least 16 and less than 80 DAA before it; the seed block of a window is the
  first block of the chain at or below its start, so blocks above the start, of which templates on one chain
  may differ, do not change it.\<close>

theorem window_and_seed:
  "(window daa = Some w \<longleftrightarrow> window_start w + LAG_DAA \<le> daa \<and> daa < window_start (w + 1) + LAG_DAA) \<and>
   window_seed start (filter (\<lambda>(_, d). start < d) newer @ chain) = window_seed start chain \<and>
   (window_seed start chain = Some h \<longleftrightarrow> (\<exists>i < length chain. fst (chain ! i) = h \<and> snd (chain ! i) \<le> start \<and> list_all (\<lambda>(_, d). start < d) (take i chain)))"
proof (intro conjI)
  have "x div 64 = w \<longleftrightarrow> w \<le> x div 64 \<and> x div 64 < w + 1" for x :: nat by linarith
  then have q: "x div 64 = w \<longleftrightarrow> w * 64 \<le> x \<and> x < (w + 1) * 64" for x :: nat
    by (simp only: div_less_iff_less_mult less_eq_div_iff_mult_less_eq zero_less_numeral)
  show "window daa = Some w \<longleftrightarrow> window_start w + LAG_DAA \<le> daa \<and> daa < window_start (w + 1) + LAG_DAA"
  proof (cases "16 \<le> daa")
    case True
    then have "window daa = Some w \<longleftrightarrow> (daa - 16) div 64 = w" by (simp add: window_def WINDOW_DAA_def LAG_DAA_def)
    also have "\<dots> \<longleftrightarrow> w * 64 + 16 \<le> daa \<and> daa < (w + 1) * 64 + 16" unfolding q using True by linarith
    finally show ?thesis by (simp only: window_start_def WINDOW_DAA_def LAG_DAA_def)
  qed (simp add: window_def window_start_def LAG_DAA_def)
  have "List.find (\<lambda>(_, d). d \<le> start) (filter (\<lambda>(_, d). start < d) newer @ chain) = List.find (\<lambda>(_, d). d \<le> start) chain"
    by (induction newer) auto
  then show "window_seed start (filter (\<lambda>(_, d). start < d) newer @ chain) = window_seed start chain"
    by (simp add: window_seed_def)
  show "window_seed start chain = Some h \<longleftrightarrow>
      (\<exists>i < length chain. fst (chain ! i) = h \<and> snd (chain ! i) \<le> start \<and> list_all (\<lambda>(_, d). start < d) (take i chain))"
  proof -
    have "list_all (\<lambda>(_, d). start < d) (take i chain) \<longleftrightarrow> (\<forall>j < i. \<not> snd (chain ! j) \<le> start)" if "i < length chain" for i
      using that by (simp add: list_all_length split_beta not_le)
    moreover have "window_seed start chain = Some h \<longleftrightarrow> (\<exists>i < length chain. snd (chain ! i) \<le> start \<and> fst (chain ! i) = h \<and> (\<forall>j < i. \<not> snd (chain ! j) \<le> start))"
      unfolding window_seed_def map_option_eq_Some find_Some_iff split_beta by (auto simp del: split_paired_Ex)
    ultimately show ?thesis by blast
  qed
qed

text \<open>Two templates have the same key exactly if they have the same parents, whatever their order and the case of their
  hexadecimal digits.\<close>

theorem parents_key_iff:
  assumes "list_all (\<lambda>p. p \<noteq> [] \<and> 0x2c \<notin> set p) ps" and "list_all (\<lambda>p. p \<noteq> [] \<and> 0x2c \<notin> set p) qs"
  shows "parents_key ps = parents_key qs \<longleftrightarrow> mset (map to_ascii_lowercase ps) = mset (map to_ascii_lowercase qs)"
proof -
  have "c = 0x2c" if "(if 0x41 \<le> c \<and> c \<le> 0x5a then c + 32 else c) = (0x2c :: u8)" for c
  proof (rule ccontr)
    assume "c \<noteq> 0x2c"
    then have c: "0x41 \<le> c \<and> c \<le> 0x5a" "c + 32 = 0x2c" using that by metis+
    have u: "65 \<le> unat c" "unat c \<le> 90" using c(1) unfolding word_le_nat_alt by simp_all
    then have "unat (c + 32) = unat c + 32" by (simp add: unat_word_ariths)
    then show False using u(1) unfolding c(2) by simp
  qed
  then have "0x2c \<notin> set (to_ascii_lowercase p)" if "0x2c \<notin> set p" for p
    unfolding to_ascii_lowercase_def set_map image_iff using that by metis
  moreover have "to_ascii_lowercase p = [] \<longleftrightarrow> p = []" for p by (simp add: to_ascii_lowercase_def)
  ultimately have low: "list_all (\<lambda>p. p \<noteq> [] \<and> 0x2c \<notin> set p) (sort (map to_ascii_lowercase xs))"
    if "list_all (\<lambda>p. p \<noteq> [] \<and> 0x2c \<notin> set p) xs" for xs
    using that unfolding list_all_iff by simp
  show ?thesis
    unfolding parents_key_def sort_eq_mset [symmetric] using join_inj [OF _ low [OF assms(1)] low [OF assms(2)]] by auto
qed

theorem parents_key_iff_witness:
  "parents_key [[0x61, 0x62], [0x30, 0x31]] = parents_key [[0x30, 0x31], [0x41, 0x62]]"
proof -
  have "list_all (\<lambda>p. p \<noteq> [] \<and> 0x2c \<notin> set p) [[0x61, 0x62], [0x30, 0x31 :: u8]]" "list_all (\<lambda>p. p \<noteq> [] \<and> 0x2c \<notin> set p) [[0x30, 0x31], [0x41, 0x62 :: u8]]"
    by simp_all
  from parents_key_iff [OF this] show ?thesis by (simp add: to_ascii_lowercase_def word_le_nat_alt)
qed

text \<open>C40: whatever templates and devices came before, a task that a device is given holds a trace that a run of its model at its
  tier on the seed recorded for the block's window and parents left, carries that model, tier and seed, and is stored
  under that seed; a trace made in this call is the one the engine answered to that model, tier and seed. No task
  is given exactly if the block has no window, no seed is recorded for it, or there is no stored task of this
  model and tier for that seed and the seed failed before or the engine has no answer, which is then remembered.
  Asking changes no seed and nothing of any other device.\<close>

theorem task_for_correct:
  assumes "(task_step runs)\<^sup>*\<^sup>* task_init s" and "\<And>m t sd trace. run m t sd = Some trace \<Longrightarrow> runs m t sd trace"
    and "task_for run device model_id tier daa parents s = (r, s')"
  shows "(case r of
      None \<Rightarrow> window daa = None \<or> (\<exists>w. window daa = Some w \<and>
        (seed w parents s = None \<or> (\<exists>sd. seed w parents s = Some sd \<and> FAILED s' device = Some sd \<and>
          (\<nexists>t. TASKS s (device, sd) = Some t \<and> dt_model_id t = model_id \<and> dt_tier t = tier) \<and>
          (FAILED s device = Some sd \<or> run model_id tier sd = None))))
    | Some t \<Rightarrow> \<exists>w. window daa = Some w \<and> seed w parents s = Some (dt_seed t) \<and> dt_model_id t = model_id \<and> dt_tier t = tier \<and>
        runs model_id tier (dt_seed t) (dt_trace t) \<and> TASKS s' (device, dt_seed t) = Some t \<and>
        (TASKS s (device, dt_seed t) = Some t \<or>
          (FAILED s device \<noteq> Some (dt_seed t) \<and> run model_id tier (dt_seed t) = Some (dt_trace t) \<and> dt_window t = w))) \<and>
    SEEDS s' = SEEDS s \<and> (d = device \<or> (TASKS s' (d, sd) = TASKS s (d, sd) \<and> FAILED s' d = FAILED s d))"
  using assms(3)
proof (cases rule: task_for_cases)
  case 1
  then show ?thesis by (auto simp: seed_def split: option.splits)
next
  case (2 w sd' t)
  then have "dt_seed t = sd' \<and> runs (dt_model_id t) (dt_tier t) (dt_seed t) (dt_trace t)"
    using tasks_ok_reachable [OF assms(1)] unfolding tasks_ok_def by blast
  then show ?thesis using 2 by (auto simp: seed_def)
next
  case (3 w sd')
  from 3(4) show ?thesis
  proof (cases rule: task_trace_cases)
    case (3 trace)
    then show ?thesis using \<open>window daa = Some w\<close> \<open>SEEDS s (w, parents) = Some sd'\<close> assms(2)
      by (auto simp: seed_def retain_def split: option.splits)
  qed (use 3(1-3) in \<open>auto simp: seed_def\<close>)
qed

theorem task_for_correct_witness:
  "\<exists>t. fst (task_for (\<lambda>m t sd. Some (m, t, sd)) 0 [1] 2 100 [0x61] (set_seed 1 [0x61] [9] task_init)) = Some t \<and>
    dt_trace t = ([1], 2, [9])"
proof -
  define run :: "hash \<Rightarrow> u8 \<Rightarrow> hash \<Rightarrow> (hash \<times> u8 \<times> hash) option" where "run = (\<lambda>m t sd. Some (m, t, sd))"
  define runs where "runs = (\<lambda>m t sd trace. trace = (m :: hash, t :: u8, sd :: hash))"
  define s :: "(hash \<times> u8 \<times> hash) task_state" where "s = set_seed 1 [0x61] [9] task_init"
  have r: "(task_step runs)\<^sup>*\<^sup>* task_init s" unfolding s_def by (rule r_into_rtranclp) (rule task_step.set_seed)
  have ok: "\<And>m t sd trace. run m t sd = Some trace \<Longrightarrow> runs m t sd trace" by (simp add: run_def runs_def)
  have sd: "SEEDS s (1, [0x61]) = Some [9]" "TASKS s (0, [9]) = None" "FAILED s 0 = None"
    by (simp_all add: s_def set_seed_def task_init_def retain_def SEED_WINDOWS_def)
  then obtain t s' where e: "task_for run 0 [1] 2 100 [0x61] s = (Some t, s')"
    by (simp add: task_for_def window_def LAG_DAA_def WINDOW_DAA_def seed_def task_trace_def Let_def run_def)
  have "\<exists>w. window 100 = Some w \<and> seed w [0x61] s = Some (dt_seed t) \<and> runs [1] 2 (dt_seed t) (dt_trace t)"
    using task_for_correct [OF r ok e] by auto
  then have "dt_trace t = ([1], 2, [9])" using sd(1) by (auto simp: window_def LAG_DAA_def WINDOW_DAA_def seed_def runs_def)
  then show ?thesis using e by (auto simp: s_def run_def)
qed

text \<open>The tables stay small and a seed that failed is not traced again: after a seed of window \<open>w\<close> is recorded only the last four
  windows have seeds, after a trace the device keeps no task of a window before the last one, and a device asked
  again for a seed that failed, and of which it has no task, says None at once, whatever the model would answer.\<close>

theorem task_tables_bounded:
  "seed w parents (set_seed w parents sd s) = Some sd \<and>
   (seed sw p (set_seed w parents sd s) = None \<or> w < sw + SEED_WINDOWS) \<and>
   (case task_trace (\<lambda>_ _ _. Some trace) device model_id tier w sd s of
      (None, s') \<Rightarrow> s' = s \<and> FAILED s device = Some sd
    | (Some t, s') \<Rightarrow> (case TASKS s' (device, k) of None \<Rightarrow> True | Some t' \<Rightarrow> w \<le> dt_window t' + 1)) \<and>
   (let s' = snd (task_trace (\<lambda>_ _ _. None) device model_id tier w sd s)
    in FAILED s' device = Some sd \<and> task_trace again device model_id' tier' w' sd s' = (None, s'))"
  by (auto simp: seed_def set_seed_def SEED_WINDOWS_def task_trace_def Let_def retain_def split: option.splits)

end
