(* ===== verification/Pow_State.thy ===== *)
theory Pow_State
  imports Heavy_Hash Models Pom_V5 Pom_Wire Block_Task
begin

text \<open>
  \<open>src/src/pow.rs\<close>: the header and its hash, the state of a mining job, and the two ways a nonce becomes
  a block: by the legacy proof of work and by the possession proof of the block's era, which puts the
  walks, provers, verifiers and the wire format of the other theories together. Strings are bytes.
  \<open>block_hash\<close> is that of \<open>keryxd_messages.rs\<close>. A panic is \<open>None\<close>, on the outside of the result.
\<close>

section \<open>What the job depends on\<close>

text \<open>The crates (Keccak, BLAKE2b, BLAKE3, hex, borsh), the float arithmetic, the start-up flags and the
  opening of a block task by the inference engine.\<close>

record ('f, 'trace) env =
  e_testnet :: bool
  e_f1600 :: "u64 list \<Rightarrow> u64 list"
  e_blake2b :: "bytes \<Rightarrow> bytes \<Rightarrow> hash"
  e_blake3 :: "bytes \<Rightarrow> hash"
  e_hex_encode :: "bytes \<Rightarrow> bytes"
  e_borsh :: Borsh
  e_floats :: "'f F64"
  e_mining_tier :: "Tier option"
  e_h15_tier :: "Tier option"
  e_open_block_task :: "hash \<Rightarrow> u8 \<Rightarrow> 'trace \<Rightarrow> hash \<Rightarrow> hash \<Rightarrow> bytes option"

section \<open>Hex\<close>

datatype FromHexError = OddLength | InvalidStringLength | InvalidHexCharacter u8 nat

definition hex_val :: "u8 \<Rightarrow> nat \<Rightarrow> FromHexError + u8" where
  "hex_val c idx =
     (if 0x41 \<le> c \<and> c \<le> 0x46 then Inr (c - 0x41 + 10)
      else if 0x61 \<le> c \<and> c \<le> 0x66 then Inr (c - 0x61 + 10)
      else if 0x30 \<le> c \<and> c \<le> 0x39 then Inr (c - 0x30)
      else Inl (InvalidHexCharacter c idx))"

text \<open>The loop over the bytes of \<open>out\<close>, of which \<open>n\<close> are left, from index \<open>i\<close>.\<close>

fun decode_loop :: "bytes \<Rightarrow> nat \<Rightarrow> nat \<Rightarrow> FromHexError + bytes" where
  "decode_loop data i 0 = Inr []"
| "decode_loop data i (Suc n) =
     (case hex_val (data ! (2 * i)) (2 * i) of Inl e \<Rightarrow> Inl e
      | Inr hi \<Rightarrow>
          (case hex_val (data ! (2 * i + 1)) (2 * i + 1) of Inl e \<Rightarrow> Inl e
           | Inr lo \<Rightarrow> map_sum id ((#) (push_bit 4 hi OR lo)) (decode_loop data (i + 1) n)))"

text \<open>The bytes written to a slice of length \<open>n\<close>.\<close>

definition decode_to_slice :: "bytes \<Rightarrow> nat \<Rightarrow> FromHexError + bytes" where
  "decode_to_slice data n =
     (if length data mod 2 \<noteq> 0 then Inl OddLength
      else if length data div 2 \<noteq> n then Inl InvalidStringLength
      else decode_loop data 0 n)"

text \<open>\<open>decode_to_slice(..).unwrap()\<close>\<close>

definition hex_unwrap :: "bytes \<Rightarrow> nat \<Rightarrow> bytes option" where
  "hex_unwrap data n = (case decode_to_slice data n of Inl _ \<Rightarrow> None | Inr b \<Rightarrow> Some b)"

section \<open>The header\<close>

record RpcBlockHeader =
  h_version :: u32
  h_parents :: "bytes list list"
  h_hash_merkle_root :: bytes
  h_accepted_id_merkle_root :: bytes
  h_utxo_commitment :: bytes
  h_timestamp :: u64
  h_bits :: u32
  h_nonce :: u64
  h_daa_score :: u64
  h_blue_work :: bytes
  h_pruning_point :: bytes
  h_blue_score :: u64
  h_pom_final_state :: u64
  h_service_state_hash :: bytes
  h_pom_tier :: u32
  h_task_root :: bytes

text \<open>The loop over the parents' hash strings, and the one over the levels.\<close>

fun parent_hashes :: "bytes list \<Rightarrow> bytes option" where
  "parent_hashes [] = Some []"
| "parent_hashes (s # ss) = do {
     h \<leftarrow> hex_unwrap s 32;
     rest \<leftarrow> parent_hashes ss;
     Some (h @ rest) }"

fun parent_levels :: "bytes list list \<Rightarrow> bytes option" where
  "parent_levels [] = Some []"
| "parent_levels (p # ps) = do {
     hs \<leftarrow> parent_hashes p;
     rest \<leftarrow> parent_levels ps;
     Some (le_bytes 8 (of_nat (length p) :: u64) @ hs @ rest) }"

text \<open>The two hex strings that may be empty, for 32 zero bytes.\<close>

definition hex_or_zero :: "bytes \<Rightarrow> bytes option" where
  "hex_or_zero s = (if s \<noteq> [] then hex_unwrap s 32 else Some (replicate 32 0))"

definition blue_work_bytes :: "bytes \<Rightarrow> bytes option" where
  "blue_work_bytes s =
     (let blue_work_len = (length s + 1) div 2
      in if blue_work_len > 32 then None
         else do {
           b \<leftarrow> (if length s mod 2 = 0 then hex_unwrap s blue_work_len else hex_unwrap (0x30 # s) blue_work_len);
           Some (le_bytes 8 (of_nat blue_work_len :: u64) @ b) })"

text \<open>What \<open>serialize_header\<close> writes to the hasher.\<close>

definition serialize_header :: "bool \<Rightarrow> RpcBlockHeader \<Rightarrow> bool \<Rightarrow> bytes option" where
  "serialize_header testnet h for_pre_pow = do {
     let (nonce, timestamp) = (if for_pre_pow then (0, 0) else (h_nonce h, h_timestamp h));
     version \<leftarrow> (if unat (h_version h) < 2 ^ 16 then Some (ucast (h_version h) :: u16) else None);
     parents_b \<leftarrow> parent_levels (h_parents h);
     merkle \<leftarrow> hex_unwrap (h_hash_merkle_root h) 32;
     accepted \<leftarrow> hex_unwrap (h_accepted_id_merkle_root h) 32;
     utxo \<leftarrow> hex_unwrap (h_utxo_commitment h) 32;
     work \<leftarrow> blue_work_bytes (h_blue_work h);
     pruning \<leftarrow> hex_unwrap (h_pruning_point h) 32;
     task \<leftarrow> (if h_daa_score h \<ge> block_task_activation_daa then hex_or_zero (h_task_root h) else Some []);
     let final = (if \<not> for_pre_pow \<and> h_daa_score h \<ge> pom_level_activation_daa testnet
                  then le_bytes 8 (h_pom_final_state h) else []);
     seal \<leftarrow> (if \<not> for_pre_pow \<and> h_daa_score h \<ge> pom_v3_activation_daa testnet
              then map_option (\<lambda>s. s @ [ucast (h_pom_tier h)]) (hex_or_zero (h_service_state_hash h)) else Some []);
     Some (le_bytes 2 version @ le_bytes 8 (of_nat (length (h_parents h)) :: u64) @ parents_b @ merkle @ accepted @ utxo @
           le_bytes 8 timestamp @ le_bytes 4 (h_bits h) @ le_bytes 8 nonce @ le_bytes 8 (h_daa_score h) @ le_bytes 8 (h_blue_score h) @
           work @ pruning @ task @ final @ seal) }"

definition fill_pom_header :: "bool \<Rightarrow> u64 \<Rightarrow> u64 \<Rightarrow> u8 \<Rightarrow> RpcBlockHeader \<Rightarrow> RpcBlockHeader" where
  "fill_pom_header testnet n final_state tier h =
     (let h = h\<lparr>h_nonce := n\<rparr>;
          h = (if h_daa_score h \<ge> pom_level_activation_daa testnet then h\<lparr>h_pom_final_state := final_state\<rparr> else h)
      in if h_daa_score h \<ge> pom_v3_activation_daa testnet then h\<lparr>h_pom_tier := ucast tier\<rparr> else h)"

section \<open>Blocks and shares\<close>

text \<open>The transactions and verbose data of a block are carried along as \<open>'r\<close>.\<close>

record 'r RpcBlock =
  b_header :: "RpcBlockHeader option"
  b_pom_proof :: bytes
  b_rest :: 'r

record Share =
  sh_id :: bytes
  sh_header_hash :: Uint256
  sh_timestamp :: u64
  sh_daa_score :: u64
  sh_nonce :: u64
  sh_target :: Uint256
  sh_nonce_mask :: u64
  sh_nonce_fixed :: u64
  sh_hash :: "bytes option"
  sh_pom_proof :: bytes
  sh_header :: "RpcBlockHeader option"
  sh_task_root :: "hash option"

datatype 'r BlockSeed = FullBlock "'r RpcBlock" | PartialBlock Share

text \<open>\<open>RpcBlock::block_hash\<close>, which reads the header only: the inner \<open>None\<close> is a block without one.\<close>

definition block_hash :: "('f, 'trace) env \<Rightarrow> RpcBlockHeader option \<Rightarrow> Uint256 option option" where
  "block_hash env h =
     (case h of None \<Rightarrow> Some None
      | Some h \<Rightarrow> map_option (\<lambda>b. Some (header_finalize (e_blake2b env) b)) (serialize_header (e_testnet env) h False))"

section \<open>The state of a job\<close>

record 'r State =
  st_id :: nat
  st_matrix :: Matrix
  st_target :: Uint256
  st_pow_hash_header :: bytes
  st_block :: "'r BlockSeed"
  st_hasher :: PowHasher
  st_nonce_mask :: u64
  st_nonce_fixed :: u64
  st_daa_score :: u64

datatype state_error = HeaderMissing | NoBlockTask

definition pre_pow_hash_of :: "('f, 'trace) env \<Rightarrow> RpcBlockHeader \<Rightarrow> Uint256 option" where
  "pre_pow_hash_of env h = map_option (header_finalize (e_blake2b env)) (serialize_header (e_testnet env) h True)"

text \<open>The fields that \<open>State::new\<close> takes from a block or a share: pre-PoW hash, timestamp, target, DAA
  score, nonce mask and fixed nonce bits.\<close>

definition seed_fields ::
  "('f, 'trace) env \<Rightarrow> 'r BlockSeed \<Rightarrow> (state_error + Uint256 \<times> u64 \<times> Uint256 \<times> u64 \<times> u64 \<times> u64) option" where
  "seed_fields env sd =
     (case sd of
        FullBlock b \<Rightarrow>
          (case b_header b of
             None \<Rightarrow> Some (Inl HeaderMissing)
           | Some h \<Rightarrow> do {
               target \<leftarrow> u256_from_compact_target (h_bits h);
               pph \<leftarrow> pre_pow_hash_of env h;
               Some (Inr (pph, h_timestamp h, target, h_daa_score h, 0xffffffffffffffff, 0)) })
      | PartialBlock s \<Rightarrow> do {
          pph \<leftarrow> (case sh_header s of Some h \<Rightarrow> pre_pow_hash_of env h | None \<Rightarrow> Some (sh_header_hash s));
          Some (Inr (pph, sh_timestamp s, sh_target s, sh_daa_score s, sh_nonce_mask s, sh_nonce_fixed s)) })"

definition State_new :: "('f, 'trace) env \<Rightarrow> nat \<Rightarrow> 'r BlockSeed \<Rightarrow> (state_error + 'r State) option" where
  "State_new env sid block_seed =
     (case seed_fields env block_seed of
        None \<Rightarrow> None
      | Some (Inl e) \<Rightarrow> Some (Inl e)
      | Some (Inr (pph, ts, target, daa, nmask, nfixed)) \<Rightarrow> do {
          m \<leftarrow> generate (e_floats env) pph (active_salt_version (e_testnet env) daa);
          Some (Inr \<lparr>st_id = sid, st_matrix = m, st_target = target,
            st_pow_hash_header = Target.to_le_bytes pph @ le_bytes 8 ts @ replicate 32 0,
            st_block = block_seed, st_hasher = PowHasher_new pph ts,
            st_nonce_mask = nmask, st_nonce_fixed = nfixed, st_daa_score = daa\<rparr>) })"

definition calculate_pow :: "('f, 'trace) env \<Rightarrow> 'r State \<Rightarrow> u64 \<Rightarrow> Uint256" where
  "calculate_pow env st n = heavy_hash (e_f1600 env) (st_matrix st) (finalize_with_nonce (e_f1600 env) (st_hasher st) n)"

definition has_template_header :: "'r State \<Rightarrow> bool" where
  "has_template_header st \<longleftrightarrow>
     (case st_block st of FullBlock _ \<Rightarrow> True | PartialBlock s \<Rightarrow> sh_header s \<noteq> None)"

definition state_parents_key :: "'r State \<Rightarrow> bytes option" where
  "state_parents_key st = do {
     h \<leftarrow> (case st_block st of FullBlock b \<Rightarrow> b_header b | PartialBlock s \<Rightarrow> sh_header s);
     case h_parents h of [] \<Rightarrow> None | p # _ \<Rightarrow> Some (parents_key p) }"

definition with_task_root :: "('f, 'trace) env \<Rightarrow> hash \<Rightarrow> 'r State \<Rightarrow> (state_error + 'r State) option" where
  "with_task_root env task st =
     (case st_block st of
        FullBlock b \<Rightarrow>
          (case b_header b of
             None \<Rightarrow> Some (Inl HeaderMissing)
           | Some h \<Rightarrow> State_new env (st_id st) (FullBlock (b\<lparr>b_header := Some (h\<lparr>h_task_root := e_hex_encode env task\<rparr>)\<rparr>)))
      | PartialBlock s \<Rightarrow>
          (case sh_header s of
             Some h \<Rightarrow> State_new env (st_id st)
               (PartialBlock (s\<lparr>sh_header := Some (h\<lparr>h_task_root := e_hex_encode env task\<rparr>), sh_task_root := Some task\<rparr>))
           | None \<Rightarrow> Some (Inl NoBlockTask)))"

text \<open>\<open><=\<close> of two \<open>Uint256\<close>, from their \<open>Ord\<close>, and \<open>format!("{:x}")\<close>, from their \<open>LowerHex\<close>.\<close>

definition u256_le :: "Uint256 \<Rightarrow> Uint256 \<Rightarrow> bool" where
  "u256_le a b \<longleftrightarrow> cmp a b \<noteq> Greater"

definition hex_digit :: "u8 \<Rightarrow> u8" where
  "hex_digit d = (if d < 10 then 0x30 + d else 0x61 + (d - 10))"

definition lower_hex :: "Uint256 \<Rightarrow> bytes" where
  "lower_hex u = concat (map (\<lambda>c. [hex_digit (drop_bit 4 c), hex_digit (c AND 0x0F)]) (Target.to_le_bytes u))"

definition check_pow :: "('f, 'trace) env \<Rightarrow> 'r State \<Rightarrow> u64 \<Rightarrow> bool" where
  "check_pow env st n \<longleftrightarrow> u256_le (calculate_pow env st n) (st_target st)"

definition generate_block_if_pow :: "('f, 'trace) env \<Rightarrow> 'r State \<Rightarrow> u64 \<Rightarrow> 'r BlockSeed option option" where
  "generate_block_if_pow env st n =
     (if \<not> check_pow env st n then Some None
      else case st_block st of
             FullBlock b \<Rightarrow>
               (case b_header b of
                  None \<Rightarrow> None
                | Some h \<Rightarrow> Some (Some (FullBlock (b\<lparr>b_header := Some (h\<lparr>h_nonce := n\<rparr>)\<rparr>))))
           | PartialBlock s \<Rightarrow>
               Some (Some (PartialBlock (s\<lparr>sh_nonce := n, sh_hash := Some (lower_hex (calculate_pow env st n))\<rparr>))))"

section \<open>The possession path\<close>

definition assemble_pom_block ::
  "('f, 'trace) env \<Rightarrow> 'r State \<Rightarrow> u64 \<Rightarrow> u64 \<Rightarrow> u8 \<Rightarrow> bytes \<Rightarrow> 'r BlockSeed option" where
  "assemble_pom_block env st n final_state tier proof_bytes =
     (case st_block st of
        FullBlock b \<Rightarrow>
          (case b_header b of
             None \<Rightarrow> None
           | Some h \<Rightarrow> Some (FullBlock (b\<lparr>b_header := Some (fill_pom_header (e_testnet env) n final_state tier h),
                                     b_pom_proof := proof_bytes\<rparr>)))
      | PartialBlock s \<Rightarrow> Some (PartialBlock (s\<lparr>sh_nonce := n, sh_pom_proof := proof_bytes\<rparr>)))"

text \<open>The pad of a v5 block: the outer \<open>None\<close> is the early return of \<open>?\<close>.\<close>

definition pom_pad :: "('f, 'trace) env \<Rightarrow> u64 \<Rightarrow> WeightIndex \<Rightarrow> u8 \<Rightarrow> (hash \<times> nat) option option" where
  "pom_pad env daa index tier =
     (if daa \<ge> pom_v5_activation_daa (e_testnet env)
      then case mining_model (e_testnet env) (e_mining_tier env) (e_h15_tier env) daa of
             None \<Rightarrow> None
           | Some spec \<Rightarrow>
               let n = pom_v5_pad_tiles (e_testnet env) (unat tier) daa
               in if n > 0 then Some (Some (v5_pad_seed (e_blake3 env) tier (ms_model_id spec) (wi_r_t index), n)) else None
      else Some None)"

definition walk_era :: "('f, 'trace) env \<Rightarrow> u64 \<Rightarrow> WeightIndex \<Rightarrow> (hash \<times> nat) option \<Rightarrow> (walk_error + u64) option" where
  "walk_era env wseed index pad =
     (case pad of Some (pad_seed, n) \<Rightarrow> walk_final_v5 (e_blake3 env) wseed index pad_seed n
      | None \<Rightarrow> walk_final_v4 (e_blake3 env) wseed index)"

definition build_era ::
  "('f, 'trace) env \<Rightarrow> u8 \<Rightarrow> u64 \<Rightarrow> WeightIndex \<Rightarrow> (hash \<times> nat) option \<Rightarrow> (walk_error + PomProofV4 \<times> u64) option" where
  "build_era env tier wseed index pad =
     (case pad of Some (pad_seed, n) \<Rightarrow> build_proof_v5 (e_blake3 env) tier wseed index pad_seed n
      | None \<Rightarrow> build_proof_v4 (e_blake3 env) tier wseed index)"

definition verify_era :: "('f, 'trace) env \<Rightarrow> u64 \<Rightarrow> PomProofV4 \<Rightarrow> WeightIndex \<Rightarrow> (hash \<times> nat) option \<Rightarrow> (walk_error + u64) option" where
  "verify_era env wseed v4 index pad =
     (case pad of Some (pad_seed, n) \<Rightarrow> verify_proof_v5 (e_blake3 env) wseed v4 (wi_r_t index) (wi_n_chunks index) pad_seed n
      | None \<Rightarrow> Some (verify_proof_v4 (e_blake3 env) wseed v4 (wi_r_t index) (wi_n_chunks index)))"

text \<open>The task opening that rides in the proof: none without a task, or for a share that is no block. The
  inner \<open>None\<close> is the early return.\<close>

definition task_opening ::
  "('f, 'trace) env \<Rightarrow> 'trace DeviceTask option \<Rightarrow> 'r BlockSeed \<Rightarrow> hash \<Rightarrow> u64 \<Rightarrow> u64 \<Rightarrow> u8 \<Rightarrow> bytes option option option" where
  "task_opening env task won pow_value n final_state tier =
     (let open_at = (\<lambda>t h. case block_hash env h of
                None \<Rightarrow> None
              | Some None \<Rightarrow> Some None
              | Some (Some hash) \<Rightarrow>
                  Some (map_option Some (e_open_block_task env (dt_model_id t) (dt_tier t) (dt_trace t) (dt_seed t) (Target.to_le_bytes hash))))
      in case (task, won) of
           (Some t, FullBlock b) \<Rightarrow> open_at t (b_header b)
         | (Some t, PartialBlock s) \<Rightarrow>
             (case sh_header s of
                None \<Rightarrow> Some (Some None)
              | Some h \<Rightarrow>
                  (case u256_from_compact_target (h_bits h) of
                     None \<Rightarrow> None
                   | Some network_target \<Rightarrow>
                       if le_leq pow_value (Target.to_le_bytes network_target)
                       then open_at t (Some (fill_pom_header (e_testnet env) n final_state tier h))
                       else Some (Some None)))
         | (None, _) \<Rightarrow> Some (Some None))"

definition set_pom_proof :: "bytes \<Rightarrow> 'r BlockSeed \<Rightarrow> 'r BlockSeed" where
  "set_pom_proof proof_bytes won =
     (case won of
        FullBlock b \<Rightarrow> FullBlock (b\<lparr>b_pom_proof := proof_bytes\<rparr>)
      | PartialBlock s \<Rightarrow> PartialBlock (s\<lparr>sh_pom_proof := proof_bytes\<rparr>))"

text \<open>The part of \<open>generate_block_if_pom\<close> from the v4 gate on.\<close>

definition pom_block_v4 ::
  "('f, 'trace) env \<Rightarrow> 'r State \<Rightarrow> hash \<Rightarrow> u64 \<Rightarrow> u64 \<Rightarrow> WeightIndex \<Rightarrow> u8 \<Rightarrow> 'trace DeviceTask option \<Rightarrow> 'r BlockSeed option option" where
  "pom_block_v4 env st pph ts n index tier task =
     (let wseed = pom_block_seed_v4_era (e_testnet env) (e_f1600 env) pph ts n (st_daa_score st);
          target = Target.to_le_bytes (st_target st)
      in case pom_pad env (st_daa_score st) index tier of
           None \<Rightarrow> Some None
         | Some pad \<Rightarrow>
             (case walk_era env wseed index pad of
                None \<Rightarrow> None
              | Some (Inl e) \<Rightarrow> Some None
              | Some (Inr walked) \<Rightarrow>
                  if \<not> le_leq (pom_pow_value walked pph True) target then Some None
                  else
                    (case build_era env tier wseed index pad of
                       None \<Rightarrow> None
                     | Some (Inl e) \<Rightarrow> Some None
                     | Some (Inr (v4, final_state)) \<Rightarrow>
                         let pow_value = pom_pow_value final_state pph True
                         in if final_state \<noteq> walked \<or> \<not> le_leq pow_value target then Some None
                            else
                              (case verify_era env wseed v4 index pad of
                                 None \<Rightarrow> None
                               | Some (Inl e) \<Rightarrow> Some None
                               | Some (Inr checked) \<Rightarrow>
                                   if checked \<noteq> final_state then Some None
                                   else
                                     let proof = \<lparr>pp_tier = tier, pp_trace_root = replicate 32 0, pp_pow_value = pow_value,
                                           pp_final_state = final_state, pp_initial_trace_path = [], pp_final_trace_path = [],
                                           pp_openings = [], pp_steps_v2 = None, pp_v3 = None, pp_v4 = Some v4, pp_task = None\<rparr>
                                     in do {
                                       won \<leftarrow> assemble_pom_block env st n final_state tier [];
                                       opening \<leftarrow> task_opening env task won pow_value n final_state tier;
                                       case opening of
                                         None \<Rightarrow> Some None
                                       | Some opn \<Rightarrow> do {
                                           proof_bytes \<leftarrow> to_wire_bytes (e_borsh env) (proof\<lparr>pp_task := opn\<rparr>);
                                           Some (Some (set_pom_proof proof_bytes won)) } }))))"

text \<open>The part below the v3 gate.\<close>

definition pom_block_legacy ::
  "('f, 'trace) env \<Rightarrow> 'r State \<Rightarrow> hash \<Rightarrow> u64 \<Rightarrow> u64 \<Rightarrow> WeightIndex \<Rightarrow> u8 \<Rightarrow> 'r BlockSeed option option" where
  "pom_block_legacy env st pph ts n index tier =
     (let daa = st_daa_score st;
          h3 = (daa \<ge> pom_level_activation_daa (e_testnet env));
          walk_v2 = (daa \<ge> h5_activation_daa (e_testnet env));
          h5_1 = (daa \<ge> h5_1_activation_daa (e_testnet env));
          h5_2 = (daa \<ge> h5_2_activation_daa (e_testnet env));
          wseed = pom_block_seed pph ts n h3 h5_1 h5_2;
          target = Target.to_le_bytes (st_target st)
      in do {
        final_state \<leftarrow> walk_final wseed (wi_n_chunks index) POM_WALK_STEPS (read_chunk index) walk_v2;
        if \<not> le_leq (pom_pow_value final_state pph h3) target then Some None
        else do {
          let h4 = (daa \<ge> coin_age_verification_activation_daa (e_testnet env));
          proof \<leftarrow> (if h4
             then build_proof_v2 tier pph wseed (wi_n_chunks index) POM_WALK_STEPS (read_chunk index)
                    (merkle_path (e_blake3 env) index) h3 walk_v2
             else build_proof (e_blake3 env) tier pph n wseed (wi_n_chunks index) POM_WALK_STEPS POM_OPENINGS (read_chunk index)
                    (merkle_path (e_blake3 env) index) h3);
          self_ok \<leftarrow> (if h4
             then verify_proof_v2 (e_blake3 env) proof pph wseed (wi_n_chunks index) POM_WALK_STEPS (wi_r_t index) target h3 walk_v2
             else verify_proof (e_blake3 env) pph n wseed proof (wi_n_chunks index) POM_WALK_STEPS POM_OPENINGS (wi_r_t index) target h3);
          if \<not> self_ok then Some None
          else do {
            proof_bytes \<leftarrow> to_wire_bytes (e_borsh env) proof;
            map_option Some (assemble_pom_block env st n final_state tier proof_bytes) } } })"

definition generate_block_if_pom ::
  "('f, 'trace) env \<Rightarrow> 'r State \<Rightarrow> u64 \<Rightarrow> WeightIndex \<Rightarrow> u8 \<Rightarrow> 'trace DeviceTask option \<Rightarrow> 'r BlockSeed option option" where
  "generate_block_if_pom env st n index tier task =
     (let pph = slice 0 32 (st_pow_hash_header st);
          ts = from_le (slice 32 40 (st_pow_hash_header st)) :: u64
      in if st_daa_score st \<ge> pom_v4_activation_daa (e_testnet env)
         then pom_block_v4 env st pph ts n index tier task
         else if st_daa_score st \<ge> pom_v3_activation_daa (e_testnet env) then Some None
         else pom_block_legacy env st pph ts n index tier)"

section \<open>The possession path finds every winner\<close>

text \<open>The end of the walk that a nonce's seed leads to over the model and the pad.\<close>

definition era_final :: "('f, 'trace) env \<Rightarrow> u64 \<Rightarrow> WeightIndex \<Rightarrow> (hash \<times> nat) option \<Rightarrow> u64" where
  "era_final env wseed index pad =
     (case pad of Some (pad_seed, n) \<Rightarrow> v5_final (e_blake3 env) wseed (sparse_chunks index) pad_seed n
      | None \<Rightarrow> v4_final (e_blake3 env) wseed (sparse_chunks index))"

lemma pom_pad_positive: "pom_pad env daa index tier = Some (Some (pad_seed, n)) \<Longrightarrow> 0 < n"
  by (auto simp: pom_pad_def Let_def split: if_splits option.splits)

lemma era_agrees:
  assumes ok: "sparse_ok (e_blake3 env) index" and nt: "0 < wi_n_chunks index div POM_V4_TILE_CHUNKS"
    and pad: "pom_pad env daa index tier = Some pad"
  shows "\<exists>v4. build_era env tier wseed index pad = Some (Inr (v4, era_final env wseed index pad)) \<and>
    verify_era env wseed v4 index pad = Some (Inr (era_final env wseed index pad)) \<and>
    walk_era env wseed index pad = Some (Inr (era_final env wseed index pad))"
proof (cases pad)
  case None
  then show ?thesis using v4_provers_agree [OF ok nt, of tier wseed]
    by (auto simp: build_era_def verify_era_def walk_era_def era_final_def)
next
  case (Some p)
  obtain ps n where p: "p = (ps, n)" by (cases p)
  have "0 < n" using pad pom_pad_positive unfolding Some p by blast
  from v5_provers_agree [OF ok nt this, of tier wseed ps] show ?thesis
    by (auto simp: build_era_def verify_era_def walk_era_def era_final_def Some p)
qed

text \<open>The proof that a winner from the v4 gate on carries.\<close>

definition v4_proof :: "u8 \<Rightarrow> hash \<Rightarrow> u64 \<Rightarrow> PomProofV4 \<Rightarrow> bytes option \<Rightarrow> PomProof" where
  "v4_proof tier pow_value final_state v4 task =
     \<lparr>pp_tier = tier, pp_trace_root = replicate 32 0, pp_pow_value = pow_value, pp_final_state = final_state,
      pp_initial_trace_path = [], pp_final_trace_path = [], pp_openings = [], pp_steps_v2 = None, pp_v3 = None,
      pp_v4 = Some v4, pp_task = task\<rparr>"

lemma v4_proof_task: "(v4_proof tier pw f v4 None)\<lparr>pp_task := t\<rparr> = v4_proof tier pw f v4 t"
  by (simp add: v4_proof_def)

lemma pom_block_v4_eq:
  fixes env :: "('f, 'trace) env" and st :: "'r State" and pph ts n
  assumes ok: "sparse_ok (e_blake3 env) index" and nt: "0 < wi_n_chunks index div POM_V4_TILE_CHUNKS"
    and pad: "pom_pad env (st_daa_score st) index tier = Some pad"
  defines "f \<equiv> era_final env (pom_block_seed_v4_era (e_testnet env) (e_f1600 env) pph ts n (st_daa_score st)) index pad"
  shows "\<exists>v4. verify_era env (pom_block_seed_v4_era (e_testnet env) (e_f1600 env) pph ts n (st_daa_score st)) v4 index pad = Some (Inr f) \<and>
    pom_block_v4 env st pph ts n index tier task =
      (if le_leq (pom_pow_value f pph True) (Target.to_le_bytes (st_target st))
       then do {
         won \<leftarrow> assemble_pom_block env st n f tier [];
         opening \<leftarrow> task_opening env task won (pom_pow_value f pph True) n f tier;
         case opening of
           None \<Rightarrow> Some None
         | Some opn \<Rightarrow> do {
             bs \<leftarrow> to_wire_bytes (e_borsh env) (v4_proof tier (pom_pow_value f pph True) f v4 opn);
             Some (Some (set_pom_proof bs won)) } }
       else Some None)"
proof -
  obtain v4 where v: "build_era env tier (pom_block_seed_v4_era (e_testnet env) (e_f1600 env) pph ts n (st_daa_score st)) index pad = Some (Inr (v4, f))"
    "verify_era env (pom_block_seed_v4_era (e_testnet env) (e_f1600 env) pph ts n (st_daa_score st)) v4 index pad = Some (Inr f)"
    "walk_era env (pom_block_seed_v4_era (e_testnet env) (e_f1600 env) pph ts n (st_daa_score st)) index pad = Some (Inr f)"
    using era_agrees [OF ok nt pad] unfolding f_def by blast
  show ?thesis
    by (rule exI [of _ v4]) (simp add: pom_block_v4_def Let_def pad v v4_proof_def)
qed

lemma assemble_task_free: "task_opening env None won pw n f tier = Some (Some None)"
  by (simp add: task_opening_def)

lemma gates_order:
  "coin_age_verification_activation_daa t \<le> h5_activation_daa t" "h5_activation_daa t \<le> pom_v3_activation_daa t"
  "pom_level_activation_daa t \<le> pom_v3_activation_daa t" "pom_v3_activation_daa t \<le> pom_v4_activation_daa t"
  by (cases t; simp add: coin_age_verification_activation_daa_def h5_activation_daa_def pom_v3_activation_daa_def gate_def
      pom_level_activation_daa_def pom_v4_activation_daa_def)+

text \<open>The checks of a finished proof before the submission, of the proof that carries them out: from the v4 gate on, and before.\<close>

definition era_checked ::
  "('f, 'trace) env \<Rightarrow> hash \<Rightarrow> u64 \<Rightarrow> u64 \<Rightarrow> u64 \<Rightarrow> hash \<Rightarrow> WeightIndex \<Rightarrow> u8 \<Rightarrow> PomProof \<Rightarrow> bool" where
  "era_checked env pph ts n daa target index tier p \<longleftrightarrow>
     (case (pp_v4 p, pom_pad env daa index tier) of
        (Some v4, Some pad) \<Rightarrow>
          verify_era env (pom_block_seed_v4_era (e_testnet env) (e_f1600 env) pph ts n daa) v4 index pad = Some (Inr (pp_final_state p)) \<and>
          pp_pow_value p = pom_pow_value (pp_final_state p) pph True \<and> le_leq (pp_pow_value p) target
      | _ \<Rightarrow> False)"

definition legacy_checked ::
  "('f, 'trace) env \<Rightarrow> hash \<Rightarrow> u64 \<Rightarrow> u64 \<Rightarrow> u64 \<Rightarrow> hash \<Rightarrow> WeightIndex \<Rightarrow> PomProof \<Rightarrow> bool" where
  "legacy_checked env pph ts n daa target index p \<longleftrightarrow>
     (let t = e_testnet env; h3 = (daa \<ge> pom_level_activation_daa t); walk_v2 = (daa \<ge> h5_activation_daa t);
          wseed = pom_block_seed pph ts n h3 (daa \<ge> h5_1_activation_daa t) (daa \<ge> h5_2_activation_daa t)
      in if daa \<ge> coin_age_verification_activation_daa t
         then verify_proof_v2 (e_blake3 env) p pph wseed (wi_n_chunks index) POM_WALK_STEPS (wi_r_t index) target h3 walk_v2 = Some True
         else verify_proof (e_blake3 env) pph n wseed p (wi_n_chunks index) POM_WALK_STEPS POM_OPENINGS (wi_r_t index) target h3 = Some True)"

abbreviation self_checked ::
  "('f, 'trace) env \<Rightarrow> hash \<Rightarrow> u64 \<Rightarrow> u64 \<Rightarrow> u64 \<Rightarrow> hash \<Rightarrow> WeightIndex \<Rightarrow> u8 \<Rightarrow> PomProof \<Rightarrow> bool" where
  "self_checked env pph ts n daa target index tier p \<equiv>
     (if daa \<ge> pom_v4_activation_daa (e_testnet env) then era_checked env pph ts n daa target index tier p
      else legacy_checked env pph ts n daa target index p)"

lemmas self_checked_defs = era_checked_def legacy_checked_def

text \<open>The opening of the device's task that a block with this header carries.\<close>

definition opens_task :: "('f, 'trace) env \<Rightarrow> 'trace DeviceTask option \<Rightarrow> RpcBlockHeader \<Rightarrow> PomProof \<Rightarrow> bool" where
  "opens_task env task h p \<longleftrightarrow>
     (case task of
        None \<Rightarrow> pp_task p = None
      | Some t \<Rightarrow> (\<exists>hash opening. block_hash env (Some h) = Some (Some hash) \<and> pp_task p = Some opening \<and>
          e_open_block_task env (dt_model_id t) (dt_tier t) (dt_trace t) (dt_seed t) (Target.to_le_bytes hash) = Some opening))"

text \<open>A block or share that carries the nonce, the proof and, for a block, the header fields of a find.\<close>

definition carries :: "bool \<Rightarrow> 'r BlockSeed \<Rightarrow> u64 \<Rightarrow> u64 \<Rightarrow> u8 \<Rightarrow> bytes \<Rightarrow> 'r BlockSeed \<Rightarrow> bool" where
  "carries t template n final_state tier bs won \<longleftrightarrow>
     (case (template, won) of
        (FullBlock b, FullBlock b') \<Rightarrow>
          (\<exists>h. b_header b = Some h \<and> b' = b\<lparr>b_header := Some (fill_pom_header t n final_state tier h), b_pom_proof := bs\<rparr>)
      | (PartialBlock s, PartialBlock s') \<Rightarrow> s' = s\<lparr>sh_nonce := n, sh_pom_proof := bs\<rparr>
      | _ \<Rightarrow> False)"

lemma carries_assemble:
  "assemble_pom_block env st n f tier bs = Some won \<Longrightarrow> carries (e_testnet env) (st_block st) n f tier bs won"
  by (auto simp: assemble_pom_block_def carries_def split: BlockSeed.splits option.splits)

lemma carries_set:
  "assemble_pom_block env st n f tier [] = Some won \<Longrightarrow> carries (e_testnet env) (st_block st) n f tier bs (set_pom_proof bs won)"
  by (auto simp: assemble_pom_block_def carries_def set_pom_proof_def split: BlockSeed.splits option.splits)

text \<open>The era of a job: from the v4 gate on, in the v3 era, or before.\<close>

lemma pom_block_v4_sound:
  assumes "pom_block_v4 env st pph ts n index tier task = Some (Some won)"
    and daa: "st_daa_score st \<ge> pom_v4_activation_daa (e_testnet env)"
  shows "\<exists>p bs. self_checked env pph ts n (st_daa_score st) (Target.to_le_bytes (st_target st)) index tier p \<and> pp_tier p = tier \<and>
    to_wire_bytes (e_borsh env) p = Some bs \<and> carries (e_testnet env) (st_block st) n (pp_final_state p) tier bs won \<and>
    (\<forall>b. won = FullBlock b \<longrightarrow> (\<exists>h. b_header b = Some h \<and> opens_task env task h p))"
proof -
  let ?s = "pom_block_seed_v4_era (e_testnet env) (e_f1600 env) pph ts n (st_daa_score st)"
  let ?t = "Target.to_le_bytes (st_target st)"
  obtain pad where pad: "pom_pad env (st_daa_score st) index tier = Some pad"
    using assms(1) by (cases "pom_pad env (st_daa_score st) index tier") (auto simp: pom_block_v4_def Let_def)
  obtain walked where w: "walk_era env ?s index pad = Some (Inr walked)" "le_leq (pom_pow_value walked pph True) ?t"
    using assms(1) pad by (auto simp: pom_block_v4_def Let_def split: option.splits sum.splits if_splits)
  obtain v4 f where b: "build_era env tier ?s index pad = Some (Inr (v4, f))" "f = walked"
    using assms(1) pad w by (auto simp: pom_block_v4_def Let_def split: option.splits sum.splits if_splits)
  have v: "verify_era env ?s v4 index pad = Some (Inr f)"
    using assms(1) pad w b by (auto simp: pom_block_v4_def Let_def split: option.splits sum.splits if_splits)
  let ?pw = "pom_pow_value f pph True"
  obtain won' opn where o: "assemble_pom_block env st n f tier [] = Some won'"
    "task_opening env task won' ?pw n f tier = Some (Some opn)"
    "\<exists>bs. to_wire_bytes (e_borsh env) (v4_proof tier ?pw f v4 opn) = Some bs \<and> won = set_pom_proof bs won'"
    using assms(1) pad w b v
    by (auto simp: pom_block_v4_def Let_def v4_proof_def bind_eq_Some_conv split: option.splits)
  then obtain bs where bs: "to_wire_bytes (e_borsh env) (v4_proof tier ?pw f v4 opn) = Some bs" "won = set_pom_proof bs won'" by blast
  have "self_checked env pph ts n (st_daa_score st) ?t index tier (v4_proof tier ?pw f v4 opn)"
    using daa pad v w(2) b(2) by (simp add: self_checked_defs Let_def v4_proof_def)
  moreover have "\<exists>h. b_header b = Some h \<and> opens_task env task h (v4_proof tier ?pw f v4 opn)" if w': "won = FullBlock b" for b
  proof -
    obtain h b' where h: "won' = FullBlock b'" "b_header b' = Some h" "b_header b = Some h"
      using w' bs(2) o(1) by (auto simp: assemble_pom_block_def set_pom_proof_def split: BlockSeed.splits option.splits)
    then show ?thesis using o(2)
      by (auto simp: task_opening_def opens_task_def v4_proof_def Let_def split: option.splits)
  qed
  ultimately show ?thesis using carries_set [OF o(1), of bs] bs
    by (intro exI [of _ "v4_proof tier ?pw f v4 opn"] exI [of _ bs]) (simp add: v4_proof_def)
qed

lemma steps_loop_walk:
  "steps_loop read_fn path nc walk_v2 k s = Some (steps, f) \<Longrightarrow> walk_loop read_fn nc walk_v2 k s = Some f"
proof (induction k arbitrary: s steps)
  case (Suc k)
  obtain c p steps' where "read_fn (unat s mod nc) = Some c"
    "steps_loop read_fn path nc walk_v2 k (transition s c walk_v2) = Some (steps', f)"
    using Suc.prems by (auto simp: bind_eq_Some_conv Let_def split: if_splits)
  with Suc.IH show ?case by auto
qed simp

lemma trace_loop_walk_final:
  "trace_loop read_fn nc k s = Some tr \<Longrightarrow> walk_loop read_fn nc False k s = Some (tr ! k)"
proof (induction k arbitrary: s tr)
  case (Suc k)
  obtain c tr' where "read_fn (unat s mod nc) = Some c" "trace_loop read_fn nc k (transition_v1 s c) = Some tr'"
    "tr = s # tr'"
    using Suc.prems by (auto simp: bind_eq_Some_conv)
  with Suc.IH show ?case by (auto simp: transition_def)
qed auto

lemma pom_block_legacy_sound:
  assumes "pom_block_legacy env st pph ts n index tier = Some (Some won)"
    and daa: "\<not> st_daa_score st \<ge> pom_v4_activation_daa (e_testnet env)"
  shows "\<exists>p bs. self_checked env pph ts n (st_daa_score st) (Target.to_le_bytes (st_target st)) index tier p \<and> pp_tier p = tier \<and>
    to_wire_bytes (e_borsh env) p = Some bs \<and> carries (e_testnet env) (st_block st) n (pp_final_state p) tier bs won"
proof -
  let ?daa = "st_daa_score st" and ?T = "e_testnet env"
  let ?h3 = "?daa \<ge> pom_level_activation_daa ?T" and ?v2 = "?daa \<ge> h5_activation_daa ?T"
  let ?h4 = "?daa \<ge> coin_age_verification_activation_daa ?T"
  let ?s = "pom_block_seed pph ts n ?h3 (?daa \<ge> h5_1_activation_daa ?T) (?daa \<ge> h5_2_activation_daa ?T)"
  let ?t = "Target.to_le_bytes (st_target st)" and ?k = POM_WALK_STEPS and ?N = "wi_n_chunks index"
  let ?path = "merkle_path (e_blake3 env) index"
  obtain f where f: "walk_final ?s ?N ?k (read_chunk index) ?v2 = Some f" "le_leq (pom_pow_value f pph ?h3) ?t"
    using assms(1) by (auto simp: pom_block_legacy_def Let_def bind_eq_Some_conv split: if_splits)
  obtain p where p: "(if ?h4 then build_proof_v2 tier pph ?s ?N ?k (read_chunk index) ?path ?h3 ?v2
      else build_proof (e_blake3 env) tier pph n ?s ?N ?k POM_OPENINGS (read_chunk index) ?path ?h3) = Some p"
    and ok: "(if ?h4 then verify_proof_v2 (e_blake3 env) p pph ?s ?N ?k (wi_r_t index) ?t ?h3 ?v2
      else verify_proof (e_blake3 env) pph n ?s p ?N ?k POM_OPENINGS (wi_r_t index) ?t ?h3) = Some True"
    and bs: "\<exists>bs. to_wire_bytes (e_borsh env) p = Some bs \<and> assemble_pom_block env st n f tier bs = Some won"
    using assms(1) f unfolding pom_block_legacy_def Let_def f(1)
    by (cases ?h4) (auto simp: bind_eq_Some_conv split: if_splits)
  have "pp_final_state p = f \<and> pp_tier p = tier"
  proof (cases ?h4)
    case True
    then show ?thesis using p f(1) steps_loop_walk
      by (fastforce simp: build_proof_v2_def walk_final_def bind_eq_Some_conv Let_def split: if_splits)
  next
    case False
    then have "\<not> ?v2" using gates_order(1) order_trans by blast
    with False show ?thesis using p f(1) trace_loop_walk_final
      by (fastforce simp: build_proof_def walk_final_def bind_eq_Some_conv Let_def split: if_splits)
  qed
  moreover have "self_checked env pph ts n ?daa ?t index tier p"
    using ok daa by (simp add: self_checked_defs Let_def split: if_splits)
  moreover obtain bs where "to_wire_bytes (e_borsh env) p = Some bs" "assemble_pom_block env st n f tier bs = Some won"
    using bs by blast
  ultimately show ?thesis using carries_assemble by blast
qed

lemma assemble_set: "map_option (set_pom_proof bs) (assemble_pom_block env st n f tier []) = assemble_pom_block env st n f tier bs"
  by (simp add: assemble_pom_block_def set_pom_proof_def split: BlockSeed.splits option.splits)

lemma set_set: "set_pom_proof bs (set_pom_proof cs won) = set_pom_proof bs won"
  by (simp add: set_pom_proof_def split: BlockSeed.splits)

lemma pom_block_legacy_eq:
  fixes env :: "('f, 'trace) env" and st :: "'r State"
  assumes ok: "sparse_ok (e_blake3 env) index"
  defines "h3 \<equiv> st_daa_score st \<ge> pom_level_activation_daa (e_testnet env)"
    and "v2 \<equiv> st_daa_score st \<ge> h5_activation_daa (e_testnet env)"
  fixes pph ts n
  assumes daa: "\<not> st_daa_score st \<ge> pom_v4_activation_daa (e_testnet env)"
  shows "\<exists>p. walk_final (pom_block_seed pph ts n h3 (st_daa_score st \<ge> h5_1_activation_daa (e_testnet env))
        (st_daa_score st \<ge> h5_2_activation_daa (e_testnet env))) (wi_n_chunks index) POM_WALK_STEPS (read_chunk index) v2 =
      Some (pp_final_state p) \<and> pp_task p = None \<and>
    pom_block_legacy env st pph ts n index tier =
      (if le_leq (pom_pow_value (pp_final_state p) pph h3) (Target.to_le_bytes (st_target st))
       then do {
         bs \<leftarrow> to_wire_bytes (e_borsh env) p;
         map_option Some (assemble_pom_block env st n (pp_final_state p) tier bs) }
       else Some None) \<and>
    (self_checked env pph ts n (st_daa_score st) (Target.to_le_bytes (st_target st)) index tier p \<longleftrightarrow>
       le_leq (pom_pow_value (pp_final_state p) pph h3) (Target.to_le_bytes (st_target st)))"
proof -
  let ?s = "pom_block_seed pph ts n h3 (st_daa_score st \<ge> h5_1_activation_daa (e_testnet env))
        (st_daa_score st \<ge> h5_2_activation_daa (e_testnet env))"
  let ?t = "Target.to_le_bytes (st_target st)"
  have k: "0 < POM_WALK_STEPS" by (simp add: POM_WALK_STEPS_def)
  show ?thesis
  proof (cases "st_daa_score st \<ge> coin_age_verification_activation_daa (e_testnet env)")
    case True
    obtain p where p: "build_proof_v2 tier pph ?s (wi_n_chunks index) POM_WALK_STEPS (read_chunk index) (merkle_path (e_blake3 env) index) h3 v2 = Some p"
      "walk_final ?s (wi_n_chunks index) POM_WALK_STEPS (read_chunk index) v2 = Some (pp_final_state p)"
      "verify_proof_v2 (e_blake3 env) p pph ?s (wi_n_chunks index) POM_WALK_STEPS (wi_r_t index) ?t h3 v2 =
        Some (le_leq (pom_pow_value (pp_final_state p) pph h3) ?t)"
      using sparse.build_verify_v2 [OF ok, of tier pph ?s POM_WALK_STEPS h3 v2 ?t] unfolding read_chunk_def [abs_def] by blast
    moreover have "pp_task p = None" using p(1) by (auto simp: build_proof_v2_def bind_eq_Some_conv Let_def split: if_splits)
    ultimately show ?thesis using True daa
      by (intro exI [of _ p]) (simp add: pom_block_legacy_def self_checked_defs Let_def h3_def v2_def)
  next
    case False
    then have v2: "\<not> v2" using gates_order(1) order_trans unfolding v2_def by blast
    obtain p where p: "build_proof (e_blake3 env) tier pph n ?s (wi_n_chunks index) POM_WALK_STEPS POM_OPENINGS (read_chunk index) (merkle_path (e_blake3 env) index) h3 = Some p"
      "walk_final ?s (wi_n_chunks index) POM_WALK_STEPS (read_chunk index) False = Some (pp_final_state p)"
      "verify_proof (e_blake3 env) pph n ?s p (wi_n_chunks index) POM_WALK_STEPS POM_OPENINGS (wi_r_t index) ?t h3 =
        Some (le_leq (pom_pow_value (pp_final_state p) pph h3) ?t)"
      using sparse.build_verify [OF ok k, of tier pph n ?s POM_OPENINGS h3 ?t] unfolding read_chunk_def [abs_def] by blast
    moreover have "pp_task p = None" using p(1) by (auto simp: build_proof_def bind_eq_Some_conv Let_def split: if_splits)
    ultimately show ?thesis using False daa v2
      by (intro exI [of _ p]) (simp add: pom_block_legacy_def self_checked_defs Let_def h3_def v2_def)
  qed
qed

section \<open>The hash of the header\<close>

lemma pre_pow_fill: "serialize_header t (fill_pom_header t n f tier h) True = serialize_header t h True"
  by (simp add: serialize_header_def fill_pom_header_def Let_def)

lemma fill_fields [simp]:
  "h_nonce (fill_pom_header t n f tier h) = n" "h_timestamp (fill_pom_header t n f tier h) = h_timestamp h"
  "h_bits (fill_pom_header t n f tier h) = h_bits h" "h_daa_score (fill_pom_header t n f tier h) = h_daa_score h"
  "h_daa_score h \<ge> pom_level_activation_daa t \<Longrightarrow> h_pom_final_state (fill_pom_header t n f tier h) = f"
  "h_daa_score h \<ge> pom_v3_activation_daa t \<Longrightarrow> h_pom_tier (fill_pom_header t n f tier h) = ucast tier"
  by (simp_all add: fill_pom_header_def Let_def)

text \<open>The state of a job reflects its template.\<close>

lemma State_new_full:
  assumes "State_new env sid (FullBlock b) = Some (Inr st)"
  obtains h pph where "b_header b = Some h" "pre_pow_hash_of env h = Some pph" "u256_from_compact_target (h_bits h) = Some (st_target st)"
    "slice 0 32 (st_pow_hash_header st) = Target.to_le_bytes pph" "from_le (slice 32 40 (st_pow_hash_header st)) = h_timestamp h"
    "st_daa_score st = h_daa_score h" "st_block st = FullBlock b"
proof -
  obtain h where h: "b_header b = Some h" using assms by (cases "b_header b") (auto simp: State_new_def seed_fields_def)
  obtain target pph m where "u256_from_compact_target (h_bits h) = Some target" "pre_pow_hash_of env h = Some pph"
    "st = \<lparr>st_id = sid, st_matrix = m, st_target = target,
            st_pow_hash_header = Target.to_le_bytes pph @ le_bytes 8 (h_timestamp h) @ replicate 32 0,
            st_block = FullBlock b, st_hasher = PowHasher_new pph (h_timestamp h),
            st_nonce_mask = 0xffffffffffffffff, st_nonce_fixed = 0, st_daa_score = h_daa_score h\<rparr>"
    using assms h by (auto simp: State_new_def seed_fields_def bind_eq_Some_conv split: option.splits sum.splits prod.splits)
  then show thesis using h by (intro that [of h pph]) (simp_all add: layout_simps from_le_bytes)
qed

section \<open>Properties\<close>

text \<open>The final state of the walk of a nonce in its era, as the code walks it.\<close>

definition pow_walk :: "('f, 'trace) env \<Rightarrow> hash \<Rightarrow> u64 \<Rightarrow> u64 \<Rightarrow> u64 \<Rightarrow> WeightIndex \<Rightarrow> u8 \<Rightarrow> u64 option" where
  "pow_walk env pph ts n daa index tier =
     (let t = e_testnet env
      in if daa \<ge> pom_v4_activation_daa t
         then (case pom_pad env daa index tier of
                 None \<Rightarrow> None
               | Some pad \<Rightarrow> (case walk_era env (pom_block_seed_v4_era t (e_f1600 env) pph ts n daa) index pad of
                                Some (Inr f) \<Rightarrow> Some f | _ \<Rightarrow> None))
         else walk_final (pom_block_seed pph ts n (daa \<ge> pom_level_activation_daa t) (daa \<ge> h5_1_activation_daa t)
                (daa \<ge> h5_2_activation_daa t)) (wi_n_chunks index) POM_WALK_STEPS (read_chunk index) (daa \<ge> h5_activation_daa t))"

text \<open>C9: mining over an index of the model loses no winner before its block is assembled. In the v3 era and for a tier
  without a pad nothing is mined. Else a nonce whose pow value misses the target gives nothing; a winner passes
  the self-check of its era, and the result is the assembled block or share with the proof of its walk and the opening of
  the device's task: nothing only if the opening fails, a panic only if assembling, hashing or borsh panics.\<close>

theorem pom_finds_every_winner:
  fixes env :: "('f, 'trace) env" and st :: "'r State"
  assumes ok: "sparse_ok (e_blake3 env) index" and nt: "0 < wi_n_chunks index div POM_V4_TILE_CHUNKS"
  shows "let pph = slice 0 32 (st_pow_hash_header st); ts = from_le (slice 32 40 (st_pow_hash_header st)); daa = st_daa_score st;
      v4_on = (daa \<ge> pom_v4_activation_daa (e_testnet env)); target = Target.to_le_bytes (st_target st);
      result = generate_block_if_pom env st n index tier task
    in if \<not> v4_on \<and> daa \<ge> pom_v3_activation_daa (e_testnet env) \<or> v4_on \<and> pom_pad env daa index tier = None then result = Some None
       else \<exists>p. pow_walk env pph ts n daa index tier = Some (pp_final_state p) \<and>
         (let pw = pom_pow_value (pp_final_state p) pph (daa \<ge> pom_level_activation_daa (e_testnet env))
          in if le_leq pw target
             then self_checked env pph ts n daa target index tier p \<and>
               result = do {
                 won \<leftarrow> assemble_pom_block env st n (pp_final_state p) tier [];
                 opening \<leftarrow> (if v4_on then task_opening env task won pw n (pp_final_state p) tier else Some (Some None));
                 case opening of
                   None \<Rightarrow> Some None
                 | Some opn \<Rightarrow> do {
                     bs \<leftarrow> to_wire_bytes (e_borsh env) (p\<lparr>pp_task := opn\<rparr>);
                     Some (Some (set_pom_proof bs won)) } }
             else result = Some None)"
proof (cases "st_daa_score st \<ge> pom_v4_activation_daa (e_testnet env)")
  case True
  let ?pph = "slice 0 32 (st_pow_hash_header st)" and ?ts = "from_le (slice 32 40 (st_pow_hash_header st)) :: u64"
  show ?thesis
  proof (cases "pom_pad env (st_daa_score st) index tier")
    case None
    then show ?thesis using True by (simp add: generate_block_if_pom_def pom_block_v4_def Let_def)
  next
    case pd: (Some pd)
    define f where "f = era_final env (pom_block_seed_v4_era (e_testnet env) (e_f1600 env) ?pph ?ts n (st_daa_score st)) index pd"
    obtain v4 where v: "verify_era env (pom_block_seed_v4_era (e_testnet env) (e_f1600 env) ?pph ?ts n (st_daa_score st)) v4 index pd = Some (Inr f)"
      and g: "pom_block_v4 env st ?pph ?ts n index tier task =
        (if le_leq (pom_pow_value f ?pph True) (Target.to_le_bytes (st_target st))
         then do {
           won \<leftarrow> assemble_pom_block env st n f tier [];
           opening \<leftarrow> task_opening env task won (pom_pow_value f ?pph True) n f tier;
           case opening of
             None \<Rightarrow> Some None
           | Some opn \<Rightarrow> do {
               bs \<leftarrow> to_wire_bytes (e_borsh env) (v4_proof tier (pom_pow_value f ?pph True) f v4 opn);
               Some (Some (set_pom_proof bs won)) } }
         else Some None)"
      using pom_block_v4_eq [OF ok nt pd, where pph = ?pph and ts = ?ts and n = n and task = task]
      unfolding f_def by blast
    let ?p = "v4_proof tier (pom_pow_value f ?pph True) f v4 None"
    have h3: "st_daa_score st \<ge> pom_level_activation_daa (e_testnet env)"
      by (rule order_trans [OF gates_order(3) order_trans [OF gates_order(4) True]])
    have w: "walk_era env (pom_block_seed_v4_era (e_testnet env) (e_f1600 env) ?pph ?ts n (st_daa_score st)) index pd = Some (Inr f)"
      using era_agrees [OF ok nt pd, of "pom_block_seed_v4_era (e_testnet env) (e_f1600 env) ?pph ?ts n (st_daa_score st)"]
      unfolding f_def by (elim exE conjE)
    have pw: "pow_walk env ?pph ?ts n (st_daa_score st) index tier = Some (pp_final_state ?p)"
      using True by (simp add: pow_walk_def Let_def pd w v4_proof_def)
    have ck: "era_checked env ?pph ?ts n (st_daa_score st) (Target.to_le_bytes (st_target st)) index tier ?p \<longleftrightarrow>
        le_leq (pom_pow_value f ?pph True) (Target.to_le_bytes (st_target st))"
      using pd v by (simp add: era_checked_def v4_proof_def)
    have fs: "pp_final_state ?p = f" "?p\<lparr>pp_task := opn\<rparr> = v4_proof tier (pom_pow_value f ?pph True) f v4 opn" for opn
      by (simp_all add: v4_proof_def)
    have r: "generate_block_if_pom env st n index tier task = pom_block_v4 env st ?pph ?ts n index tier task"
      using True by (simp add: generate_block_if_pom_def Let_def)
    show ?thesis
      unfolding Let_def
      by (subst if_not_P, simp add: True pd, rule exI [of _ ?p]) (simp only: pw ck fs r g True h3 if_True simp_thms split: if_split, blast)
  qed
next
  case False
  let ?pph = "slice 0 32 (st_pow_hash_header st)" and ?ts = "from_le (slice 32 40 (st_pow_hash_header st)) :: u64"
  note legacy = pom_block_legacy_eq [OF ok False, of ?pph ?ts n tier]
  have w: "pow_walk env ?pph ?ts n (st_daa_score st) index tier =
      walk_final (pom_block_seed ?pph ?ts n (st_daa_score st \<ge> pom_level_activation_daa (e_testnet env))
        (st_daa_score st \<ge> h5_1_activation_daa (e_testnet env)) (st_daa_score st \<ge> h5_2_activation_daa (e_testnet env)))
        (wi_n_chunks index) POM_WALK_STEPS (read_chunk index) (st_daa_score st \<ge> h5_activation_daa (e_testnet env))"
    using False by (simp only: pow_walk_def Let_def if_False)
  obtain p where p: "pow_walk env ?pph ?ts n (st_daa_score st) index tier = Some (pp_final_state p)" "pp_task p = None"
    "pom_block_legacy env st ?pph ?ts n index tier =
      (if le_leq (pom_pow_value (pp_final_state p) ?pph (st_daa_score st \<ge> pom_level_activation_daa (e_testnet env))) (Target.to_le_bytes (st_target st))
       then do {
         bs \<leftarrow> to_wire_bytes (e_borsh env) p;
         map_option Some (assemble_pom_block env st n (pp_final_state p) tier bs) }
       else Some None)"
    "legacy_checked env ?pph ?ts n (st_daa_score st) (Target.to_le_bytes (st_target st)) index p \<longleftrightarrow>
       le_leq (pom_pow_value (pp_final_state p) ?pph (st_daa_score st \<ge> pom_level_activation_daa (e_testnet env))) (Target.to_le_bytes (st_target st))"
    using legacy [unfolded if_not_P [OF False], folded w] by (elim exE conjE) (rule that)
  have t: "p\<lparr>pp_task := None\<rparr> = p" using p(2) by simp
  have c: "do { bs \<leftarrow> to_wire_bytes (e_borsh env) p; map_option Some (assemble_pom_block env st n (pp_final_state p) tier bs) } =
      do { won \<leftarrow> assemble_pom_block env st n (pp_final_state p) tier [];
           bs \<leftarrow> to_wire_bytes (e_borsh env) p; Some (Some (set_pom_proof bs won)) }"
  proof (cases "to_wire_bytes (e_borsh env) p")
    case (Some bs)
    have "assemble_pom_block env st n (pp_final_state p) tier bs =
        map_option (set_pom_proof bs) (assemble_pom_block env st n (pp_final_state p) tier [])" by (rule assemble_set [symmetric])
    with Some show ?thesis by (cases "assemble_pom_block env st n (pp_final_state p) tier []") simp_all
  qed (cases "assemble_pom_block env st n (pp_final_state p) tier []"; simp)
  show ?thesis
  proof (cases "st_daa_score st \<ge> pom_v3_activation_daa (e_testnet env)")
    case True
    then show ?thesis using False by (simp add: generate_block_if_pom_def Let_def)
  next
    case v3: False
    have r: "generate_block_if_pom env st n index tier task = pom_block_legacy env st ?pph ?ts n index tier"
      using False v3 by (simp add: generate_block_if_pom_def Let_def)
    show ?thesis
      unfolding Let_def
      by (subst if_not_P, simp add: False v3, rule exI [of _ p])
        (simp only: p r c t False bind.bind_lunit option.case simp_thms if_True if_False split: if_split, blast)
  qed
qed

text \<open>Concrete parameters: the hash of the other witnesses, a borsh that writes nothing, and a float arithmetic in
  which no entry vanishes.\<close>

definition toy_borsh :: Borsh where
  "toy_borsh = \<lparr>to_vec_proof = \<lambda>_. Some [], to_vec_pre_task = \<lambda>_. Some [], to_vec_pre_v4 = \<lambda>_. Some [], to_vec_pre_v3 = \<lambda>_. Some [],
     to_vec_pre_h4 = \<lambda>_. Some [], slice_proof = \<lambda>_. None, slice_pre_task = \<lambda>_. None, slice_pre_v4 = \<lambda>_. None,
     slice_pre_v3 = \<lambda>_. None, slice_pre_h4 = \<lambda>_. None\<rparr>"

definition toy_floats :: "unit F64" where
  "toy_floats = \<lparr>from_u16 = \<lambda>_. (), f_abs = \<lambda>_. (), f_gt = \<lambda>_ _. True, f_div = \<lambda>_ _. (), f_mul = \<lambda>_ _. (), f_sub = \<lambda>_ _. (), EPS = ()\<rparr>"

definition toy_env :: "(unit, unit) env" where
  "toy_env = \<lparr>e_testnet = True, e_f1600 = id, e_blake2b = \<lambda>_ b. toy_hash b, e_blake3 = toy_hash, e_hex_encode = id, e_borsh = toy_borsh,
     e_floats = toy_floats, e_mining_tier = Some Default, e_h15_tier = None, e_open_block_task = \<lambda>_ _ _ _ _. None\<rparr>"

lemma to_wire_toy: "to_wire_bytes toy_borsh p = Some []"
  by (simp add: to_wire_bytes_def toy_borsh_def)

definition toy_share :: Share where
  "toy_share = \<lparr>sh_id = [], sh_header_hash = Uint256 1 2 3 4, sh_timestamp = 7, sh_daa_score = 1, sh_nonce = 0,
     sh_target = Uint256 (- 1) (- 1) (- 1) (- 1), sh_nonce_mask = - 1, sh_nonce_fixed = 0, sh_hash = None, sh_pom_proof = [9],
     sh_header = None, sh_task_root = None\<rparr>"

definition toy_state :: "unit State" where
  "toy_state = \<lparr>st_id = 0, st_matrix = [], st_target = sh_target toy_share,
     st_pow_hash_header = Target.to_le_bytes (sh_header_hash toy_share) @ le_bytes 8 (sh_timestamp toy_share) @ replicate 32 0,
     st_block = PartialBlock toy_share, st_hasher = [], st_nonce_mask = - 1, st_nonce_fixed = 0, st_daa_score = 1\<rparr>"

lemma v4_gate_testnet: "pom_v4_activation_daa True = 1" "pom_v3_activation_daa True = 1" "pom_v5_activation_daa True = 3500"
  "pom_level_activation_daa True = 1"
  by (simp_all add: pom_v4_activation_daa_def pom_v3_activation_daa_def pom_v5_activation_daa_def gate_def
      TESTNET_H15_ACTIVATION_DAA_def pom_level_activation_daa_def)

lemma no_pad: "e_testnet env \<Longrightarrow> pom_pad env 1 index tier = Some None"
proof -
  have "\<not> (3500 :: u64) \<le> 1" by (simp add: word_le_nat_alt)
  then show "e_testnet env \<Longrightarrow> pom_pad env 1 index tier = Some None" by (simp add: pom_pad_def v4_gate_testnet)
qed

lemma toy_pad: "pom_pad toy_env 1 index tier = Some None"
  by (rule no_pad) (simp add: toy_env_def)

lemma le_leq_all_ones: "le_leq (pom_pow_value f pph h3) (Target.to_le_bytes (Uint256 (- 1) (- 1) (- 1) (- 1)))"
proof -
  have "le_value (Target.to_le_bytes (Uint256 (- 1) (- 1) (- 1) (- 1))) = 2 ^ 256 - 1"
    by (simp add: le_value_to_le_bytes unsigned_minus_1_eq_mask mask_eq_exp_minus_1)
  moreover have "length (pom_pow_value f pph h3) = 32" by (simp add: pom_pow_value_def Let_def)
  moreover have "le_value (pom_pow_value f pph h3) < 256 ^ 32" using le_value_less [of "pom_pow_value f pph h3"] calculation by simp
  ultimately show ?thesis by (simp add: le_leq_value)
qed

theorem pom_finds_every_winner_witness:
  "\<exists>index p. build_from_gguf toy_hash (replicate 3 1 @ replicate (64 * 32 + 5) 7) (toy_model 64) = Some index \<and>
    generate_block_if_pom toy_env toy_state 5 index 2 None =
      Some (Some (PartialBlock (toy_share\<lparr>sh_nonce := 5, sh_pom_proof := []\<rparr>))) \<and>
    self_checked toy_env (Target.to_le_bytes (Uint256 1 2 3 4)) 7 5 1
      (Target.to_le_bytes (Uint256 (- 1) (- 1) (- 1) (- 1))) index 2 p"
proof -
  obtain index where idx: "build_from_gguf toy_hash (replicate 3 1 @ replicate (64 * 32 + 5) 7) (toy_model 64) = Some index"
    and ok: "sparse_ok toy_hash index" and n: "wi_n_chunks index = 64"
    by (rule toy_model_index [of 64]) simp
  have pph: "slice 0 32 (st_pow_hash_header toy_state) = Target.to_le_bytes (Uint256 1 2 3 4)"
    "from_le (slice 32 40 (st_pow_hash_header toy_state)) = (7 :: u64)"
    by (simp_all add: toy_state_def toy_share_def layout_simps from_le_bytes)
  have "st_daa_score toy_state = 1" "e_testnet toy_env" "e_blake3 toy_env = toy_hash" "e_borsh toy_env = toy_borsh"
    "st_target toy_state = Uint256 (- 1) (- 1) (- 1) (- 1)" "st_block toy_state = PartialBlock toy_share"
    by (simp_all add: toy_state_def toy_env_def toy_share_def)
  note s = this
  have "0 < wi_n_chunks index div POM_V4_TILE_CHUNKS" by (simp add: n tile_chunks_32)
  have pad: "pom_pad toy_env 1 index 2 \<noteq> None" by (simp add: toy_pad)
  obtain p where p: "pow_walk toy_env (Target.to_le_bytes (Uint256 1 2 3 4)) 7 5 1 index 2 = Some (pp_final_state p)"
    "self_checked toy_env (Target.to_le_bytes (Uint256 1 2 3 4)) 7 5 1 (Target.to_le_bytes (Uint256 (- 1) (- 1) (- 1) (- 1))) index 2 p"
    "generate_block_if_pom toy_env toy_state 5 index 2 None =
      Some (Some (PartialBlock (toy_share\<lparr>sh_nonce := 5, sh_pom_proof := []\<rparr>)))"
    using pom_finds_every_winner [of toy_env index toy_state 5 2 None] ok n pad
    by (auto simp: s pph Let_def v4_gate_testnet tile_chunks_32 le_leq_all_ones assemble_task_free to_wire_toy assemble_pom_block_def set_pom_proof_def)
  with idx show ?thesis by blast
qed

text \<open>C8: whatever the index, the device's task and the hash functions: a block that is handed out for submission
  carries a proof that passed the miner's verifier of its era, against the root of the index it mines on and the pad of its
  tier, for the header it is in, with the nonce, final state and tier that the proof is about; from the v4 gate on it opens the device's task, if there is one, at the hash of this very
  block, and no task otherwise; nothing else of the template is changed but the header's proof fields.\<close>

theorem submitted_block_accepted:
  assumes "State_new env sid (FullBlock b) = Some (Inr st)"
    and "generate_block_if_pom env st n index tier task = Some (Some won)"
  shows "\<exists>b' h pph target p. won = FullBlock b' \<and> b_header b' = Some h \<and> h_nonce h = n \<and>
    pre_pow_hash_of env h = Some pph \<and> u256_from_compact_target (h_bits h) = Some target \<and>
    to_wire_bytes (e_borsh env) p = Some (b_pom_proof b') \<and>
    self_checked env (Target.to_le_bytes pph) (h_timestamp h) n (h_daa_score h) (Target.to_le_bytes target) index tier p \<and>
    (h_daa_score h \<ge> pom_v4_activation_daa (e_testnet env) \<longrightarrow> opens_task env task h p) \<and>
    (h_daa_score h \<ge> pom_level_activation_daa (e_testnet env) \<longrightarrow> h_pom_final_state h = pp_final_state p) \<and>
    (h_daa_score h \<ge> pom_v3_activation_daa (e_testnet env) \<longrightarrow> h_pom_tier h = ucast (pp_tier p)) \<and>
    b_rest b' = b_rest b \<and> (\<exists>h0. b_header b = Some h0 \<and> h = fill_pom_header (e_testnet env) n (pp_final_state p) tier h0)"
proof -
  obtain h0 pph where st: "b_header b = Some h0" "pre_pow_hash_of env h0 = Some pph"
    "u256_from_compact_target (h_bits h0) = Some (st_target st)"
    "slice 0 32 (st_pow_hash_header st) = Target.to_le_bytes pph" "from_le (slice 32 40 (st_pow_hash_header st)) = h_timestamp h0"
    "st_daa_score st = h_daa_score h0" "st_block st = FullBlock b"
    using State_new_full [OF assms(1)] by metis
  let ?v4 = "st_daa_score st \<ge> pom_v4_activation_daa (e_testnet env)"
  obtain p bs where p: "self_checked env (Target.to_le_bytes pph) (h_timestamp h0) n (h_daa_score h0) (Target.to_le_bytes (st_target st)) index tier p"
    "pp_tier p = tier" "to_wire_bytes (e_borsh env) p = Some bs" "carries (e_testnet env) (st_block st) n (pp_final_state p) tier bs won"
    "?v4 \<longrightarrow> (\<forall>b'. won = FullBlock b' \<longrightarrow> (\<exists>h. b_header b' = Some h \<and> opens_task env task h p))"
  proof (cases ?v4)
    case True
    have "pom_block_v4 env st (Target.to_le_bytes pph) (h_timestamp h0) n index tier task = Some (Some won)"
      using assms(2) True by (simp add: generate_block_if_pom_def Let_def st(4,5))
    from pom_block_v4_sound [OF this True] show thesis using that unfolding st(6) by blast
  next
    case False
    have "pom_block_legacy env st (Target.to_le_bytes pph) (h_timestamp h0) n index tier = Some (Some won)"
      using assms(2) False by (simp add: generate_block_if_pom_def Let_def st(4,5) split: if_splits)
    from pom_block_legacy_sound [OF this False] show thesis using that False unfolding st(6) by blast
  qed
  define h where "h = fill_pom_header (e_testnet env) n (pp_final_state p) tier h0"
  have "won = FullBlock (b\<lparr>b_header := Some h, b_pom_proof := bs\<rparr>)"
    using p(4) st(1,7) by (auto simp: carries_def h_def split: BlockSeed.splits)
  then show ?thesis using p st
    by (intro exI [of _ "b\<lparr>b_header := Some h, b_pom_proof := bs\<rparr>"] exI [of _ h] exI [of _ pph] exI [of _ "st_target st"] exI [of _ p])
      (simp add: h_def pre_pow_hash_of_def pre_pow_fill)
qed

lemma rank_column_toy:
  assumes "i < 64"
  shows "\<exists>m'. rank_column toy_floats i (m, replicate i True @ replicate (64 - i) False, i) =
    (m', replicate (Suc i) True @ replicate (64 - Suc i) False, Suc i)"
proof -
  let ?sel = "replicate i True @ replicate (64 - i) False"
  have u: "[0..<64] = [0..<i] @ i # [Suc i..<64]" using assms by (metis le_add_diff_inverse less_imp_le_nat upt_add_eq_append upt_conv_Cons zero_le)
  have "find (\<lambda>j. \<not> ?sel ! j) [0..<64] = Some i"
    using assms unfolding find_Some_iff by (intro exI [of _ i]) (simp add: nth_append)
  then have j: "pivot_row toy_floats m ?sel i = i" by (simp add: pivot_row_def toy_floats_def)
  have "?sel[i := True] = replicate (Suc i) True @ replicate (64 - Suc i) False"
    using assms by (simp add: list_update_append replicate_append_same [symmetric] Suc_diff_Suc [symmetric])
  then show ?thesis using assms by (simp add: rank_column_def Let_def j)
qed

lemma compute_rank_toy: "compute_rank toy_floats m = 64"
proof -
  have "\<exists>m'. fold (rank_column toy_floats) [0..<k] (m, replicate 64 False, 0) = (m', replicate k True @ replicate (64 - k) False, k)"
    if "k \<le> 64" for k m
    using that
  proof (induction k)
    case (Suc k)
    then show ?case using rank_column_toy [of k] by fastforce
  qed simp
  from this [of 64 "convert_to_float toy_floats m"] show ?thesis by (auto simp: compute_rank_def)
qed

lemma decode_zeros: "\<forall>k < 2 * (i + n). data ! k = 0x30 \<Longrightarrow> decode_loop data i n = Inr (replicate n 0)"
  by (induction n arbitrary: i) (simp_all add: hex_val_def)

lemma hex_zeros: "hex_unwrap (replicate 64 0x30) 32 = Some (replicate 32 0)"
  by (simp add: hex_unwrap_def decode_to_slice_def decode_zeros)

definition toy_header :: RpcBlockHeader where
  "toy_header = \<lparr>h_version = 1, h_parents = [[replicate 64 0x30]], h_hash_merkle_root = replicate 64 0x30,
     h_accepted_id_merkle_root = replicate 64 0x30, h_utxo_commitment = replicate 64 0x30, h_timestamp = 7, h_bits = 0x20010000,
     h_nonce = 0, h_daa_score = 1, h_blue_work = [], h_pruning_point = replicate 64 0x30, h_blue_score = 3,
     h_pom_final_state = 0, h_service_state_hash = [], h_pom_tier = 0, h_task_root = []\<rparr>"

lemma toy_header_bytes: "\<exists>bs. serialize_header True toy_header pre = Some bs"
proof -
  have "blue_work_bytes [] = Some (le_bytes 8 (0 :: u64))"
    by (simp add: blue_work_bytes_def hex_unwrap_def decode_to_slice_def)
  moreover have "\<not> (0xFFFFFFFFFFFFFFFF :: u64) \<le> 1" by (simp add: word_le_nat_alt)
  ultimately show ?thesis
    by (cases pre) (simp_all add: serialize_header_def toy_header_def hex_zeros hex_or_zero_def block_task_activation_daa_def)
qed

text \<open>Some pre-PoW hash makes a given final state win.\<close>

lemma some_hash_wins:
  "\<exists>w. le_leq (pom_pow_value f (Target.to_le_bytes (Uint256 0 0 0 w)) True) (Target.to_le_bytes (Uint256 0 0 0 (2 ^ 56)))"
proof -
  define o2 where "o2 = mix64 (mix64 (mix64 (f XOR 0x7C99D381176D4EC4 XOR 0x9E3779B97F4A7C15) XOR 0xC2E28E3E28118C36 XOR 0xC2B2AE3D27D4EB4F)
     XOR 0xD496CE1B129B76CA XOR 0x165667B19E3779F9)"
  define w where "w = o2 XOR 0xD6E8FEB86659FD93 XOR 0x47CF0979FA580BCE"
  have "o2 XOR (w XOR 0x47CF0979FA580BCE) XOR 0xD6E8FEB86659FD93 = 0"
    unfolding w_def by (rule bit_word_eqI) (simp only: bit_xor_iff, auto)
  moreover have "mix64 0 = 0" by (simp add: mix64_def)
  ultimately have v: "pom_pow_value f (Target.to_le_bytes (Uint256 0 0 0 w)) True =
      le_bytes 8 (mix64 (f XOR 0x7C99D381176D4EC4 XOR 0x9E3779B97F4A7C15)) @
      le_bytes 8 (mix64 (mix64 (f XOR 0x7C99D381176D4EC4 XOR 0x9E3779B97F4A7C15) XOR 0xC2E28E3E28118C36 XOR 0xC2B2AE3D27D4EB4F)) @
      le_bytes 8 o2 @ le_bytes 8 (0 :: u64)"
    by (simp only: pom_pow_value_def pph_words_for_era_def pph_words_limbs limbs.simps POM_H3_PPH_SALT_def Let_def if_True
        list.map zip_Cons_Cons zip_Nil prod.case nth_Cons_0 nth_Cons_numeral xor.left_neutral One_nat_def nth_Cons_Suc
        numeral_2_eq_2 numeral_3_eq_3 flip: o2_def)
  define xs where "xs = le_bytes 8 (mix64 (f XOR 0x7C99D381176D4EC4 XOR 0x9E3779B97F4A7C15)) @
      le_bytes 8 (mix64 (mix64 (f XOR 0x7C99D381176D4EC4 XOR 0x9E3779B97F4A7C15) XOR 0xC2E28E3E28118C36 XOR 0xC2B2AE3D27D4EB4F)) @ le_bytes 8 o2"
  have v': "pom_pow_value f (Target.to_le_bytes (Uint256 0 0 0 w)) True = xs @ le_bytes 8 (0 :: u64)" by (simp only: v xs_def append_assoc)
  have "length xs = 24" by (simp add: xs_def)
  then have "le_value xs < 2 ^ 192" using le_value_less [of xs] by simp
  moreover have "le_value (le_bytes 8 (0 :: u64)) = 0" by (simp add: le_value_le_bytes)
  ultimately have "le_value (pom_pow_value f (Target.to_le_bytes (Uint256 0 0 0 w)) True) < 2 ^ 192" by (simp add: v' le_value_append)
  moreover have "le_value (Target.to_le_bytes (Uint256 0 0 0 (2 ^ 56))) = 2 ^ 248"
    by (simp add: le_value_to_le_bytes)
  moreover have "length (pom_pow_value f (Target.to_le_bytes (Uint256 0 0 0 w)) True) = 32" by (simp add: v)
  ultimately show ?thesis by (intro exI [of _ w]) (simp add: le_leq_value)
qed

lemma uint256_bytes_round: "Target.from_le_bytes (Target.to_le_bytes u) = u"
  using uint256_bytes [of "replicate 32 0" u] by simp

lemma toy_target: "u256_from_compact_target 0x20010000 = Some (Uint256 0 0 0 (2 ^ 56))"
  by (simp add: u256_from_compact_target_def shl_def shl_step_def add_at_def checked_add_u64_def from_u64_def of_limbs_def Let_def)

theorem submitted_block_accepted_witness:
  "\<exists>(env :: (unit, unit) env) st index won p bs h. State_new env 0 (FullBlock \<lparr>b_header = Some toy_header, b_pom_proof = [], b_rest = ()\<rparr>) = Some (Inr st) \<and>
    generate_block_if_pom env st 5 index 2 None = Some (Some won) \<and>
    won = FullBlock \<lparr>b_header = Some h, b_pom_proof = bs, b_rest = ()\<rparr> \<and> to_wire_bytes (e_borsh env) p = Some bs \<and> h_nonce h = 5 \<and> h_pom_final_state h = pp_final_state p"
proof -
  let ?b = "\<lparr>b_header = Some toy_header, b_pom_proof = [], b_rest = ()\<rparr>"
  obtain index where ok: "sparse_ok toy_hash index" and n: "wi_n_chunks index = 64"
    by (rule toy_model_index [of 64]) simp
  have nt: "0 < wi_n_chunks index div POM_V4_TILE_CHUNKS" by (simp add: n tile_chunks_32)
  define f where "f = v4_final toy_hash 9 (sparse_chunks index)"
  obtain w where w: "le_leq (pom_pow_value f (Target.to_le_bytes (Uint256 0 0 0 w)) True) (Target.to_le_bytes (Uint256 0 0 0 (2 ^ 56)))"
    using some_hash_wins by blast
  define env :: "(unit, unit) env" where
    "env = toy_env\<lparr>e_f1600 := \<lambda>_. [9], e_blake2b := \<lambda>_ _. Target.to_le_bytes (Uint256 0 0 0 w)\<rparr>"
  have e: "e_testnet env" "e_blake3 env = toy_hash" "e_borsh env = toy_borsh" "e_floats env = toy_floats" "e_f1600 env = (\<lambda>_. [9])"
    "e_blake2b env = (\<lambda>_ _. Target.to_le_bytes (Uint256 0 0 0 w))"
    by (simp_all add: env_def toy_env_def)
  have pph: "pre_pow_hash_of env toy_header = Some (Uint256 0 0 0 w)"
    using toy_header_bytes [of True] by (auto simp: pre_pow_hash_of_def e header_finalize_def uint256_bytes_round)
  obtain m where m: "generate toy_floats (Uint256 0 0 0 w) (active_salt_version True 1) = Some m"
    unfolding generate_def Let_def by (subst (asm) generate_loop_step) (simp add: compute_rank_toy)
  obtain st where st: "State_new env 0 (FullBlock ?b) = Some (Inr st)"
    "st_target st = Uint256 0 0 0 (2 ^ 56)" "st_daa_score st = 1" "st_block st = FullBlock ?b"
    "slice 0 32 (st_pow_hash_header st) = Target.to_le_bytes (Uint256 0 0 0 w)"
    using pph toy_target m by (simp add: State_new_def seed_fields_def e toy_header_def layout_simps)
  have seed: "pom_block_seed_v4_era True (\<lambda>_. [9]) x ts k 1 = 9" for x ts k
    by (simp add: pom_block_seed_v4_era_def pom_block_seed_h14_def pom_block_seed_h10_def private_inference_activation_daa_def gate_def)
  have pad: "pom_pad env (st_daa_score st) index 2 = Some None"
    using no_pad [of env index 2] by (simp add: st(3) e)
  have "st_daa_score st \<ge> pom_v4_activation_daa (e_testnet env)" by (simp add: st(3) e v4_gate_testnet)
  moreover have "\<exists>won. pom_block_v4 env st (slice 0 32 (st_pow_hash_header st)) (from_le (slice 32 40 (st_pow_hash_header st))) 5 index 2
      (None :: unit DeviceTask option) = Some (Some won)"
    using pom_block_v4_eq [OF _ nt pad, of "slice 0 32 (st_pow_hash_header st)" "from_le (slice 32 40 (st_pow_hash_header st))" 5 "None :: unit DeviceTask option"]
      ok w by (auto simp: e st(2,3,4,5) seed era_final_def f_def assemble_task_free to_wire_toy assemble_pom_block_def)
  ultimately have "\<exists>won. generate_block_if_pom env st 5 index 2 (None :: unit DeviceTask option) = Some (Some won)"
    by (simp add: generate_block_if_pom_def Let_def)
  then obtain won where won: "generate_block_if_pom env st 5 index 2 (None :: unit DeviceTask option) = Some (Some won)" by blast
  obtain b' h p h0 where h: "won = FullBlock b'" "b_header b' = Some h" "h_nonce h = 5" "to_wire_bytes (e_borsh env) p = Some (b_pom_proof b')" "b_rest b' = b_rest ?b"
    "h_daa_score h \<ge> pom_level_activation_daa (e_testnet env) \<longrightarrow> h_pom_final_state h = pp_final_state p"
    "b_header ?b = Some h0" "h = fill_pom_header (e_testnet env) 5 (pp_final_state p) 2 h0"
    using submitted_block_accepted [OF st(1) won] by blast
  then have "h_daa_score h = 1" by (auto simp: toy_header_def)
  with h(6) have "h_pom_final_state h = pp_final_state p" by (simp add: e pom_level_activation_daa_def gate_def)
  with h st(1) won show ?thesis
    by (intro exI [of _ env] exI [of _ st] exI [of _ index] exI [of _ won] exI [of _ p] exI [of _ "b_pom_proof b'"] exI [of _ h]) simp
qed

end
