(* ===== verification/Header_Bytes.thy ===== *)
theory Header_Bytes
  imports Pow_State
begin

text \<open>
  What the bytes hashed for a block (\<open>serialize_header\<close> and the hex functions of \<open>src/src/pow.rs\<close>) say of
  the header they were written from.
\<close>

section \<open>Hex\<close>

lemma length_decode_loop: "decode_loop data i n = Inr b \<Longrightarrow> length b = n"
  by (induction data i n arbitrary: b rule: decode_loop.induct) (auto split: sum.splits simp: map_sum_def)

lemma length_hex_unwrap: "hex_unwrap s n = Some b \<Longrightarrow> length b = n"
  by (auto simp: hex_unwrap_def decode_to_slice_def length_decode_loop split: sum.splits if_splits)

lemma length_hex_or_zero: "hex_or_zero s = Some b \<Longrightarrow> length b = 32"
  by (auto simp: hex_or_zero_def length_hex_unwrap split: if_splits)

text \<open>A digit that \<open>LowerHex\<close> writes is read back, and so is every string of digits.\<close>

lemma hex_val_digit: "d < 16 \<Longrightarrow> hex_val (hex_digit d) i = Inr d"
proof -
  assume d: "d < 16"
  show ?thesis
  proof (cases "d < 10")
    case True
    then have "unat (0x30 + d) = 48 + unat d" by (simp add: unat_word_ariths word_less_nat_alt)
    with True show ?thesis by (simp add: hex_val_def hex_digit_def word_le_nat_alt word_less_nat_alt)
  next
    case False
    then have "unat (0x61 + (d - 10)) = 87 + unat d"
      using d unat_sub [of 10 d] by (simp add: unat_word_ariths word_less_nat_alt word_le_nat_alt)
    with False d show ?thesis by (simp add: hex_val_def hex_digit_def word_le_nat_alt word_less_nat_alt)
  qed
qed

lemma byte_of_nibbles: "push_bit 4 (drop_bit 4 c) OR (c AND 0x0F) = (c :: u8)"
proof -
  have "(0x0F :: u8) = mask 4" by (simp add: mask_eq_exp_minus_1)
  then show ?thesis by (simp only: flip: take_bit_eq_mask) (rule bit_word_eqI, auto simp: bit_simps)
qed

lemma decode_loop_digits:
  "decode_loop (concat (map (\<lambda>c. [hex_digit (drop_bit 4 c), hex_digit (c AND 0x0F)]) (xs @ ys))) (length xs) (length ys) = Inr ys"
proof (induction ys arbitrary: xs)
  case (Cons y ys)
  let ?d = "concat (map (\<lambda>c. [hex_digit (drop_bit 4 c), hex_digit (c AND 0x0F)]) (xs @ y # ys))"
  have "?d ! (2 * length xs) = hex_digit (drop_bit 4 y)" "?d ! (2 * length xs + 1) = hex_digit (y AND 0x0F)"
    by (simp_all add: nth_append length_concat comp_def sum_list_triv)
  then show ?case using Cons.IH [of "xs @ [y]"] by (simp add: hex_val_digit byte_of_nibbles nibble_bounds)
qed simp

lemma hex_round_trip: "decode_to_slice (lower_hex u) 32 = Inr (Target.to_le_bytes u)"
  using decode_loop_digits [of "[]" "Target.to_le_bytes u"]
  by (simp add: decode_to_slice_def lower_hex_def length_concat comp_def sum_list_triv)

section \<open>Prefixes\<close>

lemma hex_peel:
  assumes "hex_unwrap s n = Some a" and "hex_unwrap s' n = Some b" and "a @ u = b @ v"
  shows "a = b" and "u = v"
  using assms(3) length_hex_unwrap [OF assms(1)] length_hex_unwrap [OF assms(2)] by simp_all

lemma parent_hashes_peel:
  assumes "parent_hashes xs = Some a" and "parent_hashes ys = Some b" and "length xs = length ys" and "a @ u = b @ v"
  shows "map (\<lambda>s. hex_unwrap s 32) xs = map (\<lambda>s. hex_unwrap s 32) ys \<and> u = v"
  using assms
proof (induction xs arbitrary: ys a b)
  case (Cons x xs)
  obtain y ys' where ys: "ys = y # ys'" using Cons.prems(3) by (cases ys) auto
  obtain h r h' r' where h: "hex_unwrap x 32 = Some h" "parent_hashes xs = Some r" "a = h @ r"
    "hex_unwrap y 32 = Some h'" "parent_hashes ys' = Some r'" "b = h' @ r'"
    using Cons.prems(1,2) by (auto simp: ys bind_eq_Some_conv)
  then have "h = h'" "r @ u = r' @ v" using hex_peel [OF h(1) h(4), of "r @ u" "r' @ v"] Cons.prems(4) by simp_all
  with h Cons.IH [of r ys' r'] Cons.prems(3) show ?case by (simp add: ys)
qed simp

lemma u64_8: "LENGTH(64) \<le> 8 * 8"
  by simp

definition parents_of :: "RpcBlockHeader \<Rightarrow> bytes option list list" where
  "parents_of h = map (map (\<lambda>s. hex_unwrap s 32)) (h_parents h)"

lemma parent_levels_peel:
  assumes "parent_levels xs = Some a" and "parent_levels ys = Some b" and "length xs = length ys" and "a @ u = b @ v"
    and "list_all (\<lambda>p. length p < 2 ^ 64) xs" and "list_all (\<lambda>p. length p < 2 ^ 64) ys"
  shows "map (map (\<lambda>s. hex_unwrap s 32)) xs = map (map (\<lambda>s. hex_unwrap s 32)) ys \<and> u = v"
  using assms
proof (induction xs arbitrary: ys a b)
  case (Cons x xs)
  obtain y ys' where ys: "ys = y # ys'" using Cons.prems(3) by (cases ys) auto
  obtain h r h' r' where h: "parent_hashes x = Some h" "parent_levels xs = Some r" "a = le_bytes 8 (of_nat (length x) :: u64) @ h @ r"
    "parent_hashes y = Some h'" "parent_levels ys' = Some r'" "b = le_bytes 8 (of_nat (length y) :: u64) @ h' @ r'"
    using Cons.prems(1,2) by (auto simp: ys bind_eq_Some_conv)
  have "le_bytes 8 (of_nat (length x) :: u64) @ h @ r @ u = le_bytes 8 (of_nat (length y) :: u64) @ h' @ r' @ v"
    using Cons.prems(4) unfolding h(3,6) append_assoc .
  then have "le_bytes 8 (of_nat (length x) :: u64) = le_bytes 8 (of_nat (length y) :: u64)" and e: "h @ r @ u = h' @ r' @ v"
    unfolding append_eq_append_conv [OF disjI1 [OF trans [OF length_le_bytes length_le_bytes [symmetric]]]] by blast+
  then have "of_nat (length x) = (of_nat (length y) :: u64)" unfolding le_bytes_inj [of 8, OF u64_8] by blast
  moreover have "length x < 2 ^ 64" "length y < 2 ^ 64" using Cons.prems(5,6) by (simp_all add: ys)
  ultimately have l: "length x = length y" by (metis unat_of_nat_u64)
  from parent_hashes_peel [OF h(1) h(4) l e] have "map (\<lambda>s. hex_unwrap s 32) x = map (\<lambda>s. hex_unwrap s 32) y" "r @ u = r' @ v" by simp_all
  with h Cons.IH [of r ys' r'] Cons.prems show ?case by (simp add: ys)
qed simp

lemma peel: "a @ u = b @ v \<Longrightarrow> length a = length b \<Longrightarrow> a = b \<and> u = v"
  by simp

lemma blue_work_peel:
  assumes "blue_work_bytes s = Some a" and "blue_work_bytes s' = Some b" and "a @ u = b @ v"
  shows "a = b \<and> u = v"
proof -
  have parts: "\<exists>c. a = le_bytes 8 (of_nat (length c) :: u64) @ c \<and> length c \<le> 32" if "blue_work_bytes s = Some a" for s a
    using that by (auto simp: blue_work_bytes_def Let_def bind_eq_Some_conv not_less dest!: length_hex_unwrap split: if_splits)
  obtain c d where c: "a = le_bytes 8 (of_nat (length c) :: u64) @ c" "length c \<le> 32"
    and d: "b = le_bytes 8 (of_nat (length d) :: u64) @ d" "length d \<le> 32"
    using parts [OF assms(1)] parts [OF assms(2)] by blast
  have "le_bytes 8 (of_nat (length c) :: u64) @ c @ u = le_bytes 8 (of_nat (length d) :: u64) @ d @ v"
    using assms(3) unfolding c(1) d(1) append_assoc .
  then have e: "le_bytes 8 (of_nat (length c) :: u64) = le_bytes 8 (of_nat (length d) :: u64) \<and> c @ u = d @ v"
    by (rule peel) (simp only: length_le_bytes)
  then have "of_nat (length c) = (of_nat (length d) :: u64)" unfolding le_bytes_inj [of 8, OF u64_8] by blast
  moreover have "length c < 2 ^ 64" "length d < 2 ^ 64" using c(2) d(2) by simp_all
  ultimately have "length c = length d" by (metis unat_of_nat_u64)
  with e have "c = d \<and> u = v" by (blast dest: peel)
  then show ?thesis unfolding c(1) d(1) by blast
qed

section \<open>Properties\<close>

text \<open>Every list of the header is short enough for its length to be written in eight bytes.\<close>

definition countable_parents :: "RpcBlockHeader \<Rightarrow> bool" where
  "countable_parents h \<longleftrightarrow> length (h_parents h) < 2 ^ 64 \<and> list_all (\<lambda>p. length p < 2 ^ 64) (h_parents h)"

text \<open>The pieces of the bytes: the parents, the fields of fixed length, the work, the pruning point and what
  the eras add.\<close>

definition fixed_fields :: "RpcBlockHeader \<Rightarrow> bytes \<Rightarrow> bytes \<Rightarrow> bytes \<Rightarrow> bytes list" where
  "fixed_fields h m a u = [m, a, u, le_bytes 8 (h_timestamp h), le_bytes 4 (h_bits h), le_bytes 8 (h_nonce h),
     le_bytes 8 (h_daa_score h), le_bytes 8 (h_blue_score h)]"

definition parts_of ::
  "bool \<Rightarrow> RpcBlockHeader \<Rightarrow> bytes \<Rightarrow> bytes \<Rightarrow> bytes \<Rightarrow> bytes \<Rightarrow> bytes \<Rightarrow> bytes \<Rightarrow> bytes \<Rightarrow> bytes \<Rightarrow> bytes \<Rightarrow> bytes \<Rightarrow> bool" where
  "parts_of t h bs pb m a u w p tk fin seal \<longleftrightarrow>
     unat (h_version h) < 2 ^ 16 \<and> parent_levels (h_parents h) = Some pb \<and>
     hex_unwrap (h_hash_merkle_root h) 32 = Some m \<and> hex_unwrap (h_accepted_id_merkle_root h) 32 = Some a \<and>
     hex_unwrap (h_utxo_commitment h) 32 = Some u \<and> blue_work_bytes (h_blue_work h) = Some w \<and>
     hex_unwrap (h_pruning_point h) 32 = Some p \<and>
     (if h_daa_score h \<ge> block_task_activation_daa then hex_or_zero (h_task_root h) else Some []) = Some tk \<and>
     fin = (if h_daa_score h \<ge> pom_level_activation_daa t then le_bytes 8 (h_pom_final_state h) else []) \<and>
     (if h_daa_score h \<ge> pom_v3_activation_daa t
      then map_option (\<lambda>s. s @ [ucast (h_pom_tier h)]) (hex_or_zero (h_service_state_hash h)) else Some []) = Some seal \<and>
     bs = le_bytes 2 (ucast (h_version h) :: u16) @ le_bytes 8 (of_nat (length (h_parents h)) :: u64) @ pb @
       concat (fixed_fields h m a u) @ w @ p @ tk @ fin @ seal"

lemma serialize_parts:
  assumes "serialize_header t h False = Some bs"
  obtains pb m a u w p tk fin seal where "parts_of t h bs pb m a u w p tk fin seal"
  using assms unfolding serialize_header_def Let_def parts_of_def fixed_fields_def
  by (simp add: bind_eq_Some_conv split: if_splits) metis+

lemma task_length: "(if c then hex_or_zero s else Some []) = Some tk \<Longrightarrow> length tk = (if c then 32 else 0)"
  by (auto dest: length_hex_or_zero split: if_splits)

lemma task_eq:
  "(if c then hex_or_zero s else Some []) = Some tk \<Longrightarrow> (if c then hex_or_zero s' else Some []) = Some tk \<Longrightarrow>
   c \<longrightarrow> hex_or_zero s = hex_or_zero s'"
  by auto

lemma seal_eq:
  "(if c then map_option (\<lambda>s. s @ [x]) (hex_or_zero s) else Some []) = Some z \<Longrightarrow>
   (if c then map_option (\<lambda>s. s @ [y]) (hex_or_zero s') else Some []) = Some z \<Longrightarrow>
   c \<longrightarrow> hex_or_zero s = hex_or_zero s' \<and> x = y"
  by auto

lemma fixed_peel:
  "list_all2 (\<lambda>a b. length a = length b) xs ys \<Longrightarrow> concat xs @ u = concat ys @ v \<Longrightarrow> xs = ys \<and> u = v"
  by (induction rule: list_all2_induct) auto

lemma u16_2: "LENGTH(16) \<le> 8 * 2"
  by simp

lemma u32_4: "LENGTH(32) \<le> 8 * 4"
  by simp

lemma ucast_version:
  assumes "unat (x :: u32) < 2 ^ 16" and "unat y < 2 ^ 16" and "(ucast x :: u16) = ucast y"
  shows "x = y"
proof -
  have "unat (ucast x :: u16) = unat x" "unat (ucast y :: u16) = unat y" using assms(1,2) by (simp_all add: unsigned_ucast_eq take_bit_eq_mod)
  with assms(3) show ?thesis by (simp add: word_unat_eq_iff)
qed

text \<open>C10: the bytes hashed for a block bind its header: two headers with the same bytes have the same
  version, parents, roots, time, target, nonce, scores, work and pruning point, and the same task root, final
  state, service state and tier (a byte) where their era commits to them. The hex strings are compared by the
  bytes they stand for.\<close>

theorem header_bytes_bind:
  assumes "serialize_header t h False = Some bs" and "serialize_header t h' False = Some bs"
    and "countable_parents h" and "countable_parents h'"
  shows "h_version h = h_version h' \<and> parents_of h = parents_of h' \<and>
    hex_unwrap (h_hash_merkle_root h) 32 = hex_unwrap (h_hash_merkle_root h') 32 \<and>
    hex_unwrap (h_accepted_id_merkle_root h) 32 = hex_unwrap (h_accepted_id_merkle_root h') 32 \<and>
    hex_unwrap (h_utxo_commitment h) 32 = hex_unwrap (h_utxo_commitment h') 32 \<and>
    h_timestamp h = h_timestamp h' \<and> h_bits h = h_bits h' \<and> h_nonce h = h_nonce h' \<and>
    h_daa_score h = h_daa_score h' \<and> h_blue_score h = h_blue_score h' \<and>
    blue_work_bytes (h_blue_work h) = blue_work_bytes (h_blue_work h') \<and>
    hex_unwrap (h_pruning_point h) 32 = hex_unwrap (h_pruning_point h') 32 \<and>
    (h_daa_score h \<ge> block_task_activation_daa \<longrightarrow> hex_or_zero (h_task_root h) = hex_or_zero (h_task_root h')) \<and>
    (h_daa_score h \<ge> pom_level_activation_daa t \<longrightarrow> h_pom_final_state h = h_pom_final_state h') \<and>
    (h_daa_score h \<ge> pom_v3_activation_daa t \<longrightarrow>
      hex_or_zero (h_service_state_hash h) = hex_or_zero (h_service_state_hash h') \<and>
      (ucast (h_pom_tier h) :: u8) = ucast (h_pom_tier h'))"
proof -
  obtain pb m a u w p tk fin seal where h: "parts_of t h bs pb m a u w p tk fin seal"
    using assms(1) by (rule serialize_parts)
  obtain pb' m' a' u' w' p' tk' fin' seal' where h': "parts_of t h' bs pb' m' a' u' w' p' tk' fin' seal'"
    using assms(2) by (rule serialize_parts)
  note P = h [unfolded parts_of_def] h' [unfolded parts_of_def]
  have "(ucast (h_version h) :: u16) = ucast (h_version h')"
    and 1: "le_bytes 8 (of_nat (length (h_parents h)) :: u64) @ pb @ concat (fixed_fields h m a u) @ w @ p @ tk @ fin @ seal =
     le_bytes 8 (of_nat (length (h_parents h')) :: u64) @ pb' @ concat (fixed_fields h' m' a' u') @ w' @ p' @ tk' @ fin' @ seal'"
    using peel [of "le_bytes 2 (ucast (h_version h) :: u16)" _ "le_bytes 2 (ucast (h_version h') :: u16)"] P
    by (metis length_le_bytes le_bytes_inj [of 2, OF u16_2])+
  then have v: "h_version h = h_version h'" using P ucast_version by blast
  from peel [OF 1] have "of_nat (length (h_parents h)) = (of_nat (length (h_parents h')) :: u64)"
    and 2: "pb @ concat (fixed_fields h m a u) @ w @ p @ tk @ fin @ seal = pb' @ concat (fixed_fields h' m' a' u') @ w' @ p' @ tk' @ fin' @ seal'"
    by (simp_all only: length_le_bytes le_bytes_inj [of 8, OF u64_8] simp_thms)
  then have "length (h_parents h) = length (h_parents h')"
    using assms(3,4) unfolding countable_parents_def by (metis unat_of_nat_u64)
  then have pp: "parents_of h = parents_of h'"
    and 3: "concat (fixed_fields h m a u) @ w @ p @ tk @ fin @ seal = concat (fixed_fields h' m' a' u') @ w' @ p' @ tk' @ fin' @ seal'"
    using parent_levels_peel [OF _ _ _ 2] P assms(3,4) unfolding parents_of_def countable_parents_def by blast+
  have "length x = 32" if "x \<in> {m, a, u, p, m', a', u', p'}" for x using that P by (auto dest: length_hex_unwrap)
  then have l: "list_all2 (\<lambda>a b. length a = length b) (fixed_fields h m a u) (fixed_fields h' m' a' u')" "length p = length p'"
    unfolding fixed_fields_def by simp_all
  have f: "fixed_fields h m a u = fixed_fields h' m' a' u'" and 4: "w @ p @ tk @ fin @ seal = w' @ p' @ tk' @ fin' @ seal'"
    using fixed_peel [OF l(1) 3] by blast+
  have d: "m = m'" "a = a'" "u = u'" "h_timestamp h = h_timestamp h'" "h_bits h = h_bits h'" "h_nonce h = h_nonce h'"
    "h_daa_score h = h_daa_score h'" "h_blue_score h = h_blue_score h'"
    using f unfolding fixed_fields_def list.inject le_bytes_inj [of 8, OF u64_8] le_bytes_inj [of 4, OF u32_4] by blast+
  have "w = w'" and 5: "p @ tk @ fin @ seal = p' @ tk' @ fin' @ seal'" using blue_work_peel [OF _ _ 4] P by blast+
  have "p = p'" and 6: "tk @ fin @ seal = tk' @ fin' @ seal'" using peel [OF 5 l(2)] by blast+
  have "length tk = (if h_daa_score h \<ge> block_task_activation_daa then 32 else 0)"
    "length tk' = (if h_daa_score h' \<ge> block_task_activation_daa then 32 else 0)"
    using P task_length by blast+
  then have "length tk = length tk'" "length fin = length fin'" using P d(7) by simp_all
  then have e: "tk = tk'" "fin = fin'" "seal = seal'" using peel [OF 6] peel [of fin seal fin' seal'] by blast+
  have "h_daa_score h \<ge> pom_level_activation_daa t \<longrightarrow> h_pom_final_state h = h_pom_final_state h'"
    using P e(2) d(7) le_bytes_inj [of 8, OF u64_8] by metis
  moreover have "h_daa_score h \<ge> block_task_activation_daa \<longrightarrow> hex_or_zero (h_task_root h) = hex_or_zero (h_task_root h')"
    using P e(1) d(7) task_eq by metis
  moreover have "h_daa_score h \<ge> pom_v3_activation_daa t \<longrightarrow> hex_or_zero (h_service_state_hash h) = hex_or_zero (h_service_state_hash h') \<and>
      (ucast (h_pom_tier h) :: u8) = ucast (h_pom_tier h')"
    using P e(3) d(7) seal_eq by metis
  ultimately show ?thesis using v pp d \<open>w = w'\<close> \<open>p = p'\<close> P by simp
qed

lemma tier_byte_only:
  "(ucast x :: u8) = ucast (h_pom_tier h) \<Longrightarrow> serialize_header t (h\<lparr>h_pom_tier := x\<rparr>) pre = serialize_header t h pre"
  by (simp add: serialize_header_def)

theorem header_bytes_bind_witness:
  "\<exists>bs. serialize_header True toy_header False = Some bs \<and> serialize_header True (toy_header\<lparr>h_pom_tier := 256\<rparr>) False = Some bs \<and>
    h_nonce toy_header = h_nonce (toy_header\<lparr>h_pom_tier := 256\<rparr>) \<and>
    (ucast (h_pom_tier toy_header) :: u8) = ucast (h_pom_tier (toy_header\<lparr>h_pom_tier := 256\<rparr>))"
proof -
  obtain bs where bs: "serialize_header True toy_header False = Some bs" using toy_header_bytes by blast
  moreover have "serialize_header True (toy_header\<lparr>h_pom_tier := 256\<rparr>) False = serialize_header True toy_header False"
    by (rule tier_byte_only) (simp add: toy_header_def)
  ultimately have bs': "serialize_header True (toy_header\<lparr>h_pom_tier := 256\<rparr>) False = Some bs" by simp
  have "countable_parents toy_header" "countable_parents (toy_header\<lparr>h_pom_tier := 256\<rparr>)" "h_daa_score toy_header = 1"
    by (simp_all add: countable_parents_def toy_header_def)
  with header_bytes_bind [OF bs bs'] bs bs' show ?thesis by (simp add: v4_gate_testnet)
qed

end
