(* ===== verification/Escrow_Tx.thy ===== *)
theory Escrow_Tx
  imports Heavy_Hash
begin

text \<open>
  The claim transactions of \<open>src/src/escrow.rs\<close>: the escrow and payout scripts, the signature hashes and the id of
  a claim, the decoding of payout addresses, the delegation certificates, and the assembly of a claim out of escrow
  entries. Strings are bytes; sums of \<open>u64\<close> wrap as in a release build. The crates for hashing, hex and Schnorr
  signatures are the parameters in \<open>escrow_env\<close>.
\<close>

section \<open>Parameters\<close>

text \<open>BLAKE2b-256 takes a key (empty for none) and the bytes written; \<open>x_sign\<close> and \<open>x_pubkey\<close> are those of the
  escrow key, \<open>x_verify\<close> takes a signature, a digest and an x-only key and \<open>x_valid_key\<close>, \<open>x_valid_sig\<close> tell what
  the crate parses.\<close>

record escrow_env =
  x_testnet :: bool
  x_hex_encode :: "bytes \<Rightarrow> bytes"
  x_hex_decode :: "bytes \<Rightarrow> bytes option"
  x_blake2b :: "bytes \<Rightarrow> bytes \<Rightarrow> hash"
  x_pubkey :: bytes
  x_sign :: "hash \<Rightarrow> bytes"
  x_verify :: "bytes \<Rightarrow> hash \<Rightarrow> bytes \<Rightarrow> bool"
  x_valid_key :: "bytes \<Rightarrow> bool"
  x_valid_sig :: "bytes \<Rightarrow> bool"

definition CHALLENGE_WINDOW_BLOCKS :: u64 where "CHALLENGE_WINDOW_BLOCKS = 36000"
definition SERVICE_BOND_CSV_WINDOW_BLOCKS :: u64 where "SERVICE_BOND_CSV_WINDOW_BLOCKS = 792000"
definition CLAIM_FEE_SOMPI :: u64 where "CLAIM_FEE_SOMPI = 30000000"
definition NATIVE_SUBNETWORK :: bytes where "NATIVE_SUBNETWORK = replicate 40 0x30"
definition OP_CSV :: u8 where "OP_CSV = 0xb1"
definition OP_CHECKSIG :: u8 where "OP_CHECKSIG = 0xac"
definition SIG_HASH_ALL :: u8 where "SIG_HASH_ALL = 0x01"

definition csv_window_for_daa :: "bool \<Rightarrow> u64 \<Rightarrow> u64" where
  "csv_window_for_daa testnet daa =
     (if daa \<ge> pom_v3_activation_daa testnet then SERVICE_BOND_CSV_WINDOW_BLOCKS else CHALLENGE_WINDOW_BLOCKS)"

section \<open>Scripts\<close>

text \<open>\<open>position(..).unwrap_or(8)\<close> on the reversed bytes counts the zeros at their end.\<close>

definition build_escrow_script :: "bytes \<Rightarrow> u64 \<Rightarrow> bytes" where
  "build_escrow_script pubkey csv_window =
     (let le = le_bytes 8 csv_window;
          trimmed_len = 8 - length (takeWhile (\<lambda>b. b = 0) (rev le));
          seq_bytes = take trimmed_len le
      in [of_nat (length seq_bytes)] @ seq_bytes @ [OP_CSV, 0x20] @ pubkey @ [OP_CHECKSIG])"

definition build_p2pk_script :: "bytes \<Rightarrow> bytes" where
  "build_p2pk_script pubkey = [0x20] @ pubkey @ [OP_CHECKSIG]"

section \<open>Signature hashes and ids\<close>

definition SIGHASH_KEY :: bytes where "SIGHASH_KEY = ascii8 ''TransactionSigningHash''"

record SighashReused =
  prev_out_hash :: hash
  seqs_hash :: hash
  sigops_hash :: hash
  outs_hash :: hash

text \<open>An input is the id, index and amount of the output it spends.\<close>

type_synonym input_meta = "bytes \<times> u32 \<times> u64"

definition output_bytes :: "u64 \<Rightarrow> u16 \<Rightarrow> bytes \<Rightarrow> bytes" where
  "output_bytes payout_amount payout_spk_version payout_spk_script =
     le_bytes 8 payout_amount @ le_bytes 2 payout_spk_version @ le_bytes 8 (of_nat (length payout_spk_script) :: u64) @ payout_spk_script"

definition SighashReused_new :: "escrow_env \<Rightarrow> input_meta list \<Rightarrow> u64 \<Rightarrow> u16 \<Rightarrow> bytes \<Rightarrow> u64 \<Rightarrow> SighashReused" where
  "SighashReused_new env inputs payout_amount payout_spk_version payout_spk_script csv_window =
     \<lparr>prev_out_hash = x_blake2b env SIGHASH_KEY (concat (map (\<lambda>(txid, index, _). txid @ le_bytes 4 index) inputs)),
      seqs_hash = x_blake2b env SIGHASH_KEY (concat (map (\<lambda>_. le_bytes 8 csv_window) inputs)),
      sigops_hash = x_blake2b env SIGHASH_KEY (map (\<lambda>_. 1) inputs),
      outs_hash = x_blake2b env SIGHASH_KEY (output_bytes payout_amount payout_spk_version payout_spk_script)\<rparr>"

text \<open>The bytes written by \<open>compute_sighash\<close> and \<open>compute_claim_txid\<close>, and their hashes.\<close>

definition sighash_bytes :: "input_meta \<Rightarrow> bytes \<Rightarrow> SighashReused \<Rightarrow> u64 \<Rightarrow> bytes" where
  "sighash_bytes input escrow_script reused csv_window =
     (case input of (txid, index, amount) \<Rightarrow>
        le_bytes 2 (0 :: u16) @ prev_out_hash reused @ seqs_hash reused @ sigops_hash reused @
        txid @ le_bytes 4 index @ le_bytes 2 (0 :: u16) @ le_bytes 8 (of_nat (length escrow_script) :: u64) @ escrow_script @
        le_bytes 8 amount @ le_bytes 8 csv_window @ [1] @ outs_hash reused @ le_bytes 8 (0 :: u64) @ replicate 20 0 @
        le_bytes 8 (0 :: u64) @ replicate 32 0 @ [SIG_HASH_ALL])"

definition compute_sighash :: "escrow_env \<Rightarrow> input_meta \<Rightarrow> bytes \<Rightarrow> SighashReused \<Rightarrow> u64 \<Rightarrow> hash" where
  "compute_sighash env input escrow_script reused csv_window =
     x_blake2b env SIGHASH_KEY (sighash_bytes input escrow_script reused csv_window)"

definition txid_bytes :: "input_meta list \<Rightarrow> u64 \<Rightarrow> u16 \<Rightarrow> bytes \<Rightarrow> u64 \<Rightarrow> bytes" where
  "txid_bytes inputs payout_amount payout_spk_version payout_spk_script csv_window =
     le_bytes 2 (0 :: u16) @ le_bytes 8 (of_nat (length inputs) :: u64) @
     concat (map (\<lambda>(txid, index, _). txid @ le_bytes 4 index @ le_bytes 8 (0 :: u64) @ le_bytes 8 csv_window) inputs) @
     le_bytes 8 (1 :: u64) @ output_bytes payout_amount payout_spk_version payout_spk_script @
     le_bytes 8 (0 :: u64) @ replicate 20 0 @ le_bytes 8 (0 :: u64) @ le_bytes 8 (0 :: u64)"

definition compute_claim_txid :: "escrow_env \<Rightarrow> input_meta list \<Rightarrow> u64 \<Rightarrow> u16 \<Rightarrow> bytes \<Rightarrow> u64 \<Rightarrow> bytes" where
  "compute_claim_txid env inputs payout_amount payout_spk_version payout_spk_script csv_window =
     x_hex_encode env (x_blake2b env (ascii8 ''TransactionID'')
       (txid_bytes inputs payout_amount payout_spk_version payout_spk_script csv_window))"

section \<open>Addresses\<close>

datatype address_error = MissingColon | AddressTooShort | InvalidCharacter | TooFewBytes nat

definition CHARSET :: bytes where "CHARSET = ascii8 ''qpzry9x8gf2tvdw0s3jn54khce6mua7l''"

text \<open>The table \<open>rev\<close> of the positions of the characters in \<open>CHARSET\<close>; a byte from 128 on belongs to a
  character outside it.\<close>

fun charset_position :: "u8 \<Rightarrow> bytes \<Rightarrow> u8 \<Rightarrow> u8 option" where
  "charset_position c [] i = None"
| "charset_position c (x # xs) i = (if c = x then Some i else charset_position c xs (i + 1))"

text \<open>The loop that regroups the bits: the bits collected, their number and the bytes so far.\<close>

definition regroup_step :: "u8 \<Rightarrow> u32 \<times> u32 \<times> bytes \<Rightarrow> u32 \<times> u32 \<times> bytes" where
  "regroup_step b st =
     (case st of (buf, bits, out) \<Rightarrow>
        let buf = push_bit 5 buf OR ucast b;
            bits = bits + 5
        in if bits \<ge> 8 then let bits = bits - 8 in (buf, bits, out @ [ucast (drop_bit (unat bits) buf)])
           else (buf, bits, out))"

definition regroup :: "u8 list \<Rightarrow> bytes" where
  "regroup data5 = snd (snd (fold regroup_step data5 (0, 0, [])))"

text \<open>The address after its first colon, less the eight characters of the checksum; \<open>None\<close> is the panic of
  slicing inside a character.\<close>

definition decode_address :: "bytes \<Rightarrow> (address_error + u16 \<times> bytes) option" where
  "decode_address addr =
     (if 0x3a \<notin> set addr then Some (Inl MissingColon)
      else
        let data_with_checksum = tl (dropWhile (\<lambda>c. c \<noteq> 0x3a) addr);
            end = length data_with_checksum - 8
        in if length data_with_checksum < 9 then Some (Inl AddressTooShort)
           else if data_with_checksum ! end AND 0xC0 = 0x80 then None
           else
             (case those (map (\<lambda>c. charset_position c CHARSET 0) (take end data_with_checksum)) of
                None \<Rightarrow> Some (Inl InvalidCharacter)
              | Some data5 \<Rightarrow>
                  let bs = regroup data5
                  in if length bs < 33 then Some (Inl (TooFewBytes (length bs)))
                     else Some (Inr (ucast (hd bs), slice 1 33 bs))))"

section \<open>Delegation certificates\<close>

definition escrow_delegation_message :: "escrow_env \<Rightarrow> bytes \<Rightarrow> hash" where
  "escrow_delegation_message env escrow_pubkey = x_blake2b env [] (ascii8 ''KeryxEscrowDelegationV1'' @ escrow_pubkey)"

datatype cert_error =
    BadAddress address_error | UnsupportedVersion u16 | InvalidPubkeyHex | InvalidCertHex
  | InvalidPayoutKey | InvalidSignature | CertMismatch

definition service_identity_hex :: "escrow_env \<Rightarrow> bytes \<Rightarrow> (cert_error + bytes) option" where
  "service_identity_hex env payout_address = do {
     r \<leftarrow> decode_address payout_address;
     Some (case r of
       Inl e \<Rightarrow> Inl (BadAddress e)
     | Inr (version, payout_key) \<Rightarrow>
         if version \<noteq> 0 then Inl (UnsupportedVersion version)
         else Inr (x_hex_encode env (x_blake2b env (ascii8 ''TransactionHash'') (le_bytes 2 version @ build_p2pk_script payout_key)))) }"

text \<open>\<open>hex::decode_to_slice\<close> into a buffer of \<open>n\<close> bytes.\<close>

definition hex_into :: "escrow_env \<Rightarrow> bytes \<Rightarrow> nat \<Rightarrow> bytes option" where
  "hex_into env s n = (case x_hex_decode env s of None \<Rightarrow> None | Some b \<Rightarrow> if length b = n then Some b else None)"

definition verify_escrow_cert :: "escrow_env \<Rightarrow> bytes \<Rightarrow> bytes \<Rightarrow> bytes \<Rightarrow> (cert_error + unit) option" where
  "verify_escrow_cert env payout_address escrow_pubkey_hex cert_hex = do {
     r \<leftarrow> decode_address payout_address;
     Some (case r of
       Inl e \<Rightarrow> Inl (BadAddress e)
     | Inr (version, payout_key) \<Rightarrow>
         if version \<noteq> 0 then Inl (UnsupportedVersion version)
         else
           (case hex_into env escrow_pubkey_hex 32 of
              None \<Rightarrow> Inl InvalidPubkeyHex
            | Some escrow_pubkey \<Rightarrow>
                (case hex_into env cert_hex 64 of
                   None \<Rightarrow> Inl InvalidCertHex
                 | Some sig_bytes \<Rightarrow>
                     if \<not> x_valid_key env payout_key then Inl InvalidPayoutKey
                     else if \<not> x_valid_sig env sig_bytes then Inl InvalidSignature
                     else if x_verify env sig_bytes (escrow_delegation_message env escrow_pubkey) payout_key then Inr ()
                     else Inl CertMismatch))) }"

text \<open>\<open>self_sign_cert\<close> for the key whose public part is \<open>x_pubkey\<close>; the private key is read already.\<close>

definition self_sign_cert :: "escrow_env \<Rightarrow> bytes \<Rightarrow> bytes option option" where
  "self_sign_cert env payout_address = do {
     r \<leftarrow> decode_address payout_address;
     Some (case r of
       Inl _ \<Rightarrow> None
     | Inr (version, payout_key) \<Rightarrow>
         if version \<noteq> 0 \<or> payout_key \<noteq> x_pubkey env then None
         else Some (x_hex_encode env (x_sign env (escrow_delegation_message env (x_pubkey env))))) }"

section \<open>Entries and claims\<close>

record EscrowEntry =
  en_coinbase_txid :: bytes
  en_block_hash :: bytes
  en_confirm_daa :: u64
  en_amount_sompi :: u64
  en_output_index :: u32
  en_claimed :: bool
  en_slashed :: bool
  en_orphan_slashed :: bool
  en_orphan_retries :: u8
  en_orphan_retry_after_daa :: "u64 option"
  en_submit_retries :: u8
  en_batch_cap :: u8
  en_cap_set_daa :: u64
  en_is_inference :: bool
  en_csv_window :: u64

record RpcTransactionInput =
  in_transaction_id :: bytes
  in_index :: u32
  in_signature_script :: bytes
  in_sequence :: u64
  in_sig_op_count :: u32

record RpcScriptPublicKey =
  spk_version :: u32
  spk_script :: bytes

record RpcTransactionOutput =
  out_amount :: u64
  out_script_public_key :: "RpcScriptPublicKey option"

record RpcTransaction =
  tx_version :: u32
  tx_inputs :: "RpcTransactionInput list"
  tx_outputs :: "RpcTransactionOutput list"
  tx_lock_time :: u64
  tx_subnetwork_id :: bytes
  tx_gas :: u64
  tx_payload :: bytes
  tx_mass :: u64
  tx_verbose_id :: "bytes option"

datatype claim_error = EmptyBatch | MixedWindows | AmountTooSmall | BadSourceTxid | SourceTxidLength

text \<open>The script and version that claims pay to.\<close>

record Payout =
  po_version :: u16
  po_script :: bytes

definition payout_spk :: "escrow_env \<Rightarrow> Payout \<Rightarrow> RpcScriptPublicKey" where
  "payout_spk env payout = \<lparr>spk_version = ucast (po_version payout), spk_script = x_hex_encode env (po_script payout)\<rparr>"

fun inputs_meta :: "escrow_env \<Rightarrow> EscrowEntry list \<Rightarrow> claim_error + input_meta list" where
  "inputs_meta env [] = Inr []"
| "inputs_meta env (e # es) =
     (case x_hex_decode env (en_coinbase_txid e) of
        None \<Rightarrow> Inl BadSourceTxid
      | Some txid \<Rightarrow>
          if length txid \<noteq> 32 then Inl SourceTxidLength
          else map_sum id ((#) (txid, en_output_index e, en_amount_sompi e)) (inputs_meta env es))"

definition claim_input :: "escrow_env \<Rightarrow> bytes \<Rightarrow> SighashReused \<Rightarrow> u64 \<Rightarrow> EscrowEntry \<times> input_meta \<Rightarrow> RpcTransactionInput" where
  "claim_input env escrow_script reused csv_window x =
     (case x of (entry, m) \<Rightarrow>
        \<lparr>in_transaction_id = en_coinbase_txid entry, in_index = en_output_index entry,
         in_signature_script = x_hex_encode env ([0x41] @ x_sign env (compute_sighash env m escrow_script reused csv_window) @ [SIG_HASH_ALL]),
         in_sequence = csv_window, in_sig_op_count = 1\<rparr>)"

definition build_claim_tx :: "escrow_env \<Rightarrow> Payout \<Rightarrow> EscrowEntry list \<Rightarrow> claim_error + bytes \<times> RpcTransaction" where
  "build_claim_tx env payout entries =
     (if entries = [] then Inl EmptyBatch
      else
        let csv_window = en_csv_window (hd entries)
        in if list_ex (\<lambda>e. en_csv_window e \<noteq> csv_window) entries then Inl MixedWindows
           else
             let escrow_script = build_escrow_script (x_pubkey env) csv_window;
                 total_in = sum_list (map en_amount_sompi entries)
             in if \<not> CLAIM_FEE_SOMPI < total_in then Inl AmountTooSmall
                else
                  let amount_out = total_in - CLAIM_FEE_SOMPI
                  in case inputs_meta env entries of
                       Inl e \<Rightarrow> Inl e
                     | Inr metas \<Rightarrow>
                         let reused = SighashReused_new env metas amount_out (po_version payout) (po_script payout) csv_window;
                             inputs = map (claim_input env escrow_script reused csv_window) (zip entries metas);
                             claim_txid = compute_claim_txid env metas amount_out (po_version payout) (po_script payout) csv_window
                         in Inr (claim_txid,
                              \<lparr>tx_version = 0, tx_inputs = inputs,
                               tx_outputs = [\<lparr>out_amount = amount_out, out_script_public_key = Some (payout_spk env payout)\<rparr>],
                               tx_lock_time = 0, tx_subnetwork_id = NATIVE_SUBNETWORK, tx_gas = 0, tx_payload = [], tx_mass = 0, tx_verbose_id = None\<rparr>))"

section \<open>Scripts tell their key and window\<close>

lemma zeros_at_end:
  "take (length xs - length (takeWhile P (rev xs))) xs @ rev (takeWhile P (rev xs)) = xs"
proof -
  have "rev xs = takeWhile P (rev xs) @ dropWhile P (rev xs)" by simp
  then have e: "xs = rev (dropWhile P (rev xs)) @ rev (takeWhile P (rev xs))" by (metis rev_append rev_rev_ident)
  then have "length xs - length (takeWhile P (rev xs)) = length (rev (dropWhile P (rev xs)))"
    by (metis add_diff_cancel_right' length_append length_rev)
  with e show ?thesis by (metis append_eq_conv_conj)
qed

lemma takeWhile_eq_replicate: "takeWhile (\<lambda>b. b = x) ys = replicate (length (takeWhile (\<lambda>b. b = x) ys)) x"
  by (induction ys) auto

lemma trimmed_inj:
  fixes w w' :: u64
  assumes "take (8 - length (takeWhile (\<lambda>b. b = 0) (rev (le_bytes 8 w)))) (le_bytes 8 w) =
     take (8 - length (takeWhile (\<lambda>b. b = 0) (rev (le_bytes 8 w')))) (le_bytes 8 w')"
  shows "w = w'"
proof -
  define z where "z v = length (takeWhile (\<lambda>b. b = 0) (rev (le_bytes 8 (v :: u64))))" for v
  have full: "le_bytes 8 v = take (8 - z v) (le_bytes 8 v) @ replicate (z v) 0" for v
    using zeros_at_end [of "le_bytes 8 v" "\<lambda>b. b = 0"] takeWhile_eq_replicate [of 0 "rev (le_bytes 8 v)"]
    unfolding z_def by (metis length_le_bytes rev_replicate)
  have z8: "z v \<le> 8" for v using length_takeWhile_le [of "\<lambda>b. b = 0" "rev (le_bytes 8 v)"] by (simp add: z_def)
  have t: "take (8 - z w) (le_bytes 8 w) = take (8 - z w') (le_bytes 8 w')" using assms by (simp add: z_def)
  then have "8 - z w = 8 - z w'" by (metis length_le_bytes length_take min.absorb2 diff_le_self)
  then have "z w = z w'" using z8 [of w] z8 [of w'] by linarith
  with t full [of w] full [of w'] have "le_bytes 8 w = le_bytes 8 w'" by metis
  then show ?thesis by (simp add: le_bytes_inj)
qed

lemma escrow_script_binds:
  assumes "build_escrow_script pk w = build_escrow_script pk' w'" and "length pk = length pk'"
  shows "pk = pk' \<and> w = w'"
proof -
  define sq where "sq v = take (8 - length (takeWhile (\<lambda>b. b = 0) (rev (le_bytes 8 v)))) (le_bytes 8 (v :: u64))" for v
  have e: "(of_nat (length (sq w)) :: u8) # sq w @ [OP_CSV, 0x20] @ pk @ [OP_CHECKSIG] =
      of_nat (length (sq w')) # sq w' @ [OP_CSV, 0x20] @ pk' @ [OP_CHECKSIG]"
    using assms(1) by (simp add: build_escrow_script_def sq_def Let_def)
  from arg_cong [OF this, of length] have "length (sq w) = length (sq w')" using assms(2) by simp
  with e have "sq w = sq w'" "pk = pk'" using assms(2) by simp_all
  then show ?thesis using trimmed_inj by (simp add: sq_def)
qed

section \<open>The claim\<close>

definition outpoint :: "EscrowEntry \<Rightarrow> bytes \<times> u32" where
  "outpoint e = (en_coinbase_txid e, en_output_index e)"

lemma inputs_meta_Some:
  "inputs_meta env es = Inr ms \<Longrightarrow> length ms = length es \<and>
     list_all2 (\<lambda>e (txid, i, a). x_hex_decode env (en_coinbase_txid e) = Some txid \<and> length txid = 32 \<and>
       i = en_output_index e \<and> a = en_amount_sompi e) es ms"
  by (induction es arbitrary: ms) (auto simp: map_sum_def split: option.splits if_splits sum.splits)

lemma inputs_meta_iff:
  "(\<exists>ms. inputs_meta env es = Inr ms) \<longleftrightarrow>
     list_all (\<lambda>e. \<exists>txid. x_hex_decode env (en_coinbase_txid e) = Some txid \<and> length txid = 32) es"
  by (induction es) (auto simp: map_sum_def split: option.splits if_splits sum.splits)

lemma unat_sum_list:
  "sum_list (map (\<lambda>x. unat (f x)) xs) < 2 ^ 64 \<Longrightarrow> unat (sum_list (map f xs) :: u64) = sum_list (map (\<lambda>x. unat (f x)) xs)"
proof (induction xs)
  case (Cons x xs)
  then have "unat (sum_list (map f xs)) = sum_list (map (\<lambda>x. unat (f x)) xs)" by simp
  with Cons.prems show ?case by (simp add: unat_word_ariths)
qed simp

lemma build_claim_tx_parts:
  assumes "build_claim_tx env payout entries = Inr (txid, tx)"
  obtains ms w where "entries \<noteq> []" "list_all (\<lambda>e. en_csv_window e = w) entries"
    "CLAIM_FEE_SOMPI < sum_list (map en_amount_sompi entries)" "inputs_meta env entries = Inr ms"
    "tx_inputs tx = map (claim_input env (build_escrow_script (x_pubkey env) w)
       (SighashReused_new env ms (sum_list (map en_amount_sompi entries) - CLAIM_FEE_SOMPI) (po_version payout) (po_script payout) w) w)
       (zip entries ms)"
    "tx_outputs tx = [\<lparr>out_amount = sum_list (map en_amount_sompi entries) - CLAIM_FEE_SOMPI, out_script_public_key = Some (payout_spk env payout)\<rparr>]"
    "txid = compute_claim_txid env ms (sum_list (map en_amount_sompi entries) - CLAIM_FEE_SOMPI) (po_version payout) (po_script payout) w"
proof -
  have ne: "entries \<noteq> []" using assms by (auto simp: build_claim_tx_def)
  have w: "\<not> list_ex (\<lambda>e. en_csv_window e \<noteq> en_csv_window (hd entries)) entries"
    using assms ne by (auto simp: build_claim_tx_def Let_def simp del: not_less)
  have fee: "CLAIM_FEE_SOMPI < sum_list (map en_amount_sompi entries)"
    using assms ne w by (simp add: build_claim_tx_def Let_def split: if_splits)
  obtain ms where ms: "inputs_meta env entries = Inr ms"
    using assms ne w fee by (cases "inputs_meta env entries") (simp_all add: build_claim_tx_def Let_def)
  have "list_all (\<lambda>e. en_csv_window e = en_csv_window (hd entries)) entries" using w by (auto simp: list_ex_iff list_all_iff)
  moreover have "(txid, tx) = (case build_claim_tx env payout entries of Inr r \<Rightarrow> r)" using assms by simp
  ultimately show ?thesis using ne w fee ms
    by (intro that [of "en_csv_window (hd entries)" ms]) (simp_all add: build_claim_tx_def Let_def)
qed

text \<open>The signature script that unlocks an escrow output: the signature of the sighash of that input.\<close>

definition signed_input :: "escrow_env \<Rightarrow> input_meta list \<Rightarrow> u64 \<Rightarrow> Payout \<Rightarrow> u64 \<Rightarrow> input_meta \<Rightarrow> bytes" where
  "signed_input env metas amount_out payout w m =
     x_hex_encode env ([0x41] @ x_sign env (compute_sighash env m (build_escrow_script (x_pubkey env) w)
       (SighashReused_new env metas amount_out (po_version payout) (po_script payout) w) w) @ [SIG_HASH_ALL])"

text \<open>C12: a claim spends exactly the outputs of its entries, with the window they share as sequence, each input signed over
  its own sighash (of its outpoint, its amount, the escrow script of the window, all inputs and the output), to one
  output of the payout script that holds their sum less the fee, and its id is that of these inputs and this
  output; and a claim is built exactly if there are entries, of one window, whose ids are 32 bytes of hex and
  whose sum exceeds the fee.\<close>

theorem claim_spends_its_entries:
  assumes "sum_list (map (\<lambda>e. unat (en_amount_sompi e)) entries) < 2 ^ 64"
  shows "case build_claim_tx env payout entries of
      Inr (txid, tx) \<Rightarrow>
        map (\<lambda>i. (in_transaction_id i, in_index i)) (tx_inputs tx) = map outpoint entries \<and>
        (\<exists>w v ms.
          map en_csv_window entries = map (\<lambda>_. w) entries \<and>
          map in_sequence (tx_inputs tx) = map (\<lambda>_. w) entries \<and> map in_sig_op_count (tx_inputs tx) = map (\<lambda>_. 1) entries \<and>
          list_all2 (\<lambda>e (id, index, amount). x_hex_decode env (en_coinbase_txid e) = Some id \<and> length id = 32 \<and>
            index = en_output_index e \<and> amount = en_amount_sompi e) entries ms \<and>
          map in_signature_script (tx_inputs tx) = map (signed_input env ms v payout w) ms \<and>
          txid = compute_claim_txid env ms v (po_version payout) (po_script payout) w \<and>
          tx_outputs tx = [\<lparr>out_amount = v, out_script_public_key = Some (payout_spk env payout)\<rparr>] \<and> 0 < unat v \<and>
          unat v + 30000000 = sum_list (map (\<lambda>e. unat (en_amount_sompi e)) entries))
    | Inl e \<Rightarrow>
        \<not> (entries \<noteq> [] \<and> (\<exists>w. list_all (\<lambda>e. en_csv_window e = w) entries) \<and>
           30000000 < sum_list (map (\<lambda>e. unat (en_amount_sompi e)) entries) \<and>
           list_all (\<lambda>e. \<exists>txid. x_hex_decode env (en_coinbase_txid e) = Some txid \<and> length txid = 32) entries)"
proof (cases "build_claim_tx env payout entries")
  case (Inl e)
  show ?thesis
  proof (rule ccontr)
    assume "\<not> ?thesis"
    then obtain w where ok: "entries \<noteq> []" "list_all (\<lambda>e. en_csv_window e = w) entries"
      "30000000 < sum_list (map (\<lambda>e. unat (en_amount_sompi e)) entries)"
      "list_all (\<lambda>e. \<exists>txid. x_hex_decode env (en_coinbase_txid e) = Some txid \<and> length txid = 32) entries"
      using Inl by auto
    obtain ms where "inputs_meta env entries = Inr ms" using ok(4) inputs_meta_iff by blast
    moreover have "en_csv_window (hd entries) = w" "\<not> list_ex (\<lambda>e. en_csv_window e \<noteq> w) entries"
      using ok(1,2) by (auto simp: list_all_iff list_ex_iff)
    moreover have "CLAIM_FEE_SOMPI < sum_list (map en_amount_sompi entries)"
      using ok(3) unat_sum_list [OF assms] by (simp add: word_less_nat_alt CLAIM_FEE_SOMPI_def)
    ultimately show False using Inl ok(1) by (simp add: build_claim_tx_def Let_def)
  qed
next
  case (Inr r)
  obtain txid tx where r: "r = (txid, tx)" by (cases r)
  let ?s = "sum_list (map en_amount_sompi entries)"
  from Inr obtain ms w where b: "list_all (\<lambda>e. en_csv_window e = w) entries"
    "CLAIM_FEE_SOMPI < ?s" "inputs_meta env entries = Inr ms"
    "tx_inputs tx = map (claim_input env (build_escrow_script (x_pubkey env) w)
       (SighashReused_new env ms (?s - CLAIM_FEE_SOMPI) (po_version payout) (po_script payout) w) w) (zip entries ms)"
    "tx_outputs tx = [\<lparr>out_amount = ?s - CLAIM_FEE_SOMPI, out_script_public_key = Some (payout_spk env payout)\<rparr>]"
    "txid = compute_claim_txid env ms (?s - CLAIM_FEE_SOMPI) (po_version payout) (po_script payout) w"
    unfolding r by (rule build_claim_tx_parts)
  note m = inputs_meta_Some [OF b(3)]
  have v: "unat (?s - CLAIM_FEE_SOMPI) + 30000000 = unat ?s" "0 < unat (?s - CLAIM_FEE_SOMPI)"
    using b(2) unat_sub [of CLAIM_FEE_SOMPI ?s] by (simp_all add: word_less_nat_alt word_le_nat_alt CLAIM_FEE_SOMPI_def)
  have w: "map en_csv_window entries = map (\<lambda>_. w) entries" using b(1) by (auto simp: list_all_iff)
  have fst: "map (\<lambda>x. f (fst x)) (zip entries ms) = map f entries" for f :: "EscrowEntry \<Rightarrow> 'x"
    unfolding map_map [of f fst, unfolded comp_def, symmetric] using m by (simp add: map_fst_zip)
  have snd: "map (\<lambda>x. f (snd x)) (zip entries ms) = map f ms" for f :: "input_meta \<Rightarrow> 'x"
    unfolding map_map [of f snd, unfolded comp_def, symmetric] using m by (simp add: map_snd_zip)
  have i: "map (\<lambda>i. (in_transaction_id i, in_index i)) (tx_inputs tx) = map outpoint entries"
    "map in_sequence (tx_inputs tx) = map (\<lambda>_. w) entries" "map in_sig_op_count (tx_inputs tx) = map (\<lambda>_. 1) entries"
    using fst [of outpoint] fst [of "\<lambda>_. w"] fst [of "\<lambda>_. 1 :: u32"] by (simp_all add: b(4) claim_input_def outpoint_def comp_def split_def)
  have "map in_signature_script (tx_inputs tx) = map (signed_input env ms (?s - CLAIM_FEE_SOMPI) payout w) ms"
    using snd [of "signed_input env ms (?s - CLAIM_FEE_SOMPI) payout w"]
    by (simp add: b(4) claim_input_def signed_input_def comp_def split_def)
  then show ?thesis
    unfolding Inr r sum.case prod.case unat_sum_list [OF assms, symmetric] using i w b(5,6) v conjunct2 [OF m] by blast
qed

text \<open>Two entries of one window, a claim of them, and their sum less the fee.\<close>

definition hex_env :: escrow_env where
  "hex_env = \<lparr>x_testnet = True, x_hex_encode = id, x_hex_decode = Some, x_blake2b = (\<lambda>k s. le_bytes 32 (of_nat (length s) :: u64)),
     x_pubkey = replicate 32 7, x_sign = (\<lambda>h. h @ h), x_verify = (\<lambda>s h k. s = h @ h), x_valid_key = (\<lambda>k. True), x_valid_sig = (\<lambda>k. True)\<rparr>"

definition coin :: "u8 \<Rightarrow> EscrowEntry" where
  "coin b = \<lparr>en_coinbase_txid = replicate 32 b, en_block_hash = [b], en_confirm_daa = 0, en_amount_sompi = 20000000, en_output_index = 1,
     en_claimed = False, en_slashed = False, en_orphan_slashed = False, en_orphan_retries = 0, en_orphan_retry_after_daa = None,
     en_submit_retries = 0, en_batch_cap = 0, en_cap_set_daa = 0, en_is_inference = False, en_csv_window = 792000\<rparr>"

theorem claim_spends_its_entries_witness:
  "\<exists>txid tx ms v. build_claim_tx hex_env \<lparr>po_version = 0, po_script = []\<rparr> [coin 1, coin 2] = Inr (txid, tx) \<and>
     map (\<lambda>i. (in_transaction_id i, in_index i)) (tx_inputs tx) = [(replicate 32 1, 1), (replicate 32 2, 1)] \<and>
     map (\<lambda>out. unat (out_amount out)) (tx_outputs tx) = [10000000] \<and>
     map in_signature_script (tx_inputs tx) = map (signed_input hex_env ms v \<lparr>po_version = 0, po_script = []\<rparr> 792000) ms"
proof -
  have "sum_list (map (\<lambda>e. unat (en_amount_sompi e)) [coin 1, coin 2]) < 2 ^ 64" by (simp add: coin_def)
  note c = claim_spends_its_entries [OF this, of hex_env "\<lparr>po_version = 0, po_script = []\<rparr>"]
  show ?thesis
  proof (cases "build_claim_tx hex_env \<lparr>po_version = 0, po_script = []\<rparr> [coin 1, coin 2]")
    case (Inl e)
    then show ?thesis using c by (simp add: coin_def hex_env_def)
  next
    case (Inr r)
    obtain txid tx where r: "r = (txid, tx)" by (cases r)
    then show ?thesis using c unfolding Inr by (auto simp: coin_def outpoint_def)
  qed
qed

end
