(* ===== verification/Escrow_Batch.thy ===== *)
theory Escrow_Batch
  imports Escrow_Tx "HOL-Library.Product_Lexorder" "HOL-Library.Sublist" "HOL-Library.Multiset"
begin

text \<open>
  The choice of the next batch of escrow outputs to claim: \<open>select_claim_batch\<close> of \<open>src/src/escrow.rs\<close>, and what holds
  of the batches it ships and of the outputs it holds back.
\<close>

section \<open>Keys of outputs\<close>

fun decimal :: "nat \<Rightarrow> bytes" where
  "decimal n = (if n < 10 then [0x30 + of_nat n] else decimal (n div 10) @ [0x30 + of_nat (n mod 10)])"

declare decimal.simps [simp del]

text \<open>\<open>format!("{}:{}", txid, index)\<close>\<close>

definition outpoint_key :: "bytes \<times> u32 \<Rightarrow> bytes" where
  "outpoint_key p = fst p @ [0x3a] @ decimal (unat (snd p))"

definition entry_key :: "EscrowEntry \<Rightarrow> bytes" where
  "entry_key e = outpoint_key (outpoint e)"

section \<open>The selection\<close>

definition MAX_CLAIM_BATCH :: nat where "MAX_CLAIM_BATCH = 87"
definition MIN_CLAIM_BATCH :: nat where "MIN_CLAIM_BATCH = MAX_CLAIM_BATCH"

text \<open>Sums of scores wrap as \<open>u64\<close>.\<close>

definition mature :: "u64 \<Rightarrow> EscrowEntry \<Rightarrow> bool" where
  "mature daa_score e \<longleftrightarrow> daa_score \<ge> en_confirm_daa e + en_csv_window e + 10"

definition eligible :: "u64 \<Rightarrow> bytes set \<Rightarrow> EscrowEntry \<Rightarrow> bool" where
  "eligible daa_score in_flight_outpoints e \<longleftrightarrow>
     \<not> en_claimed e \<and> \<not> en_slashed e \<and> mature daa_score e \<and>
     (case en_orphan_retry_after_daa e of None \<Rightarrow> True | Some retry_daa \<Rightarrow> daa_score \<ge> retry_daa) \<and>
     entry_key e \<notin> in_flight_outpoints"

definition in_pass :: "nat \<Rightarrow> u64 \<Rightarrow> EscrowEntry \<Rightarrow> bool" where
  "in_pass pass current_window e =
     (let proven_dead = en_orphan_slashed e
      in if pass = 0 then en_batch_cap e = 0 \<and> \<not> proven_dead
         else if pass = 1 then en_batch_cap e \<noteq> 0 \<and> \<not> proven_dead
         else if pass = 2 then en_batch_cap e = 0 \<and> \<not> proven_dead \<and> en_csv_window e \<noteq> current_window
         else proven_dead)"

definition cap_of :: "EscrowEntry \<Rightarrow> nat" where
  "cap_of e = (if en_batch_cap e = 0 then MAX_CLAIM_BATCH else min (unat (en_batch_cap e)) MAX_CLAIM_BATCH)"

text \<open>The loop over the indices of a candidate: \<open>ok\<close> is the test of the pass and of eligibility.\<close>

fun fill_batch :: "EscrowEntry list \<Rightarrow> (EscrowEntry \<Rightarrow> bool) \<Rightarrow> nat list \<Rightarrow> nat \<Rightarrow> u64 option \<Rightarrow> nat list \<Rightarrow> nat list" where
  "fill_batch entries ok [] limit batch_window batch = batch"
| "fill_batch entries ok (i # indices) limit batch_window batch =
     (let e = entries ! i
      in if \<not> ok e then fill_batch entries ok indices limit batch_window batch
         else if (case batch_window of None \<Rightarrow> False | Some w \<Rightarrow> w \<noteq> en_csv_window e)
         then fill_batch entries ok indices limit batch_window batch
         else if min (cap_of e) limit < length batch + 1 then fill_batch entries ok indices limit batch_window batch
         else
           let limit = min limit (cap_of e);
               batch = batch @ [i]
           in if length batch \<ge> limit then batch
              else fill_batch entries ok indices limit (Some (en_csv_window e)) batch)"

definition pass_indices :: "EscrowEntry list \<Rightarrow> nat \<Rightarrow> nat list" where
  "pass_indices entries pass =
     (let indices = [0..<length entries]
      in if pass = 0 then sort_key (\<lambda>i. \<not> en_is_inference (entries ! i)) indices else indices)"

definition candidate_batch :: "EscrowEntry list \<Rightarrow> u64 \<Rightarrow> bytes set \<Rightarrow> u64 \<Rightarrow> nat \<times> u64 option \<Rightarrow> nat list" where
  "candidate_batch entries daa_score in_flight_outpoints current_window c =
     (case c of (pass, forced_window) \<Rightarrow>
        fill_batch entries (\<lambda>e. in_pass pass current_window e \<and> eligible daa_score in_flight_outpoints e)
          (pass_indices entries pass) MAX_CLAIM_BATCH forced_window [])"

definition releasable :: "nat \<Rightarrow> nat list \<Rightarrow> bool" where
  "releasable pass batch \<longleftrightarrow> (if pass = 0 then length batch \<ge> MIN_CLAIM_BATCH else batch \<noteq> [])"

fun first_releasable :: "(nat \<times> u64 option \<Rightarrow> nat list) \<Rightarrow> (nat \<times> u64 option) list \<Rightarrow> nat list" where
  "first_releasable batch_of [] = []"
| "first_releasable batch_of (c # cs) =
     (let batch = batch_of c in if releasable (fst c) batch then batch else first_releasable batch_of cs)"

definition claim_candidates :: "EscrowEntry list \<Rightarrow> u64 \<Rightarrow> (nat \<times> u64 option) list" where
  "claim_candidates entries current_window =
     (let windows = remdups_adj (sort_key (\<lambda>w. (w \<noteq> current_window, w)) (map en_csv_window entries))
      in map (\<lambda>w. (0, Some w)) windows @ [(1, None), (2, None), (3, None)])"

definition select_claim_batch :: "bool \<Rightarrow> EscrowEntry list \<Rightarrow> u64 \<Rightarrow> bytes set \<Rightarrow> nat list" where
  "select_claim_batch testnet entries daa_score in_flight_outpoints =
     (let current_window = csv_window_for_daa testnet daa_score
      in first_releasable (candidate_batch entries daa_score in_flight_outpoints current_window)
           (claim_candidates entries current_window))"

section \<open>Keys determine outputs\<close>

lemma decimal_no_colon: "0x3a \<notin> set (decimal n)"
proof (induction n rule: decimal.induct)
  case (1 n)
  have "(0x30 + of_nat k :: u8) \<noteq> 0x3a" if "k < 10" for k :: nat
  proof
    assume "(0x30 + of_nat k :: u8) = 0x3a"
    then have "unat (0x30 + of_nat k :: u8) = 58" by simp
    with that show False by (simp add: unat_word_ariths unat_of_nat)
  qed
  then show ?case using 1 by (subst decimal.simps) auto
qed

lemma decimal_value: "foldl (\<lambda>v b. 10 * v + (unat b - 48)) 0 (decimal n) = n"
proof (induction n rule: decimal.induct)
  case (1 n)
  have d: "unat (0x30 + of_nat k :: u8) - 48 = k" if "k < 10" for k :: nat
    using that by (simp add: unat_word_ariths unat_of_nat)
  show ?case
  proof (cases "n < 10")
    case True
    then show ?thesis by (subst decimal.simps) (simp add: d)
  next
    case False
    then show ?thesis using 1 by (subst decimal.simps) (simp add: d)
  qed
qed

lemma decimal_inj: "decimal m = decimal n \<Longrightarrow> m = n"
  by (metis decimal_value)

lemma outpoint_key_inj: "outpoint_key p = outpoint_key q \<longleftrightarrow> p = q"
proof
  assume "outpoint_key p = outpoint_key q"
  then have e: "rev (decimal (unat (snd p))) @ 0x3a # rev (fst p) = rev (decimal (unat (snd q))) @ 0x3a # rev (fst q)"
    unfolding outpoint_key_def by (metis append.assoc append_Cons append_Nil rev.simps(2) rev_append rev_is_rev_conv)
  have t: "takeWhile (\<lambda>b. b \<noteq> 0x3a) (rev (decimal n) @ 0x3a # x) = rev (decimal n)" for n x
    using decimal_no_colon [of n] by (subst takeWhile_append2) auto
  have d: "decimal (unat (snd p)) = decimal (unat (snd q))"
    using arg_cong [OF e, of "takeWhile (\<lambda>b. b \<noteq> 0x3a)"] unfolding t by simp
  then have "unat (snd p) = unat (snd q)" by (rule decimal_inj)
  moreover have "fst p = fst q" using e unfolding d by simp
  ultimately show "p = q" by (simp add: prod_eq_iff word_unat_eq_iff)
qed simp

section \<open>What a batch is\<close>

text \<open>The indices taken from a list keep its order and pass the test; they are of one window, and their number is
  within every cap.\<close>

definition capped :: "EscrowEntry list \<Rightarrow> nat list \<Rightarrow> bool" where
  "capped entries batch \<longleftrightarrow> length batch \<le> MAX_CLAIM_BATCH \<and> list_all (\<lambda>i. length batch \<le> cap_of (entries ! i)) batch"

definition one_window :: "EscrowEntry list \<Rightarrow> u64 option \<Rightarrow> nat list \<Rightarrow> bool" where
  "one_window entries w batch \<longleftrightarrow>
     (case w of Some w \<Rightarrow> list_all (\<lambda>i. en_csv_window (entries ! i) = w) batch | None \<Rightarrow> batch = [])"

lemma fill_batch_correct:
  assumes "list_all (\<lambda>i. limit \<le> cap_of (entries ! i)) batch" "limit \<le> MAX_CLAIM_BATCH" "length batch < limit \<or> batch = []"
    and "one_window entries w batch \<or> w \<noteq> None \<and> batch = []" and "list_all (\<lambda>i. ok (entries ! i)) batch"
  shows "\<exists>taken w'. fill_batch entries ok indices limit w batch = batch @ taken \<and> subseq taken indices \<and>
    list_all (\<lambda>i. ok (entries ! i)) (batch @ taken) \<and> capped entries (batch @ taken) \<and>
    (w \<noteq> None \<longrightarrow> w' = w) \<and> one_window entries w' (batch @ taken)"
  using assms
proof (induction indices arbitrary: limit w batch)
  case Nil
  then have "capped entries batch" by (auto simp: capped_def list_all_iff)
  moreover have "one_window entries w batch" using Nil.prems(4) by (auto simp: one_window_def split: option.splits)
  ultimately show ?case using Nil.prems(5) by (intro exI [of _ "[]"] exI [of _ w]) simp
next
  case (Cons i indices)
  let ?e = "entries ! i"
  let ?skip = "\<not> ok ?e \<or> (case w of None \<Rightarrow> False | Some w \<Rightarrow> w \<noteq> en_csv_window ?e) \<or> min (cap_of ?e) limit < length batch + 1"
  show ?case
  proof (cases ?skip)
    case True
    then have "fill_batch entries ok (i # indices) limit w batch = fill_batch entries ok indices limit w batch"
      by (auto simp: Let_def split: option.splits)
    with Cons.IH [OF Cons.prems] show ?thesis by (auto intro: list_emb_Cons)
  next
    case False
    let ?l = "min limit (cap_of ?e)"
    let ?b = "batch @ [i]"
    have w: "one_window entries (Some (en_csv_window ?e)) ?b"
      using False Cons.prems(4) by (auto simp: one_window_def split: option.splits)
    have ww: "w \<noteq> None \<longrightarrow> w = Some (en_csv_window ?e)" using False by (auto split: option.splits)
    have c: "list_all (\<lambda>i. ?l \<le> cap_of (entries ! i)) ?b" using Cons.prems(1) by (auto simp: list_all_iff)
    have o: "list_all (\<lambda>i. ok (entries ! i)) ?b" using False Cons.prems(5) by simp
    have step: "fill_batch entries ok (i # indices) limit w batch =
        (if ?l \<le> length ?b then ?b else fill_batch entries ok indices ?l (Some (en_csv_window ?e)) ?b)"
      using False by (auto simp: Let_def split: option.splits)
    show ?thesis
    proof (cases "?l \<le> length ?b")
      case True
      have "\<not> min (cap_of ?e) limit < length batch + 1" using False by blast
      then have "length ?b \<le> ?l" by (simp add: not_less)
      with c Cons.prems(2) have "capped entries ?b" by (auto simp: capped_def list_all_iff)
      with step True w ww o show ?thesis by (intro exI [of _ "[i]"] exI [of _ "Some (en_csv_window ?e)"]) simp
    next
      case l: False
      have "?l \<le> MAX_CLAIM_BATCH" using Cons.prems(2) by simp
      moreover have "length ?b < ?l \<or> ?b = []" using l by (simp only: not_le simp_thms)
      moreover have "one_window entries (Some (en_csv_window ?e)) ?b \<or> Some (en_csv_window ?e) \<noteq> None \<and> ?b = []" using w by blast
      ultimately obtain taken w' where
        "fill_batch entries ok indices ?l (Some (en_csv_window ?e)) ?b = ?b @ taken" "subseq taken indices"
        "list_all (\<lambda>i. ok (entries ! i)) (?b @ taken)" "capped entries (?b @ taken)" "w' = Some (en_csv_window ?e)"
        "one_window entries w' (?b @ taken)" using Cons.IH [OF c _ _ _ o] by blast
      with step l ww show ?thesis by (intro exI [of _ "i # taken"] exI [of _ w']) simp
    qed
  qed
qed

lemma first_releasable_Some:
  assumes "first_releasable f cs \<noteq> []"
  shows "\<exists>c \<in> set cs. first_releasable f cs = f c \<and> releasable (fst c) (f c)"
  using assms by (induction cs) (auto simp: Let_def split: if_splits)

lemma first_releasable_empty:
  "first_releasable f cs = [] \<longleftrightarrow> list_all (\<lambda>c. \<not> releasable (fst c) (f c)) cs"
proof -
  have "releasable p b \<Longrightarrow> b \<noteq> []" for p b by (auto simp: releasable_def MIN_CLAIM_BATCH_def MAX_CLAIM_BATCH_def split: if_splits)
  then show ?thesis by (induction cs) (auto simp: Let_def)
qed

lemma set_windows [simp]: "set (remdups_adj (sort_key f xs)) = set xs"
  by simp

lemma pass_indices_set: "set (pass_indices entries pass) = {..<length entries}" "distinct (pass_indices entries pass)"
  by (auto simp: pass_indices_def Let_def)

lemma claim_batch_facts:
  fixes testnet entries daa in_flight
  defines "b \<equiv> select_claim_batch testnet entries daa in_flight"
  shows "distinct b \<and> length b \<le> 87 \<and>
    list_all (\<lambda>i. i < length entries \<and> eligible daa in_flight (entries ! i) \<and> length b \<le> cap_of (entries ! i)) b \<and>
    (\<exists>w. list_all (\<lambda>i. en_csv_window (entries ! i) = w) b) \<and>
    (list_all (\<lambda>i. en_orphan_slashed (entries ! i)) b \<or>
     list_all (\<lambda>i. \<not> en_orphan_slashed (entries ! i) \<and> en_batch_cap (entries ! i) \<noteq> 0) b \<or>
     list_all (\<lambda>i. \<not> en_orphan_slashed (entries ! i) \<and> en_batch_cap (entries ! i) = 0) b \<and>
       (length b = 87 \<or> list_all (\<lambda>i. en_csv_window (entries ! i) \<noteq> csv_window_for_daa testnet daa) b))"
proof (cases "b = []")
  case False
  let ?cw = "csv_window_for_daa testnet daa"
  obtain pass fw where c: "b = candidate_batch entries daa in_flight ?cw (pass, fw)" "releasable pass b"
    "(pass, fw) \<in> set (claim_candidates entries ?cw)"
    using first_releasable_Some False unfolding b_def select_claim_batch_def Let_def by (metis prod.collapse)
  let ?ok = "\<lambda>e. in_pass pass ?cw e \<and> eligible daa in_flight e"
  have f: "one_window entries fw ([] :: nat list) \<or> fw \<noteq> None \<and> ([] :: nat list) = []" by (auto simp: one_window_def split: option.splits)
  obtain w where t: "subseq b (pass_indices entries pass)" "list_all (\<lambda>i. ?ok (entries ! i)) b" "capped entries b" "one_window entries w b"
    using fill_batch_correct [of MAX_CLAIM_BATCH entries "[]" fw ?ok "pass_indices entries pass"] f
    by (auto simp: c(1) candidate_batch_def)
  have s: "distinct b" "set b \<subseteq> {..<length entries}"
    using t(1) pass_indices_set [of entries pass] by (auto simp: subseq_conv_nths intro: distinct_nthsI dest: in_set_nthsD)
  have "\<exists>w. list_all (\<lambda>i. en_csv_window (entries ! i) = w) b"
    using t(4) False by (auto simp: one_window_def split: option.splits)
  moreover have "list_all (\<lambda>i. i < length entries \<and> eligible daa in_flight (entries ! i) \<and> length b \<le> cap_of (entries ! i)) b"
    using t(2,3) s(2) by (auto simp: list_all_iff capped_def)
  moreover have "length b \<le> 87" using t(3) by (simp add: capped_def MAX_CLAIM_BATCH_def)
  moreover have "pass \<in> {0, 1, 2, 3}" using c(3) by (auto simp: claim_candidates_def Let_def)
  then have "list_all (\<lambda>i. en_orphan_slashed (entries ! i)) b \<or>
     list_all (\<lambda>i. \<not> en_orphan_slashed (entries ! i) \<and> en_batch_cap (entries ! i) \<noteq> 0) b \<or>
     list_all (\<lambda>i. \<not> en_orphan_slashed (entries ! i) \<and> en_batch_cap (entries ! i) = 0) b \<and>
       (length b = 87 \<or> list_all (\<lambda>i. en_csv_window (entries ! i) \<noteq> ?cw) b)"
    using t(2) c(2) \<open>length b \<le> 87\<close>
    by (auto simp: in_pass_def Let_def list_all_iff releasable_def MIN_CLAIM_BATCH_def MAX_CLAIM_BATCH_def)
  ultimately show ?thesis using s(1) by blast
qed simp

text \<open>C13: a batch to claim has at most 87 outputs of one window, each live, mature, out of its cooldown and not in a
  claim under way; it respects the cap of every output in it, keeps proven-dead, capped and uncapped outputs
  apart, and one of uncapped live outputs of the current window is full.\<close>

theorem claim_batch_safe:
  "let b = select_claim_batch testnet entries daa in_flight in distinct b \<and> length b \<le> 87 \<and>
    list_all (\<lambda>i. i < length entries \<and> (let e = entries ! i in \<not> en_claimed e \<and> \<not> en_slashed e \<and>
       en_confirm_daa e + en_csv_window e + 10 \<le> daa \<and> (case en_orphan_retry_after_daa e of None \<Rightarrow> True | Some t \<Rightarrow> t \<le> daa) \<and>
       outpoint_key (en_coinbase_txid e, en_output_index e) \<notin> in_flight \<and> length b \<le> cap_of e)) b \<and>
    (\<exists>w. list_all (\<lambda>i. en_csv_window (entries ! i) = w) b) \<and>
    (list_all (\<lambda>i. en_orphan_slashed (entries ! i)) b \<or>
     list_all (\<lambda>i. \<not> en_orphan_slashed (entries ! i) \<and> en_batch_cap (entries ! i) \<noteq> 0) b \<or>
     list_all (\<lambda>i. \<not> en_orphan_slashed (entries ! i) \<and> en_batch_cap (entries ! i) = 0) b \<and>
       (length b = 87 \<or> list_all (\<lambda>i. en_csv_window (entries ! i) \<noteq> csv_window_for_daa testnet daa) b))"
  unfolding Let_def using claim_batch_facts [of testnet entries daa in_flight]
  by (simp only: eligible_def mature_def entry_key_def outpoint_def conj_assoc)

section \<open>What is held back\<close>

lemma fill_prefix: "\<exists>taken. fill_batch entries ok indices limit w batch = batch @ taken"
proof (induction indices arbitrary: limit w batch)
  case (Cons i indices)
  have "fill_batch entries ok (i # indices) limit w batch \<in>
    {fill_batch entries ok indices limit w batch, batch @ [i],
     fill_batch entries ok indices (min limit (cap_of (entries ! i))) (Some (en_csv_window (entries ! i))) (batch @ [i])}"
    by (simp add: Let_def)
  then show ?case using Cons.IH by (metis append.assoc insertE singletonD)
qed simp

lemma cap_of_pos: "1 \<le> cap_of e"
  by (simp add: cap_of_def MAX_CLAIM_BATCH_def unat_gt_0 Suc_le_eq)

lemma fill_empty:
  assumes "1 \<le> limit"
  shows "fill_batch entries ok indices limit None [] = [] \<longleftrightarrow> list_all (\<lambda>i. \<not> ok (entries ! i)) indices"
proof (induction indices)
  case (Cons i indices)
  show ?case
  proof (cases "ok (entries ! i)")
    case True
    then have "\<not> min (cap_of (entries ! i)) limit < 1" using assms cap_of_pos [of "entries ! i"] by simp
    moreover have "fill_batch entries ok indices (min limit (cap_of (entries ! i))) (Some (en_csv_window (entries ! i))) [i] \<noteq> []"
      using fill_prefix [of entries ok indices _ _ "[i]"] by (metis append_Cons list.distinct(1))
    ultimately show ?thesis using True by (auto simp: Let_def min_def)
  qed (simp add: Cons.IH)
qed simp

lemma fill_uncapped:
  assumes "\<And>i. i \<in> set indices \<Longrightarrow> ok (entries ! i) \<Longrightarrow> cap_of (entries ! i) = limit" and "length batch < limit"
  shows "fill_batch entries ok indices limit (Some w) batch =
    batch @ take (limit - length batch) (filter (\<lambda>i. ok (entries ! i) \<and> en_csv_window (entries ! i) = w) indices)"
  using assms
proof (induction indices arbitrary: batch)
  case (Cons i indices)
  let ?e = "entries ! i"
  show ?case
  proof (cases "ok ?e \<and> en_csv_window ?e = w")
    case True
    then have c: "cap_of ?e = limit" using Cons.prems(1) by simp
    have "fill_batch entries ok (i # indices) limit (Some w) batch =
        (if limit \<le> length batch + 1 then batch @ [i] else fill_batch entries ok indices limit (Some w) (batch @ [i]))"
      using True c Cons.prems(2) by (simp add: Let_def)
    moreover have "limit - length batch = Suc (limit - Suc (length batch))" using Cons.prems(2) by simp
    ultimately show ?thesis
      using True Cons.IH [of "batch @ [i]"] Cons.prems by (cases "limit \<le> length batch + 1") simp_all
  next
    case False
    then have "fill_batch entries ok (i # indices) limit (Some w) batch = fill_batch entries ok indices limit (Some w) batch"
      by (auto simp: Let_def)
    with False Cons.IH Cons.prems show ?thesis by auto
  qed
qed simp

lemma pass_indices_filter: "length (filter P (pass_indices entries pass)) = length (filter P [0..<length entries])"
proof -
  have "mset (pass_indices entries pass) = mset [0..<length entries]" by (simp add: pass_indices_def Let_def)
  then show ?thesis by (metis mset_filter size_mset)
qed

lemma nominal_releasable:
  "releasable 0 (candidate_batch entries daa in_flight cw (0, Some w)) \<longleftrightarrow>
     87 \<le> length (filter (\<lambda>i. in_pass 0 cw (entries ! i) \<and> eligible daa in_flight (entries ! i) \<and> en_csv_window (entries ! i) = w)
       [0..<length entries])"
proof -
  have "candidate_batch entries daa in_flight cw (0, Some w) = take MAX_CLAIM_BATCH (filter (\<lambda>i. (in_pass 0 cw (entries ! i) \<and>
      eligible daa in_flight (entries ! i)) \<and> en_csv_window (entries ! i) = w) (pass_indices entries 0))"
    unfolding candidate_batch_def prod.case
    by (subst fill_uncapped) (auto simp: in_pass_def cap_of_def MAX_CLAIM_BATCH_def)
  then show ?thesis
    by (simp add: releasable_def MIN_CLAIM_BATCH_def MAX_CLAIM_BATCH_def pass_indices_filter conj_assoc)
qed

lemma other_releasable:
  "pass \<noteq> 0 \<Longrightarrow> releasable pass (candidate_batch entries daa in_flight cw (pass, None)) \<longleftrightarrow>
     (\<exists>e \<in> set entries. in_pass pass cw e \<and> eligible daa in_flight e)"
proof -
  assume "pass \<noteq> 0"
  then have "releasable pass (candidate_batch entries daa in_flight cw (pass, None)) \<longleftrightarrow>
      (\<exists>i < length entries. in_pass pass cw (entries ! i) \<and> eligible daa in_flight (entries ! i))"
    using fill_empty [of MAX_CLAIM_BATCH entries] pass_indices_set [of entries pass]
    by (auto simp: releasable_def candidate_batch_def MAX_CLAIM_BATCH_def list_all_iff)
  then show ?thesis by (metis in_set_conv_nth)
qed

text \<open>C27: nothing is claimed exactly if every claimable output is an uncapped live one of the current window and there
  are fewer than 87 of them, the size of a batch that amortizes the fee.\<close>

theorem claim_held_back:
  "select_claim_batch testnet entries daa in_flight = [] \<longleftrightarrow>
     list_all (\<lambda>e. \<not> en_orphan_slashed e \<and> en_batch_cap e = 0 \<and> en_csv_window e = csv_window_for_daa testnet daa)
       (filter (eligible daa in_flight) entries) \<and>
     length (filter (eligible daa in_flight) entries) < 87"
proof -
  let ?cw = "csv_window_for_daa testnet daa"
  let ?rel = "\<lambda>c. releasable (fst c) (candidate_batch entries daa in_flight ?cw c)"
  let ?n = "\<lambda>w. length (filter (\<lambda>i. in_pass 0 ?cw (entries ! i) \<and> eligible daa in_flight (entries ! i) \<and> en_csv_window (entries ! i) = w)
      [0..<length entries])"
  have entries: "filter P entries = map ((!) entries) (filter (\<lambda>i. P (entries ! i)) [0..<length entries])" for P
    using filter_map [of P "(!) entries" "[0..<length entries]"] by (simp add: map_nth comp_def)
  have "select_claim_batch testnet entries daa in_flight = [] \<longleftrightarrow> list_all (\<lambda>c. \<not> ?rel c) (claim_candidates entries ?cw)"
    by (simp add: select_claim_batch_def first_releasable_empty Let_def)
  also have "\<dots> \<longleftrightarrow> list_all (\<lambda>e. \<not> 87 \<le> ?n (en_csv_window e)) entries \<and>
      (\<forall>pass \<in> {1, 2, 3}. \<not> (\<exists>e \<in> set entries. in_pass pass ?cw e \<and> eligible daa in_flight e))"
    by (auto simp: claim_candidates_def Let_def list_all_iff nominal_releasable other_releasable)
  also have "(\<forall>pass \<in> {1, 2, 3}. \<not> (\<exists>e \<in> set entries. in_pass pass ?cw e \<and> eligible daa in_flight e)) \<longleftrightarrow>
      (\<forall>e \<in> set entries. eligible daa in_flight e \<longrightarrow> \<not> en_orphan_slashed e \<and> en_batch_cap e = 0 \<and> en_csv_window e = ?cw)"
    by (auto simp: in_pass_def)
  also have "list_all (\<lambda>e. \<not> 87 \<le> ?n (en_csv_window e)) entries \<and>
      (\<forall>e \<in> set entries. eligible daa in_flight e \<longrightarrow> \<not> en_orphan_slashed e \<and> en_batch_cap e = 0 \<and> en_csv_window e = ?cw) \<longleftrightarrow>
    list_all (\<lambda>e. \<not> en_orphan_slashed e \<and> en_batch_cap e = 0 \<and> en_csv_window e = ?cw) (filter (eligible daa in_flight) entries) \<and>
    length (filter (eligible daa in_flight) entries) < 87"
  proof -
    have "?n w = (if w = ?cw then length (filter (eligible daa in_flight) entries) else 0)"
      if "\<forall>e \<in> set entries. eligible daa in_flight e \<longrightarrow> \<not> en_orphan_slashed e \<and> en_batch_cap e = 0 \<and> en_csv_window e = ?cw" for w
    proof -
      have "filter (\<lambda>i. in_pass 0 ?cw (entries ! i) \<and> eligible daa in_flight (entries ! i) \<and> en_csv_window (entries ! i) = w) [0..<length entries] =
          (if w = ?cw then filter (\<lambda>i. eligible daa in_flight (entries ! i)) [0..<length entries] else [])"
        using that by (auto simp: in_pass_def intro!: filter_cong filter_False)
      then show ?thesis by (simp add: entries)
    qed
    moreover have "length (filter (eligible daa in_flight) entries) = 0 \<or> (\<exists>e \<in> set entries. eligible daa in_flight e)"
      by (auto simp: filter_empty_conv)
    ultimately show ?thesis by (auto simp: list_all_iff split: if_splits)
  qed
  finally show ?thesis .
qed

end
