(* ===== verification/Escrow_Watch.thy ===== *)
theory Escrow_Watch
  imports Escrow_Batch Block_Task Models
begin

text \<open>
  The escrow watcher of \<open>src/src/escrow.rs\<close>: the outputs it tracks, its claims under way, its answers to blocks and to
  the node, and the snapshot and journal it keeps on disk.

  Hash maps and sets are maps and sets, and the order in which they are walked is the parameter \<open>w_order\<close>; serde's
  JSON is a parameter too. A clock reading and the outcome of the writes are the context of an
  operation; times are in milliseconds. Sizes, indices and the sequence of the journal are numbers, scores and amounts
  are \<open>u64\<close> that wrap. Messages of the node are ASCII. What only counts for the log is left out. A panic is
  \<open>None\<close>.
\<close>

section \<open>Constants\<close>

definition COMPACT_EVERY_BLOCKS :: nat where "COMPACT_EVERY_BLOCKS = 2000"
definition STATE_SAVE_INTERVAL :: nat where "STATE_SAVE_INTERVAL = 2000"
definition SNAPSHOT_INTERVAL :: nat where "SNAPSHOT_INTERVAL = 600000"
definition JOURNAL_SNAPSHOT_BYTES :: nat where "JOURNAL_SNAPSHOT_BYTES = 32 * 1024 * 1024"
definition CAP_EXPIRY_DAA :: u64 where "CAP_EXPIRY_DAA = 36000"
definition MAX_IN_FLIGHT_CLAIMS :: nat where "MAX_IN_FLIGHT_CLAIMS = 4"
definition CLAIM_RESPONSE_TIMEOUT_DAA :: u64 where "CLAIM_RESPONSE_TIMEOUT_DAA = 600"
definition UNKNOWN_RETRY_BASE_COOLDOWN_DAA :: u64 where "UNKNOWN_RETRY_BASE_COOLDOWN_DAA = 100"
definition UNKNOWN_RETRY_MAX_COOLDOWN_DAA :: u64 where "UNKNOWN_RETRY_MAX_COOLDOWN_DAA = 50000"
definition ORPHAN_RETRY_COOLDOWN_BLOCKS :: u64 where "ORPHAN_RETRY_COOLDOWN_BLOCKS = 100"
definition SEQ_LOCK_RETRY_COOLDOWN_BLOCKS :: u64 where "SEQ_LOCK_RETRY_COOLDOWN_BLOCKS = 20"
definition MAX_ORPHAN_RETRIES :: u8 where "MAX_ORPHAN_RETRIES = 10"

text \<open>\<open>saturating_add\<close>, \<open>saturating_mul\<close> on \<open>u64\<close> and \<open>saturating_add\<close> on \<open>u8\<close>\<close>

definition sat_add :: "u64 \<Rightarrow> u64 \<Rightarrow> u64" where
  "sat_add a b = (if unat a + unat b < 2 ^ 64 then a + b else - 1)"

definition sat_mul :: "u64 \<Rightarrow> u64 \<Rightarrow> u64" where
  "sat_mul a b = (if unat a * unat b < 2 ^ 64 then a * b else - 1)"

definition sat_add8 :: "u8 \<Rightarrow> u8 \<Rightarrow> u8" where
  "sat_add8 a b = (if unat a + unat b < 2 ^ 8 then a + b else - 1)"

section \<open>State\<close>

record EscrowState =
  es_entries :: "EscrowEntry list"
  es_journal_seq :: nat

record JournalLine =
  jl_s :: nat
  jl_e :: EscrowEntry

record InFlightClaim =
  fc_outpoints :: "(bytes \<times> u32) list"
  fc_submit_daa :: u64

record EscrowWatcher =
  ew_escrow_script_hex :: bytes
  ew_escrow_script_bonded_hex :: bytes
  ew_payout :: Payout
  ew_state :: EscrowState
  ew_in_flight :: "bytes \<rightharpoonup> InFlightClaim"
  ew_in_flight_outpoints :: "bytes set"
  ew_last_daa_score :: u64
  ew_outpoint_set :: "bytes set"
  ew_block_index :: "bytes \<rightharpoonup> nat list"
  ew_journal_pending :: bytes
  ew_journal_seq :: nat
  ew_journal_bytes_since_snapshot :: nat
  ew_last_journal_write :: nat
  ew_snapshot_due :: bool
  ew_last_snapshot :: nat
  ew_blocks_since_compact :: nat
  ew_validation_pending :: "bytes set"

text \<open>The files; \<open>None\<close> is no file.\<close>

record Disk =
  d_snapshot :: "bytes option"
  d_journal :: "bytes option"

record watch_env = escrow_env +
  w_order :: "bytes set \<Rightarrow> bytes list"
  w_line :: "JournalLine \<Rightarrow> bytes option"
  w_parse_line :: "bytes \<Rightarrow> JournalLine option"
  w_state :: "EscrowState \<Rightarrow> bytes option"
  w_parse_state :: "bytes \<Rightarrow> EscrowState option"
  w_utf8 :: "bytes \<Rightarrow> bool"

text \<open>How a snapshot ends: done; the file is as before; the file is replaced but not synced; the file is replaced
  and the journal could not be emptied. An append that fails has written some of its bytes.\<close>

datatype replacement = Replaced | NotReplaced | NotSynced | JournalKept

record Ctx =
  c_now :: nat
  c_replace :: replacement
  c_append :: "nat option"

abbreviation entries_of :: "EscrowWatcher \<Rightarrow> EscrowEntry list" where
  "entries_of w \<equiv> es_entries (ew_state w)"

definition set_entries :: "EscrowEntry list \<Rightarrow> EscrowWatcher \<Rightarrow> EscrowWatcher" where
  "set_entries es w = w\<lparr>ew_state := (ew_state w)\<lparr>es_entries := es\<rparr>\<rparr>"

section \<open>The journal and the snapshot\<close>

definition append_journal_line :: "watch_env \<Rightarrow> EscrowEntry \<Rightarrow> EscrowWatcher \<Rightarrow> EscrowWatcher" where
  "append_journal_line env entry w =
     (let s = ew_journal_seq w + 1
      in w\<lparr>ew_journal_seq := s,
           ew_journal_pending := ew_journal_pending w @
             (case w_line env \<lparr>jl_s = s, jl_e = entry\<rparr> of Some line \<Rightarrow> line @ [0x0a] | None \<Rightarrow> [])\<rparr>)"

text \<open>A change of the entry at an index, and its line.\<close>

definition change :: "watch_env \<Rightarrow> nat \<Rightarrow> EscrowEntry \<Rightarrow> EscrowWatcher \<Rightarrow> EscrowWatcher" where
  "change env i e w = append_journal_line env e (set_entries ((entries_of w)[i := e]) w)"

definition push_entry :: "watch_env \<Rightarrow> EscrowEntry \<Rightarrow> EscrowWatcher \<Rightarrow> EscrowWatcher" where
  "push_entry env e w =
     append_journal_line env e
       (set_entries (entries_of w @ [e]) (w\<lparr>ew_outpoint_set := insert (entry_key e) (ew_outpoint_set w)\<rparr>))"

definition append_file :: "bytes option \<Rightarrow> bytes \<Rightarrow> bytes option" where
  "append_file f b = Some ((case f of Some x \<Rightarrow> x | None \<Rightarrow> []) @ b)"

text \<open>The operations on the disk return whether they succeeded.\<close>

definition write_journal :: "Ctx \<Rightarrow> EscrowWatcher \<times> Disk \<Rightarrow> bool \<times> EscrowWatcher \<times> Disk" where
  "write_journal cx wd =
     (case wd of (w, d) \<Rightarrow>
        let w = w\<lparr>ew_last_journal_write := c_now cx\<rparr>
        in if ew_journal_pending w = [] then (True, w, d)
           else
             (case c_append cx of
                Some k \<Rightarrow> (False, w, d\<lparr>d_journal := append_file (d_journal d) (take k (ew_journal_pending w))\<rparr>)
              | None \<Rightarrow>
                  (True,
                   w\<lparr>ew_journal_bytes_since_snapshot := ew_journal_bytes_since_snapshot w + length (ew_journal_pending w),
                     ew_journal_pending := []\<rparr>,
                   d\<lparr>d_journal := append_file (d_journal d) (ew_journal_pending w)\<rparr>)))"

definition save_state_atomic :: "watch_env \<Rightarrow> Ctx \<Rightarrow> EscrowState \<Rightarrow> Disk \<Rightarrow> bool \<times> Disk" where
  "save_state_atomic env cx st d =
     (case w_state env st of
        None \<Rightarrow> (False, d)
      | Some json \<Rightarrow>
          (case c_replace cx of
             NotReplaced \<Rightarrow> (False, d)
           | NotSynced \<Rightarrow> (False, d\<lparr>d_snapshot := Some json\<rparr>)
           | JournalKept \<Rightarrow> (d_journal d = None, d\<lparr>d_snapshot := Some json\<rparr>)
           | Replaced \<Rightarrow> (True, d\<lparr>d_snapshot := Some json, d_journal := map_option (\<lambda>_. []) (d_journal d)\<rparr>)))"

definition write_snapshot :: "watch_env \<Rightarrow> Ctx \<Rightarrow> EscrowWatcher \<times> Disk \<Rightarrow> bool \<times> EscrowWatcher \<times> Disk" where
  "write_snapshot env cx wd =
     (case wd of (w, d) \<Rightarrow>
        let w = w\<lparr>ew_state := (ew_state w)\<lparr>es_journal_seq := ew_journal_seq w\<rparr>\<rparr>
        in case save_state_atomic env cx (ew_state w) d of (saved, d) \<Rightarrow>
             if saved
             then (True,
                   w\<lparr>ew_journal_pending := [], ew_journal_bytes_since_snapshot := 0, ew_snapshot_due := False,
                     ew_last_snapshot := c_now cx, ew_last_journal_write := c_now cx\<rparr>, d)
             else (False, w, d))"

definition maybe_flush :: "watch_env \<Rightarrow> Ctx \<Rightarrow> EscrowWatcher \<times> Disk \<Rightarrow> EscrowWatcher \<times> Disk" where
  "maybe_flush env cx wd =
     (case wd of (w, d) \<Rightarrow>
        let journal_grown = ew_journal_bytes_since_snapshot w + length (ew_journal_pending w)
        in if ew_snapshot_due w \<or> journal_grown \<ge> JOURNAL_SNAPSHOT_BYTES
               \<or> journal_grown > 0 \<and> c_now cx - ew_last_snapshot w \<ge> SNAPSHOT_INTERVAL
           then snd (write_snapshot env cx (w, d))
           else if ew_journal_pending w \<noteq> [] \<and> c_now cx - ew_last_journal_write w \<ge> STATE_SAVE_INTERVAL
           then snd (write_journal cx (w, d))
           else (w, d))"

definition flush_state :: "watch_env \<Rightarrow> Ctx \<Rightarrow> EscrowWatcher \<times> Disk \<Rightarrow> bool \<times> EscrowWatcher \<times> Disk" where
  "flush_state env cx wd =
     (case wd of (w, d) \<Rightarrow>
        if ew_snapshot_due w \<or> ew_journal_bytes_since_snapshot w > 0 \<or> ew_journal_pending w \<noteq> []
        then write_snapshot env cx (w, d) else (True, w, d))"

text \<open>Lines as \<open>BufRead\<close> reads them: a line end is a line feed, with a carriage return before it if there is one.\<close>

definition strip_cr :: "bytes \<Rightarrow> bytes" where
  "strip_cr l = (if l \<noteq> [] \<and> last l = 0x0d then butlast l else l)"

fun split_lines :: "bytes \<Rightarrow> bytes \<Rightarrow> bytes list" where
  "split_lines cur [] = (if cur = [] then [] else [cur])"
| "split_lines cur (c # cs) = (if c = 0x0a then strip_cr cur # split_lines [] cs else split_lines (cur @ [c]) cs)"

definition is_space :: "u8 \<Rightarrow> bool" where
  "is_space c \<longleftrightarrow> c = 0x20 \<or> 0x09 \<le> c \<and> c \<le> 0x0d"

definition upsert :: "EscrowEntry \<Rightarrow> EscrowEntry list \<times> (bytes \<rightharpoonup> nat) \<Rightarrow> EscrowEntry list \<times> (bytes \<rightharpoonup> nat)" where
  "upsert e si =
     (case si of (es, index) \<Rightarrow>
        (case index (entry_key e) of
           Some i \<Rightarrow> (es[i := e], index)
         | None \<Rightarrow> (es @ [e], index(entry_key e \<mapsto> length es))))"

fun replay_lines :: "watch_env \<Rightarrow> bytes list \<Rightarrow> nat \<Rightarrow> EscrowEntry list \<times> (bytes \<rightharpoonup> nat) \<Rightarrow> (nat \<times> EscrowEntry list) option" where
  "replay_lines env [] seq si = Some (seq, fst si)"
| "replay_lines env (line # lines) seq si =
     (if \<not> w_utf8 env line then None
      else if list_all is_space line then replay_lines env lines seq si
      else
        (case w_parse_line env line of
           None \<Rightarrow> replay_lines env lines seq si
         | Some l \<Rightarrow>
             if jl_s l \<le> seq then replay_lines env lines seq si
             else replay_lines env lines (jl_s l) (upsert (jl_e l) si)))"

text \<open>\<open>collect\<close> into a map keeps the last index of a key.\<close>

definition index_entries :: "EscrowEntry list \<Rightarrow> bytes \<rightharpoonup> nat" where
  "index_entries es = map_of (rev (zip (map entry_key es) [0..<length es]))"

datatype load_error = CorruptState | UnreadableJournal | BadPayoutAddress address_error

definition replay_journal :: "watch_env \<Rightarrow> bytes option \<Rightarrow> EscrowState \<Rightarrow> load_error + EscrowState" where
  "replay_journal env file st =
     (case file of
        None \<Rightarrow> Inr st
      | Some f \<Rightarrow>
          (case replay_lines env (split_lines [] f) (es_journal_seq st) (es_entries st, index_entries (es_entries st)) of
             None \<Rightarrow> Inl UnreadableJournal
           | Some (seq, es) \<Rightarrow> Inr \<lparr>es_entries = es, es_journal_seq = seq\<rparr>))"

definition load_state :: "watch_env \<Rightarrow> Disk \<Rightarrow> load_error + EscrowState" where
  "load_state env d =
     (case (case d_snapshot d of
              None \<Rightarrow> Some \<lparr>es_entries = [], es_journal_seq = 0\<rparr>
            | Some s \<Rightarrow> w_parse_state env s) of
        None \<Rightarrow> Inl CorruptState
      | Some st \<Rightarrow> replay_journal env (d_journal d) st)"

section \<open>Indexes\<close>

definition index_blocks :: "EscrowEntry list \<Rightarrow> bytes \<rightharpoonup> nat list" where
  "index_blocks es =
     fold (\<lambda>i m. let h = en_block_hash (es ! i)
             in if h = [] then m else m(h \<mapsto> (case m h of None \<Rightarrow> [] | Some is \<Rightarrow> is) @ [i]))
       [0..<length es] Map.empty"

definition rebuild_indexes :: "EscrowWatcher \<Rightarrow> EscrowWatcher" where
  "rebuild_indexes w = w\<lparr>ew_outpoint_set := set (map entry_key (entries_of w)), ew_block_index := index_blocks (entries_of w)\<rparr>"

definition compact :: "EscrowWatcher \<Rightarrow> EscrowWatcher" where
  "compact w =
     (let kept = filter (\<lambda>e. \<not> en_claimed e \<and> \<not> en_slashed e) (entries_of w)
      in if length kept \<noteq> length (entries_of w)
         then (rebuild_indexes (set_entries kept w))\<lparr>ew_snapshot_due := True\<rparr>
         else set_entries kept w)"

text \<open>\<open>EscrowWatcher::new\<close> once the key is read.\<close>

definition EscrowWatcher_new :: "watch_env \<Rightarrow> Ctx \<Rightarrow> bytes \<Rightarrow> Disk \<Rightarrow> (load_error + EscrowWatcher) option" where
  "EscrowWatcher_new env cx mining_address d = do {
     r \<leftarrow> decode_address mining_address;
     Some (case r of
       Inl e \<Rightarrow> Inl (BadPayoutAddress e)
     | Inr (payout_spk_version, payout_spk_bytes) \<Rightarrow>
         (case load_state env d of
            Inl e \<Rightarrow> Inl e
          | Inr st \<Rightarrow> Inr (rebuild_indexes
              \<lparr>ew_escrow_script_hex = x_hex_encode env (build_escrow_script (x_pubkey env) CHALLENGE_WINDOW_BLOCKS),
               ew_escrow_script_bonded_hex = x_hex_encode env (build_escrow_script (x_pubkey env) SERVICE_BOND_CSV_WINDOW_BLOCKS),
               ew_payout = \<lparr>po_version = payout_spk_version, po_script = build_p2pk_script payout_spk_bytes\<rparr>,
               ew_state = st, ew_in_flight = Map.empty, ew_in_flight_outpoints = {}, ew_last_daa_score = 0,
               ew_outpoint_set = {}, ew_block_index = Map.empty, ew_journal_pending = [], ew_journal_seq = es_journal_seq st,
               ew_journal_bytes_since_snapshot = 0, ew_last_journal_write = c_now cx, ew_snapshot_due = False,
               ew_last_snapshot = c_now cx, ew_blocks_since_compact = 0, ew_validation_pending = {}\<rparr>))) }"

section \<open>Blocks\<close>

record BlockVerbose =
  bv_hash :: bytes
  bv_merge_set_reds_hashes :: "bytes list"
  bv_is_chain_block :: bool

text \<open>Of a block: the score of its header if there is one, its verbose data and transactions.\<close>

record SeenBlock =
  sb_daa_score :: "u64 option"
  sb_transactions :: "RpcTransaction list"
  sb_verbose :: "BlockVerbose option"

text \<open>The keys of the claims that are too old, in some order; their outputs are released.\<close>

definition release_claim :: "bytes \<Rightarrow> EscrowWatcher \<Rightarrow> EscrowWatcher" where
  "release_claim txid w =
     (case ew_in_flight w txid of
        None \<Rightarrow> w
      | Some claim \<Rightarrow> w\<lparr>ew_in_flight := (ew_in_flight w)(txid := None),
          ew_in_flight_outpoints := ew_in_flight_outpoints w - set (map outpoint_key (fc_outpoints claim))\<rparr>)"

definition expire_in_flight :: "watch_env \<Rightarrow> u64 \<Rightarrow> EscrowWatcher \<Rightarrow> EscrowWatcher" where
  "expire_in_flight env daa_score w =
     fold release_claim
       (filter (\<lambda>txid. case ew_in_flight w txid of None \<Rightarrow> False
                  | Some c \<Rightarrow> daa_score \<ge> fc_submit_daa c + CLAIM_RESPONSE_TIMEOUT_DAA)
          (w_order env (dom (ew_in_flight w)))) w"

text \<open>An entry of a block that is now red.\<close>

definition slash_red :: "watch_env \<Rightarrow> nat \<Rightarrow> EscrowWatcher \<Rightarrow> EscrowWatcher" where
  "slash_red env i w =
     (if i < length (entries_of w)
      then
        let entry = entries_of w ! i
        in if \<not> en_claimed entry \<and> \<not> en_slashed entry \<and> \<not> en_is_inference entry \<and> en_block_hash entry \<noteq> []
           then change env i (entry\<lparr>en_slashed := True\<rparr>) w else w
      else w)"

definition slash_reds :: "watch_env \<Rightarrow> bytes list \<Rightarrow> EscrowWatcher \<Rightarrow> EscrowWatcher" where
  "slash_reds env reds w =
     fold (\<lambda>red_hash w. case ew_block_index w red_hash of None \<Rightarrow> w | Some indices \<Rightarrow> fold (slash_red env) indices w) reds w"

definition new_entry :: "bytes \<Rightarrow> bytes \<Rightarrow> u64 \<Rightarrow> u64 \<Rightarrow> u32 \<Rightarrow> bool \<Rightarrow> u64 \<Rightarrow> EscrowEntry" where
  "new_entry txid block_hash confirm_daa amount idx inference csv_window =
     \<lparr>en_coinbase_txid = txid, en_block_hash = block_hash, en_confirm_daa = confirm_daa, en_amount_sompi = amount,
      en_output_index = idx, en_claimed = False, en_slashed = False, en_orphan_slashed = False, en_orphan_retries = 0,
      en_orphan_retry_after_daa = None, en_submit_retries = 0, en_batch_cap = 0, en_cap_set_daa = 0,
      en_is_inference = inference, en_csv_window = csv_window\<rparr>"

text \<open>\<open>to_lowercase\<close>, of which only equality with a string of hexadecimal digits is asked: no character but an ASCII one
  becomes such a digit.\<close>

definition track_output :: "watch_env \<Rightarrow> bytes \<Rightarrow> bytes \<Rightarrow> u64 \<Rightarrow> nat \<times> RpcTransactionOutput \<Rightarrow> EscrowWatcher \<Rightarrow> EscrowWatcher" where
  "track_output env coinbase_txid block_hash daa_score x w =
     (case x of (out_idx, output) \<Rightarrow>
        (case out_script_public_key output of
           None \<Rightarrow> w
         | Some spk \<Rightarrow>
             let script = to_ascii_lowercase (spk_script spk);
                 csv_window = (if script = ew_escrow_script_hex w then Some CHALLENGE_WINDOW_BLOCKS
                    else if script = ew_escrow_script_bonded_hex w then Some SERVICE_BOND_CSV_WINDOW_BLOCKS else None)
             in (case csv_window of
                   None \<Rightarrow> w
                 | Some csv_window \<Rightarrow>
                     let e = new_entry coinbase_txid block_hash daa_score (out_amount output) (of_nat out_idx) False csv_window;
                         key = coinbase_txid @ [0x3a] @ decimal out_idx
                     in if spk_version spk \<noteq> 0 \<or> key \<in> ew_outpoint_set w then w
                        else
                          let idx = length (entries_of w);
                              w = append_journal_line env e
                                (set_entries (entries_of w @ [e]) (w\<lparr>ew_outpoint_set := insert key (ew_outpoint_set w)\<rparr>))
                          in if block_hash = [] then w
                             else w\<lparr>ew_block_index := (ew_block_index w)(block_hash \<mapsto>
                               (case ew_block_index w block_hash of None \<Rightarrow> [] | Some is \<Rightarrow> is) @ [idx])\<rparr>)))"

definition track_block_escrows :: "watch_env \<Rightarrow> RpcTransaction list \<Rightarrow> u64 \<Rightarrow> bytes \<Rightarrow> EscrowWatcher \<Rightarrow> EscrowWatcher" where
  "track_block_escrows env transactions daa_score block_hash w =
     (case List.find (\<lambda>tx. tx_inputs tx = []) transactions of
        None \<Rightarrow> w
      | Some coinbase \<Rightarrow>
          (case tx_verbose_id coinbase of
             None \<Rightarrow> w
           | Some coinbase_txid \<Rightarrow>
               if coinbase_txid = [] then w
               else fold (track_output env coinbase_txid block_hash daa_score) (enumerate 0 (tx_outputs coinbase)) w))"

section \<open>Claims\<close>

text \<open>The verdicts on an entry that expire.\<close>

definition heal_entry :: "u64 \<Rightarrow> EscrowEntry \<Rightarrow> EscrowEntry \<times> bool" where
  "heal_entry daa_score e =
     (let (e, healed) =
            (if en_batch_cap e \<noteq> 0 \<and> daa_score \<ge> en_cap_set_daa e + CAP_EXPIRY_DAA then (e\<lparr>en_batch_cap := 0\<rparr>, True) else (e, False))
      in if en_orphan_slashed e
         then
           let holdoff = sat_mul CAP_EXPIRY_DAA (push_bit (min (unat (en_orphan_retries e)) 10) 1)
           in if (case en_orphan_retry_after_daa e of None \<Rightarrow> True | Some retry_daa \<Rightarrow> daa_score \<ge> sat_add retry_daa holdoff)
              then (e\<lparr>en_orphan_slashed := False\<rparr>, True) else (e, healed)
         else (e, healed))"

definition heal :: "watch_env \<Rightarrow> u64 \<Rightarrow> nat \<Rightarrow> EscrowWatcher \<Rightarrow> EscrowWatcher" where
  "heal env daa_score i w =
     (case heal_entry daa_score (entries_of w ! i) of (e, healed) \<Rightarrow> if healed then change env i e w else w)"

definition find_claim :: "watch_env \<Rightarrow> u64 \<Rightarrow> EscrowWatcher \<Rightarrow> RpcTransaction option \<times> EscrowWatcher" where
  "find_claim env daa_score w =
     (if card (dom (ew_in_flight w)) \<ge> MAX_IN_FLIGHT_CLAIMS then (None, w)
      else if ew_validation_pending w \<noteq> {} then (None, w)
      else
        let w = fold (heal env daa_score) [0..<length (entries_of w)] w;
            batch = select_claim_batch (x_testnet env) (entries_of w) daa_score (ew_in_flight_outpoints w)
        in if batch = [] then (None, w)
           else
             let entries = map (\<lambda>i. entries_of w ! i) batch
             in case build_claim_tx (escrow_env.truncate env) (ew_payout w) entries of
                  Inl e \<Rightarrow> (None, w)
                | Inr (claim_txid, tx) \<Rightarrow>
                    let outpoints = map outpoint entries
                    in (Some tx,
                        w\<lparr>ew_in_flight_outpoints := ew_in_flight_outpoints w \<union> set (map outpoint_key outpoints),
                          ew_in_flight := (ew_in_flight w)(claim_txid \<mapsto> \<lparr>fc_outpoints = outpoints, fc_submit_daa = daa_score\<rparr>)\<rparr>))"

text \<open>What a block changes before claims are made of it.\<close>

definition scan_block :: "watch_env \<Rightarrow> u64 \<Rightarrow> SeenBlock \<Rightarrow> EscrowWatcher \<Rightarrow> EscrowWatcher" where
  "scan_block env daa_score block w =
     (let w = w\<lparr>ew_last_daa_score := daa_score\<rparr>;
          w = expire_in_flight env daa_score w;
          w = w\<lparr>ew_blocks_since_compact := ew_blocks_since_compact w + 1\<rparr>;
          w = (if ew_blocks_since_compact w \<ge> COMPACT_EVERY_BLOCKS then compact (w\<lparr>ew_blocks_since_compact := 0\<rparr>) else w)
      in case sb_verbose block of
           None \<Rightarrow> w
         | Some v \<Rightarrow>
             let w = slash_reds env (bv_merge_set_reds_hashes v) w
             in if bv_is_chain_block v then track_block_escrows env (sb_transactions block) daa_score (bv_hash v) w else w)"

definition handle_block :: "watch_env \<Rightarrow> Ctx \<Rightarrow> SeenBlock \<Rightarrow> EscrowWatcher \<times> Disk \<Rightarrow> RpcTransaction option \<times> EscrowWatcher \<times> Disk" where
  "handle_block env cx block wd =
     (case wd of (w, d) \<Rightarrow>
        (case sb_daa_score block of
           None \<Rightarrow> (None, w, d)
         | Some daa_score \<Rightarrow>
             (case find_claim env daa_score (scan_block env daa_score block w) of
                (claim, w) \<Rightarrow> (claim, maybe_flush env cx (w, d)))))"

definition pending_escrow :: "EscrowWatcher \<Rightarrow> u64 \<times> u64" where
  "pending_escrow w =
     fold (\<lambda>e (outputs, sompi). if \<not> en_claimed e \<and> \<not> en_slashed e \<and> \<not> en_orphan_slashed e \<and> en_orphan_retries e = 0
             then (outputs + 1, sompi + en_amount_sompi e) else (outputs, sompi))
       (entries_of w) (0, 0)"

definition track_inference_escrow :: "watch_env \<Rightarrow> Ctx \<Rightarrow> bytes \<Rightarrow> u64 \<Rightarrow> u64 \<Rightarrow> EscrowWatcher \<times> Disk \<Rightarrow> EscrowWatcher \<times> Disk" where
  "track_inference_escrow env cx ai_request_txid confirm_daa escrow_amount wd =
     (case wd of (w, d) \<Rightarrow>
        if escrow_amount = 0 then (w, d)
        else if outpoint_key (ai_request_txid, 1) \<in> ew_outpoint_set w then (w, d)
        else maybe_flush env cx (push_entry env (new_entry ai_request_txid [] confirm_daa escrow_amount 1 True CHALLENGE_WINDOW_BLOCKS) w, d))"

section \<open>Validation\<close>

definition start_state_validation :: "watch_env \<Rightarrow> EscrowWatcher \<Rightarrow> bytes list \<times> EscrowWatcher" where
  "start_state_validation env w =
     (let hashes = en_block_hash ` set (filter (\<lambda>e. \<not> en_claimed e \<and> \<not> en_slashed e \<and> en_block_hash e \<noteq> []) (entries_of w))
      in (w_order env hashes, w\<lparr>ew_validation_pending := hashes\<rparr>))"

definition finish_validation_if_done :: "watch_env \<Rightarrow> Ctx \<Rightarrow> EscrowWatcher \<times> Disk \<Rightarrow> EscrowWatcher \<times> Disk" where
  "finish_validation_if_done env cx wd =
     (if ew_validation_pending (fst wd) \<noteq> {} then wd else maybe_flush env cx wd)"

text \<open>The loops that slash the entries of a block panic on an index that is out of range.\<close>

definition slash_live :: "watch_env \<Rightarrow> nat \<Rightarrow> EscrowWatcher \<Rightarrow> EscrowWatcher option" where
  "slash_live env i w =
     (if i < length (entries_of w)
      then
        let e = entries_of w ! i
        in Some (if \<not> en_claimed e \<and> \<not> en_slashed e then change env i (e\<lparr>en_slashed := True\<rparr>) w else w)
      else None)"

fun fold_option :: "('a \<Rightarrow> 'b \<Rightarrow> 'b option) \<Rightarrow> 'a list \<Rightarrow> 'b \<Rightarrow> 'b option" where
  "fold_option f [] s = Some s"
| "fold_option f (x # xs) s = do { s \<leftarrow> f x s; fold_option f xs s }"

definition on_block_validated :: "watch_env \<Rightarrow> Ctx \<Rightarrow> bytes \<Rightarrow> bool \<Rightarrow> EscrowWatcher \<times> Disk \<Rightarrow> (EscrowWatcher \<times> Disk) option" where
  "on_block_validated env cx hash exists wd =
     (case wd of (w, d) \<Rightarrow>
        if hash \<notin> ew_validation_pending w then Some (w, d)
        else do {
          let w = w\<lparr>ew_validation_pending := ew_validation_pending w - {hash}\<rparr>;
          w \<leftarrow> (if \<not> exists
             then (case ew_block_index w hash of None \<Rightarrow> Some w | Some indices \<Rightarrow> fold_option (slash_live env) indices w)
             else Some w);
          Some (finish_validation_if_done env cx (w, d)) })"

definition consume_validation_ok :: "watch_env \<Rightarrow> Ctx \<Rightarrow> bytes \<Rightarrow> bool \<Rightarrow> EscrowWatcher \<times> Disk \<Rightarrow> (bool \<times> EscrowWatcher \<times> Disk) option" where
  "consume_validation_ok env cx hash is_chain_block wd =
     (if hash \<in> ew_validation_pending (fst wd)
      then map_option (Pair True) (on_block_validated env cx hash is_chain_block wd)
      else Some (False, wd))"

definition on_block_validation_error :: "watch_env \<Rightarrow> Ctx \<Rightarrow> bytes \<Rightarrow> EscrowWatcher \<times> Disk \<Rightarrow> bool \<times> EscrowWatcher \<times> Disk" where
  "on_block_validation_error env cx message wd =
     (case wd of (w, d) \<Rightarrow>
        (case List.find (contains message) (w_order env (ew_validation_pending w)) of
           None \<Rightarrow> (False, w, d)
         | Some hash \<Rightarrow>
             (True, finish_validation_if_done env cx (w\<lparr>ew_validation_pending := ew_validation_pending w - {hash}\<rparr>, d))))"

text \<open>An entry of a block that left the chain; the counter is that of the entries purged.\<close>

definition purge_entry :: "watch_env \<Rightarrow> nat \<Rightarrow> nat \<times> EscrowWatcher \<Rightarrow> (nat \<times> EscrowWatcher) option" where
  "purge_entry env i pw =
     (case pw of (purged, w) \<Rightarrow>
        if i < length (entries_of w)
        then
          let e = entries_of w ! i
          in Some (if en_claimed e \<or> en_slashed e then (purged, w)
                   else (purged + 1,
                     change env i (e\<lparr>en_slashed := True\<rparr>) (w\<lparr>ew_outpoint_set := ew_outpoint_set w - {entry_key e}\<rparr>)))
        else None)"

definition purge_block :: "watch_env \<Rightarrow> bytes \<Rightarrow> nat \<times> EscrowWatcher \<Rightarrow> (nat \<times> EscrowWatcher) option" where
  "purge_block env hash pw =
     (case pw of (purged, w) \<Rightarrow>
        (case ew_block_index w hash of
           None \<Rightarrow> Some (purged, w)
         | Some indices \<Rightarrow> fold_option (purge_entry env) indices (purged, w\<lparr>ew_block_index := (ew_block_index w)(hash := None)\<rparr>)))"

definition on_chain_blocks_removed :: "watch_env \<Rightarrow> Ctx \<Rightarrow> bytes list \<Rightarrow> EscrowWatcher \<times> Disk \<Rightarrow> (EscrowWatcher \<times> Disk) option" where
  "on_chain_blocks_removed env cx hashes wd =
     (case wd of (w, d) \<Rightarrow> do {
        (purged, w) \<leftarrow> fold_option (purge_block env) hashes (0, w);
        Some (if purged > 0 then maybe_flush env cx (w, d) else (w, d)) })"

section \<open>Answers of the node\<close>

datatype SubmitResponseOutcome = NotOurs | Handled | Accepted u64 u64

definition find_entry :: "bytes \<times> u32 \<Rightarrow> EscrowEntry list \<Rightarrow> nat option" where
  "find_entry p es = List.find (\<lambda>i. outpoint (es ! i) = p) [0..<length es]"

text \<open>\<open>rsplit_once\<close> of a pattern, \<open>split_whitespace\<close>, \<open>split_once(':')\<close> and the parser of \<open>u32\<close>.\<close>

definition rsplit_once_after :: "bytes \<Rightarrow> bytes \<Rightarrow> bytes option" where
  "rsplit_once_after pat s =
     (case filter (\<lambda>i. prefix pat (drop i s)) [0..<length s + 1] of
        [] \<Rightarrow> None
      | is \<Rightarrow> Some (drop (last is + length pat) s))"

fun split_whitespace :: "bytes \<Rightarrow> bytes \<Rightarrow> bytes list" where
  "split_whitespace cur [] = (if cur = [] then [] else [cur])"
| "split_whitespace cur (c # cs) =
     (if is_space c then (if cur = [] then split_whitespace [] cs else cur # split_whitespace [] cs)
      else split_whitespace (cur @ [c]) cs)"

definition parse_u32 :: "bytes \<Rightarrow> u32 option" where
  "parse_u32 s =
     (let s = (case s of c # cs \<Rightarrow> if c = 0x2b then cs else s | [] \<Rightarrow> [])
      in if s = [] \<or> \<not> list_all (\<lambda>c. 0x30 \<le> c \<and> c \<le> 0x39) s then None
         else
           let v = foldl (\<lambda>v b. 10 * v + (unat b - 48)) 0 s
           in if v < 2 ^ 32 then Some (of_nat v) else None)"

definition burned_outpoint :: "bytes \<Rightarrow> (bytes \<times> u32) option" where
  "burned_outpoint tok =
     (if 0x3a \<notin> set tok then None
      else map_option (Pair (to_ascii_lowercase (takeWhile (\<lambda>c. c \<noteq> 0x3a) tok))) (parse_u32 (tl (dropWhile (\<lambda>c. c \<noteq> 0x3a) tok))))"

definition burned_outpoints :: "bytes \<Rightarrow> (bytes \<times> u32) set" where
  "burned_outpoints msg =
     (case rsplit_once_after (ascii8 ''burned escrow outpoints: '') msg of
        None \<Rightarrow> {}
      | Some list \<Rightarrow> set (List.map_filter burned_outpoint (split_whitespace [] list)))"

definition mark_claimed :: "watch_env \<Rightarrow> bytes \<times> u32 \<Rightarrow> u64 \<times> EscrowWatcher \<Rightarrow> u64 \<times> EscrowWatcher" where
  "mark_claimed env p tw =
     (case tw of (sompi, w) \<Rightarrow>
        (case find_entry p (entries_of w) of
           None \<Rightarrow> (sompi, w)
         | Some i \<Rightarrow>
             let e = entries_of w ! i
             in (if en_claimed e then sompi else sompi + en_amount_sompi e, change env i (e\<lparr>en_claimed := True\<rparr>) w)))"

definition mark_entries_claimed :: "watch_env \<Rightarrow> (bytes \<times> u32) list \<Rightarrow> EscrowWatcher \<Rightarrow> u64 \<times> EscrowWatcher" where
  "mark_entries_claimed env outpoints w = fold (mark_claimed env) outpoints (0, w)"

text \<open>What a rejection does to an entry of the claim.\<close>

record Rejection =
  rj_is_orphan :: bool
  rj_is_seq_lock :: bool
  rj_is_burned :: bool
  rj_burned_set :: "(bytes \<times> u32) set"
  rj_n_outputs :: nat
  rj_last_daa :: u64

definition read_rejection :: "bytes \<Rightarrow> nat \<Rightarrow> u64 \<Rightarrow> Rejection" where
  "read_rejection msg n_outputs last_daa =
     \<lparr>rj_is_orphan = contains msg (ascii8 ''orphan''), rj_is_seq_lock = contains msg (ascii8 ''sequence lock''),
      rj_is_burned = contains msg (ascii8 ''burned escrow outpoint''), rj_burned_set = burned_outpoints msg,
      rj_n_outputs = n_outputs, rj_last_daa = last_daa\<rparr>"

definition halved_cap :: "nat \<Rightarrow> u8" where
  "halved_cap n_outputs = of_nat (min (max (n_outputs div 2) 1) 255)"

definition reject_entry :: "Rejection \<Rightarrow> EscrowEntry \<Rightarrow> EscrowEntry" where
  "reject_entry r e =
     (let batch_rejected = (rj_n_outputs r > 1);
          cap = (\<lambda>e. e\<lparr>en_batch_cap := halved_cap (rj_n_outputs r), en_cap_set_daa := rj_last_daa r\<rparr>)
      in if rj_is_orphan r then
           if batch_rejected then cap e
           else
             let e = e\<lparr>en_orphan_retries := en_orphan_retries e + 1\<rparr>
             in if en_orphan_retries e \<ge> MAX_ORPHAN_RETRIES then e\<lparr>en_orphan_slashed := False, en_slashed := True\<rparr>
                else e\<lparr>en_orphan_slashed := True, en_orphan_retry_after_daa := Some (rj_last_daa r + ORPHAN_RETRY_COOLDOWN_BLOCKS)\<rparr>
         else if rj_is_seq_lock r then
           e\<lparr>en_orphan_retry_after_daa := Some (rj_last_daa r + SEQ_LOCK_RETRY_COOLDOWN_BLOCKS)\<rparr>
         else if rj_is_burned r then
           if rj_burned_set r \<noteq> {} then
             if (to_ascii_lowercase (en_coinbase_txid e), en_output_index e) \<in> rj_burned_set r then e\<lparr>en_slashed := True\<rparr> else e
           else if batch_rejected then cap e
           else e\<lparr>en_slashed := True\<rparr>
         else
           let e = (if batch_rejected then cap e else e);
               e = e\<lparr>en_submit_retries := sat_add8 (en_submit_retries e) 1\<rparr>;
               cooldown = min (sat_mul UNKNOWN_RETRY_BASE_COOLDOWN_DAA (push_bit (min (unat (en_submit_retries e)) 9) 1))
                 UNKNOWN_RETRY_MAX_COOLDOWN_DAA
           in e\<lparr>en_orphan_retry_after_daa := Some (rj_last_daa r + cooldown)\<rparr>)"

definition reject_outpoint :: "watch_env \<Rightarrow> Rejection \<Rightarrow> bytes \<times> u32 \<Rightarrow> EscrowWatcher \<Rightarrow> EscrowWatcher" where
  "reject_outpoint env r p w =
     (case find_entry p (entries_of w) of
        None \<Rightarrow> w
      | Some i \<Rightarrow> change env i (reject_entry r (entries_of w ! i)) w)"

definition matched_claim :: "watch_env \<Rightarrow> bytes \<Rightarrow> bytes option \<Rightarrow> EscrowWatcher \<Rightarrow> bytes option" where
  "matched_claim env response_txid error w =
     (if ew_in_flight w response_txid \<noteq> None then Some response_txid
      else
        (case error of
           Some msg \<Rightarrow> List.find (contains msg) (w_order env (dom (ew_in_flight w)))
         | None \<Rightarrow> None))"

definition on_submit_response ::
  "watch_env \<Rightarrow> Ctx \<Rightarrow> bytes \<Rightarrow> bytes option \<Rightarrow> EscrowWatcher \<times> Disk \<Rightarrow> SubmitResponseOutcome \<times> EscrowWatcher \<times> Disk" where
  "on_submit_response env cx response_txid error wd =
     (case wd of (w, d) \<Rightarrow>
        (case matched_claim env response_txid error w of
           None \<Rightarrow> (NotOurs, w, d)
         | Some claim_txid \<Rightarrow>
             let outpoints = (case ew_in_flight w claim_txid of Some claim \<Rightarrow> fc_outpoints claim | None \<Rightarrow> []);
                 w = release_claim claim_txid w;
                 n_outputs = length outpoints;
                 accept = (case mark_entries_claimed env outpoints w of (amount, w) \<Rightarrow> (Accepted (of_nat n_outputs) amount, w));
                 (outcome, w) =
                   (case error of
                      None \<Rightarrow> accept
                    | Some msg \<Rightarrow>
                        if contains msg (ascii8 ''already in the mempool'') \<or> contains msg (ascii8 ''already accepted'') then accept
                        else (Handled, fold (reject_outpoint env (read_rejection msg n_outputs (ew_last_daa_score w))) outpoints w))
             in (outcome, maybe_flush env cx (w, d))))"

end
