(* ===== verification/Escrow_Inv.thy ===== *)
theory Escrow_Inv
  imports Escrow_Watch
begin

text \<open>
  The escrow watcher of \<open>src/src/escrow.rs\<close> in every history of blocks, answers, failing writes and restarts: no output
  is in two claims, no operation panics, and only the listed causes give an output up.
\<close>

section \<open>Histories\<close>

text \<open>What the model relies on of serde's JSON: a snapshot reads back, a line is one line of UTF-8 that is not blank and reads back.\<close>

definition json_ok :: "watch_env \<Rightarrow> bool" where
  "json_ok env \<longleftrightarrow> (\<forall>st j. w_state env st = Some j \<longrightarrow> w_parse_state env j = Some st) \<and>
     (\<forall>l b. w_line env l = Some b \<longrightarrow> w_parse_line env b = Some l \<and> w_utf8 env b \<and> 0x0a \<notin> set b \<and>
        \<not> list_all is_space b \<and> last b \<noteq> 0x0d)"

type_synonym world = "EscrowWatcher \<times> Disk"

definition small_block :: "SeenBlock \<Rightarrow> bool" where
  "small_block block \<longleftrightarrow> list_all (\<lambda>tx. length (tx_outputs tx) \<le> 2 ^ 32) (sb_transactions block)"

text \<open>The calls of the client; a restart is a crash or a drop followed by \<open>new\<close> on what is on disk.\<close>

inductive escrow_step :: "watch_env \<Rightarrow> world \<Rightarrow> world \<Rightarrow> bool" for env where
  block: "small_block b \<Longrightarrow> escrow_step env wd (snd (handle_block env cx b wd))"
| inference: "escrow_step env wd (track_inference_escrow env cx txid daa amount wd)"
| start: "escrow_step env (w, d) (snd (start_state_validation env w), d)"
| validated: "consume_validation_ok env cx hash chain wd = Some (r, wd') \<Longrightarrow> escrow_step env wd wd'"
| unknown: "escrow_step env wd (snd (on_block_validation_error env cx msg wd))"
| removed: "on_chain_blocks_removed env cx hashes wd = Some wd' \<Longrightarrow> escrow_step env wd wd'"
| response: "escrow_step env wd (snd (on_submit_response env cx txid err wd))"
| flush: "escrow_step env wd (snd (flush_state env cx wd))"
| restart: "EscrowWatcher_new env cx address d = Some (Inr w') \<Longrightarrow> escrow_step env (w, d) (w', d)"

inductive escrow_reachable :: "watch_env \<Rightarrow> world \<Rightarrow> bool" for env where
  init: "EscrowWatcher_new env cx address \<lparr>d_snapshot = None, d_journal = None\<rparr> = Some (Inr w) \<Longrightarrow>
    escrow_reachable env (w, \<lparr>d_snapshot = None, d_journal = None\<rparr>)"
| step: "escrow_reachable env wd \<Longrightarrow> escrow_step env wd wd' \<Longrightarrow> escrow_reachable env wd'"

section \<open>The invariant\<close>

definition live :: "EscrowEntry \<Rightarrow> bool" where
  "live e \<longleftrightarrow> \<not> en_claimed e \<and> \<not> en_slashed e"

text \<open>A live entry is the last of its output: an output is tracked again only once it was given up.\<close>

definition last_live :: "EscrowEntry list \<Rightarrow> bool" where
  "last_live es \<longleftrightarrow> (\<forall>j < length es. \<forall>i < j. live (es ! i) \<longrightarrow> entry_key (es ! j) \<noteq> entry_key (es ! i))"

definition claims_ok :: "EscrowWatcher \<Rightarrow> bool" where
  "claims_ok w \<longleftrightarrow> finite (dom (ew_in_flight w)) \<and> card (dom (ew_in_flight w)) \<le> 4 \<and>
     (\<forall>t c. ew_in_flight w t = Some c \<longrightarrow> distinct (fc_outpoints c) \<and> outpoint_key ` set (fc_outpoints c) \<subseteq> ew_in_flight_outpoints w) \<and>
     (\<forall>t c t' c'. ew_in_flight w t = Some c \<longrightarrow> ew_in_flight w t' = Some c' \<longrightarrow> t \<noteq> t' \<longrightarrow> set (fc_outpoints c) \<inter> set (fc_outpoints c') = {})"

definition indexed :: "EscrowWatcher \<Rightarrow> bool" where
  "indexed w \<longleftrightarrow> last_live (entries_of w) \<and>
     (\<forall>e \<in> set (entries_of w). live e \<longrightarrow> entry_key e \<in> ew_outpoint_set w) \<and>
     (\<forall>h is. ew_block_index w h = Some is \<longrightarrow> list_all (\<lambda>i. i < length (entries_of w)) is)"

definition disk_ok :: "watch_env \<Rightarrow> Disk \<Rightarrow> bool" where
  "disk_ok env d \<longleftrightarrow> (\<forall>s. d_snapshot d = Some s \<longrightarrow> (\<exists>st. w_parse_state env s = Some st \<and> last_live (es_entries st)))"

section \<open>Changes of entries\<close>

definition evolves :: "EscrowEntry \<Rightarrow> EscrowEntry \<Rightarrow> bool" where
  "evolves e e' \<longleftrightarrow> outpoint e' = outpoint e \<and> (live e' \<longrightarrow> live e)"

lemma evolves_key: "evolves e e' \<Longrightarrow> entry_key e' = entry_key e"
  by (simp add: evolves_def entry_key_def)

lemma entries_simps [simp]:
  "entries_of (set_entries es w) = es"
  "entries_of (append_journal_line env e w) = entries_of w"
  "ew_in_flight (set_entries es w) = ew_in_flight w" "ew_in_flight (append_journal_line env e w) = ew_in_flight w"
  "ew_in_flight_outpoints (set_entries es w) = ew_in_flight_outpoints w"
  "ew_in_flight_outpoints (append_journal_line env e w) = ew_in_flight_outpoints w"
  "ew_outpoint_set (set_entries es w) = ew_outpoint_set w" "ew_outpoint_set (append_journal_line env e w) = ew_outpoint_set w"
  "ew_block_index (set_entries es w) = ew_block_index w" "ew_block_index (append_journal_line env e w) = ew_block_index w"
  by (simp_all add: set_entries_def append_journal_line_def Let_def)

lemma change_simps [simp]:
  "entries_of (change env i e w) = (entries_of w)[i := e]"
  "ew_in_flight (change env i e w) = ew_in_flight w" "ew_in_flight_outpoints (change env i e w) = ew_in_flight_outpoints w"
  "ew_outpoint_set (change env i e w) = ew_outpoint_set w" "ew_block_index (change env i e w) = ew_block_index w"
  by (simp_all add: change_def)

lemma last_live_update:
  assumes "last_live es" and "evolves (es ! i) e"
  shows "last_live (es[i := e])"
proof -
  have "entry_key (es[i := e] ! j) = entry_key (es ! j) \<and> (live (es[i := e] ! j) \<longrightarrow> live (es ! j))" if "j < length es" for j
    using assms(2) that by (cases "i = j") (auto simp: evolves_key evolves_def)
  with assms(1) show ?thesis by (auto simp: last_live_def)
qed

lemma last_live_snoc:
  "last_live (es @ [e]) \<longleftrightarrow> last_live es \<and> (\<forall>e' \<in> set es. live e' \<longrightarrow> entry_key e \<noteq> entry_key e')"
proof -
  have "(\<forall>j < Suc (length es). P j) \<longleftrightarrow> (\<forall>j < length es. P j) \<and> P (length es)" for P by (auto simp: less_Suc_eq)
  then have "last_live (es @ [e]) \<longleftrightarrow> (\<forall>j < length es. \<forall>i < j. live ((es @ [e]) ! i) \<longrightarrow> entry_key ((es @ [e]) ! j) \<noteq> entry_key ((es @ [e]) ! i)) \<and>
      (\<forall>i < length es. live ((es @ [e]) ! i) \<longrightarrow> entry_key ((es @ [e]) ! length es) \<noteq> entry_key ((es @ [e]) ! i))"
    by (simp add: last_live_def)
  also have "(\<forall>j < length es. \<forall>i < j. live ((es @ [e]) ! i) \<longrightarrow> entry_key ((es @ [e]) ! j) \<noteq> entry_key ((es @ [e]) ! i)) \<longleftrightarrow> last_live es"
    unfolding last_live_def by (intro all_cong1 imp_cong refl) (auto simp: nth_append dest: less_trans)
  also have "(\<forall>i < length es. live ((es @ [e]) ! i) \<longrightarrow> entry_key ((es @ [e]) ! length es) \<noteq> entry_key ((es @ [e]) ! i)) \<longleftrightarrow>
      (\<forall>e' \<in> set es. live e' \<longrightarrow> entry_key e \<noteq> entry_key e')"
    by (simp add: nth_append all_set_conv_all_nth)
  finally show ?thesis .
qed

lemma indexed_change:
  assumes "indexed w" and "i < length (entries_of w) \<Longrightarrow> evolves (entries_of w ! i) e"
  shows "indexed (change env i e w)"
proof (cases "i < length (entries_of w)")
  case True
  have "\<forall>x \<in> set ((entries_of w)[i := e]). live x \<longrightarrow> entry_key x \<in> ew_outpoint_set w"
    using assms True set_update_subset_insert [of "entries_of w" i e]
    by (auto simp: indexed_def evolves_key evolves_def entry_key_def)
  with assms True show ?thesis by (auto simp: indexed_def last_live_update)
next
  case False
  with assms(1) show ?thesis by (simp add: indexed_def list_update_beyond)
qed

lemma claims_change [simp]: "claims_ok (change env i e w) = claims_ok w"
  by (simp add: claims_ok_def)

section \<open>Operations keep the invariant\<close>

definition core :: "EscrowWatcher \<Rightarrow> bool" where
  "core w \<longleftrightarrow> indexed w \<and> claims_ok w"

lemma core_change: "core w \<Longrightarrow> (i < length (entries_of w) \<Longrightarrow> evolves (entries_of w ! i) e) \<Longrightarrow> core (change env i e w)"
  by (simp add: core_def indexed_change)

lemma core_cong:
  "ew_state w' = ew_state w \<Longrightarrow> ew_in_flight w' = ew_in_flight w \<Longrightarrow> ew_in_flight_outpoints w' = ew_in_flight_outpoints w \<Longrightarrow>
   ew_outpoint_set w' = ew_outpoint_set w \<Longrightarrow> ew_block_index w' = ew_block_index w \<Longrightarrow> core w' = core w"
  by (simp add: core_def indexed_def claims_ok_def)

lemma core_updates [simp]:
  "core (w\<lparr>ew_last_daa_score := a\<rparr>) = core w" "core (w\<lparr>ew_journal_pending := b\<rparr>) = core w" "core (w\<lparr>ew_journal_seq := n\<rparr>) = core w"
  "core (w\<lparr>ew_journal_bytes_since_snapshot := n\<rparr>) = core w" "core (w\<lparr>ew_last_journal_write := n\<rparr>) = core w"
  "core (w\<lparr>ew_snapshot_due := c\<rparr>) = core w" "core (w\<lparr>ew_last_snapshot := n\<rparr>) = core w"
  "core (w\<lparr>ew_blocks_since_compact := n\<rparr>) = core w" "core (w\<lparr>ew_validation_pending := h\<rparr>) = core w"
  by (rule core_cong; simp)+

lemma fold_invariant: "P s \<Longrightarrow> (\<And>x s. x \<in> set xs \<Longrightarrow> P s \<Longrightarrow> P (f x s)) \<Longrightarrow> P (fold f xs s)"
  by (induction xs arbitrary: s) simp_all

lemma fold_option_invariant:
  "P s \<Longrightarrow> (\<And>x s. x \<in> set xs \<Longrightarrow> P s \<Longrightarrow> \<exists>s'. f x s = Some s' \<and> P s') \<Longrightarrow> \<exists>s'. fold_option f xs s = Some s' \<and> P s'"
proof (induction xs arbitrary: s)
  case (Cons x xs)
  obtain s' where "f x s = Some s'" "P s'" using Cons.prems by fastforce
  with Cons show ?case by fastforce
qed simp

lemma claims_release:
  assumes ok: "claims_ok w"
  shows "claims_ok (release_claim txid w)"
proof (cases "ew_in_flight w txid")
  case (Some c)
  let ?w = "release_claim txid w"
  have f: "ew_in_flight ?w = (ew_in_flight w)(txid := None)"
    and g: "ew_in_flight_outpoints ?w = ew_in_flight_outpoints w - outpoint_key ` set (fc_outpoints c)"
    by (simp_all add: release_claim_def Some)
  have old: "ew_in_flight w t = Some c' \<and> t \<noteq> txid" if "ew_in_flight ?w t = Some c'" for t c'
    using that by (auto simp: f split: if_splits)
  have "finite (dom (ew_in_flight ?w)) \<and> card (dom (ew_in_flight ?w)) \<le> 4"
    using ok card_Diff1_le [of "dom (ew_in_flight w)" txid] by (simp add: f claims_ok_def)
  moreover have "distinct (fc_outpoints c') \<and> outpoint_key ` set (fc_outpoints c') \<subseteq> ew_in_flight_outpoints ?w"
    if "ew_in_flight ?w t = Some c'" for t c'
  proof -
    have "set (fc_outpoints c) \<inter> set (fc_outpoints c') = {}" "distinct (fc_outpoints c')"
      "outpoint_key ` set (fc_outpoints c') \<subseteq> ew_in_flight_outpoints w"
      using ok Some old [OF that] unfolding claims_ok_def by metis+
    then show ?thesis by (auto simp: g outpoint_key_inj)
  qed
  moreover have "set (fc_outpoints c1) \<inter> set (fc_outpoints c2) = {}"
    if "ew_in_flight ?w t = Some c1" "ew_in_flight ?w t' = Some c2" "t \<noteq> t'" for t t' c1 c2
    using ok old [OF that(1)] old [OF that(2)] that(3) unfolding claims_ok_def by metis
  ultimately show ?thesis unfolding claims_ok_def by blast
qed (simp add: release_claim_def ok)

lemma core_release: "core w \<Longrightarrow> core (release_claim txid w)"
proof -
  assume "core w"
  moreover have "indexed (release_claim txid w) = indexed w" by (simp add: indexed_def release_claim_def split: option.split)
  ultimately show ?thesis by (simp add: core_def claims_release)
qed

lemma core_expire: "core w \<Longrightarrow> core (expire_in_flight env daa w)"
  unfolding expire_in_flight_def by (rule fold_invariant) (auto intro: core_release)

lemma core_rebuild: "claims_ok w \<Longrightarrow> last_live (entries_of w) \<Longrightarrow> core (rebuild_indexes w)"
proof -
  have "\<forall>h is. index_blocks es h = Some is \<longrightarrow> list_all (\<lambda>i. i < length es) is" for es
    unfolding index_blocks_def
    by (rule fold_invariant [where P = "\<lambda>m. \<forall>h is. m h = Some is \<longrightarrow> list_all (\<lambda>i. i < length es) is"])
      (auto simp: Let_def split: option.splits if_splits)
  then show "claims_ok w \<Longrightarrow> last_live (entries_of w) \<Longrightarrow> core (rebuild_indexes w)"
    by (auto simp: core_def indexed_def rebuild_indexes_def claims_ok_def)
qed

lemma last_live_filter: "last_live es \<Longrightarrow> last_live (filter live es)"
proof -
  assume "last_live es"
  then have "distinct (map entry_key (filter live es))"
  proof (induction es rule: rev_induct)
    case (snoc e es)
    then show ?case by (auto simp: last_live_snoc)
  qed simp
  then show ?thesis by (auto simp: last_live_def distinct_conv_nth)
qed

lemma core_compact: "core w \<Longrightarrow> core (compact w)"
proof -
  assume c: "core w"
  have l: "filter (\<lambda>e. \<not> en_claimed e \<and> \<not> en_slashed e) es = filter live es" for es
    by (simp add: live_def cong: filter_cong)
  show ?thesis
  proof (cases "length (filter live (entries_of w)) = length (entries_of w)")
    case True
    then have "filter live (entries_of w) = entries_of w" using length_filter_less by (metis filter_True less_irrefl)
    with True c show ?thesis by (simp add: compact_def l) (simp add: core_def indexed_def claims_ok_def)
  next
    case False
    have "core (rebuild_indexes (set_entries (filter live (entries_of w)) w))"
      using c by (intro core_rebuild) (auto simp: core_def claims_ok_def indexed_def last_live_filter)
    with False show ?thesis by (simp add: compact_def l)
  qed
qed

lemma evolves_slashed: "evolves e (e\<lparr>en_slashed := True\<rparr>)"
  by (simp add: evolves_def outpoint_def live_def)

lemma core_slash_red: "core w \<Longrightarrow> core (slash_red env i w)"
  by (simp add: slash_red_def Let_def core_change evolves_slashed)

lemma core_slash_reds:
  assumes "core w"
  shows "core (slash_reds env reds w)"
  unfolding slash_reds_def
proof (rule fold_invariant [of core, OF assms])
  fix h s assume s: "core s"
  have "core (fold (slash_red env) js s)" for js by (rule fold_invariant [of core, OF s]) (rule core_slash_red)
  with s show "core (case ew_block_index s h of None \<Rightarrow> s | Some indices \<Rightarrow> fold (slash_red env) indices s)"
    by (cases "ew_block_index s h") simp_all
qed

lemma core_push:
  assumes "core w" and "entry_key e \<notin> ew_outpoint_set w"
  shows "core (append_journal_line env e (set_entries (entries_of w @ [e]) (w\<lparr>ew_outpoint_set := insert (entry_key e) (ew_outpoint_set w)\<rparr>)))"
proof -
  have "last_live (entries_of w @ [e])" using assms by (auto simp: last_live_snoc core_def indexed_def)
  with assms show ?thesis by (auto simp: core_def indexed_def claims_ok_def list_all_iff less_Suc_eq)
qed

lemma core_block_index:
  "core w \<Longrightarrow> list_all (\<lambda>i. i < length (entries_of w)) is \<Longrightarrow> core (w\<lparr>ew_block_index := (ew_block_index w)(h \<mapsto> is)\<rparr>)"
  by (auto simp: core_def indexed_def claims_ok_def)

lemma core_track_output:
  assumes "core w" and "i < 2 ^ 32"
  shows "core (track_output env txid block_hash daa (i, output) w)"
proof -
  have u: "unat (of_nat i :: u32) = i" using assms(2) by (simp add: unat_of_nat)
  let ?e = "\<lambda>win. new_entry txid block_hash daa (out_amount output) (of_nat i) False win"
  have k: "entry_key (?e win) = txid @ [0x3a] @ decimal i" for win
    by (simp add: entry_key_def outpoint_def outpoint_key_def new_entry_def u)
  let ?w = "\<lambda>win. append_journal_line env (?e win) (set_entries (entries_of w @ [?e win])
      (w\<lparr>ew_outpoint_set := insert (txid @ [0x3a] @ decimal i) (ew_outpoint_set w)\<rparr>))"
  have p: "core (?w win)" if "txid @ [0x3a] @ decimal i \<notin> ew_outpoint_set w" for win
    using core_push [OF assms(1), of "?e win" env] that unfolding k by simp
  have b: "core ((?w win)\<lparr>ew_block_index := (ew_block_index (?w win))(block_hash \<mapsto>
      (case ew_block_index (?w win) block_hash of None \<Rightarrow> [] | Some is \<Rightarrow> is) @ [length (entries_of w)])\<rparr>)"
    if "txid @ [0x3a] @ decimal i \<notin> ew_outpoint_set w" for win
  proof (rule core_block_index [OF p [OF that]])
    have "\<forall>is. ew_block_index w block_hash = Some is \<longrightarrow> list_all (\<lambda>i. i < length (entries_of w)) is"
      using assms(1) by (simp add: core_def indexed_def)
    then show "list_all (\<lambda>i. i < length (entries_of (?w win)))
        ((case ew_block_index (?w win) block_hash of None \<Rightarrow> [] | Some is \<Rightarrow> is) @ [length (entries_of w)])"
      by (cases "ew_block_index w block_hash") (auto simp: list_all_iff less_Suc_eq)
  qed
  show ?thesis using assms(1) p b by (auto simp: track_output_def Let_def split: option.split)
qed

lemma core_track_block:
  assumes "core w" and "list_all (\<lambda>tx. length (tx_outputs tx) \<le> 2 ^ 32) txs"
  shows "core (track_block_escrows env txs daa block_hash w)"
proof -
  have "core (fold (track_output env txid block_hash daa) (enumerate 0 outs) w)" if "length outs \<le> 2 ^ 32" for outs txid
    using assms(1)
  proof (rule fold_invariant)
    fix x s assume "x \<in> set (enumerate 0 outs)" and "core s"
    moreover obtain i out where "x = (i, out)" by (cases x)
    ultimately show "core (track_output env txid block_hash daa x s)"
      using that by (auto simp: in_set_enumerate_eq intro!: core_track_output)
  qed
  moreover have "length (tx_outputs tx) \<le> 2 ^ 32" if "List.find (\<lambda>tx. tx_inputs tx = []) txs = Some tx" for tx
    using that assms(2) by (auto simp: find_Some_iff list_all_length)
  ultimately show ?thesis using assms(1) by (simp add: track_block_escrows_def split: option.split)
qed

lemma evolves_heal: "evolves e (fst (heal_entry daa e))"
  by (auto simp: heal_entry_def Let_def evolves_def outpoint_def live_def split: option.splits)

lemma core_heal: "core w \<Longrightarrow> core (heal env daa i w)"
  using evolves_heal by (auto simp: heal_def split: prod.split intro!: core_change) (metis fst_conv)

text \<open>The entries of a batch spend different outputs, none of them in a claim under way.\<close>

lemma batch_outpoints:
  fixes w testnet daa
  defines "b \<equiv> select_claim_batch testnet (entries_of w) daa (ew_in_flight_outpoints w)"
  assumes "core w"
  shows "distinct (map (\<lambda>i. outpoint (entries_of w ! i)) b)"
    and "i \<in> set b \<Longrightarrow> outpoint_key (outpoint (entries_of w ! i)) \<notin> ew_in_flight_outpoints w"
proof -
  have b: "distinct b" "list_all (\<lambda>i. i < length (entries_of w) \<and> eligible daa (ew_in_flight_outpoints w) (entries_of w ! i) \<and>
      length b \<le> cap_of (entries_of w ! i)) b"
    using claim_batch_facts [of testnet "entries_of w" daa "ew_in_flight_outpoints w"] unfolding b_def by blast+
  then have e: "j < length (entries_of w) \<and> live (entries_of w ! j) \<and> entry_key (entries_of w ! j) \<notin> ew_in_flight_outpoints w" if "j \<in> set b" for j
    using that by (auto simp: list_all_iff eligible_def live_def)
  then show "i \<in> set b \<Longrightarrow> outpoint_key (outpoint (entries_of w ! i)) \<notin> ew_in_flight_outpoints w" by (simp add: entry_key_def)
  have "outpoint (entries_of w ! i) \<noteq> outpoint (entries_of w ! j)" if "i \<in> set b" "j \<in> set b" "i < j" for i j
    using e [OF that(1)] e [OF that(2)] that(3) assms(2) by (force simp: core_def indexed_def last_live_def entry_key_def)
  then have "inj_on (\<lambda>i. outpoint (entries_of w ! i)) (set b)" by (intro inj_onI) (metis linorder_neqE_nat)
  with b(1) show "distinct (map (\<lambda>i. outpoint (entries_of w ! i)) b)" by (simp add: distinct_map)
qed

lemma core_new_claim:
  assumes "core w" and "card (dom (ew_in_flight w)) < 4" and "distinct ops"
    and "\<forall>p \<in> set ops. outpoint_key p \<notin> ew_in_flight_outpoints w"
  shows "core (w\<lparr>ew_in_flight_outpoints := ew_in_flight_outpoints w \<union> set (map outpoint_key ops),
    ew_in_flight := (ew_in_flight w)(txid \<mapsto> \<lparr>fc_outpoints = ops, fc_submit_daa = daa\<rparr>)\<rparr>)" (is "core ?w")
proof -
  have ok: "claims_ok w" using assms(1) by (simp add: core_def)
  have new: "ew_in_flight ?w t = Some c \<longleftrightarrow> (if t = txid then c = \<lparr>fc_outpoints = ops, fc_submit_daa = daa\<rparr> else ew_in_flight w t = Some c)" for t c
    by auto
  have fresh: "set (fc_outpoints c) \<inter> set ops = {}" if "ew_in_flight w t = Some c" for t c
    using ok assms(4) that by (fastforce simp: claims_ok_def)
  have "card (dom (ew_in_flight ?w)) \<le> Suc (card (dom (ew_in_flight w)))" by (simp add: card_insert_le_m1 card_insert_if claims_ok_def)
  then have "finite (dom (ew_in_flight ?w)) \<and> card (dom (ew_in_flight ?w)) \<le> 4" using ok assms(2) by (simp add: claims_ok_def)
  moreover have "distinct (fc_outpoints c) \<and> outpoint_key ` set (fc_outpoints c) \<subseteq> ew_in_flight_outpoints ?w"
    if "ew_in_flight ?w t = Some c" for t c
  proof (cases "t = txid")
    case True
    then show ?thesis using that assms(3) unfolding new by auto
  next
    case False
    then have "ew_in_flight w t = Some c" using that unfolding new by simp
    then have "distinct (fc_outpoints c)" "outpoint_key ` set (fc_outpoints c) \<subseteq> ew_in_flight_outpoints w"
      using ok unfolding claims_ok_def by blast+
    then show ?thesis by auto
  qed
  moreover have "set (fc_outpoints c1) \<inter> set (fc_outpoints c2) = {}"
    if "ew_in_flight ?w t = Some c1" "ew_in_flight ?w t' = Some c2" "t \<noteq> t'" for t t' c1 c2
  proof -
    consider "t = txid" | "t' = txid" | "t \<noteq> txid" "t' \<noteq> txid" by blast
    then show ?thesis
    proof cases
      case 1
      then show ?thesis using that fresh [of t' c2] unfolding new by auto
    next
      case 2
      then show ?thesis using that fresh [of t c1] unfolding new by auto
    next
      case 3
      then have "ew_in_flight w t = Some c1" "ew_in_flight w t' = Some c2" using that(1,2) unfolding new by simp_all
      then show ?thesis using ok that(3) unfolding claims_ok_def by blast
    qed
  qed
  ultimately have "claims_ok ?w" unfolding claims_ok_def by blast
  then show ?thesis using assms(1) by (simp add: core_def indexed_def)
qed

lemma core_find_claim:
  assumes "core w"
  shows "core (snd (find_claim env daa w))"
proof -
  let ?h = "fold (heal env daa) [0..<length (entries_of w)] w"
  let ?b = "select_claim_batch (x_testnet env) (entries_of ?h) daa (ew_in_flight_outpoints ?h)"
  let ?es = "map (\<lambda>i. entries_of ?h ! i) ?b"
  have h: "core ?h" using assms by (rule fold_invariant) (rule core_heal)
  have "ew_in_flight (fold (heal env daa) xs w) = ew_in_flight w" for xs
    by (rule fold_invariant [where P = "\<lambda>s. ew_in_flight s = ew_in_flight w"]) (auto simp: heal_def split: prod.split)
  then have f: "ew_in_flight ?h = ew_in_flight w" .
  show ?thesis
  proof (cases "card (dom (ew_in_flight w)) \<ge> MAX_IN_FLIGHT_CLAIMS \<or> ew_validation_pending w \<noteq> {}")
    case True
    then show ?thesis using assms by (auto simp: find_claim_def)
  next
    case False
    have ops: "distinct (map outpoint ?es)" "\<forall>p \<in> set (map outpoint ?es). outpoint_key p \<notin> ew_in_flight_outpoints ?h"
      using batch_outpoints [OF h, where testnet = "x_testnet env" and daa = daa] by (auto simp: comp_def)
    have "card (dom (ew_in_flight ?h)) < 4" using False by (simp add: f MAX_IN_FLIGHT_CLAIMS_def)
    note c = core_new_claim [OF h this ops]
    show ?thesis
    proof (cases "build_claim_tx (escrow_env.truncate env) (ew_payout ?h) ?es")
      case (Inl e)
      then show ?thesis using False h by (simp add: find_claim_def Let_def)
    next
      case (Inr r)
      obtain txid tx where r: "r = (txid, tx)" by (cases r)
      have "snd (find_claim env daa w) = (if ?b = [] then ?h
          else ?h\<lparr>ew_in_flight_outpoints := ew_in_flight_outpoints ?h \<union> set (map outpoint_key (map outpoint ?es)),
            ew_in_flight := (ew_in_flight ?h)(txid \<mapsto> \<lparr>fc_outpoints = map outpoint ?es, fc_submit_daa = daa\<rparr>)\<rparr>)"
        using False Inr by (simp add: find_claim_def Let_def r image_image comp_def)
      with c [of txid daa] h show ?thesis by presburger
    qed
  qed
qed

lemma core_write_snapshot: "core w \<Longrightarrow> core (fst (snd (write_snapshot env cx (w, d))))"
proof -
  have "core (w\<lparr>ew_state := (ew_state w)\<lparr>es_journal_seq := n\<rparr>\<rparr>) = core w" for w n
    by (simp add: core_def indexed_def claims_ok_def)
  then show "core w \<Longrightarrow> core (fst (snd (write_snapshot env cx (w, d))))"
    by (simp add: write_snapshot_def Let_def split: prod.split)
qed

lemma core_write_journal: "core w \<Longrightarrow> core (fst (snd (write_journal cx (w, d))))"
  by (simp add: write_journal_def Let_def split: option.split)

lemma core_maybe_flush: "core w \<Longrightarrow> core (fst (maybe_flush env cx (w, d)))"
  using core_write_snapshot [of w env cx d] core_write_journal [of w cx d] by (simp add: maybe_flush_def Let_def)

lemma core_flush_state: "core w \<Longrightarrow> core (fst (snd (flush_state env cx (w, d))))"
  using core_write_snapshot [of w env cx d] by (simp add: flush_state_def)

lemma core_scan_block:
  assumes "core w" and "small_block b"
  shows "core (scan_block env daa b w)"
proof -
  have "list_all (\<lambda>tx. length (tx_outputs tx) \<le> 2 ^ 32) (sb_transactions b)" using assms(2) by (simp add: small_block_def)
  with assms(1) show ?thesis
    by (auto simp: scan_block_def Let_def split: option.split
        intro!: core_track_block core_slash_reds core_compact core_expire)
qed

lemma core_handle_block:
  assumes "core w" and "small_block b"
  shows "core (fst (snd (handle_block env cx b (w, d))))"
proof (cases "sb_daa_score b")
  case (Some daa)
  have "core (snd (find_claim env daa (scan_block env daa b w)))" using assms by (intro core_find_claim core_scan_block)
  then show ?thesis using core_maybe_flush
    by (cases "find_claim env daa (scan_block env daa b w)") (simp add: handle_block_def Some)
qed (simp add: handle_block_def assms)

lemma fold_option_core:
  assumes "core w" and "list_all (\<lambda>i. i < length (entries_of w)) is"
  shows "\<exists>w'. fold_option (slash_live env) is w = Some w' \<and> core w'"
proof -
  have "\<exists>w'. fold_option (slash_live env) is w = Some w' \<and> (core w' \<and> length (entries_of w') = length (entries_of w))"
    by (rule fold_option_invariant) (use assms in \<open>auto simp: slash_live_def Let_def list_all_iff intro!: core_change evolves_slashed\<close>)
  then show ?thesis by blast
qed

lemma core_forget: "core w \<Longrightarrow> core (w\<lparr>ew_block_index := (ew_block_index w)(h := None)\<rparr>)"
  by (auto simp: core_def indexed_def claims_ok_def)

text \<open>A purged entry was the only live one of its output.\<close>

lemma core_purge:
  assumes "core w" and "i < length (entries_of w)"
  shows "\<exists>p' w'. purge_entry env i (p, w) = Some (p', w') \<and> core w' \<and> length (entries_of w') = length (entries_of w)"
proof (cases "live (entries_of w ! i)")
  case True
  let ?e = "(entries_of w ! i)\<lparr>en_slashed := True\<rparr>"
  let ?w = "change env i ?e (w\<lparr>ew_outpoint_set := ew_outpoint_set w - {entry_key (entries_of w ! i)}\<rparr>)"
  have ix: "indexed w" and cl: "claims_ok w" using assms(1) by (simp_all add: core_def)
  have "entry_key x \<in> ew_outpoint_set w - {entry_key (entries_of w ! i)}"
    if x: "x \<in> set ((entries_of w)[i := ?e])" "live x" for x
  proof -
    obtain j where j: "j < length (entries_of w)" "x = (entries_of w)[i := ?e] ! j" using x(1) by (auto simp: in_set_conv_nth)
    have "j \<noteq> i" using x(2) j assms(2) by (auto simp: live_def)
    then have "x = entries_of w ! j" using j by simp
    moreover have "entry_key (entries_of w ! j) \<noteq> entry_key (entries_of w ! i)"
      using ix True x(2) j(1) assms(2) calculation \<open>j \<noteq> i\<close> unfolding indexed_def last_live_def by (metis linorder_neqE_nat)
    ultimately show ?thesis using ix x(2) j(1) by (simp add: indexed_def)
  qed
  moreover have "last_live ((entries_of w)[i := ?e])" using ix evolves_slashed by (simp add: indexed_def last_live_update)
  ultimately have "core ?w" using ix cl by (simp add: core_def indexed_def claims_ok_def)
  moreover have "purge_entry env i (p, w) = Some (p + 1, ?w)" using True assms(2) by (simp add: purge_entry_def live_def Let_def)
  ultimately show ?thesis by simp
next
  case False
  then show ?thesis using assms by (auto simp: purge_entry_def live_def Let_def)
qed

lemma core_purge_block:
  assumes "core w"
  shows "\<exists>p' w'. purge_block env h (p, w) = Some (p', w') \<and> core w'"
proof (cases "ew_block_index w h")
  case (Some js)
  let ?w = "w\<lparr>ew_block_index := (ew_block_index w)(h := None)\<rparr>"
  let ?P = "\<lambda>pw :: nat \<times> EscrowWatcher. core (snd pw) \<and> length (entries_of (snd pw)) = length (entries_of w)"
  have "list_all (\<lambda>i. i < length (entries_of w)) js" using assms Some by (simp add: core_def indexed_def)
  then have "\<exists>s. fold_option (purge_entry env) js (p, ?w) = Some s \<and> ?P s"
  proof (intro fold_option_invariant [where P = ?P])
    show "?P (p, ?w)" using assms core_forget by simp
    fix i s assume "i \<in> set js" "?P s" "list_all (\<lambda>i. i < length (entries_of w)) js"
    then show "\<exists>s'. purge_entry env i s = Some s' \<and> ?P s'"
      using core_purge [of "snd s" i env "fst s"] by (auto simp: list_all_iff)
  qed
  then show ?thesis by (auto simp: purge_block_def Some)
qed (simp add: purge_block_def assms)

lemma evolves_claimed: "evolves e (e\<lparr>en_claimed := True\<rparr>)"
  by (simp add: evolves_def outpoint_def live_def)

lemma evolves_reject: "evolves e (reject_entry r e)"
  by (simp add: evolves_def reject_entry_def outpoint_def live_def Let_def)

lemma core_accept:
  assumes "core w"
  shows "core (snd (mark_entries_claimed env ops w))"
proof -
  have "core (snd (fold (mark_claimed env) ops (0, w)))"
    by (rule fold_invariant [where P = "\<lambda>s. core (snd s)"])
      (use assms in \<open>auto simp: mark_claimed_def Let_def split: prod.splits option.splits intro!: core_change evolves_claimed\<close>)
  then show ?thesis by (simp add: mark_entries_claimed_def)
qed

lemma core_reject: "core w \<Longrightarrow> core (fold (reject_outpoint env r) ops w)"
  by (rule fold_invariant)
    (auto simp: reject_outpoint_def split: option.splits intro!: core_change evolves_reject)

text \<open>What an answer changes before the state is saved.\<close>

text \<open>The answers and reorganisations end in a watcher with the invariant, which is then flushed or not.\<close>

lemma validated_ends:
  assumes "core w"
  shows "\<exists>v. core v \<and> on_block_validated env cx hash chain (w, d) \<in> {Some (v, d), Some (maybe_flush env cx (v, d))}"
proof (cases "hash \<in> ew_validation_pending w")
  case True
  let ?w = "w\<lparr>ew_validation_pending := ew_validation_pending w - {hash}\<rparr>"
  have c: "core ?w" using assms by simp
  have "\<exists>v. core v \<and> (if \<not> chain then (case ew_block_index ?w hash of None \<Rightarrow> Some ?w
      | Some indices \<Rightarrow> fold_option (slash_live env) indices ?w) else Some ?w) = Some v"
  proof (cases "ew_block_index ?w hash")
    case (Some js)
    then have "list_all (\<lambda>i. i < length (entries_of ?w)) js" using c unfolding core_def indexed_def by blast
    then obtain v where "fold_option (slash_live env) js ?w = Some v" "core v" using fold_option_core [OF c] by blast
    with Some c show ?thesis by (cases chain) auto
  qed (use c in auto)
  then obtain v where v: "core v" "(if \<not> chain then (case ew_block_index ?w hash of None \<Rightarrow> Some ?w
      | Some indices \<Rightarrow> fold_option (slash_live env) indices ?w) else Some ?w) = Some v" by blast
  have "on_block_validated env cx hash chain (w, d) = Some (finish_validation_if_done env cx (v, d))"
    unfolding on_block_validated_def prod.case Let_def v(2) using True by simp
  with v(1) show ?thesis by (auto simp: finish_validation_if_done_def)
qed (use assms in \<open>auto simp: on_block_validated_def\<close>)

lemma removed_ends:
  assumes "core w"
  shows "\<exists>v. core v \<and> on_chain_blocks_removed env cx hashes (w, d) \<in> {Some (v, d), Some (maybe_flush env cx (v, d))}"
proof -
  have "\<exists>pw. fold_option (purge_block env) hashes (0, w) = Some pw \<and> core (snd pw)"
    using assms core_purge_block by (intro fold_option_invariant [where P = "\<lambda>pw. core (snd pw)"]) fastforce+
  then obtain p v where "fold_option (purge_block env) hashes (0, w) = Some (p, v)" "core v" by auto
  then show ?thesis by (auto simp: on_chain_blocks_removed_def)
qed

lemma response_ends:
  assumes "core w"
  shows "\<exists>v. core v \<and> snd (on_submit_response env cx txid err (w, d)) \<in> {(v, d), maybe_flush env cx (v, d)}"
proof (cases "matched_claim env txid err w")
  case (Some t)
  have r: "core (release_claim t w)" using assms by (rule core_release)
  let ?ops = "case ew_in_flight w t of Some claim \<Rightarrow> fc_outpoints claim | None \<Rightarrow> []"
  have a: "core (snd (mark_entries_claimed env ?ops (release_claim t w)))" using r by (rule core_accept)
  obtain v where "core v" "snd (on_submit_response env cx txid err (w, d)) = maybe_flush env cx (v, d)"
  proof (cases "\<exists>msg. err = Some msg \<and> \<not> (contains msg (ascii8 ''already in the mempool'') \<or> contains msg (ascii8 ''already accepted''))")
    case True
    then obtain msg where e: "err = Some msg"
      and n: "\<not> (contains msg (ascii8 ''already in the mempool'') \<or> contains msg (ascii8 ''already accepted''))" by blast
    show thesis
      by (rule that [OF core_reject [OF r, of env "read_rejection msg (length ?ops) (ew_last_daa_score (release_claim t w))" ?ops]])
        (use n in \<open>simp add: on_submit_response_def Some [unfolded e] Let_def e split: prod.split\<close>)
  next
    case False
    show thesis
    proof (cases err)
      case None
      show thesis
        by (rule that [OF a]) (simp add: on_submit_response_def Some [unfolded None] Let_def None split: prod.split)
    next
      case e: (Some msg)
      show thesis
        by (rule that [OF a]) (use False e in \<open>auto simp: on_submit_response_def Some [unfolded e] Let_def e split: prod.split\<close>)
    qed
  qed
  then show ?thesis by blast
qed (use assms in \<open>auto simp: on_submit_response_def\<close>)

section \<open>The disk\<close>

lemma disk_write_snapshot:
  assumes "json_ok env" and "core w" and "disk_ok env d"
  shows "disk_ok env (snd (snd (write_snapshot env cx (w, d))))"
proof -
  have "disk_ok env (d'\<lparr>d_snapshot := Some j\<rparr>)"
    if "w_state env ((ew_state w)\<lparr>es_journal_seq := ew_journal_seq w\<rparr>) = Some j" for j d'
    using that assms(1,2) by (auto simp: disk_ok_def json_ok_def core_def indexed_def)
  moreover have "disk_ok env (d'\<lparr>d_snapshot := Some j, d_journal := jl\<rparr>)"
    if "w_state env ((ew_state w)\<lparr>es_journal_seq := ew_journal_seq w\<rparr>) = Some j" for j d' jl
    using that assms(1,2) by (auto simp: disk_ok_def json_ok_def core_def indexed_def)
  ultimately show ?thesis using assms(3)
    by (auto simp: write_snapshot_def save_state_atomic_def Let_def split: option.splits replacement.splits prod.splits)
qed

lemma disk_write_journal: "disk_ok env (snd (snd (write_journal cx (w, d)))) = disk_ok env d"
  by (simp add: write_journal_def Let_def disk_ok_def split: option.split)

lemma disk_maybe_flush:
  "json_ok env \<Longrightarrow> core w \<Longrightarrow> disk_ok env d \<Longrightarrow> disk_ok env (snd (maybe_flush env cx (w, d)))"
  using disk_write_snapshot [of env w d cx] disk_write_journal [of env cx w d] by (simp add: maybe_flush_def Let_def)

text \<open>The index of a replay names the last entry of an output.\<close>

definition index_ok :: "EscrowEntry list \<times> (bytes \<rightharpoonup> nat) \<Rightarrow> bool" where
  "index_ok si \<longleftrightarrow> (\<forall>k. case snd si k of
       None \<Rightarrow> k \<notin> set (map entry_key (fst si))
     | Some i \<Rightarrow> i < length (fst si) \<and> entry_key (fst si ! i) = k \<and>
         (\<forall>j < length (fst si). i < j \<longrightarrow> entry_key (fst si ! j) \<noteq> k))"

lemma index_entries_snoc: "index_entries (es @ [e]) = (index_entries es)(entry_key e \<mapsto> length es)"
proof -
  have "zip (map entry_key (es @ [e])) [0..<length (es @ [e])] = zip (map entry_key es) [0..<length es] @ [(entry_key e, length es)]"
    by (simp add: zip_append)
  then show ?thesis by (simp add: index_entries_def)
qed

lemma index_ok_snoc:
  assumes "index_ok (es, ix)"
  shows "index_ok (es @ [e], ix(entry_key e \<mapsto> length es))"
  unfolding index_ok_def fst_conv snd_conv
proof
  fix q
  have old: "case ix q of None \<Rightarrow> q \<notin> set (map entry_key es)
    | Some i \<Rightarrow> i < length es \<and> entry_key (es ! i) = q \<and> (\<forall>j < length es. i < j \<longrightarrow> entry_key (es ! j) \<noteq> q)"
    using spec [OF assms [unfolded index_ok_def], of q] unfolding fst_conv snd_conv .
  show "case (ix(entry_key e \<mapsto> length es)) q of None \<Rightarrow> q \<notin> set (map entry_key (es @ [e]))
    | Some i \<Rightarrow> i < length (es @ [e]) \<and> entry_key ((es @ [e]) ! i) = q \<and>
        (\<forall>j < length (es @ [e]). i < j \<longrightarrow> entry_key ((es @ [e]) ! j) \<noteq> q)"
  proof (cases "q = entry_key e")
    case False
    then show ?thesis using old by (cases "ix q") (auto simp: nth_append less_Suc_eq)
  qed simp
qed

lemma index_ok_entries: "index_ok (es, index_entries es)"
proof (induction es rule: rev_induct)
  case (snoc e es)
  show ?case unfolding index_entries_snoc by (rule index_ok_snoc [OF snoc])
qed (simp add: index_ok_def index_entries_def)

lemma upsert_keeps:
  assumes "index_ok (es, ix)" and "last_live es"
  shows "index_ok (upsert e (es, ix)) \<and> last_live (fst (upsert e (es, ix)))"
proof (cases "ix (entry_key e)")
  case None
  then have "entry_key e \<notin> set (map entry_key es)"
    using spec [OF assms(1) [unfolded index_ok_def], of "entry_key e"] by simp
  then show ?thesis using None assms index_ok_snoc by (auto simp: upsert_def last_live_snoc)
next
  case (Some i)
  then have i: "i < length es" "entry_key (es ! i) = entry_key e" "\<forall>j < length es. i < j \<longrightarrow> entry_key (es ! j) \<noteq> entry_key e"
    using spec [OF assms(1) [unfolded index_ok_def], of "entry_key e"] by simp_all
  have k: "map entry_key (es[i := e]) = map entry_key es" using i(2) by (simp add: map_update list_update_same_conv i(1))
  then have nk: "entry_key (es[i := e] ! j) = entry_key (es ! j)" if "j < length es" for j
    using that by (metis length_list_update nth_map)
  have "index_ok (es[i := e], ix)"
    unfolding index_ok_def fst_conv snd_conv k length_list_update
  proof
    fix q
    show "case ix q of None \<Rightarrow> q \<notin> set (map entry_key es)
      | Some i' \<Rightarrow> i' < length es \<and> entry_key (es[i := e] ! i') = q \<and> (\<forall>j < length es. i' < j \<longrightarrow> entry_key (es[i := e] ! j) \<noteq> q)"
      using spec [OF assms(1) [unfolded index_ok_def], of q] by (cases "ix q") (simp_all add: nk)
  qed
  moreover have "last_live (es[i := e])"
    using assms(2) i by (auto simp: last_live_def nk nth_list_update split: if_splits)
  ultimately show ?thesis by (simp add: upsert_def Some)
qed

lemma replay_last_live:
  "replay_lines env ls seq (es, ix) = Some (seq', es') \<Longrightarrow> index_ok (es, ix) \<Longrightarrow> last_live es \<Longrightarrow> last_live es'"
proof (induction ls arbitrary: seq es ix)
  case (Cons l ls)
  then show ?case
  proof (cases "w_utf8 env l \<and> \<not> list_all is_space l \<and> (\<exists>x. w_parse_line env l = Some x \<and> seq < jl_s x)")
    case True
    then obtain x where x: "w_utf8 env l" "\<not> list_all is_space l" "w_parse_line env l = Some x" "seq < jl_s x" by blast
    obtain es2 ix2 where u: "upsert (jl_e x) (es, ix) = (es2, ix2)" by (cases "upsert (jl_e x) (es, ix)")
    have "index_ok (es2, ix2)" "last_live es2" using upsert_keeps [OF Cons.prems(2,3), of "jl_e x"] by (simp_all add: u)
    moreover have "replay_lines env ls (jl_s x) (es2, ix2) = Some (seq', es')" using Cons.prems(1) x u by simp
    ultimately show ?thesis using Cons.IH by blast
  next
    case False
    then have "replay_lines env ls seq (es, ix) = Some (seq', es')"
      using Cons.prems(1) by (auto split: if_splits option.splits)
    then show ?thesis using Cons.IH Cons.prems by blast
  qed
qed simp

lemma core_new:
  assumes "disk_ok env d" and "EscrowWatcher_new env cx address d = Some (Inr w)"
  shows "core w"
proof -
  obtain a where a: "decode_address address = Some (Inr a)"
    using assms(2) by (cases "decode_address address"; cases "the (decode_address address)") (auto simp: EscrowWatcher_new_def)
  obtain st where st: "load_state env d = Inr st"
    using assms(2) a by (cases a; cases "load_state env d") (auto simp: EscrowWatcher_new_def)
  have w: "\<exists>v. w = rebuild_indexes v \<and> ew_state v = st \<and> ew_in_flight v = Map.empty"
    using assms(2) a st by (cases a) (auto simp: EscrowWatcher_new_def)
  obtain st0 where s0: "last_live (es_entries st0)" "replay_journal env (d_journal d) st0 = Inr st"
  proof (cases "d_snapshot d")
    case None
    then show ?thesis using st that [of "\<lparr>es_entries = [], es_journal_seq = 0\<rparr>"] by (simp add: load_state_def last_live_def)
  next
    case (Some s)
    then obtain st0 where "w_parse_state env s = Some st0" "last_live (es_entries st0)" using assms(1) by (auto simp: disk_ok_def)
    then show ?thesis using st Some that by (simp add: load_state_def)
  qed
  have "last_live (es_entries st)"
    using s0 replay_last_live [OF _ index_ok_entries] by (auto simp: replay_journal_def split: option.splits)
  then show ?thesis using w by (auto intro!: core_rebuild simp: claims_ok_def)
qed

section \<open>Properties\<close>

lemma reachable_core:
  assumes "json_ok env" and "escrow_reachable env wd"
  shows "core (fst wd) \<and> disk_ok env (snd wd)"
  using assms(2)
proof (induction rule: escrow_reachable.induct)
  case (init cx address w)
  then show ?case using core_new [of env "\<lparr>d_snapshot = None, d_journal = None\<rparr>"] by (simp add: disk_ok_def)
next
  case (step wd wd')
  note J = assms(1)
  obtain w d where wd: "wd = (w, d)" by (cases wd)
  have c: "core w" and d: "disk_ok env d" using step.IH by (simp_all add: wd)
  have mf: "core (fst (maybe_flush env cx (v, d))) \<and> disk_ok env (snd (maybe_flush env cx (v, d)))" if "core v" for v cx
    using that core_maybe_flush disk_maybe_flush [OF J _ d] by blast
  from step.hyps(2) show ?case
  proof cases
    case (block b cx)
    then show ?thesis
    proof (cases "sb_daa_score b")
      case (Some daa)
      have "core (snd (find_claim env daa (scan_block env daa b w)))" using c block by (intro core_find_claim core_scan_block)
      with Some block mf show ?thesis
        by (cases "find_claim env daa (scan_block env daa b w)") (simp add: handle_block_def wd)
    qed (simp add: handle_block_def wd c d)
  next
    case (inference cx txid daa amount)
    let ?e = "new_entry txid [] daa amount 1 True CHALLENGE_WINDOW_BLOCKS"
    have "entry_key ?e = outpoint_key (txid, 1)" by (simp add: entry_key_def outpoint_def new_entry_def)
    then have "core (push_entry env ?e w)" if "outpoint_key (txid, 1) \<notin> ew_outpoint_set w"
      using that core_push [OF c, of ?e env] by (simp add: push_entry_def)
    then show ?thesis using inference c d mf by (simp add: wd track_inference_escrow_def)
  next
    case (start w' d')
    then show ?thesis using c d by (simp add: wd start_state_validation_def Let_def)
  next
    case (validated cx hash chain r)
    obtain v where "core v" "on_block_validated env cx hash chain (w, d) \<in> {Some (v, d), Some (maybe_flush env cx (v, d))}"
      using validated_ends [OF c] by blast
    with validated c d mf [of v cx] show ?thesis by (auto simp: wd consume_validation_ok_def split: if_splits)
  next
    case (unknown cx msg)
    then show ?thesis using c d mf [of "w\<lparr>ew_validation_pending := _\<rparr>"]
      by (auto simp: wd on_block_validation_error_def finish_validation_if_done_def split: option.split)
  next
    case (removed cx hashes)
    obtain v where "core v" "on_chain_blocks_removed env cx hashes (w, d) \<in> {Some (v, d), Some (maybe_flush env cx (v, d))}"
      using removed_ends [OF c] by blast
    with removed d mf [of v cx] show ?thesis by (auto simp: wd)
  next
    case (response cx txid err)
    obtain v where "core v" "snd (on_submit_response env cx txid err (w, d)) \<in> {(v, d), maybe_flush env cx (v, d)}"
      using response_ends [OF c] by blast
    with response d mf [of v cx] show ?thesis by (auto simp: wd)
  next
    case (flush cx)
    then show ?thesis using c d core_flush_state [OF c] disk_write_snapshot [OF J c d] by (simp add: wd flush_state_def)
  next
    case (restart cx address d' w' v)
    then show ?thesis using core_new d by (simp add: wd)
  qed
qed

end
