(* ===== verification/Escrow_Answers.thy ===== *)
theory Escrow_Answers
  imports Escrow_Inv "HOL-Library.List_Lexorder"
begin

text \<open>
  What an answer of the node does to the entries of a claim (\<open>on_submit_response\<close> of \<open>src/src/escrow.rs\<close>): which
  rejections give an output up for good; and a concrete history of the watcher.
\<close>

section \<open>Answers and the entries\<close>

lemma entries_flush [simp]: "entries_of (fst (maybe_flush env cx (w, d))) = entries_of w"
  by (simp add: maybe_flush_def write_snapshot_def write_journal_def Let_def split: prod.split option.split)

lemma entries_release [simp]: "entries_of (release_claim t w) = entries_of w"
  by (simp add: release_claim_def split: option.split)

lemma find_entry_some:
  assumes "find_entry p es = Some i"
  shows "i < length es" and "outpoint (es ! i) = p"
  using assms by (auto simp: find_entry_def find_Some_iff)

text \<open>An answer that accepts changes no verdict.\<close>

definition same_verdicts :: "EscrowWatcher \<Rightarrow> EscrowWatcher \<Rightarrow> bool" where
  "same_verdicts w v \<longleftrightarrow> length (entries_of v) = length (entries_of w) \<and>
     (\<forall>i < length (entries_of w). en_slashed (entries_of v ! i) = en_slashed (entries_of w ! i))"

lemma claimed_slashed:
  "i < length es \<Longrightarrow> en_slashed (es[j := (es ! j)\<lparr>en_claimed := True\<rparr>] ! i) = en_slashed (es ! i)"
  by (cases "i = j") auto

lemma accept_verdicts: "same_verdicts w (snd (mark_entries_claimed env ops w))"
proof -
  have "same_verdicts w (snd (fold (mark_claimed env) ops (0, w)))"
    by (rule fold_invariant [where P = "\<lambda>s. same_verdicts w (snd s)"])
      (auto simp: same_verdicts_def mark_claimed_def Let_def claimed_slashed split: prod.splits option.splits)
  then show ?thesis by (simp add: mark_entries_claimed_def)
qed

text \<open>A rejection that gives an entry up.\<close>

definition gives_up :: "Rejection \<Rightarrow> EscrowEntry \<Rightarrow> bool" where
  "gives_up r e \<longleftrightarrow>
     (if rj_is_orphan r then rj_n_outputs r \<le> 1 \<and> en_orphan_retries e + 1 \<ge> MAX_ORPHAN_RETRIES
      else \<not> rj_is_seq_lock r \<and> rj_is_burned r \<and>
        (if rj_burned_set r = {} then rj_n_outputs r \<le> 1
         else (to_ascii_lowercase (en_coinbase_txid e), en_output_index e) \<in> rj_burned_set r))"

lemma reject_slashes: "en_slashed (reject_entry r e) \<longleftrightarrow> en_slashed e \<or> gives_up r e"
  by (auto simp: reject_entry_def gives_up_def Let_def)

lemma reject_outpoint_entries:
  "entries_of (reject_outpoint env r p w) =
     (case find_entry p (entries_of w) of None \<Rightarrow> entries_of w
      | Some i \<Rightarrow> (entries_of w)[i := reject_entry r (entries_of w ! i)])"
  by (simp add: reject_outpoint_def split: option.split)

text \<open>Of a batch no entry's count of retries decides, so the order of the outputs does not matter.\<close>

definition only_given_up :: "Rejection \<Rightarrow> (bytes \<times> u32) set \<Rightarrow> EscrowEntry list \<Rightarrow> EscrowEntry list \<Rightarrow> bool" where
  "only_given_up r ops es fs \<longleftrightarrow> length fs = length es \<and>
     (\<forall>i < length es. outpoint (fs ! i) = outpoint (es ! i) \<and>
        (en_slashed (fs ! i) \<longrightarrow> en_slashed (es ! i) \<or> outpoint (es ! i) \<in> ops \<and> gives_up r (es ! i)))"

lemma gives_up_batch: "rj_n_outputs r > 1 \<Longrightarrow> outpoint e' = outpoint e \<Longrightarrow> gives_up r e' = gives_up r e"
  by (simp add: gives_up_def outpoint_def)

lemma outpoint_reject [simp]: "outpoint (reject_entry r e) = outpoint e"
  by (simp add: reject_entry_def outpoint_def Let_def)

lemma reject_once: "only_given_up r {p} (entries_of w) (entries_of (reject_outpoint env r p w))"
  using find_entry_some [of p "entries_of w"]
  by (auto simp: only_given_up_def reject_outpoint_entries nth_list_update reject_slashes split: option.splits)

lemma reject_batch:
  assumes "rj_n_outputs r > 1"
  shows "only_given_up r (set ops) (entries_of w) (entries_of (fold (reject_outpoint env r) ops w))"
proof (rule fold_invariant [where P = "\<lambda>v. only_given_up r (set ops) (entries_of w) (entries_of v)"])
  fix p v
  assume p: "p \<in> set ops" and v: "only_given_up r (set ops) (entries_of w) (entries_of v)"
  have g: "only_given_up r {p} (entries_of v) (entries_of (reject_outpoint env r p v))" by (rule reject_once)
  show "only_given_up r (set ops) (entries_of w) (entries_of (reject_outpoint env r p v))"
    unfolding only_given_up_def
  proof (intro conjI allI impI)
    fix i
    assume i: "i < length (entries_of w)"
    then have o: "outpoint (entries_of v ! i) = outpoint (entries_of w ! i)" using v by (simp add: only_given_up_def)
    then show "outpoint (entries_of (reject_outpoint env r p v) ! i) = outpoint (entries_of w ! i)"
      using g v i by (simp add: only_given_up_def)
    assume s: "en_slashed (entries_of (reject_outpoint env r p v) ! i)"
    show "en_slashed (entries_of w ! i) \<or> outpoint (entries_of w ! i) \<in> set ops \<and> gives_up r (entries_of w ! i)"
      using g v i s p o gives_up_batch [OF assms o] by (auto simp: only_given_up_def)
  qed (use g v in \<open>simp add: only_given_up_def\<close>)
qed (simp_all add: only_given_up_def)

lemma reject_all:
  assumes "rj_n_outputs r = length ops"
  shows "only_given_up r (set ops) (entries_of w) (entries_of (fold (reject_outpoint env r) ops w))"
proof (cases "length ops > 1")
  case False
  then consider "ops = []" | p where "ops = [p]" by (cases ops) auto
  then show ?thesis using reject_once [of r _ w env] by cases (simp_all add: only_given_up_def)
qed (use assms reject_batch in simp)

section \<open>A concrete history\<close>

text \<open>A history: the escrow of an inference is tracked and, its window and margin later, claimed.\<close>

definition watch_toy :: watch_env where
  "watch_toy = escrow_env.extend hex_env
     \<lparr>w_order = sorted_list_of_set, w_line = (\<lambda>_. None), w_parse_line = (\<lambda>_. None), w_state = (\<lambda>_. None), w_parse_state = (\<lambda>_. None),
      w_utf8 = (\<lambda>_. True)\<rparr>"

definition cx_toy :: Ctx where "cx_toy = \<lparr>c_now = 0, c_replace = Replaced, c_append = None\<rparr>"

definition address_toy :: bytes where "address_toy = ascii8 ''keryxtest:'' @ replicate 61 0x71"

definition escrow_toy :: EscrowEntry where "escrow_toy = new_entry (replicate 32 0x33) [] 5 90000000 1 True 36000"

text \<open>The watcher with the given entries, their outputs, and the number of journal lines, before any claim.\<close>

definition watcher_toy :: "EscrowEntry list \<Rightarrow> bytes set \<Rightarrow> nat \<Rightarrow> EscrowWatcher" where
  "watcher_toy es keys n =
     \<lparr>ew_escrow_script_hex = build_escrow_script (replicate 32 7) CHALLENGE_WINDOW_BLOCKS,
      ew_escrow_script_bonded_hex = build_escrow_script (replicate 32 7) SERVICE_BOND_CSV_WINDOW_BLOCKS,
      ew_payout = \<lparr>po_version = 0, po_script = build_p2pk_script (replicate 32 0)\<rparr>,
      ew_state = \<lparr>es_entries = es, es_journal_seq = 0\<rparr>, ew_in_flight = Map.empty, ew_in_flight_outpoints = {}, ew_last_daa_score = 0,
      ew_outpoint_set = keys, ew_block_index = Map.empty, ew_journal_pending = [], ew_journal_seq = n,
      ew_journal_bytes_since_snapshot = 0, ew_last_journal_write = 0, ew_snapshot_due = False,
      ew_last_snapshot = 0, ew_blocks_since_compact = 0, ew_validation_pending = {}\<rparr>"

definition disk_toy :: Disk where "disk_toy = \<lparr>d_snapshot = None, d_journal = None\<rparr>"

lemma toy_address: "decode_address address_toy = Some (Inr (0, replicate 32 0))"
  unfolding address_toy_def by code_simp

lemma toy_new: "EscrowWatcher_new watch_toy cx_toy address_toy disk_toy = Some (Inr (watcher_toy [] {} 0))"
  by (simp add: EscrowWatcher_new_def toy_address load_state_def disk_toy_def replay_journal_def rebuild_indexes_def index_blocks_def
      watch_toy_def hex_env_def escrow_env.extend_def cx_toy_def watcher_toy_def)

lemma toy_tracked: "track_inference_escrow watch_toy cx_toy (replicate 32 0x33) 5 90000000 (watcher_toy [] {} 0, disk_toy) =
    (watcher_toy [escrow_toy] {entry_key escrow_toy} 1, disk_toy)"
  by (simp add: track_inference_escrow_def watcher_toy_def push_entry_def append_journal_line_def set_entries_def maybe_flush_def
      watch_toy_def escrow_env.extend_def escrow_toy_def JOURNAL_SNAPSHOT_BYTES_def CHALLENGE_WINDOW_BLOCKS_def Let_def)

lemma toy_batch: "select_claim_batch True [escrow_toy] 40000 {} = [0]"
  by code_simp

lemma toy_claim:
  obtains t tx where "build_claim_tx hex_env \<lparr>po_version = 0, po_script = build_p2pk_script (replicate 32 0)\<rparr> [escrow_toy] = Inr (t, tx)"
proof -
  have "case build_claim_tx hex_env \<lparr>po_version = 0, po_script = build_p2pk_script (replicate 32 0)\<rparr> [escrow_toy] of
      Inr x \<Rightarrow> True | Inl e \<Rightarrow> False" by code_simp
  then show thesis using that by (auto split: sum.splits)
qed

lemma toy_history:
  obtains w t where "escrow_reachable watch_toy (w, disk_toy)"
    "ew_in_flight w = [t \<mapsto> \<lparr>fc_outpoints = [(replicate 32 0x33, 1)], fc_submit_daa = 40000\<rparr>]"
proof -
  let ?b = "\<lparr>sb_daa_score = Some 40000, sb_transactions = [], sb_verbose = None\<rparr>"
  let ?w = "watcher_toy [escrow_toy] {entry_key escrow_toy} 1"
  obtain t tx where c: "build_claim_tx hex_env \<lparr>po_version = 0, po_script = build_p2pk_script (replicate 32 0)\<rparr> [escrow_toy] = Inr (t, tx)"
    by (rule toy_claim)
  have "escrow_reachable watch_toy (?w, disk_toy)"
    using escrow_reachable.step [OF escrow_reachable.init [OF toy_new [unfolded disk_toy_def]]
        escrow_step.inference [of watch_toy _ cx_toy "replicate 32 0x33" 5 90000000]] toy_tracked by (simp add: disk_toy_def)
  then have r: "escrow_reachable watch_toy (snd (handle_block watch_toy cx_toy ?b (?w, disk_toy)))"
    by (rule escrow_reachable.step) (rule escrow_step.block, simp add: small_block_def)
  have e: "escrow_env.truncate watch_toy = hex_env"
    by (simp add: watch_toy_def escrow_env.extend_def escrow_env.truncate_def hex_env_def)
  have h: "heal_entry 40000 escrow_toy = (escrow_toy, False)" by (simp add: heal_entry_def escrow_toy_def new_entry_def)
  have n: "x_testnet watch_toy" by (simp add: watch_toy_def escrow_env.extend_def hex_env_def)
  have "snd (handle_block watch_toy cx_toy ?b (?w, disk_toy)) = (fst (snd (handle_block watch_toy cx_toy ?b (?w, disk_toy))), disk_toy)
    \<and> ew_in_flight (fst (snd (handle_block watch_toy cx_toy ?b (?w, disk_toy)))) = [t \<mapsto> \<lparr>fc_outpoints = [(replicate 32 0x33, 1)], fc_submit_daa = 40000\<rparr>]"
    by (simp add: handle_block_def scan_block_def find_claim_def expire_in_flight_def watcher_toy_def COMPACT_EVERY_BLOCKS_def
        MAX_IN_FLIGHT_CLAIMS_def heal_def h toy_batch e n c maybe_flush_def JOURNAL_SNAPSHOT_BYTES_def cx_toy_def Let_def)
      (simp add: watch_toy_def escrow_env.extend_def escrow_toy_def outpoint_def new_entry_def)
  then show thesis using r that by metis
qed

lemma toy_json: "json_ok watch_toy"
  by (simp add: json_ok_def watch_toy_def escrow_env.extend_def)


section \<open>Properties\<close>

lemma response_verdicts:
  assumes v_def: "v = fst (snd (on_submit_response env cx txid err (w, d)))"
  shows "same_verdicts w v \<or>
    (\<exists>msg t c. err = Some msg \<and> ew_in_flight w t = Some c \<and>
       only_given_up (read_rejection msg (length (fc_outpoints c)) (ew_last_daa_score w)) (set (fc_outpoints c))
         (entries_of w) (entries_of v))"
proof (cases "matched_claim env txid err w")
  case None
  then show ?thesis by (simp add: v_def on_submit_response_def same_verdicts_def)
next
  case (Some t)
  let ?ops = "case ew_in_flight w t of Some claim \<Rightarrow> fc_outpoints claim | None \<Rightarrow> []"
  let ?w = "release_claim t w"
  have a: "same_verdicts w (snd (mark_entries_claimed env ?ops ?w))"
    using accept_verdicts [of ?w env ?ops] by (simp add: same_verdicts_def)
  have l: "ew_last_daa_score ?w = ew_last_daa_score w" by (simp add: release_claim_def split: option.split)
  show ?thesis
  proof (cases "\<exists>msg. err = Some msg \<and> \<not> (contains msg (ascii8 ''already in the mempool'') \<or> contains msg (ascii8 ''already accepted''))")
    case True
    then obtain msg where e: "err = Some msg"
      and n: "\<not> (contains msg (ascii8 ''already in the mempool'') \<or> contains msg (ascii8 ''already accepted''))" by blast
    let ?r = "read_rejection msg (length ?ops) (ew_last_daa_score w)"
    have v: "entries_of v = entries_of (fold (reject_outpoint env ?r) ?ops ?w)"
      using n by (simp add: v_def on_submit_response_def Some [unfolded e] Let_def e l split: prod.split)
    have "only_given_up ?r (set ?ops) (entries_of w) (entries_of v)"
      using reject_all [of ?r ?ops ?w env] by (simp add: v read_rejection_def)
    then show ?thesis using e v by (cases "ew_in_flight w t") (auto simp: same_verdicts_def)
  next
    case False
    have "entries_of v = entries_of (snd (mark_entries_claimed env ?ops ?w))"
    proof (cases err)
      case None
      then show ?thesis by (simp add: v_def on_submit_response_def Some [unfolded None] Let_def split: prod.split)
    next
      case e: (Some msg)
      then show ?thesis using False by (auto simp: v_def on_submit_response_def Some [unfolded e] Let_def split: prod.split)
    qed
    then show ?thesis using a by (simp add: same_verdicts_def)
  qed
qed

text \<open>C14: an answer of the node gives an output up for good only if it rejects a claim of it: as the orphan of a claim of
  this output alone for the tenth time, or as burned, named by the node or alone in its claim. In particular no acceptance, no
  sequence lock, no unrecognized message and no orphan in a batch loses an output.\<close>

theorem answer_gives_up_only_dead:
  assumes "i < length (entries_of w)" and "\<not> en_slashed (entries_of w ! i)"
    and "en_slashed (entries_of (fst (snd (on_submit_response env cx txid err (w, d)))) ! i)"
  shows "\<exists>msg t c. err = Some msg \<and> ew_in_flight w t = Some c \<and> outpoint (entries_of w ! i) \<in> set (fc_outpoints c) \<and>
    (contains msg (ascii8 ''orphan'') \<and> length (fc_outpoints c) = 1 \<and> en_orphan_retries (entries_of w ! i) + 1 \<ge> 10 \<or>
     contains msg (ascii8 ''burned escrow outpoint'') \<and> \<not> contains msg (ascii8 ''orphan'') \<and>
     \<not> contains msg (ascii8 ''sequence lock'') \<and>
       (if burned_outpoints msg = {} then length (fc_outpoints c) = 1
        else (to_ascii_lowercase (en_coinbase_txid (entries_of w ! i)), en_output_index (entries_of w ! i)) \<in> burned_outpoints msg))"
proof -
  obtain msg t c where m: "err = Some msg" "ew_in_flight w t = Some c"
    and g: "only_given_up (read_rejection msg (length (fc_outpoints c)) (ew_last_daa_score w)) (set (fc_outpoints c))
         (entries_of w) (entries_of (fst (snd (on_submit_response env cx txid err (w, d)))))"
    using response_verdicts [OF refl, of w env cx txid err d] assms by (auto simp: same_verdicts_def)
  have o: "outpoint (entries_of w ! i) \<in> set (fc_outpoints c)"
    and u: "gives_up (read_rejection msg (length (fc_outpoints c)) (ew_last_daa_score w)) (entries_of w ! i)"
    using g assms by (auto simp: only_given_up_def)
  have "length (fc_outpoints c) = 1 \<longleftrightarrow> length (fc_outpoints c) \<le> 1" using o by (cases "fc_outpoints c") auto
  with m o u show ?thesis
    by (auto simp: gives_up_def read_rejection_def MAX_ORPHAN_RETRIES_def split: if_splits)
qed

theorem answer_gives_up_only_dead_witness:
  "\<exists>t c. ew_in_flight ((watcher_toy [escrow_toy] {} 0)\<lparr>ew_in_flight := [[0x61] \<mapsto> \<lparr>fc_outpoints = [outpoint escrow_toy], fc_submit_daa = 0\<rparr>]\<rparr>) t = Some c \<and>
     outpoint escrow_toy \<in> set (fc_outpoints c) \<and> length (fc_outpoints c) = 1"
proof -
  let ?w = "(watcher_toy [escrow_toy] {} 0)\<lparr>ew_in_flight := [[0x61] \<mapsto> \<lparr>fc_outpoints = [outpoint escrow_toy], fc_submit_daa = 0\<rparr>]\<rparr>"
  let ?m = "ascii8 ''burned escrow outpoint''"
  have m: "contains ?m (ascii8 ''burned escrow outpoint'')" "\<not> contains ?m (ascii8 ''orphan'')" "\<not> contains ?m (ascii8 ''sequence lock'')"
    "\<not> contains ?m (ascii8 ''already in the mempool'')" "\<not> contains ?m (ascii8 ''already accepted'')" by code_simp+
  have b: "burned_outpoints ?m = {}" by code_simp
  have f: "find_entry (outpoint escrow_toy) [escrow_toy] = Some 0" by (simp add: find_entry_def)
  have "entries_of (fst (snd (on_submit_response watch_toy cx_toy [0x61] (Some ?m) (?w, disk_toy)))) = [escrow_toy\<lparr>en_slashed := True\<rparr>]"
    using m b f
    by (simp add: on_submit_response_def matched_claim_def release_claim_def read_rejection_def reject_outpoint_def reject_entry_def
        watcher_toy_def Let_def)
  then have "en_slashed (entries_of (fst (snd (on_submit_response watch_toy cx_toy [0x61] (Some ?m) (?w, disk_toy)))) ! 0)" by simp
  with answer_gives_up_only_dead [of 0 ?w watch_toy cx_toy "[0x61]" "Some ?m" disk_toy] show ?thesis
    using m b by (auto simp: watcher_toy_def escrow_toy_def new_entry_def split: if_splits)
qed

text \<open>C11: in every history of blocks, answers, reorganisations, failing or torn writes and restarts, at most four claims are
  under way, no output is in two of them or twice in one, and every output in one is kept out of the next batches.\<close>

theorem claims_disjoint:
  assumes "json_ok env" and "escrow_reachable env (w, d)"
  shows "card (dom (ew_in_flight w)) \<le> 4 \<and>
    (\<forall>t c. ew_in_flight w t = Some c \<longrightarrow> distinct (fc_outpoints c) \<and>
       outpoint_key ` set (fc_outpoints c) \<subseteq> ew_in_flight_outpoints w) \<and>
    (\<forall>t c t' c'. ew_in_flight w t = Some c \<longrightarrow> ew_in_flight w t' = Some c' \<longrightarrow> t \<noteq> t' \<longrightarrow>
       set (fc_outpoints c) \<inter> set (fc_outpoints c') = {})"
  using reachable_core [OF assms] by (simp add: core_def claims_ok_def)

theorem claims_disjoint_witness:
  "\<exists>w t. escrow_reachable watch_toy (w, disk_toy) \<and> ew_in_flight w t = Some \<lparr>fc_outpoints = [(replicate 32 0x33, 1)], fc_submit_daa = 40000\<rparr> \<and>
     outpoint_key (replicate 32 0x33, 1) \<in> ew_in_flight_outpoints w"
proof -
  obtain w t where w: "escrow_reachable watch_toy (w, disk_toy)"
    "ew_in_flight w = [t \<mapsto> \<lparr>fc_outpoints = [(replicate 32 0x33, 1)], fc_submit_daa = 40000\<rparr>]" by (rule toy_history)
  have "outpoint_key (replicate 32 0x33, 1) \<in> ew_in_flight_outpoints w"
    using conjunct1 [OF conjunct2 [OF claims_disjoint [OF toy_json w(1)]], rule_format, of t] w(2) by simp
  with w show ?thesis by auto
qed

text \<open>C26: in every such history no answer and no reorganisation makes the watcher index past its entries.\<close>

theorem watcher_never_panics:
  assumes "json_ok env" and "escrow_reachable env (w, d)"
  shows "on_block_validated env cx hash chain (w, d) \<noteq> None \<and> consume_validation_ok env cx hash chain (w, d) \<noteq> None \<and>
    on_chain_blocks_removed env cx hashes (w, d) \<noteq> None"
proof -
  have c: "core w" using reachable_core [OF assms] by simp
  obtain v where "on_block_validated env cx hash chain (w, d) \<in> {Some (v, d), Some (maybe_flush env cx (v, d))}"
    using validated_ends [OF c] by blast
  moreover obtain v' where "on_chain_blocks_removed env cx hashes (w, d) \<in> {Some (v', d), Some (maybe_flush env cx (v', d))}"
    using removed_ends [OF c] by blast
  ultimately show ?thesis by (auto simp: consume_validation_ok_def)
qed

theorem watcher_never_panics_witness:
  "\<exists>w. escrow_reachable watch_toy (w, disk_toy) \<and> ew_in_flight w \<noteq> Map.empty \<and>
     on_block_validated watch_toy cx_toy [0x61] False (w, disk_toy) \<noteq> None \<and>
     on_chain_blocks_removed watch_toy cx_toy [[0x61]] (w, disk_toy) \<noteq> None"
proof -
  obtain w t where w: "escrow_reachable watch_toy (w, disk_toy)"
    "ew_in_flight w = [t \<mapsto> \<lparr>fc_outpoints = [(replicate 32 0x33, 1)], fc_submit_daa = 40000\<rparr>]" by (rule toy_history)
  have "on_block_validated watch_toy cx_toy [0x61] False (w, disk_toy) \<noteq> None \<and>
     on_chain_blocks_removed watch_toy cx_toy [[0x61]] (w, disk_toy) \<noteq> None"
    using watcher_never_panics [OF toy_json w(1), of cx_toy "[0x61]" False "[[0x61]]"] by blast
  moreover have "ew_in_flight w \<noteq> Map.empty" using w(2) by simp
  ultimately show ?thesis using w(1) by blast
qed

end
