(* ===== verification/Spec2Isabelle.thy ===== *)
theory Spec2Isabelle
  imports Pom_V5 Pom_Wire Index_Cache Ai_Payload Private_Envelope Opoi Opening_Wire Trace_Open Seq_Tree Block_Tree Header_Bytes Escrow_Answers
begin

text \<open>
  A model of the Keryx miner (Rust) and of the crates \<open>keryx-inference\<close> (\<open>inference/\<close>) and
  \<open>keryx-verifiable-inference\<close> (\<open>verifiable-inference/\<close>) that it is built with. All paths below are relative
  to \<open>src/\<close>, the root of the repository.

  The program mines blocks by walking over the weights of a language model (proof of model, PoM), so that a block
  can only be found by who holds the weights; it serves inference requests and commits to the trace of every answer, parts
  of which it opens on demand; and it claims the rewards that are held in escrow outputs until a challenge window
  is over. The parts interact as follows. A block template makes a \<open>State\<close> (\<open>src/pow.rs\<close>), which hashes
  the header, picks the era of the block by its DAA score (gates of \<open>src/pom.rs\<close> and \<open>src/models.rs\<close>), walks over the
  possession index of the model mined in that era, proves and checks the walk, opens the device's block task and assembles the block.
  The same node connection brings the blocks and answers that drive the escrow watcher (\<open>src/escrow.rs\<close>), and
  the requests whose payloads are read and sealed by \<open>inference/src/ai_payload.rs\<close> and \<open>private.rs\<close>.

  Theories, in the order they build on each other:

  \<^item> \<open>Prelude\<close>: machine integers as words (\<open>u8\<close> to \<open>u64\<close>), byte strings as lists, little-endian coding,
    slices, chunked iteration, and the lemmas on them; the collection \<open>byte_simps\<close> evaluates layouts.
  \<^item> \<open>Target\<close> (\<open>src/target.rs\<close>): 256-bit targets as four words, their coding, order and compact form.
  \<^item> \<open>Pom_Core\<close> (\<open>src/pom.rs\<close>): mixer, transitions, seeds, pow folds and activation gates.
  \<^item> \<open>Pom_Merkle\<close> (\<open>src/pom.rs\<close>): the dense Merkle tree; the locale \<open>weight_store\<close> states what the provers need of a store
    of chunks (a root, reads, paths that verify) and is interpreted by the dense tree here and by the sparse index below.
  \<^item> \<open>Weight_Index\<close> (\<open>src/pom.rs\<close>): the on-disk index with checkpoints, built from a GGUF file or reopened; it refines the dense tree.
  \<^item> \<open>Index_Cache\<close> (\<open>src/pom.rs\<close>): the table of indices and its build lock, as a step relation over threads.
  \<^item> \<open>Pom_Proof\<close>, \<open>Pom_V3\<close>, \<open>Pom_V4\<close>, \<open>Pom_V5\<close> (\<open>src/pom.rs\<close>, \<open>pom_v3.rs\<close>, \<open>pom_v4.rs\<close>, \<open>pom_v5.rs\<close>): the walks of each era,
    their provers and verifiers and the CPU miner. The lemmas show that a prover's proof is accepted, that an accepted proof
    is of the committed weights, and that prover, pre-check and verifier agree on the final state.
  \<^item> \<open>Pom_Wire\<close> (\<open>src/pom.rs\<close>): the wire layouts of a proof per era. The locale \<open>borsh_layouts\<close> states what the borsh derive macro
    gives and is interpreted on a concrete coding.
  \<^item> \<open>Heavy_Hash\<close> (\<open>src/pow/\<close>): hashers, matrix generator and the legacy matrix hash.
  \<^item> \<open>Models\<close> (\<open>src/models.rs\<close>, \<open>mining_model\<close> of \<open>src/pom_gpu.rs\<close>): the line-up, tiers, anchors, eras and what is prefetched.
  \<^item> \<open>Trace_Tree\<close>, \<open>Opening_Items\<close>, \<open>Opening_Wire\<close>, \<open>Model_Manifest\<close>, \<open>Trace_Open\<close>, \<open>Seq_Tree\<close>, \<open>Block_Tree\<close>, \<open>Audit_Rules\<close>
    (\<open>verifiable-inference/src/\<close> \<open>merkle.rs\<close>, \<open>opening.rs\<close>, \<open>manifest.rs\<close>, \<open>verify.rs\<close>, \<open>seq.rs\<close>, \<open>attn_blocks.rs\<close>, \<open>draw.rs\<close>,
    \<open>answer.rs\<close>, \<open>shape.rs\<close>, \<open>prefix.rs\<close>, \<open>chain.rs\<close>): the authenticated trees, the formats of openings and manifests, what an accepted
    opening binds, the shape of the attention tree, and the rules of an audit. The locales \<open>wire_item\<close> (a writer and a reader that inverts it)
    and \<open>canonical_item\<close> (the reader accepts nothing else) are interpreted on every item of the formats, and
    the round trips of whole openings are compositions of them.
  \<^item> \<open>Block_Task\<close> (\<open>src/block_task.rs\<close>, \<open>verifiable-inference/src/block_task.rs\<close>): windows, seeds and the tables of the devices' tasks.
  \<^item> \<open>Pow_State\<close>, \<open>Header_Bytes\<close> (\<open>src/pow.rs\<close>): the mining job, the header bytes, and the blocks it hands out.
  \<^item> \<open>Ai_Payload\<close>, \<open>Private_Envelope\<close>, \<open>Opoi\<close> (\<open>inference/src/\<close> \<open>ai_payload.rs\<close>, \<open>private.rs\<close>, \<open>lib.rs\<close>, \<open>model_fixed.rs\<close>, \<open>task.rs\<close>,
    \<open>fraud_proof.rs\<close>): request and response formats, the encrypted envelopes, the fixed-point network and its coinbase tag.
  \<^item> \<open>Escrow_Tx\<close>, \<open>Escrow_Batch\<close>, \<open>Escrow_Watch\<close>, \<open>Escrow_Inv\<close>, \<open>Escrow_Answers\<close> (\<open>src/escrow.rs\<close>): claim transactions, the choice of a
    batch, the watcher with its snapshot and journal, its invariant over all histories, and what an answer does to the entries.

  Conventions. A Rust \<open>Result\<close> is a sum with the error on the left, a Rust \<open>Option\<close> an option; where a function can panic, the panic is
  the outermost \<open>None\<close> (or the constructor \<open>Panics\<close>), so a theorem that a value is returned says that there is no panic. Words wrap as in a
  release build, which has no overflow checks; positions and lengths that the code bounds are natural numbers.
  Strings are their bytes. A definition has the name of the function it models; a suffix or a type's name in front
  tells apart what Rust tells apart by its \<open>impl\<close> or module. A loop or closure of a function is a definition of its own.

  Code outside the repository is a parameter: BLAKE3, BLAKE2b, Keccak-f1600, HMAC, ChaCha20-Poly1305, secp256k1, hex, borsh, JSON,
  64-bit floats, the inference engine, files. What is relied on is stated as a hypothesis (\<open>crypto_ok\<close>, \<open>borsh_layouts\<close>, the chunk tree of
  BLAKE3) and shown to hold of a concrete instance in the witnesses. Soundness of hash trees is not assumed
  of hashes in general: each such theorem says that the claim holds unless two different strings that occur in this very
  verification have the same hash.

  Termination. Loops are total functions, by structural recursion or a measure, except three that may run for ever and are
  partial functions into options: the search of a full-rank matrix (\<open>Heavy_Hash.generate_loop\<close>), the loop of \<open>block_params\<close>
  (\<open>Block_Tree.fit_loop\<close>) and the depth of an attention tree (\<open>Block_Tree.depth_loop\<close>); for these it is proved exactly, or for all
  trees the code makes, when they end. No fuel is used.

  Simplifications. In \<open>Index_Cache\<close>, pushing a built index and releasing the build lock are one step. In \<open>Block_Task\<close>, a call of \<open>task_for\<close> is
  one step, as its entries between its locks are those of its own device, and the engine's answer is a function of model,
  tier and seed that may differ from call to call. Capacity reservations (\<open>Vec::with_capacity\<close>) and logging are left out. The header
  commits to the tier only by its low byte, and the model says no more. Expanded numbers of the hidden
  layers and \<open>i64\<close> accumulators are integers; that they stay within 64 bits is proved.

  Not modelled: the GPU walkers (Vulkan dispatch of shaders that are not Rust), threads, command line and downloads, the
  asynchronous node and pool clients, engine processes, disk stores of traces, and the verifiers that compare
  floating-point activations (\<open>dot.rs\<close>, \<open>quant.rs\<close>, \<open>q8.rs\<close>, \<open>attn.rs\<close>, \<open>recur.rs\<close>, most of \<open>chain.rs\<close> and \<open>verify_point\<close>), for
  their tolerances are about IEEE arithmetic. They are the places where a modelled definition is called with their result.
\<close>

end
